(* ===== verification/BG_Prelude.thy ===== *)
theory BG_Prelude
  imports Main "HOL-Library.Word"
begin

text \<open>
  Shared vocabulary of the development: the collections of rewrite rules, the names of the
  model's basic types, and the generic facts on lists, sums and bit masks that the component
  theories use.
\<close>

named_theorems bg_defs \<open>unfolding rules of operations that are plain definitions\<close>
named_theorems bg_inv \<open>every operation keeps its component's invariant\<close>

text \<open>
  Strings of the program are byte strings: \<open>container::String\<close>, \<open>std::string\<close> and
  \<open>std::string_view\<close> all count and index bytes, as \<^typ>\<open>string\<close> does. A \<open>uint64_t\<close>
  or \<open>size_t\<close> whose wrap-around matters is a \<open>u64\<close>.
\<close>

type_synonym u64 = "64 word"
type_synonym u32 = "32 word"

text \<open>The range of \<open>int\<close>; leaving it in signed arithmetic is undefined.\<close>

definition in_int :: "int \<Rightarrow> bool" where
  "in_int x \<longleftrightarrow> - (2 ^ 31) \<le> x \<and> x < 2 ^ 31"

text \<open>A byte of a string as an unsigned number, C++'s \<open>static_cast<unsigned char>\<close>.\<close>

definition byte :: "char \<Rightarrow> nat" where
  "byte c = of_char c"

lemma byte_less_256 [simp]: "byte c < 256"
  by (simp add: byte_def)

lemma byte_le_255 [simp]: "byte c \<le> 255"
  using byte_less_256 [of c] by linarith

lemma byte_inject [simp]: "byte c = byte d \<longleftrightarrow> c = d"
  by (simp add: byte_def)

lemma byte_char_of: "n < 256 \<Longrightarrow> byte (char_of n) = n"
  by (simp add: byte_def)

subsection \<open>Errors as sums\<close>

text \<open>Running a partial step after another one: the first error wins.\<close>

definition bind_sum :: "'e + 'a \<Rightarrow> ('a \<Rightarrow> 'e + 'b) \<Rightarrow> 'e + 'b" where
  "bind_sum x f = (case x of Inl e \<Rightarrow> Inl e | Inr a \<Rightarrow> f a)"

lemma bind_sum_simps [simp]:
  "bind_sum (Inl e) f = Inl e"
  "bind_sum (Inr a) f = f a"
  by (simp_all add: bind_sum_def)

lemma bind_sum_Inr: "bind_sum x f = Inr b \<longleftrightarrow> (\<exists>a. x = Inr a \<and> f a = Inr b)"
  by (cases x) simp_all

lemma bind_sum_cong [fundef_cong]:
  "x = y \<Longrightarrow> (\<And>a. y = Inr a \<Longrightarrow> f a = g a) \<Longrightarrow> bind_sum x f = bind_sum y g"
  by (cases y) simp_all

lemma bind_sum_right [simp]: "bind_sum x Inr = x"
  by (cases x) simp_all

lemma map_sum_snd_Inr: "map_sum id snd x = Inr y \<Longrightarrow> \<exists>r. x = Inr (r, y)"
  by (cases x) auto

subsection \<open>Lists\<close>

lemma length_filter_list_update:
  "i < length xs \<Longrightarrow>
   length (filter P (xs[i := y])) + (if P (xs ! i) then 1 else 0) =
   length (filter P xs) + (if P y then 1 else 0)"
proof (induction xs arbitrary: i)
  case Nil
  then show ?case by simp
next
  case (Cons x xs)
  then show ?case by (cases i) auto
qed

lemma filter_all_length: "length (filter P xs) = length xs \<longleftrightarrow> (\<forall>x\<in>set xs. P x)"
  using length_filter_less [of _ xs P] by force

lemma take_Suc_snoc: "i < length xs \<Longrightarrow> take (Suc i) xs = take i xs @ [xs ! i]"
  by (simp add: take_Suc_conv_app_nth)

subsection \<open>Bit masks\<close>

text \<open>Indexing with \<open>h & (capacity - 1)\<close> is reduction modulo a power of two.\<close>

lemma and_mask_mod: "and (n::nat) (2 ^ k - 1) = n mod 2 ^ k"
  by (simp add: take_bit_eq_mod[symmetric] take_bit_eq_mask mask_eq_exp_minus_1)

text \<open>Decrementing a zero counter wraps to the largest value.\<close>

lemma unat_minus_1_u64: "unat (- 1 :: u64) = 2 ^ 64 - 1"
  by (simp add: unsigned_minus_1_eq_mask mask_eq_exp_minus_1)

lemma of_nat_u64_eq_0: "n < 2 ^ 64 \<Longrightarrow> (of_nat n :: u64) = 0 \<longleftrightarrow> n = 0"
  using nat_dvd_not_less [of n "2 ^ 64"] by (auto simp: word_of_nat_eq_0_iff)

subsection \<open>Decimal numbers\<close>

text \<open>Decimal output, of \<open>snprintf\<close> and \<open>std::to_string\<close>.\<close>

fun decimal :: "nat \<Rightarrow> string" where
  "decimal n = (if n < 10 then [char_of (48 + n)] else decimal (n div 10) @ [char_of (48 + n mod 10)])"

declare decimal.simps [simp del]

lemma decimal_nonempty: "decimal n \<noteq> []"
  by (simp add: decimal.simps [of n])

end
