(* ===== verification/Probing.thy ===== *)
theory Probing
  imports BG_Prelude
begin

text \<open>
  Linear probing, the scheme that both hash tables of the program use:
  \<open>container::Map\<close> (\<open>base/container/map.hpp\<close>) and \<open>JsonObject\<close>
  (\<open>base/json/json_dom.cpp\<close>). A slot is empty, occupied (key, value and cached hash) or
  deleted; the default-constructed key and value of a free slot are never read and have no
  counterpart here. The hash function is a parameter \<open>h\<close>: the code only relies on it being a
  function of the key.

  The invariant \<open>table_wf\<close> says that every occupied slot caches its key's hash, that the probe
  sequence of its key reaches it without crossing an empty slot, and that no key occurs twice.
  The lemmas show that the two probing loops decide membership under the invariant and that
  filling a free slot of the probe sequence and deleting an occupied slot keep it.
\<close>

datatype ('k, 'v) slot = Empty | Occupied (slot_key: 'k) (slot_val: 'v) (slot_hash: nat) | Deleted

text \<open>The iterators skip every slot that is not occupied, so a traversal yields these pairs.\<close>

fun slot_entry :: "('k, 'v) slot \<Rightarrow> ('k \<times> 'v) option" where
  "slot_entry (Occupied k v hs) = Some (k, v)"
| "slot_entry Empty = None"
| "slot_entry Deleted = None"

definition entries :: "('k, 'v) slot list \<Rightarrow> ('k \<times> 'v) list" where
  "entries ns = List.map_filter slot_entry ns"

definition probe :: "nat \<Rightarrow> nat \<Rightarrow> nat \<Rightarrow> nat" where
  "probe cap start i = (start + i) mod cap"

text \<open>The search loop shared by every \<open>find\<close> overload: stop at an empty slot or at the key.\<close>

fun find_loop :: "('k, 'v) slot list \<Rightarrow> 'k \<Rightarrow> nat \<Rightarrow> nat \<Rightarrow> nat \<Rightarrow> nat \<Rightarrow> nat option" where
  "find_loop ns k hs start i 0 = None"
| "find_loop ns k hs start i (Suc n) =
     (let idx = probe (length ns) start i in
      case ns ! idx of
        Empty \<Rightarrow> None
      | Occupied k' v hs' \<Rightarrow>
          if hs' = hs \<and> k' = k then Some idx else find_loop ns k hs start (Suc i) n
      | Deleted \<Rightarrow> find_loop ns k hs start (Suc i) n)"

text \<open>
  The insertion loop: as the search, but the first deleted slot on the way is remembered in
  \<open>fd\<close> (\<open>length ns\<close> stands for none) and reused when the key turns out to be absent.
  The flag of \<open>InsertAt\<close> says that a deleted slot is reused.
\<close>

datatype probe_result = InsertAt nat bool | FoundAt nat | TableFull

fun emplace_loop ::
  "('k, 'v) slot list \<Rightarrow> 'k \<Rightarrow> nat \<Rightarrow> nat \<Rightarrow> nat \<Rightarrow> nat \<Rightarrow> nat \<Rightarrow> probe_result" where
  "emplace_loop ns k hs start fd i 0 =
     (if fd < length ns then InsertAt fd True else TableFull)"
| "emplace_loop ns k hs start fd i (Suc n) =
     (let idx = probe (length ns) start i in
      case ns ! idx of
        Deleted \<Rightarrow>
          emplace_loop ns k hs start (if fd = length ns then idx else fd) (Suc i) n
      | Empty \<Rightarrow> if fd < length ns then InsertAt fd True else InsertAt idx False
      | Occupied k' v hs' \<Rightarrow>
          if hs' = hs \<and> k' = k then FoundAt idx
          else emplace_loop ns k hs start fd (Suc i) n)"

definition chain_ok :: "('k \<Rightarrow> nat) \<Rightarrow> ('k, 'v) slot list \<Rightarrow> bool" where
  "chain_ok h ns \<longleftrightarrow>
     (\<forall>idx k v hs. idx < length ns \<longrightarrow> ns ! idx = Occupied k v hs \<longrightarrow>
        hs = h k \<and>
        (\<exists>i < length ns. probe (length ns) (h k) i = idx \<and>
           (\<forall>j < i. ns ! probe (length ns) (h k) j \<noteq> Empty)))"

definition keys_unique :: "('k, 'v) slot list \<Rightarrow> bool" where
  "keys_unique ns \<longleftrightarrow>
     (\<forall>i j k v hs v' hs'. i < length ns \<longrightarrow> j < length ns \<longrightarrow>
        ns ! i = Occupied k v hs \<longrightarrow> ns ! j = Occupied k v' hs' \<longrightarrow> i = j)"

definition table_wf :: "('k \<Rightarrow> nat) \<Rightarrow> ('k, 'v) slot list \<Rightarrow> bool" where
  "table_wf h ns \<longleftrightarrow> chain_ok h ns \<and> keys_unique ns"

text \<open>The finite map that a table represents.\<close>

definition table_map :: "('k, 'v) slot list \<Rightarrow> 'k \<rightharpoonup> 'v" where
  "table_map ns = map_of (entries ns)"

subsection \<open>Probe sequences\<close>

lemma probe_less [simp]: "0 < cap \<Longrightarrow> probe cap start i < cap"
  by (simp add: probe_def)

lemma probe_mod_start [simp]: "probe cap (start mod cap) i = probe cap start i"
  by (simp add: probe_def mod_add_left_eq)

lemma probe_inj:
  assumes "probe cap start i = probe cap start j" "i < cap" "j < cap"
  shows "i = j"
proof -
  from assms(1) have "(int start + int i) mod int cap = (int start + int j) mod int cap"
    unfolding probe_def by (metis of_nat_add of_nat_mod)
  then have "int i mod int cap = int j mod int cap"
    by (simp add: mod_eq_dvd_iff)
  with assms(2,3) show ?thesis by simp
qed

text \<open>A full round visits every slot.\<close>

lemma probe_surj:
  assumes "idx < cap"
  obtains i where "i < cap" "probe cap start i = idx"
proof -
  have "inj_on (probe cap start) {..<cap}"
    by (rule inj_onI) (auto intro: probe_inj)
  then have "card (probe cap start ` {..<cap}) = cap"
    by (simp add: card_image)
  moreover have "probe cap start ` {..<cap} \<subseteq> {..<cap}"
    using assms by auto
  ultimately have "probe cap start ` {..<cap} = {..<cap}"
    by (simp add: card_subset_eq)
  with assms that show thesis by (metis imageE lessThan_iff)
qed

subsection \<open>Entries and the represented map\<close>

lemma set_entries: "(k, v) \<in> set (entries ns) \<longleftrightarrow> (\<exists>hs. Occupied k v hs \<in> set ns)"
  by (induction ns rule: list.induct)
     (auto simp: entries_def map_filter_simps elim: slot_entry.elims split: option.splits)

lemma set_entries_nth:
  "(k, v) \<in> set (entries ns) \<longleftrightarrow> (\<exists>i < length ns. \<exists>hs. ns ! i = Occupied k v hs)"
  unfolding set_entries by (metis in_set_conv_nth)

lemma keys_uniqueD:
  "\<lbrakk> keys_unique ns; ns ! i = Occupied k v hs; ns ! j = Occupied k v' hs';
     i < length ns; j < length ns \<rbrakk> \<Longrightarrow> i = j"
  unfolding keys_unique_def by blast

lemma keys_unique_ConsD: "keys_unique (s # ns) \<Longrightarrow> keys_unique ns"
  unfolding keys_unique_def
  by (metis Suc_less_eq length_Cons nat.inject nth_Cons_Suc)

lemma entries_simps [simp]:
  "entries [] = []"
  "entries (Empty # ns) = entries ns"
  "entries (Deleted # ns) = entries ns"
  "entries (Occupied k v hs # ns) = (k, v) # entries ns"
  by (simp_all add: entries_def map_filter_simps)

lemma length_entries: "length (entries ns) = length (filter is_Occupied ns)"
proof (induction ns)
  case (Cons s ns)
  then show ?case by (cases s) simp_all
qed simp

lemma distinct_entries: "keys_unique ns \<Longrightarrow> distinct (map fst (entries ns))"
proof (induction ns)
  case Nil
  then show ?case by simp
next
  case (Cons s ns)
  then have IH: "distinct (map fst (entries ns))"
    using keys_unique_ConsD by blast
  show ?case
  proof (cases s)
    case (Occupied k v hs)
    have "k \<notin> fst ` set (entries ns)"
    proof
      assume "k \<in> fst ` set (entries ns)"
      then obtain v' i hs' where "i < length ns" "ns ! i = Occupied k v' hs'"
        by (auto simp: set_entries_nth)
      then have "(0::nat) = Suc i"
        using keys_uniqueD [OF Cons.prems, of 0 k v hs "Suc i" v' hs'] Occupied by simp
      then show False by simp
    qed
    with IH Occupied show ?thesis by simp
  qed (use IH in simp_all)
qed

lemma table_map_Some:
  assumes "keys_unique ns"
  shows "table_map ns k = Some v \<longleftrightarrow> (\<exists>i < length ns. \<exists>hs. ns ! i = Occupied k v hs)"
  using distinct_entries [OF assms]
  by (simp add: table_map_def set_entries_nth [symmetric])

lemma table_map_None:
  "table_map ns k = None \<longleftrightarrow> (\<forall>i < length ns. \<forall>v hs. ns ! i \<noteq> Occupied k v hs)"
  unfolding table_map_def map_of_eq_None_iff
  using set_entries_nth [of k _ ns] by (auto simp: image_iff) (metis fst_conv)

lemma table_map_replicate [simp]: "table_map (replicate n Empty) = Map.empty"
proof
  fix k
  show "table_map (replicate n (Empty :: ('a, 'b) slot)) k = None"
    by (simp add: table_map_None)
qed

lemma table_wf_replicate [simp]: "table_wf h (replicate n Empty)"
  by (simp add: table_wf_def chain_ok_def keys_unique_def)

subsection \<open>The search loop decides membership\<close>

lemma find_loop_sound:
  assumes "find_loop ns k hs start i n = Some idx" "0 < length ns"
  shows "idx < length ns \<and> (\<exists>v. ns ! idx = Occupied k v hs)"
  using assms
  by (induction ns k hs start i n rule: find_loop.induct)
     (auto simp: Let_def split: slot.splits if_splits)

lemma find_loop_complete:
  assumes "keys_unique ns" "idx < length ns" "ns ! idx = Occupied k v hs"
    and "probe (length ns) start t = idx" "i \<le> t" "t < i + n"
    and "\<And>j. i \<le> j \<Longrightarrow> j < t \<Longrightarrow> ns ! probe (length ns) start j \<noteq> Empty"
  shows "find_loop ns k hs start i n = Some idx"
  using assms(5-7)
proof (induction n arbitrary: i)
  case 0
  then show ?case by simp
next
  case (Suc n)
  show ?case
  proof (cases "i = t")
    case True
    with assms(3,4) show ?thesis by (simp add: Let_def)
  next
    case False
    with Suc.prems have rest: "find_loop ns k hs start (Suc i) n = Some idx"
      by (intro Suc.IH) auto
    have "ns ! probe (length ns) start i \<noteq> Empty"
      using Suc.prems False by auto
    moreover have "probe (length ns) start i = idx"
      if "ns ! probe (length ns) start i = Occupied k v' hs" for v'
      using keys_uniqueD [OF assms(1) that assms(3) probe_less assms(2)] assms(2) by linarith
    ultimately show ?thesis
      using rest by (auto simp: Let_def split: slot.splits)
  qed
qed

theorem find_loop_iff:
  assumes "table_wf h ns" "0 < length ns"
  shows "find_loop ns k (h k) (h k) 0 (length ns) = Some idx \<longleftrightarrow>
         idx < length ns \<and> (\<exists>v. ns ! idx = Occupied k v (h k))"
proof
  assume "find_loop ns k (h k) (h k) 0 (length ns) = Some idx"
  then show "idx < length ns \<and> (\<exists>v. ns ! idx = Occupied k v (h k))"
    by (rule find_loop_sound) (rule assms(2))
next
  assume "idx < length ns \<and> (\<exists>v. ns ! idx = Occupied k v (h k))"
  then obtain v where idx: "idx < length ns" "ns ! idx = Occupied k v (h k)"
    by blast
  with assms(1) obtain t where "t < length ns" "probe (length ns) (h k) t = idx"
    "\<forall>j < t. ns ! probe (length ns) (h k) j \<noteq> Empty"
    unfolding table_wf_def chain_ok_def by blast
  then show "find_loop ns k (h k) (h k) 0 (length ns) = Some idx"
    using find_loop_complete [of ns idx k v "h k" "h k" t 0 "length ns"] assms(1) idx
    by (simp add: table_wf_def)
qed

lemma find_loop_None:
  assumes "table_wf h ns" "0 < length ns"
  shows "find_loop ns k (h k) (h k) 0 (length ns) = None \<longleftrightarrow> table_map ns k = None"
proof -
  have "find_loop ns k (h k) (h k) 0 (length ns) = None \<longleftrightarrow>
        (\<forall>idx < length ns. \<forall>v. ns ! idx \<noteq> Occupied k v (h k))"
    using find_loop_iff [OF assms, of k] by (metis not_None_eq)
  also have "\<dots> \<longleftrightarrow> table_map ns k = None"
    using assms(1) unfolding table_map_None table_wf_def chain_ok_def by blast
  finally show ?thesis .
qed

lemma find_loop_Some:
  assumes "table_wf h ns" "0 < length ns"
    and "find_loop ns k (h k) (h k) 0 (length ns) = Some idx"
  obtains v where "idx < length ns" "ns ! idx = Occupied k v (h k)" "table_map ns k = Some v"
  using assms find_loop_iff [OF assms(1,2), of k idx] table_map_Some [of ns k]
  by (auto simp: table_wf_def)

subsection \<open>The insertion loop\<close>

text \<open>The insertion loop stops at a key exactly where the search loop does.\<close>

lemma emplace_loop_FoundAt:
  "emplace_loop ns k hs start fd i n = FoundAt idx \<longleftrightarrow>
   find_loop ns k hs start i n = Some idx"
  by (induction ns k hs start fd i n rule: emplace_loop.induct)
     (auto simp: Let_def split: slot.splits if_splits)

text \<open>
  It proposes a free slot that the key's probe sequence reaches without crossing an empty
  slot; \<open>fd\<close> is either unset or already such a slot.
\<close>

definition free_target :: "('k, 'v) slot list \<Rightarrow> nat \<Rightarrow> nat \<Rightarrow> bool" where
  "free_target ns start idx \<longleftrightarrow>
     idx < length ns \<and> \<not> is_Occupied (ns ! idx) \<and>
     (\<exists>t < length ns. probe (length ns) start t = idx \<and>
        (\<forall>j < t. ns ! probe (length ns) start j \<noteq> Empty))"

lemma free_target_probe:
  assumes "i < length ns" "\<not> is_Occupied (ns ! probe (length ns) start i)"
    and "\<forall>j < i. ns ! probe (length ns) start j \<noteq> Empty"
  shows "free_target ns start (probe (length ns) start i)"
  using assms unfolding free_target_def by (auto intro: probe_less)

lemma emplace_loop_InsertAt:
  assumes "emplace_loop ns k hs start fd i n = InsertAt idx reused"
    and "fd = length ns \<or> (free_target ns start fd \<and> ns ! fd = Deleted)"
    and "\<forall>j < i. ns ! probe (length ns) start j \<noteq> Empty" "i + n = length ns"
  shows "free_target ns start idx \<and> (reused \<longleftrightarrow> ns ! idx = Deleted)"
  using assms
proof (induction n arbitrary: fd i)
  case 0
  then show ?case by (auto split: if_splits)
next
  case (Suc n)
  let ?idx = "probe (length ns) start i"
  have i: "i < length ns" "Suc i + n = length ns"
    using Suc.prems(4) by auto
  have next_ok: "\<forall>j < Suc i. ns ! probe (length ns) start j \<noteq> Empty"
    if "ns ! ?idx \<noteq> Empty"
    using Suc.prems(3) that by (auto simp: less_Suc_eq)
  show ?case
  proof (cases "ns ! ?idx")
    case Empty
    then have "free_target ns start ?idx"
      using free_target_probe [OF i(1)] Suc.prems(3) by simp
    with Empty Suc.prems(1,2) show ?thesis by (auto simp: Let_def split: if_splits)
  next
    case (Occupied k' v' hs')
    with Suc.prems(1) have "emplace_loop ns k hs start fd (Suc i) n = InsertAt idx reused"
      by (auto simp: Let_def split: if_splits)
    then show ?thesis
      by (rule Suc.IH) (use Suc.prems(2) next_ok Occupied i in auto)
  next
    case Deleted
    have t: "free_target ns start ?idx"
      using free_target_probe [OF i(1)] Suc.prems(3) Deleted by simp
    let ?fd = "if fd = length ns then ?idx else fd"
    from Deleted Suc.prems(1) have "emplace_loop ns k hs start ?fd (Suc i) n = InsertAt idx reused"
      by (simp add: Let_def)
    then show ?thesis
      by (rule Suc.IH) (use Suc.prems(2) t Deleted next_ok i in auto)
  qed
qed

text \<open>The table is full only if the loop met no free slot at all.\<close>

lemma emplace_loop_TableFull:
  assumes "emplace_loop ns k hs start fd i n = TableFull"
    and "fd \<le> length ns" "0 < length ns"
  shows "fd = length ns \<and> (\<forall>j. i \<le> j \<longrightarrow> j < i + n \<longrightarrow>
           is_Occupied (ns ! probe (length ns) start j))"
  using assms
proof (induction n arbitrary: fd i)
  case 0
  then show ?case by (auto split: if_splits)
next
  case (Suc n)
  let ?idx = "probe (length ns) start i"
  have lt: "?idx < length ns" using Suc.prems(3) by simp
  show ?case
  proof (cases "ns ! ?idx")
    case (Occupied k' v' hs')
    with Suc.prems(1) have "emplace_loop ns k hs start fd (Suc i) n = TableFull"
      by (auto simp: Let_def split: if_splits)
    with Suc.IH Suc.prems(2,3)
    have "fd = length ns" and rest: "\<And>j. Suc i \<le> j \<Longrightarrow> j < Suc i + n \<Longrightarrow>
        is_Occupied (ns ! probe (length ns) start j)"
      by blast+
    moreover have "is_Occupied (ns ! probe (length ns) start j)"
      if "i \<le> j" "j < i + Suc n" for j
      using that rest [of j] Occupied by (cases "i = j") auto
    ultimately show ?thesis by blast
  next
    case Deleted
    define fd' where "fd' = (if fd = length ns then ?idx else fd)"
    have "fd' < length ns" using Suc.prems(2) lt by (simp add: fd'_def)
    moreover from Deleted Suc.prems(1) have "emplace_loop ns k hs start fd' (Suc i) n = TableFull"
      by (simp add: Let_def fd'_def)
    ultimately have False using Suc.IH [of fd' "Suc i"] Suc.prems(3) by simp
    then show ?thesis ..
  qed (use Suc.prems(1,2) in \<open>auto simp: Let_def split: if_splits\<close>)
qed

subsection \<open>Filling, overwriting and deleting a slot\<close>

text \<open>
  No operation ever turns a slot back to \<^const>\<open>Empty\<close> in place, so the probe sequences of the
  keys that stay are still unbroken.
\<close>

lemma chain_ok_update:
  assumes "chain_ok h ns" "idx < length ns" "s \<noteq> Empty"
    and "\<And>k v hs. s = Occupied k v hs \<Longrightarrow> hs = h k \<and>
      (\<exists>t < length ns. probe (length ns) (h k) t = idx \<and>
         (\<forall>j < t. ns ! probe (length ns) (h k) j \<noteq> Empty))"
  shows "chain_ok h (ns[idx := s])"
  unfolding chain_ok_def length_list_update
proof (intro allI impI)
  fix i k v hs
  assume i: "i < length ns" and occ: "ns[idx := s] ! i = Occupied k v hs"
  have keep: "ns[idx := s] ! j \<noteq> Empty" if "ns ! j \<noteq> Empty" for j
    using that assms(2,3) by (cases "j = idx") auto
  have "hs = h k \<and> (\<exists>t < length ns. probe (length ns) (h k) t = i \<and>
      (\<forall>j < t. ns ! probe (length ns) (h k) j \<noteq> Empty))"
  proof (cases "i = idx")
    case True
    with occ assms(2) have "s = Occupied k v hs" by simp
    with assms(4) True show ?thesis by blast
  next
    case False
    with occ have "ns ! i = Occupied k v hs" by simp
    with assms(1) i show ?thesis unfolding chain_ok_def by blast
  qed
  with keep show "hs = h k \<and> (\<exists>t < length ns. probe (length ns) (h k) t = i \<and>
      (\<forall>j < t. ns[idx := s] ! probe (length ns) (h k) j \<noteq> Empty))"
    by blast
qed

lemma keys_unique_update:
  assumes "keys_unique ns" "idx < length ns"
    and "\<And>k v hs i v' hs'. \<lbrakk> s = Occupied k v hs; i < length ns; i \<noteq> idx;
           ns ! i = Occupied k v' hs' \<rbrakk> \<Longrightarrow> False"
  shows "keys_unique (ns[idx := s])"
  unfolding keys_unique_def length_list_update
proof (intro allI impI)
  fix i j k v hs v' hs'
  assume "i < length ns" "j < length ns"
    and "ns[idx := s] ! i = Occupied k v hs" "ns[idx := s] ! j = Occupied k v' hs'"
  then show "i = j"
    using assms(2) assms(3) [of k] keys_uniqueD [OF assms(1), of i k v hs j v' hs']
    by (cases "i = idx"; cases "j = idx") auto
qed

lemma table_map_update_other:
  assumes "keys_unique ns" "keys_unique (ns[idx := s])" "idx < length ns"
    and "\<And>v hs. ns ! idx \<noteq> Occupied k v hs" "\<And>v hs. s \<noteq> Occupied k v hs"
  shows "table_map (ns[idx := s]) k = table_map ns k"
proof -
  have "table_map (ns[idx := s]) k = Some v \<longleftrightarrow> table_map ns k = Some v" for v
  proof -
    have "(ns[idx := s] ! i = Occupied k v hs) = (ns ! i = Occupied k v hs)" for i hs
      using assms(3-5) by (cases "i = idx") auto
    then show ?thesis
      unfolding table_map_Some [OF assms(1)] table_map_Some [OF assms(2)] by simp
  qed
  then show ?thesis by (metis not_None_eq)
qed

lemma table_map_update_key:
  assumes "keys_unique (ns[idx := Occupied k v hs])" "idx < length ns"
  shows "table_map (ns[idx := Occupied k v hs]) k = Some v"
  unfolding table_map_Some [OF assms(1)] using assms(2) by auto

text \<open>Filling a free slot of the probe sequence with a key that is absent.\<close>

lemma table_insert:
  assumes wf: "table_wf h ns" and t: "free_target ns (h k) idx" and absent: "table_map ns k = None"
  shows "table_wf h (ns[idx := Occupied k v (h k)])"
    and "table_map (ns[idx := Occupied k v (h k)]) = (table_map ns)(k \<mapsto> v)"
proof -
  let ?ns = "ns[idx := Occupied k v (h k)]"
  have idx: "idx < length ns" "\<not> is_Occupied (ns ! idx)"
    using t by (auto simp: free_target_def)
  have uniq0: "keys_unique ns" using wf by (simp add: table_wf_def)
  have "chain_ok h ?ns"
    by (rule chain_ok_update) (use wf t idx in \<open>auto simp: table_wf_def free_target_def\<close>)
  moreover have uniq: "keys_unique ?ns"
    by (rule keys_unique_update)
       (use wf idx absent in \<open>auto simp: table_wf_def table_map_None\<close>)
  ultimately show "table_wf h ?ns" by (simp add: table_wf_def)
  show "table_map ?ns = (table_map ns)(k \<mapsto> v)"
  proof
    fix k'
    show "table_map ?ns k' = ((table_map ns)(k \<mapsto> v)) k'"
    proof (cases "k' = k")
      case True
      then show ?thesis using table_map_update_key [OF uniq idx(1)] by simp
    next
      case False
      then have "table_map ?ns k' = table_map ns k'"
        by (intro table_map_update_other uniq uniq0 idx(1)) (use idx(2) in auto)
      with False show ?thesis by simp
    qed
  qed
qed

text \<open>Overwriting the value of a key that is present.\<close>

lemma table_overwrite:
  assumes wf: "table_wf h ns" and idx: "idx < length ns" "ns ! idx = Occupied k v0 hs"
  shows "table_wf h (ns[idx := Occupied k v hs])"
    and "table_map (ns[idx := Occupied k v hs]) = (table_map ns)(k \<mapsto> v)"
proof -
  let ?ns = "ns[idx := Occupied k v hs]"
  have uniq0: "keys_unique ns" using wf by (simp add: table_wf_def)
  have "chain_ok h ?ns"
    by (rule chain_ok_update) (use wf idx in \<open>auto simp: table_wf_def chain_ok_def\<close>)
  moreover have uniq: "keys_unique ?ns"
    by (rule keys_unique_update [OF uniq0 idx(1)])
       (use keys_uniqueD [OF uniq0 _ idx(2) _ idx(1)] in auto)
  ultimately show "table_wf h ?ns" by (simp add: table_wf_def)
  show "table_map ?ns = (table_map ns)(k \<mapsto> v)"
  proof
    fix k'
    show "table_map ?ns k' = ((table_map ns)(k \<mapsto> v)) k'"
    proof (cases "k' = k")
      case True
      then show ?thesis using table_map_update_key [OF uniq idx(1)] by simp
    next
      case False
      then have "table_map ?ns k' = table_map ns k'"
        by (intro table_map_update_other uniq uniq0 idx(1)) (use idx(2) in auto)
      with False show ?thesis by simp
    qed
  qed
qed

text \<open>Deleting a key that is present.\<close>

lemma table_delete:
  assumes wf: "table_wf h ns" and idx: "idx < length ns" "ns ! idx = Occupied k v hs"
  shows "table_wf h (ns[idx := Deleted])"
    and "table_map (ns[idx := Deleted]) = (table_map ns)(k := None)"
proof -
  let ?ns = "ns[idx := Deleted]"
  have uniq0: "keys_unique ns" using wf by (simp add: table_wf_def)
  have "chain_ok h ?ns"
    by (rule chain_ok_update) (use wf idx in \<open>auto simp: table_wf_def\<close>)
  moreover have uniq: "keys_unique ?ns"
    by (rule keys_unique_update) (use wf idx in \<open>auto simp: table_wf_def\<close>)
  ultimately show "table_wf h ?ns" by (simp add: table_wf_def)
  have gone: "table_map ?ns k = None"
    unfolding table_map_None length_list_update
  proof (intro allI impI)
    fix i v' hs'
    assume "i < length ns"
    then show "?ns ! i \<noteq> Occupied k v' hs'"
      using keys_uniqueD [OF uniq0 _ idx(2) _ idx(1), of i v' hs'] idx(1)
      by (cases "i = idx") auto
  qed
  show "table_map ?ns = (table_map ns)(k := None)"
  proof
    fix k'
    show "table_map ?ns k' = ((table_map ns)(k := None)) k'"
    proof (cases "k' = k")
      case True
      then show ?thesis using gone by simp
    next
      case False
      then have "table_map ?ns k' = table_map ns k'"
        by (intro table_map_update_other uniq uniq0 idx(1)) (use idx(2) in auto)
      with False show ?thesis by simp
    qed
  qed
qed

text \<open>The number of occupied slots under these updates, and a table with room.\<close>

abbreviation occ_count :: "('k, 'v) slot list \<Rightarrow> nat" where
  "occ_count ns \<equiv> length (filter is_Occupied ns)"

lemma occ_count_insert:
  "idx < length ns \<Longrightarrow> \<not> is_Occupied (ns ! idx) \<Longrightarrow>
   occ_count (ns[idx := Occupied k v hs]) = Suc (occ_count ns)"
  using length_filter_list_update [of idx ns is_Occupied "Occupied k v hs"] by simp

lemma occ_count_overwrite:
  "idx < length ns \<Longrightarrow> is_Occupied (ns ! idx) \<Longrightarrow>
   occ_count (ns[idx := Occupied k v hs]) = occ_count ns"
  using length_filter_list_update [of idx ns is_Occupied "Occupied k v hs"] by simp

lemma occ_count_delete:
  "idx < length ns \<Longrightarrow> is_Occupied (ns ! idx) \<Longrightarrow>
   Suc (occ_count (ns[idx := Deleted])) = occ_count ns"
  using length_filter_list_update [of idx ns is_Occupied Deleted] by simp

lemma occ_count_le: "occ_count ns \<le> length ns"
  by simp

lemma emplace_loop_has_room:
  assumes "occ_count ns < length ns"
  shows "emplace_loop ns k hs start (length ns) 0 (length ns) \<noteq> TableFull"
proof
  assume full: "emplace_loop ns k hs start (length ns) 0 (length ns) = TableFull"
  have "is_Occupied (ns ! idx)" if "idx < length ns" for idx
    using probe_surj [OF that, of start] emplace_loop_TableFull [OF full] that by fastforce
  then have "\<forall>s \<in> set ns. is_Occupied s" by (metis in_set_conv_nth)
  then have "occ_count ns = length ns" by simp
  with assms show False by simp
qed

end
