(* ===== verification/KvMap.thy ===== *)
theory KvMap
  imports BG_Prelude
begin

text \<open>
  The contract of a mutable key-value container, as the clients of \<open>container::Map\<close> and
  \<open>JsonObject\<close> use it: \<open>m[k] = v\<close> (\<open>put\<close>), \<open>erase(k)\<close> (\<open>del\<close>) and a lookup. An operation
  returns an option because the code behind it recurses without a static bound; the contract
  promises a result. The locale lifts the one-step laws to every sequence of operations.
\<close>

datatype ('k, 'v) mop = MPut 'k 'v | MDel 'k

fun spec_op :: "('k, 'v) mop \<Rightarrow> ('k \<rightharpoonup> 'v) \<Rightarrow> ('k \<rightharpoonup> 'v)" where
  "spec_op (MPut k v) f = f(k \<mapsto> v)"
| "spec_op (MDel k) f = f(k := None)"

fun run_op :: "('m \<Rightarrow> 'k \<Rightarrow> 'v \<Rightarrow> 'm option) \<Rightarrow> ('m \<Rightarrow> 'k \<Rightarrow> 'm option) \<Rightarrow>
  ('k, 'v) mop \<Rightarrow> 'm \<Rightarrow> 'm option" where
  "run_op put del (MPut k v) m = put m k v"
| "run_op put del (MDel k) m = del m k"

fun run_ops :: "('m \<Rightarrow> 'k \<Rightarrow> 'v \<Rightarrow> 'm option) \<Rightarrow> ('m \<Rightarrow> 'k \<Rightarrow> 'm option) \<Rightarrow>
  ('k, 'v) mop list \<Rightarrow> 'm \<Rightarrow> 'm option" where
  "run_ops put del [] m = Some m"
| "run_ops put del (a # as) m = Option.bind (run_op put del a m) (run_ops put del as)"

locale kv_store =
  fixes inv :: "'m \<Rightarrow> bool"
    and lookup :: "'m \<Rightarrow> 'k \<Rightarrow> 'v option"
    and emp :: 'm
    and put :: "'m \<Rightarrow> 'k \<Rightarrow> 'v \<Rightarrow> 'm option"
    and del :: "'m \<Rightarrow> 'k \<Rightarrow> 'm option"
  assumes inv_emp: "inv emp"
    and lookup_emp: "lookup emp = Map.empty"
    and put_law: "inv m \<Longrightarrow>
      \<exists>m'. put m k v = Some m' \<and> inv m' \<and> lookup m' = (lookup m)(k \<mapsto> v)"
    and del_law: "inv m \<Longrightarrow>
      \<exists>m'. del m k = Some m' \<and> inv m' \<and> lookup m' = (lookup m)(k := None)"
begin

lemma op_law:
  "inv m \<Longrightarrow> \<exists>m'. run_op put del a m = Some m' \<and> inv m' \<and> lookup m' = spec_op a (lookup m)"
  by (cases a) (simp_all add: put_law del_law)

lemma ops_law:
  "inv m \<Longrightarrow>
   \<exists>m'. run_ops put del as m = Some m' \<and> inv m' \<and> lookup m' = fold spec_op as (lookup m)"
proof (induction as arbitrary: m)
  case Nil
  then show ?case by simp
next
  case (Cons a as)
  from op_law [OF Cons.prems, of a] obtain m1
    where "run_op put del a m = Some m1" "inv m1" "lookup m1 = spec_op a (lookup m)"
    by blast
  with Cons.IH [of m1] show ?case by simp
qed

lemma ops_from_empty:
  "\<exists>m'. run_ops put del as emp = Some m' \<and> inv m' \<and> lookup m' = fold spec_op as Map.empty"
  using ops_law [OF inv_emp] by (simp add: lookup_emp)

end

end
