(* ===== verification/HashMap.thy ===== *)
theory HashMap
  imports Probing KvMap
begin

text \<open>
  \<open>container::Map\<close> of \<open>base/container/map.hpp\<close>: an open-addressing hash table with
  tombstones, growth by doubling and a rebuild when a quarter of the slots are tombstones.

  The array \<open>nodes_\<close> has \<open>capacity_\<close> slots, so the capacity is its length. The load factor is a
  non-negative \<open>float\<close>, a quotient \<open>p / q\<close> of naturals (0.75 is (3, 4)); products and quotients
  with it are exact, as they are in the code below \<open>2 ^ 24\<close> elements. \<open>deleted_count_\<close> is kept
  at its width, because one overload of \<open>erase\<close> makes it wrap around. An iterator is the index
  of its slot, and \<open>end()\<close> is \<open>None\<close>.

  \<open>emplace\<close> may rebuild the table and the rebuild inserts through \<open>emplace\<close> again; the two
  carry fuel, and two units are shown to be enough under the invariant.
\<close>

record ('k, 'v) hmap =
  hm_nodes :: "('k, 'v) slot list"
  hm_size :: nat
  hm_load :: "nat \<times> nat"
  hm_deleted :: u64

definition hm_capacity :: "('k, 'v) hmap \<Rightarrow> nat" where
  "hm_capacity m = length (hm_nodes m)"

definition Map0 :: "('k, 'v) hmap" where
  "Map0 = \<lparr>hm_nodes = [], hm_size = 0, hm_load = (3, 4), hm_deleted = 0\<rparr>"

definition Map_buckets :: "nat \<Rightarrow> ('k, 'v) hmap" where
  "Map_buckets bucket_count =
     \<lparr>hm_nodes = replicate bucket_count Empty, hm_size = 0, hm_load = (3, 4),
      hm_deleted = 0\<rparr>"

subsection \<open>Lookup\<close>

definition hm_find :: "('k \<Rightarrow> nat) \<Rightarrow> ('k, 'v) hmap \<Rightarrow> 'k \<Rightarrow> nat option" where
  "hm_find h m k =
     (if hm_capacity m = 0 then None
      else find_loop (hm_nodes m) k (h k) (h k mod hm_capacity m) 0 (hm_capacity m))"

definition hm_contains :: "('k \<Rightarrow> nat) \<Rightarrow> ('k, 'v) hmap \<Rightarrow> 'k \<Rightarrow> bool" where
  "hm_contains h m k \<longleftrightarrow> hm_find h m k \<noteq> None"

definition hm_count :: "('k \<Rightarrow> nat) \<Rightarrow> ('k, 'v) hmap \<Rightarrow> 'k \<Rightarrow> nat" where
  "hm_count h m k = (if hm_find h m k \<noteq> None then 1 else 0)"

datatype map_error = out_of_range

definition hm_at :: "('k \<Rightarrow> nat) \<Rightarrow> ('k, 'v) hmap \<Rightarrow> 'k \<Rightarrow> map_error + 'v" where
  "hm_at h m k =
     (case hm_find h m k of None \<Rightarrow> Inl out_of_range | Some idx \<Rightarrow> Inr (slot_val (hm_nodes m ! idx)))"

subsection \<open>Insertion and rebuilding\<close>

definition over_load :: "('k, 'v) hmap \<Rightarrow> bool" where
  "over_load m \<longleftrightarrow>
     hm_capacity m * fst (hm_load m) \<le> hm_size m * snd (hm_load m)"

text \<open>The body of \<open>emplace\<close> after its load check; the result is the iterator and the flag.\<close>

definition place ::
  "('k \<Rightarrow> nat) \<Rightarrow> ('k, 'v) hmap \<Rightarrow> 'k \<Rightarrow> 'v \<Rightarrow> ('k, 'v) hmap \<times> nat option \<times> bool" where
  "place h m k v =
     (case emplace_loop (hm_nodes m) k (h k) (h k mod hm_capacity m) (hm_capacity m) 0 (hm_capacity m) of
        InsertAt target reused \<Rightarrow>
          (m\<lparr>hm_nodes := (hm_nodes m)[target := Occupied k v (h k)],
             hm_size := Suc (hm_size m),
             hm_deleted := (if reused then hm_deleted m - 1 else hm_deleted m)\<rparr>,
           Some target, True)
      | FoundAt idx \<Rightarrow> (m, Some idx, False)
      | TableFull \<Rightarrow> (m, None, False))"

definition rehash_count :: "('k, 'v) hmap \<Rightarrow> nat \<Rightarrow> nat" where
  "rehash_count m count =
     (let p = fst (hm_load m); q = snd (hm_load m) in
      if count * p < hm_size m * q then hm_size m * q div p + 1 else count)"

function (sequential)
  emplace_f ::
    "nat \<Rightarrow> ('k \<Rightarrow> nat) \<Rightarrow> ('k, 'v) hmap \<Rightarrow> 'k \<Rightarrow> 'v \<Rightarrow>
     (('k, 'v) hmap \<times> nat option \<times> bool) option"
  and rehash_f :: "nat \<Rightarrow> ('k \<Rightarrow> nat) \<Rightarrow> ('k, 'v) hmap \<Rightarrow> nat \<Rightarrow> ('k, 'v) hmap option"
  and reinsert_f ::
    "nat \<Rightarrow> ('k \<Rightarrow> nat) \<Rightarrow> ('k, 'v) hmap \<Rightarrow> ('k, 'v) slot list \<Rightarrow> ('k, 'v) hmap option"
where
  "emplace_f 0 h m k v = None"
| "emplace_f (Suc fuel) h m k v =
     (if over_load m then
        (case rehash_f fuel h m (if hm_capacity m = 0 then 16 else hm_capacity m * 2) of
           None \<Rightarrow> None
         | Some m' \<Rightarrow> Some (place h m' k v))
      else Some (place h m k v))"
| "rehash_f fuel h m count =
     reinsert_f fuel h
       (m\<lparr>hm_nodes := replicate (rehash_count m count) Empty, hm_size := 0, hm_deleted := 0\<rparr>)
       (hm_nodes m)"
| "reinsert_f fuel h m [] = Some m"
| "reinsert_f fuel h m (s # ss) =
     (case s of
        Occupied k v hs \<Rightarrow>
          (case emplace_f fuel h m k v of
             None \<Rightarrow> None
           | Some (m', it, inserted) \<Rightarrow> reinsert_f fuel h m' ss)
      | _ \<Rightarrow> reinsert_f fuel h m ss)"
  by pat_completeness auto
termination
  by (relation "measures
    [\<lambda>x. case x of Inl (f, _) \<Rightarrow> f | Inr (Inl (f, _)) \<Rightarrow> f | Inr (Inr (f, _)) \<Rightarrow> f,
     \<lambda>x. case x of Inl _ \<Rightarrow> 0 | Inr (Inl _) \<Rightarrow> 2 | Inr (Inr _) \<Rightarrow> 1,
     \<lambda>x. case x of Inl _ \<Rightarrow> 0 | Inr (Inl _) \<Rightarrow> 0 | Inr (Inr (_, _, _, ss)) \<Rightarrow> length ss]") auto

definition emplace ::
  "('k \<Rightarrow> nat) \<Rightarrow> ('k, 'v) hmap \<Rightarrow> 'k \<Rightarrow> 'v \<Rightarrow> (('k, 'v) hmap \<times> nat option \<times> bool) option" where
  "emplace h m k v = emplace_f 2 h m k v"

definition rehash :: "('k \<Rightarrow> nat) \<Rightarrow> ('k, 'v) hmap \<Rightarrow> nat \<Rightarrow> ('k, 'v) hmap option" where
  "rehash h m count = rehash_f 1 h m count"

definition reserve :: "('k \<Rightarrow> nat) \<Rightarrow> ('k, 'v) hmap \<Rightarrow> nat \<Rightarrow> ('k, 'v) hmap option" where
  "reserve h m count =
     rehash h m (count * snd (hm_load m) div fst (hm_load m) + 1)"

text \<open>\<open>operator[]\<close> returns a reference to the value, here the index of its slot.\<close>

definition subscript ::
  "('k \<Rightarrow> nat) \<Rightarrow> 'v \<Rightarrow> ('k, 'v) hmap \<Rightarrow> 'k \<Rightarrow> (('k, 'v) hmap \<times> nat option) option" where
  "subscript h dflt m k =
     (case hm_find h m k of
        Some idx \<Rightarrow> Some (m, Some idx)
      | None \<Rightarrow> map_option (\<lambda>(m', it, inserted). (m', it)) (emplace h m k dflt))"

definition assign_at :: "('k, 'v) hmap \<Rightarrow> nat \<Rightarrow> 'v \<Rightarrow> ('k, 'v) hmap" where
  "assign_at m idx v =
     (case hm_nodes m ! idx of
        Occupied k v0 hs \<Rightarrow> m\<lparr>hm_nodes := (hm_nodes m)[idx := Occupied k v hs]\<rparr>
      | _ \<Rightarrow> m)"

text \<open>The statement \<open>m[k] = v\<close>, with \<open>T()\<close> the value \<open>dflt\<close>.\<close>

definition hm_put ::
  "('k \<Rightarrow> nat) \<Rightarrow> 'v \<Rightarrow> ('k, 'v) hmap \<Rightarrow> 'k \<Rightarrow> 'v \<Rightarrow> ('k, 'v) hmap option" where
  "hm_put h dflt m k v =
     (case subscript h dflt m k of
        Some (m', Some idx) \<Rightarrow> Some (assign_at m' idx v)
      | _ \<Rightarrow> None)"

subsection \<open>Removal\<close>

definition maybe_rehash_after_erase ::
  "('k \<Rightarrow> nat) \<Rightarrow> ('k, 'v) hmap \<Rightarrow> ('k, 'v) hmap option" where
  "maybe_rehash_after_erase h m =
     (if hm_capacity m = 0 then Some m
      else if hm_capacity m div 4 < unat (hm_deleted m) then rehash h m (hm_capacity m)
      else Some m)"

definition erase_slot :: "('k \<Rightarrow> nat) \<Rightarrow> ('k, 'v) hmap \<Rightarrow> nat \<Rightarrow> ('k, 'v) hmap option" where
  "erase_slot h m idx =
     maybe_rehash_after_erase h
       (m\<lparr>hm_nodes := (hm_nodes m)[idx := Deleted], hm_size := hm_size m - 1,
          hm_deleted := hm_deleted m + 1\<rparr>)"

text \<open>An iterator moves on to the first occupied slot at or after its position.\<close>

definition iter_from :: "('k, 'v) slot list \<Rightarrow> nat \<Rightarrow> nat option" where
  "iter_from ns i = find (\<lambda>j. is_Occupied (ns ! j)) [i..<length ns]"

definition erase_iter ::
  "('k \<Rightarrow> nat) \<Rightarrow> ('k, 'v) hmap \<Rightarrow> nat \<Rightarrow> (('k, 'v) hmap \<times> nat option) option" where
  "erase_iter h m idx =
     map_option (\<lambda>m'. (m', iter_from (hm_nodes m') (Suc idx))) (erase_slot h m idx)"

definition erase :: "('k \<Rightarrow> nat) \<Rightarrow> ('k, 'v) hmap \<Rightarrow> 'k \<Rightarrow> (('k, 'v) hmap \<times> nat) option" where
  "erase h m k =
     (case hm_find h m k of
        Some idx \<Rightarrow> map_option (\<lambda>m'. (m', 1)) (erase_slot h m idx)
      | None \<Rightarrow> Some (m, 0))"

text \<open>The \<open>string_view\<close> overload: no tombstone is counted and no rebuild is considered.\<close>

definition erase_sv :: "('k \<Rightarrow> nat) \<Rightarrow> ('k, 'v) hmap \<Rightarrow> 'k \<Rightarrow> ('k, 'v) hmap \<times> nat" where
  "erase_sv h m k =
     (case hm_find h m k of
        Some idx \<Rightarrow>
          (m\<lparr>hm_nodes := (hm_nodes m)[idx := Deleted], hm_size := hm_size m - 1\<rparr>, 1)
      | None \<Rightarrow> (m, 0))"

definition clear :: "('k, 'v) hmap \<Rightarrow> ('k, 'v) hmap" where
  "clear m =
     m\<lparr>hm_nodes := replicate (hm_capacity m) Empty, hm_size := 0, hm_deleted := 0\<rparr>"

subsection \<open>Copy, move, swap and comparison\<close>

fun insert_all ::
  "('k \<Rightarrow> nat) \<Rightarrow> ('k, 'v) hmap \<Rightarrow> ('k \<times> 'v) list \<Rightarrow> ('k, 'v) hmap option" where
  "insert_all h m [] = Some m"
| "insert_all h m ((k, v) # kvs) =
     (case emplace h m k v of None \<Rightarrow> None | Some (m', it, inserted) \<Rightarrow> insert_all h m' kvs)"

definition Map_copy :: "('k \<Rightarrow> nat) \<Rightarrow> ('k, 'v) hmap \<Rightarrow> ('k, 'v) hmap option" where
  "Map_copy h other =
     insert_all h
       \<lparr>hm_nodes = replicate (hm_capacity other) Empty, hm_size = 0,
        hm_load = hm_load other, hm_deleted = 0\<rparr>
       (entries (hm_nodes other))"

definition Map_init :: "('k \<Rightarrow> nat) \<Rightarrow> ('k \<times> 'v) list \<Rightarrow> nat \<Rightarrow> ('k, 'v) hmap option" where
  "Map_init h init bucket_count = insert_all h (Map_buckets bucket_count) init"

definition assign_copy ::
  "('k \<Rightarrow> nat) \<Rightarrow> ('k, 'v) hmap \<Rightarrow> ('k, 'v) hmap \<Rightarrow> ('k, 'v) hmap option" where
  "assign_copy h m other =
     (let m1 = (clear m)\<lparr>hm_load := hm_load other\<rparr>;
          m2 = (if hm_capacity m1 < hm_capacity other
                then m1\<lparr>hm_nodes := replicate (hm_capacity other) Empty\<rparr> else m1)
      in insert_all h m2 (entries (hm_nodes other)))"

text \<open>Moving out of a map: the new object and what is left of the source.\<close>

definition Map_move :: "('k, 'v) hmap \<Rightarrow> ('k, 'v) hmap \<times> ('k, 'v) hmap" where
  "Map_move other =
     (\<lparr>hm_nodes = hm_nodes other, hm_size = hm_size other, hm_load = hm_load other,
       hm_deleted = 0\<rparr>,
      other\<lparr>hm_nodes := [], hm_size := 0\<rparr>)"

definition assign_move ::
  "('k, 'v) hmap \<Rightarrow> ('k, 'v) hmap \<Rightarrow> ('k, 'v) hmap \<times> ('k, 'v) hmap" where
  "assign_move m other =
     ((clear m)\<lparr>hm_nodes := hm_nodes other, hm_size := hm_size other,
        hm_load := hm_load other\<rparr>,
      other\<lparr>hm_nodes := [], hm_size := 0\<rparr>)"

definition hm_swap :: "('k, 'v) hmap \<Rightarrow> ('k, 'v) hmap \<Rightarrow> ('k, 'v) hmap \<times> ('k, 'v) hmap" where
  "hm_swap a b =
     (a\<lparr>hm_nodes := hm_nodes b, hm_size := hm_size b, hm_load := hm_load b\<rparr>,
      b\<lparr>hm_nodes := hm_nodes a, hm_size := hm_size a, hm_load := hm_load a\<rparr>)"

definition hm_eq :: "('k \<Rightarrow> nat) \<Rightarrow> ('k, 'v) hmap \<Rightarrow> ('k, 'v) hmap \<Rightarrow> bool" where
  "hm_eq h a b \<longleftrightarrow>
     hm_size a = hm_size b \<and>
     list_all (\<lambda>(k, v). case hm_find h b k of None \<Rightarrow> False
                        | Some idx \<Rightarrow> slot_val (hm_nodes b ! idx) = v) (entries (hm_nodes a))"

subsection \<open>The invariant and the represented map\<close>

definition hm_inv :: "('k \<Rightarrow> nat) \<Rightarrow> ('k, 'v) hmap \<Rightarrow> bool" where
  "hm_inv h m \<longleftrightarrow>
     table_wf h (hm_nodes m) \<and> hm_size m = occ_count (hm_nodes m) \<and>
     0 < fst (hm_load m) \<and> fst (hm_load m) \<le> snd (hm_load m)"

definition hm_map :: "('k, 'v) hmap \<Rightarrow> 'k \<rightharpoonup> 'v" where
  "hm_map m = table_map (hm_nodes m)"

text \<open>What a sequence of insertions needs to know of its target: invariant and room.\<close>

definition hm_room :: "('k \<Rightarrow> nat) \<Rightarrow> ('k, 'v) hmap \<Rightarrow> nat \<Rightarrow> bool" where
  "hm_room h m n \<longleftrightarrow>
     hm_inv h m \<and> (hm_size m + n) * snd (hm_load m) \<le> hm_capacity m * fst (hm_load m)"

lemma hm_inv_Map0: "hm_inv h Map0"
  by (simp add: hm_inv_def Map0_def table_wf_def chain_ok_def keys_unique_def)

lemma hm_inv_buckets: "hm_inv h (Map_buckets n)"
  by (simp add: hm_inv_def Map_buckets_def)

lemma hm_inv_fresh:
  "0 < fst (hm_load m) \<Longrightarrow> fst (hm_load m) \<le> snd (hm_load m) \<Longrightarrow>
   hm_inv h (m\<lparr>hm_nodes := replicate n Empty, hm_size := 0, hm_deleted := d\<rparr>)"
  by (simp add: hm_inv_def)

lemma hm_map_Map0: "hm_map Map0 = Map.empty"
  by (simp add: hm_map_def Map0_def table_map_def)

lemma hm_find_spec:
  assumes "hm_inv h m"
  shows "case hm_find h m k of
           None \<Rightarrow> hm_map m k = None
         | Some idx \<Rightarrow> idx < hm_capacity m \<and>
             (\<exists>v. hm_nodes m ! idx = Occupied k v (h k) \<and> hm_map m k = Some v)"
proof (cases "hm_capacity m = 0")
  case True
  then have "hm_map m k = None" by (simp add: hm_map_def hm_capacity_def table_map_def)
  with True show ?thesis by (simp add: hm_find_def)
next
  case False
  then have cap: "0 < length (hm_nodes m)" by (simp add: hm_capacity_def)
  have wf: "table_wf h (hm_nodes m)" using assms by (simp add: hm_inv_def)
  have loop: "find_loop (hm_nodes m) k (h k) (h k mod length (hm_nodes m)) 0 n =
      find_loop (hm_nodes m) k (h k) (h k) 0 n" for n
  proof -
    have "find_loop ns k hs (s mod length ns) i n = find_loop ns k hs s i n"
      for ns :: "('a, 'b) slot list" and k hs s i n
      by (induction ns k hs s i n rule: find_loop.induct)
         (auto simp: Let_def split: slot.splits)
    then show ?thesis .
  qed
  show ?thesis
    using find_loop_None [OF wf cap, of k] find_loop_Some [OF wf cap, of k] False
    by (auto simp: hm_find_def hm_map_def hm_capacity_def loop split: option.splits)
qed

lemma hm_find_None: "hm_inv h m \<Longrightarrow> hm_find h m k = None \<longleftrightarrow> hm_map m k = None"
  using hm_find_spec [of h m k] by (auto split: option.splits)

lemma hm_find_Some:
  "hm_inv h m \<Longrightarrow> hm_find h m k = Some idx \<Longrightarrow>
   idx < length (hm_nodes m) \<and>
   (\<exists>v. hm_nodes m ! idx = Occupied k v (h k) \<and> hm_map m k = Some v)"
  using hm_find_spec [of h m k] by (auto simp: hm_capacity_def)

text \<open>Placing a key: the table has a free slot, so the loop never reports a full table.\<close>

lemma place_spec:
  assumes inv: "hm_inv h m" and room: "hm_size m < hm_capacity m"
  obtains m' idx where
    "place h m k v = (m', Some idx, hm_map m k = None)"
    "hm_inv h m'" "hm_load m' = hm_load m" "hm_capacity m' = hm_capacity m"
    "hm_map m' = (if hm_map m k = None then (hm_map m)(k \<mapsto> v) else hm_map m)"
    "idx < length (hm_nodes m')" "\<exists>v'. hm_nodes m' ! idx = Occupied k v' (h k)"
    "hm_size m' = (if hm_map m k = None then Suc (hm_size m) else hm_size m)"
proof -
  let ?ns = "hm_nodes m"
  have wf: "table_wf h ?ns" and sz: "hm_size m = occ_count ?ns"
    and ld: "0 < fst (hm_load m)" "fst (hm_load m) \<le> snd (hm_load m)"
    using inv by (auto simp: hm_inv_def)
  have cap: "0 < length ?ns" using room unfolding hm_capacity_def by linarith
  have mod_start: "emplace_loop ns k hs (s mod length ns) fd i n = emplace_loop ns k hs s fd i n"
    for ns :: "('a, 'b) slot list" and k hs s fd i n
    by (induction ns k hs s fd i n rule: emplace_loop.induct)
       (auto simp: Let_def split: slot.splits)
  let ?r = "emplace_loop ?ns k (h k) (h k) (length ?ns) 0 (length ?ns)"
  have r: "emplace_loop ?ns k (h k) (h k mod hm_capacity m) (hm_capacity m) 0 (hm_capacity m) = ?r"
    by (simp add: hm_capacity_def mod_start)
  consider (ins) t reused where "?r = InsertAt t reused" | (found) idx where "?r = FoundAt idx"
    using emplace_loop_has_room [of ?ns k "h k" "h k"] room sz
    by (cases ?r) (auto simp: hm_capacity_def)
  then show thesis
  proof cases
    case ins
    have "find_loop ?ns k (h k) (h k) 0 (length ?ns) = None"
      using emplace_loop_FoundAt [of ?ns k "h k" "h k" "length ?ns" 0 "length ?ns"] ins
      by (metis not_None_eq probe_result.distinct(1))
    then have absent: "hm_map m k = None"
      using find_loop_None [OF wf cap] by (simp add: hm_map_def)
    have t: "free_target ?ns (h k) t"
      using emplace_loop_InsertAt [OF ins] by simp
    then have "t < length ?ns" "\<not> is_Occupied (?ns ! t)" by (auto simp: free_target_def)
    with table_insert [OF wf t, of v] absent ins r sz ld occ_count_insert [of t ?ns k v "h k"]
    show thesis
      by (intro that [of "fst (place h m k v)" t])
         (simp_all add: place_def hm_inv_def hm_map_def hm_capacity_def)
  next
    case found
    then have "find_loop ?ns k (h k) (h k) 0 (length ?ns) = Some idx"
      by (simp add: emplace_loop_FoundAt)
    then obtain v' where "idx < length ?ns" "?ns ! idx = Occupied k v' (h k)" "hm_map m k = Some v'"
      using find_loop_Some [OF wf cap, of k idx] by (auto simp: hm_map_def)
    with found r inv show thesis
      by (intro that [of m idx]) (simp_all add: place_def)
  qed
qed

lemma hm_room_size:
  assumes "hm_room h m (Suc n)"
  shows "hm_size m < hm_capacity m" "\<not> over_load m" "hm_inv h m"
proof -
  let ?p = "fst (hm_load m)" and ?q = "snd (hm_load m)"
  have q: "0 < ?q" "?p \<le> ?q" and inv: "hm_inv h m"
    using assms by (auto simp: hm_room_def hm_inv_def)
  have "hm_size m * ?q < (hm_size m + Suc n) * ?q" using q by (simp add: algebra_simps)
  also have "\<dots> \<le> hm_capacity m * ?p" using assms by (simp add: hm_room_def)
  finally have lt: "hm_size m * ?q < hm_capacity m * ?p" .
  then show "\<not> over_load m" by (simp add: over_load_def)
  have "hm_capacity m * ?p \<le> hm_capacity m * ?q" using q by simp
  with lt have "hm_size m * ?q < hm_capacity m * ?q" by linarith
  then show "hm_size m < hm_capacity m" by simp
  show "hm_inv h m" by (rule inv)
qed

text \<open>Rebuilding: every entry of the old table is inserted without a further rebuild.\<close>

lemma reinsert_spec:
  assumes "hm_room h m (length (entries ss))"
    and "distinct (map fst (entries ss))"
    and "\<And>k. k \<in> fst ` set (entries ss) \<Longrightarrow> hm_map m k = None"
  shows "\<exists>m'. reinsert_f (Suc fuel) h m ss = Some m' \<and> hm_inv h m' \<and>
           hm_map m' = hm_map m ++ map_of (entries ss) \<and>
           hm_size m' = hm_size m + length (entries ss) \<and>
           hm_capacity m' = hm_capacity m \<and> hm_load m' = hm_load m"
  using assms
proof (induction ss arbitrary: m)
  case Nil
  then show ?case by (simp add: hm_room_def)
next
  case (Cons s ss)
  show ?case
  proof (cases s)
    case (Occupied k v hs)
    have room: "hm_room h m (Suc (length (entries ss)))"
      using Cons.prems(1) Occupied by simp
    have new: "hm_map m k = None" using Cons.prems(3) [of k] Occupied by simp
    note size_ok = hm_room_size [OF room]
    obtain m' idx where m': "place h m k v = (m', Some idx, hm_map m k = None)"
      "hm_inv h m'" "hm_load m' = hm_load m" "hm_capacity m' = hm_capacity m"
      "hm_map m' = (if hm_map m k = None then (hm_map m)(k \<mapsto> v) else hm_map m)"
      "hm_size m' = (if hm_map m k = None then Suc (hm_size m) else hm_size m)"
      using place_spec [OF size_ok(3,1), of k v] by metis
    have "emplace_f (Suc fuel) h m k v = Some (m', Some idx, True)"
      using size_ok(2) m'(1) new by simp
    moreover have "hm_room h m' (length (entries ss))"
      using room m' new by (simp add: hm_room_def algebra_simps)
    moreover have "k' \<in> fst ` set (entries ss) \<Longrightarrow> hm_map m' k' = None" for k'
      using Cons.prems(2) Cons.prems(3) [of k'] Occupied m'(5) new by auto
    moreover have "k \<notin> dom (map_of (entries ss))"
      using Cons.prems(2) Occupied by (simp add: dom_map_of_conv_image_fst)
    ultimately show ?thesis
      using Cons.IH [of m'] Cons.prems(2) Occupied m' new
      by (simp add: map_add_upd_left map_add_upd del: fun_upd_apply)
  qed (use Cons in simp_all)
qed

lemma rehash_count_room:
  assumes "hm_inv h m"
  shows "hm_size m * snd (hm_load m) \<le> rehash_count m c * fst (hm_load m)" "c \<le> rehash_count m c"
proof -
  let ?p = "fst (hm_load m)" and ?q = "snd (hm_load m)"
  have p: "0 < ?p" using assms by (simp add: hm_inv_def)
  have "hm_size m * ?q \<le> (hm_size m * ?q div ?p + 1) * ?p"
    using p dividend_less_div_times [of ?p "hm_size m * ?q"] by simp
  then show "hm_size m * ?q \<le> rehash_count m c * ?p"
    by (simp add: rehash_count_def Let_def)
  have "c * ?p < hm_size m * ?q \<Longrightarrow> c \<le> hm_size m * ?q div ?p"
    using p by (simp add: less_eq_div_iff_mult_less_eq)
  then show "c \<le> rehash_count m c" by (auto simp: rehash_count_def Let_def)
qed

lemma rehash_f_spec:
  assumes inv: "hm_inv h m"
  shows "\<exists>m'. rehash_f (Suc fuel) h m c = Some m' \<and> hm_inv h m' \<and> hm_map m' = hm_map m \<and>
           hm_size m' = hm_size m \<and> hm_capacity m' = rehash_count m c \<and> hm_load m' = hm_load m"
proof -
  let ?m0 = "m\<lparr>hm_nodes := replicate (rehash_count m c) Empty, hm_size := 0, hm_deleted := 0\<rparr>"
  have sz: "hm_size m = length (entries (hm_nodes m))" and wf: "table_wf h (hm_nodes m)"
    using inv by (auto simp: hm_inv_def length_entries)
  have "hm_room h ?m0 (length (entries (hm_nodes m)))"
    using rehash_count_room(1) [OF inv, of c] inv sz
    by (simp add: hm_room_def hm_capacity_def hm_inv_def)
  moreover have "hm_map ?m0 = Map.empty" by (simp add: hm_map_def)
  ultimately show ?thesis
    using reinsert_spec [of h ?m0 "hm_nodes m" fuel] distinct_entries [of "hm_nodes m"] wf sz
    by (auto simp: table_wf_def hm_map_def table_map_def hm_capacity_def)
qed

subsection \<open>The operations keep the invariant and implement a finite map\<close>

lemma hm_size_le_capacity: "hm_inv h m \<Longrightarrow> hm_size m \<le> hm_capacity m"
  by (simp add: hm_inv_def hm_capacity_def)

lemma emplace_prepare:
  assumes inv: "hm_inv h m"
  obtains m1 where
    "emplace h m k v = Some (place h m1 k v)" "hm_inv h m1" "hm_size m1 < hm_capacity m1"
    "hm_map m1 = hm_map m" "hm_size m1 = hm_size m" "hm_load m1 = hm_load m"
proof (cases "over_load m")
  case True
  let ?c = "if hm_capacity m = 0 then 16 else hm_capacity m * 2"
  obtain m1 where m1: "rehash_f 1 h m ?c = Some m1" "hm_inv h m1" "hm_map m1 = hm_map m"
    "hm_size m1 = hm_size m" "hm_capacity m1 = rehash_count m ?c" "hm_load m1 = hm_load m"
    using rehash_f_spec [OF inv, of 0 ?c] by auto
  have "hm_size m < ?c" using hm_size_le_capacity [OF inv] by (auto split: if_splits)
  also have "?c \<le> hm_capacity m1" using m1(5) rehash_count_room(2) [OF inv] by metis
  finally have "hm_size m1 < hm_capacity m1" using m1(4) by simp
  moreover have "emplace h m k v = Some (place h m1 k v)"
    using True m1(1) by (simp add: emplace_def numeral_2_eq_2 del: rehash_f.simps)
  ultimately show thesis using that m1 by metis
next
  case False
  let ?p = "fst (hm_load m)" and ?q = "snd (hm_load m)"
  from False have "hm_size m * ?q < hm_capacity m * ?p" by (simp add: over_load_def)
  also have "\<dots> \<le> hm_capacity m * ?q" using inv by (simp add: hm_inv_def)
  finally have "hm_size m < hm_capacity m" by simp
  with False inv show thesis
    by (intro that [of m]) (simp_all add: emplace_def numeral_2_eq_2)
qed

lemma emplace_spec:
  assumes inv: "hm_inv h m"
  obtains m' idx where
    "emplace h m k v = Some (m', Some idx, hm_map m k = None)"
    "hm_inv h m'" "hm_map m' = (if hm_map m k = None then (hm_map m)(k \<mapsto> v) else hm_map m)"
    "idx < length (hm_nodes m')" "\<exists>v'. hm_nodes m' ! idx = Occupied k v' (h k)"
    "hm_size m' = (if hm_map m k = None then Suc (hm_size m) else hm_size m)"
    "hm_load m' = hm_load m"
proof -
  obtain m1 where "emplace h m k v = Some (place h m1 k v)" "hm_inv h m1"
    "hm_size m1 < hm_capacity m1" "hm_map m1 = hm_map m" "hm_size m1 = hm_size m"
    "hm_load m1 = hm_load m"
    using emplace_prepare [OF inv] by metis
  with that show thesis by (metis place_spec [of h m1 k v])
qed

lemma assign_at_spec:
  assumes inv: "hm_inv h m" and idx: "idx < length (hm_nodes m)"
    and slot: "hm_nodes m ! idx = Occupied k v0 (h k)"
  shows "hm_inv h (assign_at m idx v)" "hm_map (assign_at m idx v) = (hm_map m)(k \<mapsto> v)"
  using table_overwrite [OF _ idx slot, of h v] inv idx slot
    occ_count_overwrite [of idx "hm_nodes m" k v "h k"]
  by (simp_all add: assign_at_def hm_inv_def hm_map_def)

lemma hm_put_spec:
  assumes inv: "hm_inv h m"
  shows "\<exists>m'. hm_put h dflt m k v = Some m' \<and> hm_inv h m' \<and> hm_map m' = (hm_map m)(k \<mapsto> v)"
proof (cases "hm_find h m k")
  case (Some idx)
  with hm_find_Some [OF inv Some] assign_at_spec [OF inv] show ?thesis
    by (auto simp: hm_put_def subscript_def)
next
  case None
  then have absent: "hm_map m k = None" using hm_find_None [OF inv] by simp
  obtain m' idx v' where m': "emplace h m k dflt = Some (m', Some idx, True)" "hm_inv h m'"
    "hm_map m' = (hm_map m)(k \<mapsto> dflt)" "idx < length (hm_nodes m')"
    "hm_nodes m' ! idx = Occupied k v' (h k)"
    by (rule emplace_spec [OF inv, of k dflt]) (auto simp: absent)
  have "hm_put h dflt m k v = Some (assign_at m' idx v)"
    using None m'(1) by (simp add: hm_put_def subscript_def)
  with assign_at_spec [OF m'(2,4,5), of v] m'(3) show ?thesis by simp
qed

lemma hm_inv_deleted [simp]: "hm_inv h (m\<lparr>hm_deleted := d\<rparr>) = hm_inv h m"
  by (simp add: hm_inv_def)

lemma delete_slot_spec:
  assumes inv: "hm_inv h m" and found: "hm_find h m k = Some idx"
  defines "m' \<equiv> m\<lparr>hm_nodes := (hm_nodes m)[idx := Deleted], hm_size := hm_size m - 1\<rparr>"
  shows "hm_inv h m'" "hm_map m' = (hm_map m)(k := None)"
proof -
  obtain v where idx: "idx < length (hm_nodes m)" "hm_nodes m ! idx = Occupied k v (h k)"
    using hm_find_Some [OF inv found] by blast
  then show "hm_inv h m'" "hm_map m' = (hm_map m)(k := None)"
    using table_delete [of h "hm_nodes m" idx k v "h k"] inv
      occ_count_delete [of idx "hm_nodes m"]
    by (auto simp: hm_inv_def hm_map_def m'_def)
qed

lemma maybe_rehash_spec:
  assumes "hm_inv h m"
  shows "\<exists>m'. maybe_rehash_after_erase h m = Some m' \<and> hm_inv h m' \<and> hm_map m' = hm_map m"
  using rehash_f_spec [OF assms, of 0 "hm_capacity m"] assms
  by (auto simp: maybe_rehash_after_erase_def rehash_def simp del: rehash_f.simps)

lemma erase_spec:
  assumes inv: "hm_inv h m"
  shows "\<exists>m'. erase h m k = Some (m', if hm_map m k = None then 0 else 1) \<and> hm_inv h m' \<and>
           hm_map m' = (hm_map m)(k := None)"
proof (cases "hm_find h m k")
  case None
  then have "hm_map m k = None" using hm_find_None [OF inv] by simp
  then have "(hm_map m)(k := None) = hm_map m" by (simp add: fun_upd_idem)
  with None \<open>hm_map m k = None\<close> inv show ?thesis by (simp add: erase_def del: fun_upd_apply)
next
  case (Some idx)
  let ?m1 = "m\<lparr>hm_nodes := (hm_nodes m)[idx := Deleted], hm_size := hm_size m - 1,
    hm_deleted := hm_deleted m + 1\<rparr>"
  have m1: "hm_inv h ?m1" "hm_map ?m1 = (hm_map m)(k := None)"
    using delete_slot_spec [OF inv Some] by (simp_all add: hm_inv_def hm_map_def)
  have "hm_map m k \<noteq> None" using hm_find_Some [OF inv Some] by auto
  with maybe_rehash_spec [OF m1(1)] m1(2) Some show ?thesis
    by (auto simp: erase_def erase_slot_def simp del: fun_upd_apply)
qed

lemma erase_sv_spec:
  assumes inv: "hm_inv h m"
  shows "hm_inv h (fst (erase_sv h m k))"
    and "hm_map (fst (erase_sv h m k)) = (hm_map m)(k := None)"
    and "snd (erase_sv h m k) = (if hm_map m k = None then 0 else 1)"
  using delete_slot_spec [OF inv, of k] hm_find_None [OF inv, of k] inv
  by (auto simp: erase_sv_def fun_upd_idem split: option.splits)

lemma insert_all_spec:
  assumes "hm_inv h m"
  shows "\<exists>m'. insert_all h m kvs = Some m' \<and> hm_inv h m' \<and> hm_map m' = map_of kvs ++ hm_map m"
  using assms
proof (induction kvs arbitrary: m)
  case Nil
  then show ?case by simp
next
  case (Cons kv kvs)
  obtain k v where kv: "kv = (k, v)" by (cases kv)
  obtain m1 idx where m1: "emplace h m k v = Some (m1, Some idx, hm_map m k = None)" "hm_inv h m1"
    "hm_map m1 = (if hm_map m k = None then (hm_map m)(k \<mapsto> v) else hm_map m)"
    using emplace_spec [OF Cons.prems, of k v] by metis
  have "map_of kvs ++ hm_map m1 = map_of ((k, v) # kvs) ++ hm_map m"
    using m1(3) by (auto simp: fun_eq_iff map_add_def split: option.splits)
  with Cons.IH [OF m1(2)] m1(1) kv show ?case by (simp del: fun_upd_apply)
qed

lemma insert_all_empty:
  assumes "hm_inv h m" "hm_map m = Map.empty"
  shows "\<exists>c. insert_all h m (entries ns) = Some c \<and> hm_inv h c \<and> hm_map c = table_map ns"
  using insert_all_spec [OF assms(1), of "entries ns"] assms(2) by (simp add: table_map_def)

lemma hm_eq_spec:
  assumes a: "hm_inv h a" and b: "hm_inv h b"
  shows "hm_eq h a b \<longleftrightarrow> hm_map a = hm_map b"
proof -
  have wf: "keys_unique (hm_nodes a)" "keys_unique (hm_nodes b)"
    using a b by (auto simp: hm_inv_def table_wf_def)
  have fin: "finite (dom (hm_map m))" for m :: "('a, 'b) hmap"
    by (simp add: hm_map_def table_map_def finite_dom_map_of)
  have card: "card (dom (hm_map m)) = hm_size m" if "hm_inv h m" for m :: "('a, 'b) hmap"
    using that distinct_entries [of "hm_nodes m"]
    by (auto simp: hm_map_def table_map_def hm_inv_def table_wf_def dom_map_of_conv_image_fst
        length_entries [symmetric] distinct_card simp flip: set_map)
  have val: "(case hm_find h b k of None \<Rightarrow> False | Some idx \<Rightarrow> slot_val (hm_nodes b ! idx) = v)
      \<longleftrightarrow> hm_map b k = Some v" for k v
    using hm_find_spec [OF b, of k] by (auto split: option.splits)
  have ent: "list_all (\<lambda>(k, v). hm_map b k = Some v) (entries (hm_nodes a)) \<longleftrightarrow> hm_map a \<subseteq>\<^sub>m hm_map b"
    using distinct_entries [OF wf(1)]
    by (auto simp: list_all_iff map_le_def hm_map_def table_map_def dom_def)
  have "hm_map a \<subseteq>\<^sub>m hm_map b \<and> hm_size a = hm_size b \<longleftrightarrow> hm_map a = hm_map b"
  proof
    assume "hm_map a \<subseteq>\<^sub>m hm_map b \<and> hm_size a = hm_size b"
    then have sub: "hm_map a \<subseteq>\<^sub>m hm_map b" and "card (dom (hm_map a)) = card (dom (hm_map b))"
      using card a b by auto
    then have "dom (hm_map a) = dom (hm_map b)"
      using card_subset_eq [OF fin map_le_implies_dom_le] by blast
    with sub show "hm_map a = hm_map b"
      by (intro map_le_antisym) (auto simp: map_le_def)
  qed (use card [OF a] card [OF b] in auto)
  with ent show ?thesis by (auto simp: hm_eq_def val)
qed

subsection \<open>The table implements the key-value contract\<close>

definition hm_del :: "('k \<Rightarrow> nat) \<Rightarrow> ('k, 'v) hmap \<Rightarrow> 'k \<Rightarrow> ('k, 'v) hmap option" where
  "hm_del h m k = map_option fst (erase h m k)"

interpretation hm: kv_store "hm_inv h" hm_map Map0 "hm_put h dflt" "hm_del h"
  for h :: "'k \<Rightarrow> nat" and dflt :: 'v
proof
  show "hm_inv h Map0" by (rule hm_inv_Map0)
  show "hm_map Map0 = Map.empty" by (rule hm_map_Map0)
next
  fix m :: "('k, 'v) hmap" and k v
  assume "hm_inv h m"
  then show "\<exists>m'. hm_put h dflt m k v = Some m' \<and> hm_inv h m' \<and> hm_map m' = (hm_map m)(k \<mapsto> v)"
    by (rule hm_put_spec)
next
  fix m :: "('k, 'v) hmap" and k
  assume "hm_inv h m"
  from erase_spec [OF this, of k]
  show "\<exists>m'. hm_del h m k = Some m' \<and> hm_inv h m' \<and> hm_map m' = (hm_map m)(k := None)"
    by (auto simp: hm_del_def simp del: fun_upd_apply)
qed

text \<open>
  C9: Starting from an empty map, every sequence of \<open>m[k] = v\<close> and \<open>erase(k)\<close> returns
  (no insertion fails, no rebuild recurses further), keeps the table invariant, and afterwards
  \<open>find\<close> sees exactly the finite map that the same sequence of updates gives.
\<close>

theorem hm_run_refines:
  "\<exists>m'. run_ops (hm_put h dflt) (hm_del h) ops Map0 = Some m' \<and> hm_inv h m' \<and>
     hm_map m' = fold spec_op ops Map.empty \<and>
     (\<forall>k. hm_find h m' k = None \<longleftrightarrow> fold spec_op ops Map.empty k = None)"
proof -
  obtain m' where "run_ops (hm_put h dflt) (hm_del h) ops Map0 = Some m'" "hm_inv h m'"
    "hm_map m' = fold spec_op ops Map.empty"
    using hm.ops_from_empty [of h dflt ops] by blast
  with hm_find_None show ?thesis by metis
qed

text \<open>
  Under the invariant \<open>emplace\<close> always returns an iterator to the key's slot, reports
  insertion exactly when the key was absent, stores the value then and leaves an existing
  value alone, and keeps the invariant; in particular the branch for a full probe chain is
  never taken.
\<close>

theorem emplace_correct:
  assumes "hm_inv h m"
  shows "\<exists>m' idx. emplace h m k v = Some (m', Some idx, hm_map m k = None) \<and> hm_inv h m' \<and>
     slot_key (hm_nodes m' ! idx) = k \<and>
     hm_map m' = (if hm_map m k = None then (hm_map m)(k \<mapsto> v) else hm_map m) \<and>
     hm_size m' = (if hm_map m k = None then Suc (hm_size m) else hm_size m)"
proof -
  obtain m' idx where "emplace h m k v = Some (m', Some idx, hm_map m k = None)"
    "hm_inv h m'" "hm_map m' = (if hm_map m k = None then (hm_map m)(k \<mapsto> v) else hm_map m)"
    "\<exists>v'. hm_nodes m' ! idx = Occupied k v' (h k)"
    "hm_size m' = (if hm_map m k = None then Suc (hm_size m) else hm_size m)"
    using emplace_spec [OF assms, of k v] by metis
  then show ?thesis by (intro exI [of _ m'] exI [of _ idx]) auto
qed

theorem emplace_correct_witness:
  "\<exists>m' idx. emplace (\<lambda>k. k) (Map0 :: (nat, nat) hmap) 5 7 = Some (m', Some idx, True) \<and>
     hm_map m' 5 = Some 7"
  using emplace_correct [OF hm_inv_Map0, of "\<lambda>k. k" "5::nat" "7::nat"]
  by (auto simp: hm_map_Map0)

text \<open>
  \<open>at\<close> throws \<open>out_of_range\<close> exactly for an absent key and returns the stored value
  otherwise, and \<open>contains\<close> and \<open>count\<close> agree with it.
\<close>

lemma hm_at_correct:
  assumes "hm_inv h m"
  shows "hm_at h m k = (case hm_map m k of None \<Rightarrow> Inl out_of_range | Some v \<Rightarrow> Inr v) \<and>
     (hm_contains h m k \<longleftrightarrow> k \<in> dom (hm_map m)) \<and>
     hm_count h m k = (if k \<in> dom (hm_map m) then 1 else 0)"
  using hm_find_spec [OF assms, of k]
  by (auto simp: hm_at_def hm_contains_def hm_count_def split: option.splits)

text \<open>
  \<open>operator==\<close> compares the two maps as finite maps, whatever the layout of their tables:
  a size check and a one-sided lookup are enough.
\<close>

theorem hm_eq_correct:
  assumes "hm_inv h a" "hm_inv h b"
  shows "hm_eq h a b \<longleftrightarrow> hm_map a = hm_map b"
  using assms by (rule hm_eq_spec)

theorem hm_eq_correct_witness:
  "hm_eq (\<lambda>k. k) (Map0 :: (nat, nat) hmap) (Map_buckets 4)"
  using hm_eq_correct [OF hm_inv_Map0 hm_inv_buckets, of "\<lambda>k. k" 4]
  by (simp add: hm_map_Map0) (simp add: hm_map_def Map_buckets_def)

text \<open>
  Copy construction and copy assignment give a map with the same contents as the source,
  whatever the target held before and whatever the capacities are.
\<close>

lemma hm_copy_correct:
  assumes "hm_inv h other" "hm_inv h m"
  shows "(\<exists>c. Map_copy h other = Some c \<and> hm_inv h c \<and> hm_map c = hm_map other) \<and>
     (\<exists>c. assign_copy h m other = Some c \<and> hm_inv h c \<and> hm_map c = hm_map other)"
proof
  let ?fresh = "\<lparr>hm_nodes = replicate (hm_capacity other) Empty, hm_size = 0,
    hm_load = hm_load other, hm_deleted = 0\<rparr>"
  have load: "0 < fst (hm_load other)" "fst (hm_load other) \<le> snd (hm_load other)"
    using assms(1) by (auto simp: hm_inv_def)
  have "hm_inv h ?fresh" "hm_map ?fresh = Map.empty"
    using load by (simp_all add: hm_inv_def hm_map_def)
  then show "\<exists>c. Map_copy h other = Some c \<and> hm_inv h c \<and> hm_map c = hm_map other"
    unfolding Map_copy_def hm_map_def [of other] by (rule insert_all_empty)
  let ?m1 = "(clear m)\<lparr>hm_load := hm_load other\<rparr>"
  let ?m2 = "if hm_capacity ?m1 < hm_capacity other
    then ?m1\<lparr>hm_nodes := replicate (hm_capacity other) Empty\<rparr> else ?m1"
  have "hm_inv h ?m2" "hm_map ?m2 = Map.empty"
    using load by (auto simp: hm_inv_def hm_map_def clear_def)
  then show "\<exists>c. assign_copy h m other = Some c \<and> hm_inv h c \<and> hm_map c = hm_map other"
    unfolding assign_copy_def Let_def hm_map_def [of other] by (rule insert_all_empty)
qed

text \<open>
  The \<open>string_view\<close> overload of \<open>erase\<close> leaves a tombstone that it does not count. When
  the same key is inserted again the slot is reused, the counter is decremented below zero and
  wraps to its maximum, so the next erase rebuilds a table that holds no tombstone but its own.
\<close>

theorem erase_sv_counter_wraps:
  "\<exists>m1 m2. hm_put (\<lambda>k. k) 0 (Map0 :: (nat, nat) hmap) 5 7 = Some m1 \<and>
     hm_deleted m1 = 0 \<and> hm_deleted (fst (erase_sv (\<lambda>k. k) m1 5)) = 0 \<and>
     emplace (\<lambda>k. k) (fst (erase_sv (\<lambda>k. k) m1 5)) 5 8 = Some (m2, Some 5, True) \<and>
     hm_deleted m2 = -1 \<and>
     hm_capacity m2 div 4 < unat (hm_deleted m2)"
proof -
  let ?h = "\<lambda>k::nat. k"
  let ?ns = "(replicate 16 Empty)[5 := Occupied 5 7 5] :: (nat, nat) slot list"
  let ?m1 = "\<lparr>hm_nodes = ?ns, hm_size = 1, hm_load = (3, 4), hm_deleted = 0\<rparr>"
  let ?m2 = "\<lparr>hm_nodes = ?ns[5 := Occupied 5 8 5], hm_size = 1, hm_load = (3, 4), hm_deleted = -1\<rparr>"
  have "hm_put ?h 0 Map0 5 7 = Some ?m1" by code_simp
  moreover have "emplace ?h (fst (erase_sv ?h ?m1 5)) 5 8 = Some (?m2, Some 5, True)"
    by code_simp
  moreover have "hm_deleted (fst (erase_sv ?h ?m1 5)) = 0" by code_simp
  moreover have "hm_capacity ?m2 div 4 < unat (hm_deleted ?m2)"
    by (simp add: hm_capacity_def unat_minus_1_u64)
  ultimately show ?thesis by auto
qed

end
