(* ===== verification/JsonObject.thy ===== *)
theory JsonObject
  imports Probing KvMap
begin

text \<open>
  \<open>JsonObject\<close> and \<open>JsonArray\<close> of \<open>base/json/json_dom.cpp\<close>. The object is an
  open-addressing table whose capacity is a power of two, so that indices are masked, and which
  is rebuilt as soon as occupied and deleted slots together would exceed 0.7 of the capacity.
  The factor is the \<open>float\<close> nearest to 0.7, that is 11744051 / 2 ^ 24; its product with a power
  of two is exact and the cast truncates it. \<open>entries_\<close> is null exactly when the capacity is 0.

  The counter \<open>deleted_\<close> is never decremented when a deleted slot is reused, so it only bounds
  the number of tombstones from above; the invariant says so, and it follows that every table
  has an empty slot and that the retry at the end of \<open>operator[]\<close> is dead code.
\<close>

record 'v jobj =
  jo_slots :: "(string, 'v) slot list"
  jo_size :: nat
  jo_deleted :: nat

definition jo_capacity :: "'v jobj \<Rightarrow> nat" where
  "jo_capacity ob = length (jo_slots ob)"

definition jo_new :: "'v jobj" where
  "jo_new = \<lparr>jo_slots = [], jo_size = 0, jo_deleted = 0\<rparr>"

subsection \<open>Lookup and removal\<close>

fun jo_find_loop :: "(string, 'v) slot list \<Rightarrow> string \<Rightarrow> nat \<Rightarrow> nat \<Rightarrow> nat \<Rightarrow> nat \<Rightarrow> nat option" where
  "jo_find_loop ns k hs msk idx 0 = None"
| "jo_find_loop ns k hs msk idx (Suc n) =
     (case ns ! idx of
        Empty \<Rightarrow> None
      | Occupied k' v hs' \<Rightarrow>
          if hs' = hs \<and> k' = k then Some idx
          else jo_find_loop ns k hs msk (and (idx + 1) msk) n
      | Deleted \<Rightarrow> jo_find_loop ns k hs msk (and (idx + 1) msk) n)"

definition jo_find :: "(string \<Rightarrow> nat) \<Rightarrow> 'v jobj \<Rightarrow> string \<Rightarrow> nat option" where
  "jo_find h ob k =
     (if jo_slots ob = [] \<or> jo_size ob = 0 then None
      else let msk = jo_capacity ob - 1
           in jo_find_loop (jo_slots ob) k (h k) msk (and (h k) msk) (jo_capacity ob))"

definition jo_contains :: "(string \<Rightarrow> nat) \<Rightarrow> 'v jobj \<Rightarrow> string \<Rightarrow> bool" where
  "jo_contains h ob k \<longleftrightarrow> jo_find h ob k \<noteq> None"

definition jo_erase :: "(string \<Rightarrow> nat) \<Rightarrow> 'v jobj \<Rightarrow> string \<Rightarrow> 'v jobj \<times> bool" where
  "jo_erase h ob k =
     (if jo_slots ob = [] \<or> jo_size ob = 0 then (ob, False)
      else let msk = jo_capacity ob - 1
           in case jo_find_loop (jo_slots ob) k (h k) msk (and (h k) msk) (jo_capacity ob) of
                None \<Rightarrow> (ob, False)
              | Some idx \<Rightarrow>
                  (ob\<lparr>jo_slots := (jo_slots ob)[idx := Deleted], jo_size := jo_size ob - 1,
                      jo_deleted := jo_deleted ob + 1\<rparr>, True))"

definition jo_clear :: "'v jobj \<Rightarrow> 'v jobj" where
  "jo_clear ob =
     ob\<lparr>jo_slots := replicate (jo_capacity ob) Empty, jo_size := 0, jo_deleted := 0\<rparr>"

subsection \<open>Insertion and rebuilding\<close>

text \<open>
  The loop of \<open>operator[]\<close>. Unlike the loop of \<open>container::Map\<close> it does not fall back on a
  remembered deleted slot when it has visited the whole table.
\<close>

fun jo_index_loop ::
  "(string, 'v) slot list \<Rightarrow> string \<Rightarrow> nat \<Rightarrow> nat \<Rightarrow> nat \<Rightarrow> nat \<Rightarrow> nat \<Rightarrow> probe_result" where
  "jo_index_loop ns k hs msk fd idx 0 = TableFull"
| "jo_index_loop ns k hs msk fd idx (Suc n) =
     (case ns ! idx of
        Empty \<Rightarrow> if fd < length ns then InsertAt fd True else InsertAt idx False
      | Deleted \<Rightarrow>
          jo_index_loop ns k hs msk (if fd = length ns then idx else fd) (and (idx + 1) msk) n
      | Occupied k' v hs' \<Rightarrow>
          if hs' = hs \<and> k' = k then FoundAt idx
          else jo_index_loop ns k hs msk fd (and (idx + 1) msk) n)"

function pow2_from :: "nat \<Rightarrow> nat \<Rightarrow> nat" where
  "pow2_from pow2 target =
     (if pow2 < target \<and> 0 < pow2 then pow2_from (2 * pow2) target else pow2)"
  by pat_completeness auto
termination
  by (relation "measure (\<lambda>(pow2, target). target - pow2)") auto

declare pow2_from.simps [simp del]

definition load_limit :: "nat \<Rightarrow> nat" where
  "load_limit cap = cap * 11744051 div 2 ^ 24"

definition jo_assign_at :: "'v jobj \<Rightarrow> nat \<Rightarrow> 'v \<Rightarrow> 'v jobj" where
  "jo_assign_at ob idx v =
     (case jo_slots ob ! idx of
        Occupied k v0 hs \<Rightarrow> ob\<lparr>jo_slots := (jo_slots ob)[idx := Occupied k v hs]\<rparr>
      | _ \<Rightarrow> ob)"

text \<open>
  \<open>operator[]\<close> rebuilds through \<open>maybe_rehash\<close>, and the rebuild inserts through
  \<open>operator[]\<close>. The value of a fresh entry is the null value \<open>dflt\<close>; the result is the slot of
  the returned reference.
\<close>

function (sequential)
  jo_subscript_f ::
    "nat \<Rightarrow> (string \<Rightarrow> nat) \<Rightarrow> 'v \<Rightarrow> 'v jobj \<Rightarrow> string \<Rightarrow> ('v jobj \<times> nat) option"
  and jo_rehash_f :: "nat \<Rightarrow> (string \<Rightarrow> nat) \<Rightarrow> 'v \<Rightarrow> 'v jobj \<Rightarrow> nat \<Rightarrow> 'v jobj option"
  and jo_reinsert_f ::
    "nat \<Rightarrow> (string \<Rightarrow> nat) \<Rightarrow> 'v \<Rightarrow> 'v jobj \<Rightarrow> (string, 'v) slot list \<Rightarrow> 'v jobj option"
where
  "jo_subscript_f 0 h dflt ob k = None"
| "jo_subscript_f (Suc fuel) h dflt ob k =
     (case (if jo_capacity ob = 0 then jo_rehash_f fuel h dflt ob 8
            else if load_limit (jo_capacity ob) < jo_size ob + jo_deleted ob + 1
                 then jo_rehash_f fuel h dflt ob (jo_capacity ob * 2)
            else Some ob) of
        None \<Rightarrow> None
      | Some ob1 \<Rightarrow>
          (case jo_index_loop (jo_slots ob1) k (h k) (jo_capacity ob1 - 1) (jo_capacity ob1)
                  (and (h k) (jo_capacity ob1 - 1)) (jo_capacity ob1) of
             InsertAt idx reused \<Rightarrow>
               Some (ob1\<lparr>jo_slots := (jo_slots ob1)[idx := Occupied k dflt (h k)],
                         jo_size := jo_size ob1 + 1\<rparr>, idx)
           | FoundAt idx \<Rightarrow> Some (ob1, idx)
           | TableFull \<Rightarrow>
               (case jo_rehash_f fuel h dflt ob1 (jo_capacity ob1 * 2) of
                  None \<Rightarrow> None
                | Some ob2 \<Rightarrow> jo_subscript_f fuel h dflt ob2 k)))"
| "jo_rehash_f fuel h dflt ob new_capacity =
     jo_reinsert_f fuel h dflt
       (ob\<lparr>jo_slots := replicate (pow2_from 1 new_capacity) Empty, jo_size := 0,
           jo_deleted := 0\<rparr>)
       (jo_slots ob)"
| "jo_reinsert_f fuel h dflt ob [] = Some ob"
| "jo_reinsert_f fuel h dflt ob (s # ss) =
     (case s of
        Occupied k v hs \<Rightarrow>
          (case jo_subscript_f fuel h dflt ob k of
             None \<Rightarrow> None
           | Some (ob', idx) \<Rightarrow> jo_reinsert_f fuel h dflt (jo_assign_at ob' idx v) ss)
      | _ \<Rightarrow> jo_reinsert_f fuel h dflt ob ss)"
  by pat_completeness auto
termination
  by (relation "measures
    [\<lambda>x. case x of Inl (f, _) \<Rightarrow> f | Inr (Inl (f, _)) \<Rightarrow> f | Inr (Inr (f, _)) \<Rightarrow> f,
     \<lambda>x. case x of Inl _ \<Rightarrow> 0 | Inr (Inl _) \<Rightarrow> 2 | Inr (Inr _) \<Rightarrow> 1,
     \<lambda>x. case x of Inl _ \<Rightarrow> 0 | Inr (Inl _) \<Rightarrow> 0 | Inr (Inr (_, _, _, _, ss)) \<Rightarrow> length ss]") auto

definition jo_subscript ::
  "(string \<Rightarrow> nat) \<Rightarrow> 'v \<Rightarrow> 'v jobj \<Rightarrow> string \<Rightarrow> ('v jobj \<times> nat) option" where
  "jo_subscript h dflt ob k = jo_subscript_f 2 h dflt ob k"

definition jo_rehash :: "(string \<Rightarrow> nat) \<Rightarrow> 'v \<Rightarrow> 'v jobj \<Rightarrow> nat \<Rightarrow> 'v jobj option" where
  "jo_rehash h dflt ob new_capacity = jo_rehash_f 1 h dflt ob new_capacity"

text \<open>The statement \<open>obj[k] = v\<close>.\<close>

definition jo_put :: "(string \<Rightarrow> nat) \<Rightarrow> 'v \<Rightarrow> 'v jobj \<Rightarrow> string \<Rightarrow> 'v \<Rightarrow> 'v jobj option" where
  "jo_put h dflt ob k v =
     (case jo_subscript h dflt ob k of
        None \<Rightarrow> None
      | Some (ob', idx) \<Rightarrow> Some (jo_assign_at ob' idx v))"

fun jo_put_all ::
  "(string \<Rightarrow> nat) \<Rightarrow> 'v \<Rightarrow> 'v jobj \<Rightarrow> (string \<times> 'v) list \<Rightarrow> 'v jobj option" where
  "jo_put_all h dflt ob [] = Some ob"
| "jo_put_all h dflt ob ((k, v) # kvs) =
     (case jo_put h dflt ob k v of None \<Rightarrow> None | Some ob' \<Rightarrow> jo_put_all h dflt ob' kvs)"

definition jo_copy :: "(string \<Rightarrow> nat) \<Rightarrow> 'v \<Rightarrow> 'v jobj \<Rightarrow> 'v jobj option" where
  "jo_copy h dflt other =
     jo_put_all h dflt
       \<lparr>jo_slots = replicate (jo_capacity other) Empty, jo_size = 0, jo_deleted = 0\<rparr>
       (entries (jo_slots other))"

definition jo_assign_copy ::
  "(string \<Rightarrow> nat) \<Rightarrow> 'v \<Rightarrow> 'v jobj \<Rightarrow> 'v jobj \<Rightarrow> 'v jobj option" where
  "jo_assign_copy h dflt ob other =
     (case (if 0 < jo_capacity other
            then jo_rehash h dflt (jo_clear ob) (jo_capacity other) else Some (jo_clear ob)) of
        None \<Rightarrow> None
      | Some ob' \<Rightarrow> jo_put_all h dflt ob' (entries (jo_slots other)))"

text \<open>Moving: the new object and the emptied source.\<close>

definition jo_move :: "'v jobj \<Rightarrow> 'v jobj \<times> 'v jobj" where
  "jo_move other = (other, jo_new)"

subsection \<open>Masked probing is linear probing\<close>

lemma masked_start: "length ns = 2 ^ c \<Longrightarrow> and n (length ns - 1) = probe (length ns) n 0"
  using and_mask_mod [of n c] by (simp add: probe_def)

lemma masked_next:
  "length ns = 2 ^ c \<Longrightarrow>
   and (probe (length ns) st i + 1) (length ns - 1) = probe (length ns) st (Suc i)"
  using and_mask_mod [of "probe (length ns) st i + 1" c]
  by (simp add: probe_def mod_Suc_eq)

lemma jo_find_loop_eq:
  assumes "length ns = 2 ^ c"
  shows "jo_find_loop ns k hs (length ns - 1) (probe (length ns) st i) n = find_loop ns k hs st i n"
proof (induction n arbitrary: i)
  case (Suc n)
  then show ?case
    using masked_next [OF assms, of st i] by (simp add: Let_def split: slot.splits)
qed simp

lemma jo_index_loop_eq:
  assumes "length ns = 2 ^ c"
    and "jo_index_loop ns k hs (length ns - 1) fd (probe (length ns) st i) n \<noteq> TableFull"
  shows "jo_index_loop ns k hs (length ns - 1) fd (probe (length ns) st i) n =
         emplace_loop ns k hs st fd i n"
  using assms(2)
proof (induction n arbitrary: fd i)
  case (Suc n)
  then show ?case
    using masked_next [OF assms(1), of st i] by (auto simp: Let_def split: slot.splits)
qed simp

text \<open>The loop ends early as soon as the probe sequence meets an empty slot.\<close>

lemma jo_index_loop_not_full:
  assumes "length ns = 2 ^ c" "ns ! probe (length ns) st t = Empty" "i \<le> t" "t < i + n"
  shows "jo_index_loop ns k hs (length ns - 1) fd (probe (length ns) st i) n \<noteq> TableFull"
  using assms(3,4)
proof (induction n arbitrary: fd i)
  case (Suc n)
  show ?case
  proof (cases "i = t")
    case True
    then show ?thesis using assms(2) by simp
  next
    case False
    with Suc show ?thesis
      using masked_next [OF assms(1), of st i] by (auto split: slot.splits)
  qed
qed simp

lemma pow2_from_power: "\<exists>c. pow2_from (2 ^ b) target = 2 ^ c"
proof (induction "2 ^ b :: nat" target arbitrary: b rule: pow2_from.induct)
  case (1 target)
  then show ?case
    by (subst pow2_from.simps) (use 1 [of "Suc b"] in auto)
qed

lemma pow2_from_ge: "0 < pow2 \<Longrightarrow> target \<le> pow2_from pow2 target \<and> pow2 \<le> pow2_from pow2 target"
proof (induction pow2 target rule: pow2_from.induct)
  case (1 pow2 target)
  then show ?case
    by (cases "pow2 < target") (auto simp: pow2_from.simps [of pow2 target])
qed

lemma pow2_from_exact: "b \<le> c \<Longrightarrow> pow2_from (2 ^ b) (2 ^ c) = 2 ^ c"
proof (induction "c - b" arbitrary: b)
  case 0
  then show ?case by (simp add: pow2_from.simps)
next
  case (Suc d)
  then have "b < c" by simp
  moreover have "pow2_from (2 ^ Suc b) (2 ^ c) = 2 ^ c"
    using Suc by (intro Suc(1)) auto
  ultimately show ?case by (subst pow2_from.simps) simp
qed

subsection \<open>The invariant\<close>

abbreviation tomb_count :: "(string, 'v) slot list \<Rightarrow> nat" where
  "tomb_count ns \<equiv> length (filter (\<lambda>s. s = Deleted) ns)"

definition jo_inv :: "(string \<Rightarrow> nat) \<Rightarrow> 'v jobj \<Rightarrow> bool" where
  "jo_inv h ob \<longleftrightarrow>
     table_wf h (jo_slots ob) \<and> jo_size ob = occ_count (jo_slots ob) \<and>
     tomb_count (jo_slots ob) \<le> jo_deleted ob \<and>
     (jo_slots ob = [] \<and> jo_deleted ob = 0 \<or>
      (\<exists>c. 3 \<le> c \<and> jo_capacity ob = 2 ^ c) \<and>
      jo_size ob + jo_deleted ob \<le> load_limit (jo_capacity ob))"

definition jo_map :: "'v jobj \<Rightarrow> string \<rightharpoonup> 'v" where
  "jo_map ob = table_map (jo_slots ob)"

lemma load_limit_mono: "a \<le> b \<Longrightarrow> load_limit a \<le> load_limit b"
  by (simp add: load_limit_def div_le_mono)

lemma load_limit_double: "2 * load_limit a \<le> load_limit (2 * a)"
  unfolding load_limit_def by simp

lemma load_limit_less: "0 < a \<Longrightarrow> load_limit a < a"
  by (simp add: load_limit_def div_less_iff_less_mult)

lemma load_limit_8: "8 \<le> a \<Longrightarrow> 5 \<le> load_limit a"
  using load_limit_mono [of 8 a] by (simp add: load_limit_def)

lemma jo_inv_new: "jo_inv h jo_new"
  by (simp add: jo_inv_def jo_new_def table_wf_def chain_ok_def keys_unique_def)

lemma jo_map_new: "jo_map jo_new = Map.empty"
  by (simp add: jo_map_def jo_new_def table_map_def)

lemma jo_inv_fresh:
  "3 \<le> c \<Longrightarrow> jo_inv h \<lparr>jo_slots = replicate (2 ^ c) Empty, jo_size = 0, jo_deleted = 0\<rparr>"
  by (auto simp: jo_inv_def jo_capacity_def)

text \<open>Every table has an empty slot: occupied and deleted slots stay below the load limit.\<close>

lemma count_split:
  "length ns = occ_count ns + tomb_count ns + length (filter (\<lambda>s. s = Empty) ns)"
proof (induction ns)
  case (Cons s ns)
  then show ?case by (cases s) auto
qed simp

lemma jo_has_empty:
  assumes "jo_inv h ob" "jo_slots ob \<noteq> []"
  obtains idx where "idx < length (jo_slots ob)" "jo_slots ob ! idx = Empty"
proof -
  let ?ns = "jo_slots ob"
  have "occ_count ?ns + tomb_count ?ns \<le> load_limit (length ?ns)"
    using assms by (auto simp: jo_inv_def jo_capacity_def)
  also have "\<dots> < length ?ns" using assms(2) by (intro load_limit_less) simp
  finally have "filter (\<lambda>s. s = Empty) ?ns \<noteq> []"
    using count_split [of ?ns] by fastforce
  then obtain s where "s \<in> set ?ns" "s = Empty" by (auto simp: filter_empty_conv)
  with that show thesis by (metis in_set_conv_nth)
qed

lemma jo_loop_eq:
  assumes "jo_inv h ob" "jo_slots ob \<noteq> []"
  shows "jo_index_loop (jo_slots ob) k (h k) (jo_capacity ob - 1) (jo_capacity ob)
           (and (h k) (jo_capacity ob - 1)) (jo_capacity ob) =
         emplace_loop (jo_slots ob) k (h k) (h k) (length (jo_slots ob)) 0 (length (jo_slots ob))"
    and "jo_index_loop (jo_slots ob) k (h k) (jo_capacity ob - 1) (jo_capacity ob)
           (and (h k) (jo_capacity ob - 1)) (jo_capacity ob) \<noteq> TableFull"
proof -
  let ?ns = "jo_slots ob"
  obtain c where c: "length ?ns = 2 ^ c"
    using assms by (auto simp: jo_inv_def jo_capacity_def)
  obtain idx where "idx < length ?ns" "?ns ! idx = Empty"
    using jo_has_empty [OF assms] by blast
  then obtain t where "t < length ?ns" "?ns ! probe (length ?ns) (h k) t = Empty"
    using probe_surj by metis
  then have nf: "jo_index_loop ?ns k (h k) (length ?ns - 1) (length ?ns)
      (probe (length ?ns) (h k) 0) (length ?ns) \<noteq> TableFull"
    using jo_index_loop_not_full [OF c, of "h k" t 0] by simp
  show "jo_index_loop ?ns k (h k) (jo_capacity ob - 1) (jo_capacity ob)
           (and (h k) (jo_capacity ob - 1)) (jo_capacity ob) =
         emplace_loop ?ns k (h k) (h k) (length ?ns) 0 (length ?ns)"
    using jo_index_loop_eq [OF c nf] masked_start [OF c, of "h k"] by (simp add: jo_capacity_def)
  show "jo_index_loop ?ns k (h k) (jo_capacity ob - 1) (jo_capacity ob)
           (and (h k) (jo_capacity ob - 1)) (jo_capacity ob) \<noteq> TableFull"
    using nf masked_start [OF c, of "h k"] by (simp add: jo_capacity_def)
qed

lemma jo_find_spec:
  assumes "jo_inv h ob"
  shows "case jo_find h ob k of
           None \<Rightarrow> jo_map ob k = None
         | Some idx \<Rightarrow> idx < length (jo_slots ob) \<and>
             (\<exists>v. jo_slots ob ! idx = Occupied k v (h k) \<and> jo_map ob k = Some v)"
proof (cases "jo_slots ob = [] \<or> jo_size ob = 0")
  case True
  then have "occ_count (jo_slots ob) = 0" using assms by (auto simp: jo_inv_def)
  then have "entries (jo_slots ob) = []" using length_entries [of "jo_slots ob"] by simp
  then have "jo_map ob k = None" by (simp add: jo_map_def table_map_def)
  with True show ?thesis by (auto simp: jo_find_def)
next
  case False
  let ?ns = "jo_slots ob"
  have wf: "table_wf h ?ns" using assms by (simp add: jo_inv_def)
  have cap: "0 < length ?ns" using False by simp
  obtain c where c: "length ?ns = 2 ^ c"
    using assms False by (auto simp: jo_inv_def jo_capacity_def)
  have "jo_find h ob k = find_loop ?ns k (h k) (h k) 0 (length ?ns)"
    using False jo_find_loop_eq [OF c, of k "h k" "h k" 0 "length ?ns"] masked_start [OF c, of "h k"]
    by (simp add: jo_find_def jo_capacity_def Let_def)
  then show ?thesis
    using find_loop_None [OF wf cap, of k] find_loop_Some [OF wf cap, of k]
    by (auto simp: jo_map_def split: option.splits)
qed

subsection \<open>Insertion\<close>

lemma tomb_count_occupy:
  "idx < length ns \<Longrightarrow> tomb_count (ns[idx := Occupied k v hs]) \<le> tomb_count ns"
  using length_filter_list_update [of idx ns "\<lambda>s. s = Deleted" "Occupied k v hs"]
  by (simp split: if_splits)

lemma tomb_count_delete:
  "idx < length ns \<Longrightarrow> tomb_count (ns[idx := Deleted]) \<le> Suc (tomb_count ns)"
  using length_filter_list_update [of idx ns "\<lambda>s. s = Deleted" Deleted]
  by (simp split: if_splits)

text \<open>A table with room for one more entry: \<open>operator[]\<close> finishes without rebuilding it.\<close>

definition jo_ready :: "(string \<Rightarrow> nat) \<Rightarrow> 'v jobj \<Rightarrow> nat \<Rightarrow> bool" where
  "jo_ready h ob n \<longleftrightarrow>
     jo_inv h ob \<and> jo_slots ob \<noteq> [] \<and>
     jo_size ob + jo_deleted ob + n \<le> load_limit (jo_capacity ob)"

lemma jo_subscript_ready:
  assumes "jo_ready h ob 1"
  obtains ob' idx v' where
    "jo_subscript_f (Suc fuel) h dflt ob k = Some (ob', idx)"
    "jo_inv h ob'" "idx < length (jo_slots ob')" "jo_slots ob' ! idx = Occupied k v' (h k)"
    "jo_map ob' = (if jo_map ob k = None then (jo_map ob)(k \<mapsto> dflt) else jo_map ob)"
    "jo_capacity ob' = jo_capacity ob" "jo_deleted ob' = jo_deleted ob"
    "jo_size ob' = (if jo_map ob k = None then jo_size ob + 1 else jo_size ob)"
proof -
  let ?ns = "jo_slots ob"
  let ?r = "emplace_loop ?ns k (h k) (h k) (length ?ns) 0 (length ?ns)"
  have inv: "jo_inv h ob" and ne: "?ns \<noteq> []"
    and room: "jo_size ob + jo_deleted ob + 1 \<le> load_limit (jo_capacity ob)"
    using assms by (auto simp: jo_ready_def)
  have wf: "table_wf h ?ns" using inv by (simp add: jo_inv_def)
  have cap: "0 < length ?ns" "jo_capacity ob \<noteq> 0" using ne by (simp_all add: jo_capacity_def)
  note loop = jo_loop_eq [OF inv ne, of k]
  have step: "jo_subscript_f (Suc fuel) h dflt ob k =
      (case ?r of
         InsertAt idx reused \<Rightarrow>
           Some (ob\<lparr>jo_slots := ?ns[idx := Occupied k dflt (h k)], jo_size := jo_size ob + 1\<rparr>, idx)
       | FoundAt idx \<Rightarrow> Some (ob, idx)
       | TableFull \<Rightarrow> None)"
    using cap(2) room loop by (auto split: probe_result.splits)
  consider (ins) idx reused where "?r = InsertAt idx reused" | (found) idx where "?r = FoundAt idx"
    using loop by (cases ?r) auto
  then show thesis
  proof cases
    case ins
    have "find_loop ?ns k (h k) (h k) 0 (length ?ns) = None"
      using emplace_loop_FoundAt [of ?ns k "h k" "h k" "length ?ns" 0 "length ?ns"] ins
      by (metis not_None_eq probe_result.distinct(1))
    then have absent: "jo_map ob k = None"
      using find_loop_None [OF wf cap(1)] by (simp add: jo_map_def)
    have t: "free_target ?ns (h k) idx"
      using emplace_loop_InsertAt [OF ins] by simp
    then have idx: "idx < length ?ns" "\<not> is_Occupied (?ns ! idx)" by (auto simp: free_target_def)
    let ?ob = "ob\<lparr>jo_slots := ?ns[idx := Occupied k dflt (h k)], jo_size := jo_size ob + 1\<rparr>"
    have tab: "table_wf h (jo_slots ?ob)" "jo_map ?ob = (jo_map ob)(k \<mapsto> dflt)"
      using table_insert [OF wf t, of dflt] absent by (simp_all add: jo_map_def)
    have "jo_inv h ?ob"
      using inv room ne tab(1) occ_count_insert [OF idx, of k dflt "h k"]
        tomb_count_occupy [OF idx(1), of k dflt "h k"]
      by (auto simp: jo_inv_def jo_capacity_def)
    with tab(2) absent ins step idx show thesis
      by (intro that [of ?ob idx dflt]) (simp_all add: jo_capacity_def)
  next
    case found
    then have "find_loop ?ns k (h k) (h k) 0 (length ?ns) = Some idx"
      by (simp add: emplace_loop_FoundAt)
    then obtain v' where "idx < length ?ns" "?ns ! idx = Occupied k v' (h k)" "jo_map ob k = Some v'"
      using find_loop_Some [OF wf cap(1), of k idx] by (auto simp: jo_map_def)
    with found step inv show thesis by (intro that [of ob idx v']) simp_all
  qed
qed

lemma jo_assign_at_spec:
  assumes inv: "jo_inv h ob" and idx: "idx < length (jo_slots ob)"
    and slot: "jo_slots ob ! idx = Occupied k v0 (h k)"
  shows "jo_inv h (jo_assign_at ob idx v)" "jo_map (jo_assign_at ob idx v) = (jo_map ob)(k \<mapsto> v)"
    "jo_capacity (jo_assign_at ob idx v) = jo_capacity ob"
    "jo_size (jo_assign_at ob idx v) = jo_size ob"
    "jo_deleted (jo_assign_at ob idx v) = jo_deleted ob"
proof -
  let ?ns' = "(jo_slots ob)[idx := Occupied k v (h k)]"
  have ob': "jo_assign_at ob idx v = ob\<lparr>jo_slots := ?ns'\<rparr>"
    using slot by (simp add: jo_assign_at_def)
  have "table_wf h ?ns'" and map: "table_map ?ns' = (table_map (jo_slots ob))(k \<mapsto> v)"
    using table_overwrite [OF _ idx slot, of h v] inv by (simp_all add: jo_inv_def)
  moreover have "occ_count ?ns' = occ_count (jo_slots ob)"
    using occ_count_overwrite [OF idx] slot by simp
  moreover have "tomb_count ?ns' \<le> tomb_count (jo_slots ob)" by (rule tomb_count_occupy [OF idx])
  ultimately show "jo_inv h (jo_assign_at ob idx v)"
    using inv idx unfolding ob' by (auto simp: jo_inv_def jo_capacity_def)
  show "jo_map (jo_assign_at ob idx v) = (jo_map ob)(k \<mapsto> v)"
    using map unfolding ob' by (simp add: jo_map_def)
qed (use slot in \<open>simp_all add: jo_assign_at_def jo_capacity_def\<close>)

lemma jo_reinsert_spec:
  assumes "jo_ready h ob (length (entries ss))"
    and "distinct (map fst (entries ss))"
    and "\<And>k. k \<in> fst ` set (entries ss) \<Longrightarrow> jo_map ob k = None"
  shows "\<exists>ob'. jo_reinsert_f (Suc fuel) h dflt ob ss = Some ob' \<and> jo_inv h ob' \<and>
           jo_map ob' = jo_map ob ++ map_of (entries ss) \<and>
           jo_size ob' = jo_size ob + length (entries ss) \<and>
           jo_capacity ob' = jo_capacity ob \<and> jo_deleted ob' = jo_deleted ob"
  using assms
proof (induction ss arbitrary: ob)
  case Nil
  then show ?case by (simp add: jo_ready_def)
next
  case (Cons s ss)
  show ?case
  proof (cases s)
    case (Occupied k v hs)
    have ready: "jo_ready h ob 1" and room:
      "jo_size ob + jo_deleted ob + Suc (length (entries ss)) \<le> load_limit (jo_capacity ob)"
      using Cons.prems(1) Occupied by (auto simp: jo_ready_def)
    have new: "jo_map ob k = None" using Cons.prems(3) [of k] Occupied by simp
    obtain ob1 idx v' where ob1: "jo_subscript_f (Suc fuel) h dflt ob k = Some (ob1, idx)"
      "jo_inv h ob1" "idx < length (jo_slots ob1)" "jo_slots ob1 ! idx = Occupied k v' (h k)"
      "jo_map ob1 = (jo_map ob)(k \<mapsto> dflt)" "jo_capacity ob1 = jo_capacity ob"
      "jo_deleted ob1 = jo_deleted ob" "jo_size ob1 = jo_size ob + 1"
      by (rule jo_subscript_ready [OF ready, of fuel dflt k]) (auto simp: new)
    note put = jo_assign_at_spec [OF ob1(2,3,4), of v]
    let ?ob2 = "jo_assign_at ob1 idx v"
    have map2: "jo_map ?ob2 = (jo_map ob)(k \<mapsto> v)" using put(2) ob1(5) by simp
    have "jo_slots ?ob2 \<noteq> []"
      using put(3) ob1(3) by (auto simp: jo_capacity_def)
    then have "jo_ready h ?ob2 (length (entries ss))"
      using put room ob1 by (simp add: jo_ready_def)
    moreover have "k' \<in> fst ` set (entries ss) \<Longrightarrow> jo_map ?ob2 k' = None" for k'
      using Cons.prems(2) Cons.prems(3) [of k'] Occupied map2 by auto
    moreover have "k \<notin> dom (map_of (entries ss))"
      using Cons.prems(2) Occupied by (simp add: dom_map_of_conv_image_fst)
    ultimately show ?thesis
      using Cons.IH [of ?ob2] Cons.prems(2) Occupied ob1 put map2
      by (simp add: map_add_upd_left map_add_upd del: fun_upd_apply jo_subscript_f.simps)
  qed (use Cons in simp_all)
qed

lemma jo_rehash_f_spec:
  assumes inv: "jo_inv h ob" and c: "pow2_from 1 nc = 2 ^ c" "3 \<le> c"
    and room: "jo_size ob \<le> load_limit (2 ^ c)"
  shows "\<exists>ob'. jo_rehash_f (Suc fuel) h dflt ob nc = Some ob' \<and> jo_inv h ob' \<and>
           jo_map ob' = jo_map ob \<and> jo_size ob' = jo_size ob \<and> jo_deleted ob' = 0 \<and>
           jo_capacity ob' = 2 ^ c"
proof -
  let ?ob0 = "ob\<lparr>jo_slots := replicate (2 ^ c) Empty, jo_size := 0, jo_deleted := 0\<rparr>"
  have sz: "jo_size ob = length (entries (jo_slots ob))" and wf: "table_wf h (jo_slots ob)"
    using inv by (auto simp: jo_inv_def length_entries)
  have "jo_ready h ?ob0 (length (entries (jo_slots ob)))"
    using room c(2) sz by (auto simp: jo_ready_def jo_inv_def jo_capacity_def)
  moreover have "jo_map ?ob0 = Map.empty" by (simp add: jo_map_def)
  ultimately show ?thesis
    using jo_reinsert_spec [of h ?ob0 "jo_slots ob" fuel dflt] distinct_entries [of "jo_slots ob"]
      wf sz c(1)
    by (auto simp: table_wf_def jo_map_def table_map_def jo_capacity_def)
qed

lemma pow2_1_exact: "pow2_from 1 (2 ^ c) = 2 ^ c"
  using pow2_from_exact [of 0 c] by simp

text \<open>\<open>maybe_rehash\<close> makes room for one more entry.\<close>

lemma jo_maybe_rehash_spec:
  assumes inv: "jo_inv h ob"
  shows "\<exists>ob1. (if jo_capacity ob = 0 then jo_rehash_f (Suc fuel) h dflt ob 8
            else if load_limit (jo_capacity ob) < jo_size ob + jo_deleted ob + 1
                 then jo_rehash_f (Suc fuel) h dflt ob (jo_capacity ob * 2)
            else Some ob) = Some ob1 \<and>
          jo_ready h ob1 1 \<and> jo_map ob1 = jo_map ob \<and> jo_size ob1 = jo_size ob"
proof -
  consider (null) "jo_capacity ob = 0"
    | (full) c where "jo_capacity ob = 2 ^ c" "3 \<le> c"
        "load_limit (2 ^ c) < jo_size ob + jo_deleted ob + 1"
    | (ok) "jo_capacity ob \<noteq> 0" "jo_size ob + jo_deleted ob + 1 \<le> load_limit (jo_capacity ob)"
    using inv by (fastforce simp: jo_inv_def jo_capacity_def)
  then show ?thesis
  proof cases
    case null
    then have sz: "jo_size ob = 0" using inv by (simp add: jo_inv_def jo_capacity_def)
    have "pow2_from 1 8 = 2 ^ 3" using pow2_1_exact [of 3] by simp
    from jo_rehash_f_spec [OF inv this, of fuel dflt] sz obtain ob1
      where ob1: "jo_rehash_f (Suc fuel) h dflt ob 8 = Some ob1" "jo_inv h ob1"
        "jo_map ob1 = jo_map ob" "jo_size ob1 = 0" "jo_deleted ob1 = 0" "jo_capacity ob1 = 8"
      by auto
    then have "jo_ready h ob1 1"
      using load_limit_8 [of 8] by (auto simp: jo_ready_def jo_capacity_def)
    with ob1 null sz show ?thesis by (simp del: jo_rehash_f.simps)
  next
    case full
    have sz: "jo_size ob \<le> load_limit (2 ^ c)"
      using inv full(1) by (auto simp: jo_inv_def jo_capacity_def)
    have dbl: "2 * load_limit (2 ^ c) \<le> load_limit (2 ^ Suc c)"
      using load_limit_double [of "2 ^ c"] by simp
    have "(2::nat) ^ 3 \<le> 2 ^ c" using full(2) by (intro power_increasing) auto
    then have "5 \<le> load_limit (2 ^ c)" by (intro load_limit_8) simp
    with sz dbl have room: "jo_size ob + 1 \<le> load_limit (2 ^ Suc c)" by linarith
    have "pow2_from 1 (jo_capacity ob * 2) = 2 ^ Suc c"
      using pow2_1_exact [of "Suc c"] full(1) by (simp add: mult.commute)
    from jo_rehash_f_spec [OF inv this, of fuel dflt] room full(2) obtain ob1
      where ob1: "jo_rehash_f (Suc fuel) h dflt ob (jo_capacity ob * 2) = Some ob1" "jo_inv h ob1"
        "jo_map ob1 = jo_map ob" "jo_size ob1 = jo_size ob" "jo_deleted ob1 = 0"
        "jo_capacity ob1 = 2 ^ Suc c"
      by auto
    then have "jo_ready h ob1 1"
      using room by (auto simp: jo_ready_def jo_capacity_def)
    with ob1 full show ?thesis by (simp del: jo_rehash_f.simps)
  next
    case ok
    with inv show ?thesis by (auto simp: jo_ready_def jo_capacity_def)
  qed
qed

lemma jo_subscript_spec:
  assumes inv: "jo_inv h ob"
  obtains ob' idx v' where
    "jo_subscript h dflt ob k = Some (ob', idx)"
    "jo_inv h ob'" "idx < length (jo_slots ob')" "jo_slots ob' ! idx = Occupied k v' (h k)"
    "jo_map ob' = (if jo_map ob k = None then (jo_map ob)(k \<mapsto> dflt) else jo_map ob)"
    "jo_size ob' = (if jo_map ob k = None then jo_size ob + 1 else jo_size ob)"
proof -
  obtain ob1 where ob1: "(if jo_capacity ob = 0 then jo_rehash_f (Suc 0) h dflt ob 8
            else if load_limit (jo_capacity ob) < jo_size ob + jo_deleted ob + 1
                 then jo_rehash_f (Suc 0) h dflt ob (jo_capacity ob * 2)
            else Some ob) = Some ob1"
    "jo_ready h ob1 1" "jo_map ob1 = jo_map ob" "jo_size ob1 = jo_size ob"
    using jo_maybe_rehash_spec [OF inv, of 0 dflt] by blast
  have self: "(if jo_capacity ob1 = 0 then jo_rehash_f (Suc 0) h dflt ob1 8
            else if load_limit (jo_capacity ob1) < jo_size ob1 + jo_deleted ob1 + 1
                 then jo_rehash_f (Suc 0) h dflt ob1 (jo_capacity ob1 * 2)
            else Some ob1) = Some ob1"
    using ob1(2) by (auto simp: jo_ready_def jo_capacity_def)
  have eq: "jo_subscript h dflt ob k = jo_subscript_f (Suc (Suc 0)) h dflt ob1 k"
    unfolding jo_subscript_def numeral_2_eq_2
    by (simp only: jo_subscript_f.simps ob1(1) self)
  show thesis
    by (rule jo_subscript_ready [OF ob1(2), of "Suc 0" dflt k])
       (rule that, use eq ob1(3,4) in auto)
qed

lemma jo_put_spec:
  assumes inv: "jo_inv h ob"
  shows "\<exists>ob'. jo_put h dflt ob k v = Some ob' \<and> jo_inv h ob' \<and> jo_map ob' = (jo_map ob)(k \<mapsto> v)"
proof -
  obtain ob1 idx v' where ob1: "jo_subscript h dflt ob k = Some (ob1, idx)"
    "jo_inv h ob1" "idx < length (jo_slots ob1)" "jo_slots ob1 ! idx = Occupied k v' (h k)"
    "jo_map ob1 = (if jo_map ob k = None then (jo_map ob)(k \<mapsto> dflt) else jo_map ob)"
    by (rule jo_subscript_spec [OF inv, of dflt k])
  have "jo_put h dflt ob k v = Some (jo_assign_at ob1 idx v)" using ob1(1) by (simp add: jo_put_def)
  with jo_assign_at_spec [OF ob1(2,3,4), of v] ob1(5) show ?thesis
    by (simp split: if_splits)
qed

lemma jo_erase_spec:
  assumes inv: "jo_inv h ob"
  shows "jo_inv h (fst (jo_erase h ob k))"
    and "jo_map (fst (jo_erase h ob k)) = (jo_map ob)(k := None)"
    and "snd (jo_erase h ob k) \<longleftrightarrow> jo_map ob k \<noteq> None"
proof -
  have erase: "jo_erase h ob k =
      (case jo_find h ob k of
         None \<Rightarrow> (ob, False)
       | Some idx \<Rightarrow> (ob\<lparr>jo_slots := (jo_slots ob)[idx := Deleted], jo_size := jo_size ob - 1,
                          jo_deleted := jo_deleted ob + 1\<rparr>, True))"
    by (simp add: jo_erase_def jo_find_def Let_def split: option.splits)
  have "jo_inv h (fst (jo_erase h ob k)) \<and> jo_map (fst (jo_erase h ob k)) = (jo_map ob)(k := None) \<and>
      (snd (jo_erase h ob k) \<longleftrightarrow> jo_map ob k \<noteq> None)"
  proof (cases "jo_find h ob k")
    case None
    then have "jo_map ob k = None" using jo_find_spec [OF inv, of k] by simp
    with None inv show ?thesis by (simp add: erase fun_upd_idem)
  next
    case (Some idx)
    then obtain v where idx: "idx < length (jo_slots ob)"
      "jo_slots ob ! idx = Occupied k v (h k)" "jo_map ob k = Some v"
      using jo_find_spec [OF inv, of k] by auto
    have wf: "table_wf h (jo_slots ob)" using inv by (simp add: jo_inv_def)
    have occ: "Suc (occ_count ((jo_slots ob)[idx := Deleted])) = occ_count (jo_slots ob)"
      using occ_count_delete [OF idx(1)] idx(2) by simp
    have ob': "fst (jo_erase h ob k) = ob\<lparr>jo_slots := (jo_slots ob)[idx := Deleted],
        jo_size := jo_size ob - 1, jo_deleted := jo_deleted ob + 1\<rparr>"
      using Some by (simp add: erase)
    have "jo_inv h (fst (jo_erase h ob k))"
      using inv idx(1) table_delete(1) [OF wf idx(1,2)] occ tomb_count_delete [OF idx(1)]
      unfolding ob' by (auto simp: jo_inv_def jo_capacity_def)
    moreover have "jo_map (fst (jo_erase h ob k)) = (jo_map ob)(k := None)"
      using table_delete(2) [OF wf idx(1,2)] unfolding ob' by (simp add: jo_map_def)
    ultimately show ?thesis using Some idx(3) by (simp add: erase)
  qed
  then show "jo_inv h (fst (jo_erase h ob k))"
    "jo_map (fst (jo_erase h ob k)) = (jo_map ob)(k := None)"
    "snd (jo_erase h ob k) \<longleftrightarrow> jo_map ob k \<noteq> None"
    by blast+
qed

lemma jo_put_all_spec:
  assumes "jo_inv h ob"
  shows "\<exists>ob'. jo_put_all h dflt ob kvs = Some ob' \<and> jo_inv h ob' \<and>
           jo_map ob' = jo_map ob ++ map_of (rev kvs)"
  using assms
proof (induction kvs arbitrary: ob)
  case Nil
  then show ?case by simp
next
  case (Cons kv kvs)
  obtain k v where kv: "kv = (k, v)" by (cases kv)
  obtain ob1 where ob1: "jo_put h dflt ob k v = Some ob1" "jo_inv h ob1"
    "jo_map ob1 = (jo_map ob)(k \<mapsto> v)"
    using jo_put_spec [OF Cons.prems] by blast
  have "jo_map ob1 ++ map_of (rev kvs) = jo_map ob ++ map_of (rev (kv # kvs))"
    by (simp add: ob1(3) kv map_add_assoc)
  with Cons.IH [OF ob1(2)] ob1(1) kv show ?case by simp
qed

lemma jo_put_all_entries:
  assumes "jo_inv h ob" "jo_map ob = Map.empty" "keys_unique ns"
  shows "\<exists>ob'. jo_put_all h dflt ob (entries ns) = Some ob' \<and> jo_inv h ob' \<and> jo_map ob' = table_map ns"
proof -
  have "map_of (rev (entries ns)) = map_of (entries ns)"
    using distinct_entries [OF assms(3)]
    by (subst map_of_inject_set) (auto simp: rev_map [symmetric])
  with jo_put_all_spec [OF assms(1), of dflt "entries ns"] assms(2) show ?thesis
    by (simp add: table_map_def)
qed

subsection \<open>The object implements the key-value contract\<close>

definition jo_del :: "(string \<Rightarrow> nat) \<Rightarrow> 'v jobj \<Rightarrow> string \<Rightarrow> 'v jobj option" where
  "jo_del h ob k = Some (fst (jo_erase h ob k))"

interpretation jo: kv_store "jo_inv h" jo_map jo_new "jo_put h dflt" "jo_del h"
  for h :: "string \<Rightarrow> nat" and dflt :: 'v
proof
  show "jo_inv h jo_new" by (rule jo_inv_new)
  show "jo_map jo_new = Map.empty" by (rule jo_map_new)
next
  fix ob :: "'v jobj" and k v
  assume "jo_inv h ob"
  then show "\<exists>m'. jo_put h dflt ob k v = Some m' \<and> jo_inv h m' \<and> jo_map m' = (jo_map ob)(k \<mapsto> v)"
    by (rule jo_put_spec)
next
  fix ob :: "'v jobj" and k
  assume "jo_inv h ob"
  from jo_erase_spec(1,2) [OF this, of k]
  show "\<exists>m'. jo_del h ob k = Some m' \<and> jo_inv h m' \<and> jo_map m' = (jo_map ob)(k := None)"
    by (simp add: jo_del_def del: fun_upd_apply)
qed

text \<open>
  C21: Every sequence of \<open>obj[k] = v\<close> and \<open>erase(k)\<close> on a fresh \<open>JsonObject\<close> returns, keeps the
  table invariant (power-of-two capacity, load below the limit, tombstones counted from above)
  and leaves exactly the finite map the updates describe, as \<open>find\<close> sees it.
\<close>

theorem jo_run_refines:
  "\<exists>ob. run_ops (jo_put h dflt) (jo_del h) ops jo_new = Some ob \<and> jo_inv h ob \<and>
     jo_map ob = fold spec_op ops Map.empty \<and>
     (\<forall>k. jo_contains h ob k \<longleftrightarrow> fold spec_op ops Map.empty k \<noteq> None)"
proof -
  obtain ob where ob: "run_ops (jo_put h dflt) (jo_del h) ops jo_new = Some ob" "jo_inv h ob"
    "jo_map ob = fold spec_op ops Map.empty"
    using jo.ops_from_empty [of h dflt ops] by blast
  moreover have "jo_contains h ob k \<longleftrightarrow> jo_map ob k \<noteq> None" for k
    using jo_find_spec [OF ob(2), of k] by (auto simp: jo_contains_def split: option.splits)
  ultimately show ?thesis by auto
qed

text \<open>
  Every non-null table that satisfies the invariant keeps an empty slot, so every probe of
  \<open>find\<close>, \<open>erase\<close> and \<open>operator[]\<close> ends at one, and the rebuild-and-retry at the end of
  \<open>operator[]\<close> (the loop reporting a full table) is never reached.
\<close>

theorem jo_never_full:
  assumes "jo_inv h ob" "jo_slots ob \<noteq> []"
  shows "jo_size ob < jo_capacity ob \<and> Empty \<in> set (jo_slots ob) \<and>
     jo_index_loop (jo_slots ob) k (h k) (jo_capacity ob - 1) (jo_capacity ob)
       (and (h k) (jo_capacity ob - 1)) (jo_capacity ob) \<noteq> TableFull"
proof -
  have "jo_size ob \<le> load_limit (jo_capacity ob)" "0 < jo_capacity ob"
    using assms by (auto simp: jo_inv_def jo_capacity_def)
  then have "jo_size ob < jo_capacity ob" using load_limit_less [of "jo_capacity ob"] by linarith
  moreover have "Empty \<in> set (jo_slots ob)"
    using jo_has_empty [OF assms] by (metis nth_mem)
  ultimately show ?thesis using jo_loop_eq(2) [OF assms, of k] by blast
qed

theorem jo_never_full_witness:
  "jo_size \<lparr>jo_slots = replicate 8 (Empty :: (string, nat) slot), jo_size = 0, jo_deleted = 0\<rparr> < 8"
proof -
  let ?ob = "\<lparr>jo_slots = replicate 8 (Empty :: (string, nat) slot), jo_size = 0, jo_deleted = 0\<rparr>"
  have inv: "jo_inv length ?ob" using jo_inv_fresh [of 3 length] by simp
  have "jo_slots ?ob \<noteq> []" by simp
  from jo_never_full [OF inv this, of "''k''"] show ?thesis by (simp add: jo_capacity_def)
qed

text \<open>
  Copy construction and copy assignment of a \<open>JsonObject\<close> reproduce its contents.
\<close>

lemma jo_copy_correct:
  assumes "jo_inv h other" "jo_inv h ob"
  shows "(\<exists>c. jo_copy h dflt other = Some c \<and> jo_inv h c \<and> jo_map c = jo_map other) \<and>
     (\<exists>c. jo_assign_copy h dflt ob other = Some c \<and> jo_inv h c \<and> jo_map c = jo_map other)"
proof
  let ?fresh = "\<lparr>jo_slots = replicate (jo_capacity other) (Empty :: (string, 'a) slot),
    jo_size = 0, jo_deleted = 0\<rparr>"
  have uniq: "keys_unique (jo_slots other)" using assms(1) by (simp add: jo_inv_def table_wf_def)
  have "jo_inv h ?fresh"
    using assms(1) jo_inv_fresh jo_inv_new by (auto simp: jo_inv_def jo_capacity_def)
  moreover have "jo_map ?fresh = Map.empty" by (simp add: jo_map_def)
  ultimately show "\<exists>c. jo_copy h dflt other = Some c \<and> jo_inv h c \<and> jo_map c = jo_map other"
    unfolding jo_copy_def jo_map_def [of other] by (rule jo_put_all_entries [OF _ _ uniq])
  have clr: "jo_inv h (jo_clear ob)" "jo_map (jo_clear ob) = Map.empty" "jo_size (jo_clear ob) = 0"
    using assms(2) by (auto simp: jo_inv_def jo_clear_def jo_capacity_def jo_map_def)
  obtain ob1 where ob1: "(if 0 < jo_capacity other
      then jo_rehash h dflt (jo_clear ob) (jo_capacity other) else Some (jo_clear ob)) = Some ob1"
    "jo_inv h ob1" "jo_map ob1 = Map.empty"
  proof (cases "0 < jo_capacity other")
    case True
    then obtain c where c: "jo_capacity other = 2 ^ c" "3 \<le> c"
      using assms(1) by (auto simp: jo_inv_def jo_capacity_def)
    from jo_rehash_f_spec [OF clr(1) pow2_1_exact c(2), of 0 dflt] clr
    obtain ob1 where "jo_rehash_f (Suc 0) h dflt (jo_clear ob) (2 ^ c) = Some ob1" "jo_inv h ob1"
      "jo_map ob1 = Map.empty" by auto
    with True c that show thesis by (simp add: jo_rehash_def)
  qed (use clr that in simp)
  then show "\<exists>c. jo_assign_copy h dflt ob other = Some c \<and> jo_inv h c \<and> jo_map c = jo_map other"
    using jo_put_all_entries [OF ob1(2,3) uniq, of dflt]
    by (simp add: jo_assign_copy_def jo_map_def)
qed

end
