(* ===== verification/JsonValue.thy ===== *)
theory JsonValue
  imports BG_Prelude
begin

text \<open>
  The values of the JSON document model (\<open>base/json/json_dom.hpp\<close>) and the growable array
  \<open>JsonArray\<close>. \<open>JInt\<close> holds an \<open>int64_t\<close>, \<open>JUint\<close> a \<open>uint64_t\<close>; the type of doubles is a
  parameter \<open>'d\<close>. A string is its bytes, whichever of the storage modes (pooled, owned,
  zero-copy) the node uses. The members of an object are listed in traversal order; theory
  \<open>JsonObject\<close> models the table that stores them.
\<close>

datatype 'd json =
    JNull
  | JBool bool
  | JInt int
  | JUint nat
  | JDouble 'd
  | JString string
  | JArray "'d json list"
  | JObject "(string \<times> 'd json) list"

text \<open>\<open>(*obj)[key] = val\<close> on the members: overwrite in place or append.\<close>

fun obj_set :: "string \<Rightarrow> 'v \<Rightarrow> (string \<times> 'v) list \<Rightarrow> (string \<times> 'v) list" where
  "obj_set k v [] = [(k, v)]"
| "obj_set k v ((k', v') # kvs) =
     (if k' = k then (k', v) # kvs else (k', v') # obj_set k v kvs)"

lemma map_of_obj_set: "map_of (obj_set k v kvs) = (map_of kvs)(k \<mapsto> v)"
  by (induction kvs) auto

lemma set_keys_obj_set: "fst ` set (obj_set k v kvs) = insert k (fst ` set kvs)"
proof (induction kvs)
  case (Cons kv kvs)
  then show ?case by (cases kv) (simp add: insert_commute)
qed simp

lemma distinct_obj_set: "distinct (map fst kvs) \<Longrightarrow> distinct (map fst (obj_set k v kvs))"
proof (induction kvs)
  case (Cons kv kvs)
  then show ?case using set_keys_obj_set [of k v kvs] by (cases kv) auto
qed simp

lemma obj_set_fresh: "k \<notin> fst ` set kvs \<Longrightarrow> obj_set k v kvs = kvs @ [(k, v)]"
  by (induction kvs) auto

subsection \<open>Comparison\<close>

text \<open>
  \<open>Json::operator==\<close>: integers compare by value across the signed and unsigned kinds; a
  comparison that involves a double converts both sides (\<open>to_d\<close>, \<open>d_eq\<close> are the conversion and
  comparison of doubles).
\<close>

function (sequential) json_eq ::
  "('d \<Rightarrow> 'd \<Rightarrow> bool) \<Rightarrow> (int \<Rightarrow> 'd) \<Rightarrow> 'd json \<Rightarrow> 'd json \<Rightarrow> bool" where
  "json_eq d_eq to_d JNull JNull = True"
| "json_eq d_eq to_d (JBool a) (JBool b) = (a = b)"
| "json_eq d_eq to_d (JInt a) (JInt b) = (a = b)"
| "json_eq d_eq to_d (JUint a) (JUint b) = (a = b)"
| "json_eq d_eq to_d (JInt a) (JUint b) = (0 \<le> a \<and> nat a = b)"
| "json_eq d_eq to_d (JUint a) (JInt b) = (0 \<le> b \<and> a = nat b)"
| "json_eq d_eq to_d (JDouble a) (JDouble b) = d_eq a b"
| "json_eq d_eq to_d (JDouble a) (JInt b) = d_eq a (to_d b)"
| "json_eq d_eq to_d (JDouble a) (JUint b) = d_eq a (to_d (int b))"
| "json_eq d_eq to_d (JInt a) (JDouble b) = d_eq (to_d a) b"
| "json_eq d_eq to_d (JUint a) (JDouble b) = d_eq (to_d (int a)) b"
| "json_eq d_eq to_d (JString a) (JString b) = (a = b)"
| "json_eq d_eq to_d (JArray as) (JArray bs) =
     (length as = length bs \<and> list_all (\<lambda>(a, b). json_eq d_eq to_d a b) (zip as bs))"
| "json_eq d_eq to_d (JObject as) (JObject bs) =
     (length as = length bs \<and>
      list_all (\<lambda>(k, a). case map_of bs k of None \<Rightarrow> False | Some b \<Rightarrow> json_eq d_eq to_d a b) as)"
| "json_eq d_eq to_d _ _ = False"
  by pat_completeness auto
termination
proof (relation "measure (\<lambda>(d_eq, to_d, a, b). size a)", goal_cases)
  case (2 d_eq to_d as bs z a b)
  then show ?case
    using size_list_estimation' [of a as "size a" size] by (auto dest!: set_zip_leftD)
next
  case (3 d_eq to_d as bs z k a b)
  then show ?case
    using size_list_estimation' [of "(k, a)" as "size a" "size_prod (\<lambda>x. 0) size"] by auto
qed simp

subsection \<open>JsonArray\<close>

text \<open>The live elements and the allocated capacity; the storage beyond the size is never read.\<close>

record 'v jarr =
  ja_data :: "'v list"
  ja_capacity :: nat

definition ja_new :: "'v jarr" where
  "ja_new = \<lparr>ja_data = [], ja_capacity = 0\<rparr>"

function grow_loop :: "nat \<Rightarrow> nat \<Rightarrow> nat" where
  "grow_loop new_cap min_capacity =
     (if new_cap < min_capacity \<and> 0 < new_cap then grow_loop (new_cap * 2) min_capacity
      else new_cap)"
  by pat_completeness auto
termination
  by (relation "measure (\<lambda>(new_cap, min_capacity). min_capacity - new_cap)") auto

declare grow_loop.simps [simp del]

definition ja_grow :: "'v jarr \<Rightarrow> nat \<Rightarrow> 'v jarr" where
  "ja_grow a min_capacity =
     a\<lparr>ja_capacity :=
         grow_loop (if ja_capacity a \<noteq> 0 then ja_capacity a * 2 else 4) min_capacity\<rparr>"

definition ja_push_back :: "'v jarr \<Rightarrow> 'v \<Rightarrow> 'v jarr" where
  "ja_push_back a v =
     (let a1 = (if ja_capacity a \<le> length (ja_data a) then ja_grow a (length (ja_data a) + 1) else a)
      in a1\<lparr>ja_data := ja_data a1 @ [v]\<rparr>)"

definition ja_reserve :: "'v jarr \<Rightarrow> nat \<Rightarrow> 'v jarr" where
  "ja_reserve a capacity = (if ja_capacity a < capacity then ja_grow a capacity else a)"

definition ja_clear :: "'v jarr \<Rightarrow> 'v jarr" where
  "ja_clear a = a\<lparr>ja_data := []\<rparr>"

definition ja_copy :: "'v jarr \<Rightarrow> 'v jarr" where
  "ja_copy other =
     (if 0 < length (ja_data other)
      then (ja_reserve ja_new (length (ja_data other)))\<lparr>ja_data := ja_data other\<rparr> else ja_new)"

definition ja_assign_copy :: "'v jarr \<Rightarrow> 'v jarr \<Rightarrow> 'v jarr" where
  "ja_assign_copy a other =
     (if 0 < length (ja_data other)
      then (ja_reserve (ja_clear a) (length (ja_data other)))\<lparr>ja_data := ja_data other\<rparr>
      else ja_clear a)"

definition ja_move :: "'v jarr \<Rightarrow> 'v jarr \<times> 'v jarr" where
  "ja_move other = (other, ja_new)"

text \<open>The elements fit into the allocation: every write of the code is in bounds.\<close>

definition ja_inv :: "'v jarr \<Rightarrow> bool" where
  "ja_inv a \<longleftrightarrow> length (ja_data a) \<le> ja_capacity a"

lemma grow_loop_ge: "0 < c \<Longrightarrow> m \<le> grow_loop c m \<and> c \<le> grow_loop c m"
proof (induction c m rule: grow_loop.induct)
  case (1 c m)
  then show ?case by (cases "c < m") (auto simp: grow_loop.simps [of c m])
qed

lemma ja_grow_ge: "m \<le> ja_capacity (ja_grow a m) \<and> ja_capacity a \<le> ja_capacity (ja_grow a m)"
  using grow_loop_ge [of "if ja_capacity a \<noteq> 0 then ja_capacity a * 2 else 4" m]
  by (auto simp: ja_grow_def split: if_splits)

lemma ja_data_grow [simp]: "ja_data (ja_grow a m) = ja_data a"
  by (simp add: ja_grow_def)

lemma ja_push_back_inv: "ja_inv a \<Longrightarrow> ja_inv (ja_push_back a v)"
  using ja_grow_ge [of "length (ja_data a) + 1" a]
  by (auto simp: ja_inv_def ja_push_back_def Let_def)

lemma ja_push_back_data [simp]: "ja_data (ja_push_back a v) = ja_data a @ [v]"
  by (simp add: ja_push_back_def Let_def)

lemma ja_reserve_ge: "c \<le> ja_capacity (ja_reserve a c) \<and> ja_data (ja_reserve a c) = ja_data a"
  using ja_grow_ge [of c a] by (auto simp: ja_reserve_def)

text \<open>
  \<open>JsonArray\<close> never writes past its allocation: appending, reserving, clearing and copying keep
  the size within the capacity, appending adds exactly one element at the end, and a copy has
  the elements of its source.
\<close>

theorem ja_ops_in_bounds:
  assumes "ja_inv a"
  shows "ja_inv (ja_push_back a v) \<and> ja_data (ja_push_back a v) = ja_data a @ [v] \<and>
     ja_inv (ja_reserve a n) \<and> n \<le> ja_capacity (ja_reserve a n) \<and>
     ja_data (ja_reserve a n) = ja_data a \<and> ja_inv (ja_clear a) \<and>
     ja_inv (ja_copy b) \<and> ja_data (ja_copy b) = ja_data b \<and>
     ja_inv (ja_assign_copy a b) \<and> ja_data (ja_assign_copy a b) = ja_data b"
proof -
  have "ja_inv (ja_reserve a n)"
    using assms ja_grow_ge [of n a] by (auto simp: ja_reserve_def ja_inv_def)
  moreover have "ja_inv (ja_copy b)" "ja_data (ja_copy b) = ja_data b"
    using ja_reserve_ge [of "length (ja_data b)" ja_new]
    by (auto simp: ja_copy_def ja_inv_def ja_new_def)
  moreover have "ja_inv (ja_assign_copy a b)" "ja_data (ja_assign_copy a b) = ja_data b"
    using ja_reserve_ge [of "length (ja_data b)" "ja_clear a"]
    by (auto simp: ja_assign_copy_def ja_inv_def ja_clear_def)
  ultimately show ?thesis
    using assms ja_push_back_inv [OF assms] ja_reserve_ge [of n a]
    by (simp add: ja_clear_def ja_inv_def)
qed

theorem ja_ops_in_bounds_witness:
  "ja_inv (ja_push_back (ja_new :: nat jarr) 3) \<and> ja_data (ja_push_back ja_new 3) = [3 :: nat]"
proof -
  have inv: "ja_inv (ja_new :: nat jarr)" by (simp add: ja_inv_def ja_new_def)
  show ?thesis using ja_ops_in_bounds [OF inv, of 3] by (simp add: ja_new_def)
qed

end
