(* ===== verification/JsonParser.thy ===== *)
theory JsonParser
  imports JsonValue
begin

text \<open>
  The recursive-descent parser of \<open>base/json/json_parser.cpp\<close>. The cursor \<open>ptr_\<close> is the rest of
  the input, so the position of an error is the length of the input minus the length of the rest.
  An error carries its message, the rest where it was raised, and (in \<open>Failed\<close>) the value the
  function still returns: the container built so far. The conversion of a number with a fraction
  or an exponent is the C library's \<open>strtod\<close>, a parameter that returns \<open>None\<close> where the code
  reports a range error. Nesting is bounded only by the input; the mutual recursion carries
  fuel, and the length of the input is shown to be enough.
\<close>

subsection \<open>Lexical operations\<close>

definition is_ws :: "char \<Rightarrow> bool" where
  "is_ws c \<longleftrightarrow> c = CHR '' '' \<or> c = CHR 0x09 \<or> c = CHR 0x0A \<or> c = CHR 0x0D"

fun skip_whitespace :: "string \<Rightarrow> string" where
  "skip_whitespace [] = []"
| "skip_whitespace (c # cs) = (if is_ws c then skip_whitespace cs else c # cs)"

text \<open>\<open>match(expected)\<close>: the rest after the character, if it is next.\<close>

definition match :: "char \<Rightarrow> string \<Rightarrow> string option" where
  "match expected s = (case s of [] \<Rightarrow> None | c # r \<Rightarrow> if c = expected then Some r else None)"

definition is_digit :: "char \<Rightarrow> bool" where
  "is_digit c \<longleftrightarrow> 48 \<le> byte c \<and> byte c \<le> 57"

type_synonym err = "string \<times> string"

subsection \<open>Strings\<close>

definition hex_digit :: "char \<Rightarrow> nat option" where
  "hex_digit c =
     (let b = byte c in
      if 48 \<le> b \<and> b \<le> 57 then Some (b - 48)
      else if 97 \<le> b \<and> b \<le> 102 then Some (b - 97 + 10)
      else if 65 \<le> b \<and> b \<le> 70 then Some (b - 65 + 10)
      else None)"

text \<open>The low four bits are free after the shift, so \<open>cp |= digit\<close> is an addition.\<close>

fun hex_run :: "nat \<Rightarrow> nat \<Rightarrow> string \<Rightarrow> nat option" where
  "hex_run 0 cp s = Some cp"
| "hex_run (Suc n) cp [] = None"
| "hex_run (Suc n) cp (c # cs) =
     (case hex_digit c of None \<Rightarrow> None | Some d \<Rightarrow> hex_run n (cp * 16 + d) cs)"

text \<open>UTF-8 encoding; the payload bits of each byte are below its tag bits.\<close>

definition utf8_encode :: "nat \<Rightarrow> string" where
  "utf8_encode cp =
     (if cp \<le> 0x7F then [char_of cp]
      else if cp \<le> 0x7FF then [char_of (0xC0 + cp div 64), char_of (0x80 + cp mod 64)]
      else if cp \<le> 0xFFFF then
        [char_of (0xE0 + cp div 4096), char_of (0x80 + cp div 64 mod 64),
         char_of (0x80 + cp mod 64)]
      else if cp \<le> 0x10FFFF then
        [char_of (0xF0 + cp div 262144), char_of (0x80 + cp div 4096 mod 64),
         char_of (0x80 + cp div 64 mod 64), char_of (0x80 + cp mod 64)]
      else [])"

text \<open>The rest after \<open>\u\<close>.\<close>

definition unescape_u :: "string \<Rightarrow> err + (string \<times> string)" where
  "unescape_u s =
     (if length s < 4 then Inl (''Invalid unicode escape'', s)
      else case hex_run 4 0 s of
        None \<Rightarrow> Inl (''Invalid hex digit'', s)
      | Some cp \<Rightarrow>
          (let r = drop 4 s in
           if 0xD800 \<le> cp \<and> cp \<le> 0xDBFF then
             (if length r < 6 \<or> r ! 0 \<noteq> CHR 0x5C \<or> r ! 1 \<noteq> CHR ''u''
              then Inl (''Missing low surrogate'', r)
              else case hex_run 4 0 (drop 2 r) of
                None \<Rightarrow> Inl (''Invalid hex digit'', r)
              | Some lo \<Rightarrow>
                  if lo < 0xDC00 \<or> 0xDFFF < lo then Inl (''Invalid low surrogate'', r)
                  else Inr (utf8_encode (0x10000 + (cp - 0xD800) * 1024 + (lo - 0xDC00)),
                            drop 6 r))
           else Inr (utf8_encode cp, r)))"

text \<open>The rest after a backslash.\<close>

definition unescape :: "string \<Rightarrow> err + (string \<times> string)" where
  "unescape s =
     (case s of
        [] \<Rightarrow> Inl (''Unterminated escape'', [])
      | esc # r \<Rightarrow>
          if esc = CHR 0x22 then Inr ([CHR 0x22], r)
          else if esc = CHR 0x5C then Inr ([CHR 0x5C], r)
          else if esc = CHR ''/'' then Inr ([CHR ''/''], r)
          else if esc = CHR ''b'' then Inr ([CHR 0x08], r)
          else if esc = CHR ''f'' then Inr ([CHR 0x0C], r)
          else if esc = CHR ''n'' then Inr ([CHR 0x0A], r)
          else if esc = CHR ''r'' then Inr ([CHR 0x0D], r)
          else if esc = CHR ''t'' then Inr ([CHR 0x09], r)
          else if esc = CHR ''u'' then unescape_u r
          else Inl (''Invalid escape character'', r))"

text \<open>
  The fast path: up to the closing quote, or to the first backslash, where the slow path takes
  over with the bytes read so far.
\<close>

datatype fast_result = Closed string string | Escape string string | FastError string string

fun fast_scan :: "string \<Rightarrow> string \<Rightarrow> fast_result" where
  "fast_scan acc [] = FastError ''Unterminated string'' []"
| "fast_scan acc (c # cs) =
     (if c = CHR 0x22 then Closed acc cs
      else if c = CHR 0x5C then Escape acc (c # cs)
      else if byte c < 0x20 then FastError ''Control character in string'' (c # cs)
      else fast_scan (acc @ [c]) cs)"

lemma unescape_u_length: "unescape_u s = Inr (bs, r) \<Longrightarrow> length r \<le> length s"
  by (auto simp: unescape_u_def Let_def split: if_splits option.splits)

lemma unescape_length: "unescape s = Inr (bs, r) \<Longrightarrow> length r < length s"
  by (auto simp: unescape_def dest!: unescape_u_length split: list.splits if_splits)

function slow_loop :: "string \<Rightarrow> string \<Rightarrow> err + (string \<times> string)" where
  "slow_loop acc s =
     (case s of
        [] \<Rightarrow> Inl (''Unterminated string'', [])
      | c # cs \<Rightarrow>
          if c = CHR 0x22 then Inr (acc, cs)
          else if c = CHR 0x5C then
            (case unescape cs of Inl e \<Rightarrow> Inl e | Inr (bs, r) \<Rightarrow> slow_loop (acc @ bs) r)
          else if byte c < 0x20 then Inl (''Control character in string'', s)
          else slow_loop (acc @ [c]) cs)"
  by pat_completeness auto
termination
  by (relation "measure (\<lambda>(acc, s). length s)") (auto dest: unescape_length)

declare slow_loop.simps [simp del]

definition parse_string :: "string \<Rightarrow> err + (string \<times> string)" where
  "parse_string s =
     (case match (CHR 0x22) s of
        None \<Rightarrow> Inl (''Expected '' @ [CHR 0x27, CHR 0x22, CHR 0x27], s)
      | Some r \<Rightarrow>
          (case fast_scan [] r of
             Closed str r' \<Rightarrow> Inr (str, r')
           | Escape str r' \<Rightarrow> slow_loop str r'
           | FastError m r' \<Rightarrow> Inl (m, r')))"

subsection \<open>Numbers and literals\<close>

definition dec_val :: "string \<Rightarrow> nat" where
  "dec_val ds = foldl (\<lambda>n c. n * 10 + (byte c - 48)) 0 ds"

text \<open>The integer part: an optional minus, then 0 or a digit run that does not start with 0.\<close>

definition scan_int :: "string \<Rightarrow> err + string" where
  "scan_int s =
     (let s1 = (case match (CHR ''-'') s of None \<Rightarrow> s | Some r \<Rightarrow> r) in
      case s1 of
        [] \<Rightarrow> Inl (''Invalid number'', s1)
      | c # r \<Rightarrow>
          if c = CHR ''0'' then Inr r
          else if is_digit c then Inr (dropWhile is_digit r)
          else Inl (''Invalid number'', s1))"

definition starts_digit :: "string \<Rightarrow> bool" where
  "starts_digit s \<longleftrightarrow> (case s of [] \<Rightarrow> False | c # r \<Rightarrow> is_digit c)"

definition scan_frac :: "string \<Rightarrow> err + (bool \<times> string)" where
  "scan_frac s =
     (case match (CHR ''.'') s of
        None \<Rightarrow> Inr (False, s)
      | Some r \<Rightarrow>
          if starts_digit r then Inr (True, dropWhile is_digit r)
          else Inl (''Invalid number: no digit after '' @ [CHR 0x27, CHR ''.'', CHR 0x27], r))"

definition scan_exp :: "string \<Rightarrow> err + (bool \<times> string)" where
  "scan_exp s =
     (case s of
        [] \<Rightarrow> Inr (False, s)
      | c # r \<Rightarrow>
          if c = CHR ''e'' \<or> c = CHR ''E'' then
            (let r1 = (case r of
                         [] \<Rightarrow> r
                       | d # r' \<Rightarrow> if d = CHR ''+'' \<or> d = CHR ''-'' then r' else r)
             in if starts_digit r1 then Inr (True, dropWhile is_digit r1)
                else Inl (''Invalid number: no digit in exponent'', r1))
          else Inr (False, s))"

text \<open>\<open>strtoll\<close> and \<open>strtoull\<close> report \<open>ERANGE\<close> outside the 64-bit ranges.\<close>

definition convert_number :: "(string \<Rightarrow> 'd option) \<Rightarrow> bool \<Rightarrow> string \<Rightarrow> 'd json option" where
  "convert_number strtod is_float txt =
     (if is_float then map_option JDouble (strtod txt)
      else case match (CHR ''-'') txt of
        Some ds \<Rightarrow> if dec_val ds \<le> 2 ^ 63 then Some (JInt (- int (dec_val ds))) else None
      | None \<Rightarrow> if dec_val txt < 2 ^ 64 then Some (JUint (dec_val txt)) else None)"

definition parse_number :: "(string \<Rightarrow> 'd option) \<Rightarrow> string \<Rightarrow> err + ('d json \<times> string)" where
  "parse_number strtod s =
     (case scan_int s of
        Inl e \<Rightarrow> Inl e
      | Inr s2 \<Rightarrow>
          (case scan_frac s2 of
             Inl e \<Rightarrow> Inl e
           | Inr (frac, s3) \<Rightarrow>
               (case scan_exp s3 of
                  Inl e \<Rightarrow> Inl e
                | Inr (exp, s4) \<Rightarrow>
                    (case convert_number strtod (frac \<or> exp) (take (length s - length s4) s) of
                       None \<Rightarrow> Inl (''Number out of range'', s4)
                     | Some v \<Rightarrow> Inr (v, s4)))))"

definition parse_literal :: "string \<Rightarrow> 'd json \<Rightarrow> string \<Rightarrow> err + ('d json \<times> string)" where
  "parse_literal expected result s =
     (if length expected \<le> length s \<and> take (length expected) s = expected
      then Inr (result, drop (length expected) s)
      else Inl (''Invalid literal'', s))"

subsection \<open>Values\<close>

datatype 'd parsed = Done "'d json" string | Failed "'d json" string string | OutOfFuel

definition of_result :: "err + ('d json \<times> string) \<Rightarrow> 'd parsed" where
  "of_result x = (case x of Inl (m, r) \<Rightarrow> Failed JNull m r | Inr (v, r) \<Rightarrow> Done v r)"

text \<open>
  The mutual recursion is written with the recursive call as an argument \<open>pv\<close>: the two loops
  of the containers take the parser of a nested value, and \<open>parse_value\<close> ties the knot. One
  iteration of the object loop reads a key and its colon, a value, and a separator.
\<close>

definition quoted :: "char \<Rightarrow> string" where
  "quoted c = [CHR 0x27, c, CHR 0x27]"

definition parse_key :: "string \<Rightarrow> err + (string \<times> string)" where
  "parse_key s0 =
     (let s = skip_whitespace s0 in
      if s = [] \<or> hd s \<noteq> CHR 0x22 then Inl (''Expected string key in object'', s)
      else case parse_string s of
        Inl e \<Rightarrow> Inl e
      | Inr (key, r) \<Rightarrow>
          (case match (CHR '':'') (skip_whitespace r) of
             None \<Rightarrow> Inl (''Expected '' @ quoted (CHR '':'') @ '' after key'', skip_whitespace r)
           | Some r1 \<Rightarrow> Inr (key, r1)))"

text \<open>After an element: the closing bracket (\<open>True\<close>), a comma (\<open>False\<close>), or an error.\<close>

definition parse_sep :: "char \<Rightarrow> string \<Rightarrow> string \<Rightarrow> err + (bool \<times> string)" where
  "parse_sep close ctx s0 =
     (let s = skip_whitespace s0 in
      case match close s of
        Some r \<Rightarrow> Inr (True, r)
      | None \<Rightarrow>
          (case match (CHR '','') s of
             Some r \<Rightarrow> Inr (False, r)
           | None \<Rightarrow>
               Inl (''Expected '' @ quoted (CHR '','') @ '' or '' @ quoted close @ ctx, s)))"

primrec object_loop ::
  "(string \<Rightarrow> 'd parsed) \<Rightarrow> nat \<Rightarrow> (string \<times> 'd json) list \<Rightarrow> string \<Rightarrow> 'd parsed" where
  "object_loop pv 0 acc s = OutOfFuel"
| "object_loop pv (Suc n) acc s =
     (case parse_key s of
        Inl (m, r) \<Rightarrow> Failed (JObject acc) m r
      | Inr (key, r) \<Rightarrow>
          (case pv r of
             OutOfFuel \<Rightarrow> OutOfFuel
           | Failed v m r1 \<Rightarrow> Failed (JObject acc) m r1
           | Done v r1 \<Rightarrow>
               (case parse_sep (CHR ''}'') '' in object'' r1 of
                  Inl (m, r2) \<Rightarrow> Failed (JObject (obj_set key v acc)) m r2
                | Inr (fin, r2) \<Rightarrow>
                    if fin then Done (JObject (obj_set key v acc)) r2
                    else object_loop pv n (obj_set key v acc) r2)))"

primrec array_loop ::
  "(string \<Rightarrow> 'd parsed) \<Rightarrow> nat \<Rightarrow> 'd json list \<Rightarrow> string \<Rightarrow> 'd parsed" where
  "array_loop pv 0 acc s = OutOfFuel"
| "array_loop pv (Suc n) acc s =
     (case pv (skip_whitespace s) of
        OutOfFuel \<Rightarrow> OutOfFuel
      | Failed v m r \<Rightarrow> Failed (JArray acc) m r
      | Done v r \<Rightarrow>
          (case parse_sep (CHR '']'') '' in array'' r of
             Inl (m, r1) \<Rightarrow> Failed (JArray (acc @ [v])) m r1
           | Inr (fin, r1) \<Rightarrow>
               if fin then Done (JArray (acc @ [v])) r1 else array_loop pv n (acc @ [v]) r1))"

definition parse_object :: "(string \<Rightarrow> 'd parsed) \<Rightarrow> string \<Rightarrow> 'd parsed" where
  "parse_object pv s =
     (case match (CHR ''{'') s of
        None \<Rightarrow> Failed JNull (''Expected '' @ quoted (CHR ''{'')) s
      | Some r \<Rightarrow>
          (case match (CHR ''}'') (skip_whitespace r) of
             Some r1 \<Rightarrow> Done (JObject []) r1
           | None \<Rightarrow> object_loop pv (length s) [] (skip_whitespace r)))"

definition parse_array :: "(string \<Rightarrow> 'd parsed) \<Rightarrow> string \<Rightarrow> 'd parsed" where
  "parse_array pv s =
     (case match (CHR ''['') s of
        None \<Rightarrow> Failed JNull (''Expected '' @ quoted (CHR ''['')) s
      | Some r \<Rightarrow>
          (case match (CHR '']'') (skip_whitespace r) of
             Some r1 \<Rightarrow> Done (JArray []) r1
           | None \<Rightarrow> array_loop pv (length s) [] (skip_whitespace r)))"

primrec parse_value :: "(string \<Rightarrow> 'd option) \<Rightarrow> nat \<Rightarrow> string \<Rightarrow> 'd parsed" where
  "parse_value strtod 0 s0 = OutOfFuel"
| "parse_value strtod (Suc fuel) s0 =
     (let s = skip_whitespace s0 in
      case s of
        [] \<Rightarrow> Failed JNull ''Unexpected end of input'' s
      | c # r \<Rightarrow>
          if c = CHR ''n'' then of_result (parse_literal ''null'' JNull s)
          else if c = CHR ''t'' then of_result (parse_literal ''true'' (JBool True) s)
          else if c = CHR ''f'' then of_result (parse_literal ''false'' (JBool False) s)
          else if c = CHR 0x22 then
            of_result (map_sum id (\<lambda>(str, r'). (JString str, r')) (parse_string s))
          else if c = CHR ''{'' then parse_object (parse_value strtod fuel) s
          else if c = CHR ''['' then parse_array (parse_value strtod fuel) s
          else if c = CHR ''-'' \<or> is_digit c then of_result (parse_number strtod s)
          else Failed JNull ''Unexpected character'' s)"

text \<open>
  \<open>JsonParser::parse\<close>: the value returned and, on error, the message with its position. The
  nesting depth is bounded by the length of the input.
\<close>

definition parse ::
  "(string \<Rightarrow> 'd option) \<Rightarrow> string \<Rightarrow> ('d json \<times> (string \<times> nat) option) option" where
  "parse strtod s =
     (case parse_value strtod (Suc (length s)) s of
        OutOfFuel \<Rightarrow> None
      | Failed v m r \<Rightarrow> Some (v, Some (m, length s - length r))
      | Done v r \<Rightarrow>
          (let r1 = skip_whitespace r in
           if r1 = [] then Some (v, None)
           else Some (JNull, Some (''Unexpected data after JSON value'', length s - length r1))))"

subsection \<open>Every function consumes input\<close>

lemma skip_whitespace_length [simp]: "length (skip_whitespace s) \<le> length s"
  by (induction s) auto

lemma match_Some: "match c s = Some r \<longleftrightarrow> s = c # r"
  by (cases s) (auto simp: match_def)

lemma match_simps [simp]:
  "match c [] = None"
  "match c (d # r) = (if d = c then Some r else None)"
  by (simp_all add: match_def)

lemma fast_scan_length:
  "fast_scan acc s = Closed str r \<Longrightarrow> length r < length s"
  "fast_scan acc s = Escape str r \<Longrightarrow> length r \<le> length s"
  by (induction acc s rule: fast_scan.induct) (auto split: if_splits)

lemma slow_loop_Cons:
  "slow_loop acc (c # cs) =
     (if c = CHR 0x22 then Inr (acc, cs)
      else if c = CHR 0x5C then bind_sum (unescape cs) (\<lambda>(bs, r). slow_loop (acc @ bs) r)
      else if byte c < 0x20 then Inl (''Control character in string'', c # cs)
      else slow_loop (acc @ [c]) cs)"
  by (simp add: slow_loop.simps [of acc "c # cs"] bind_sum_def split: sum.split)

lemma slow_loop_Nil: "slow_loop acc [] = Inl (''Unterminated string'', [])"
  by (simp add: slow_loop.simps)

lemma slow_loop_length: "slow_loop acc s = Inr (str, r) \<Longrightarrow> length r < length s"
proof (induction s arbitrary: acc rule: measure_induct_rule [of length])
  case (less s)
  show ?case
  proof (cases s)
    case Nil
    then show ?thesis using less.prems by (simp add: slow_loop_Nil)
  next
    case (Cons c cs)
    have "length r < length s" if "unescape cs = Inr (bs, r')" "slow_loop acc' r' = Inr (str, r)"
      for bs r' acc'
      using less.IH [of r' acc'] unescape_length [OF that(1)] that(2) Cons by simp
    moreover have "length r < length s" if "slow_loop acc' cs = Inr (str, r)" for acc'
      using less.IH [of cs acc'] that Cons by simp
    ultimately show ?thesis
      using less.prems Cons by (auto simp: slow_loop_Cons bind_sum_Inr split: if_splits)
  qed
qed

lemma parse_string_length: "parse_string s = Inr (str, r) \<Longrightarrow> length r < length s"
  by (force simp: parse_string_def match_Some dest: fast_scan_length slow_loop_length
    split: option.splits fast_result.splits)

lemma dropWhile_length [simp]: "length (dropWhile P s) \<le> length s"
  by (rule length_dropWhile_le)

lemma scan_int_length: "scan_int s = Inr r \<Longrightarrow> length r < length s"
  using dropWhile_length [of is_digit]
  by (auto simp: scan_int_def Let_def match_Some less_Suc_eq_le le_SucI
    split: option.splits list.splits if_splits)

lemma scan_frac_length: "scan_frac s = Inr (b, r) \<Longrightarrow> length r \<le> length s"
  by (auto simp: scan_frac_def match_Some le_SucI split: option.splits if_splits)

lemma scan_exp_length: "scan_exp s = Inr (b, r) \<Longrightarrow> length r \<le> length s"
  by (auto simp: scan_exp_def Let_def le_SucI split: list.splits if_splits)

lemma parse_number_length: "parse_number strtod s = Inr (v, r) \<Longrightarrow> length r < length s"
  by (fastforce simp: parse_number_def
    dest!: scan_int_length scan_frac_length scan_exp_length split: sum.splits option.splits)

lemma parse_literal_length:
  "parse_literal l v s = Inr (v', r) \<Longrightarrow> l \<noteq> [] \<Longrightarrow> length r < length s"
  by (cases l) (auto simp: parse_literal_def split: if_splits)

lemma skip_whitespace_Cons: "skip_whitespace s = c # r \<Longrightarrow> length r < length s"
  using skip_whitespace_length [of s] by simp

lemma parse_sep_length: "parse_sep c w s = Inr (b, r) \<Longrightarrow> length r < length s"
  by (auto simp: parse_sep_def Let_def match_Some dest: skip_whitespace_Cons
    split: option.splits)

lemma parse_key_Inr:
  "parse_key s = Inr (k, r) \<longleftrightarrow>
   (\<exists>r0. skip_whitespace s \<noteq> [] \<and> hd (skip_whitespace s) = CHR 0x22 \<and>
         parse_string (skip_whitespace s) = Inr (k, r0) \<and> skip_whitespace r0 = CHR '':'' # r)"
  by (auto simp: parse_key_def Let_def match_Some split: sum.splits option.splits)

lemma parse_key_length: "parse_key s = Inr (k, r) \<Longrightarrow> length r < length s"
  unfolding parse_key_Inr
  using skip_whitespace_length [of s] parse_string_length skip_whitespace_Cons
  by (metis order.strict_trans order.strict_trans2)

definition consumes :: "(string \<Rightarrow> 'd parsed) \<Rightarrow> bool" where
  "consumes pv \<longleftrightarrow> (\<forall>s v r. pv s = Done v r \<longrightarrow> length r < length s)"

lemma consumesD: "consumes pv \<Longrightarrow> pv s = Done v r \<Longrightarrow> length r < length s"
  by (simp add: consumes_def)

lemma object_loop_Done:
  "object_loop pv (Suc n) acc s = Done v r \<longleftrightarrow>
   (\<exists>k r0 v1 r1 fin r2. parse_key s = Inr (k, r0) \<and> pv r0 = Done v1 r1 \<and>
      parse_sep (CHR ''}'') '' in object'' r1 = Inr (fin, r2) \<and>
      (if fin then v = JObject (obj_set k v1 acc) \<and> r = r2
       else object_loop pv n (obj_set k v1 acc) r2 = Done v r))"
  by (auto split: sum.splits parsed.splits if_splits)

lemma array_loop_Done:
  "array_loop pv (Suc n) acc s = Done v r \<longleftrightarrow>
   (\<exists>v1 r1 fin r2. pv (skip_whitespace s) = Done v1 r1 \<and>
      parse_sep (CHR '']'') '' in array'' r1 = Inr (fin, r2) \<and>
      (if fin then v = JArray (acc @ [v1]) \<and> r = r2
       else array_loop pv n (acc @ [v1]) r2 = Done v r))"
  by (auto split: sum.splits parsed.splits if_splits)

lemma object_loop_length:
  "consumes pv \<Longrightarrow> object_loop pv n acc s = Done v r \<Longrightarrow> length r < length s"
proof (induction n arbitrary: acc s)
  case (Suc n)
  obtain k r0 v1 r1 fin r2 where st: "parse_key s = Inr (k, r0)" "pv r0 = Done v1 r1"
      "parse_sep (CHR ''}'') '' in object'' r1 = Inr (fin, r2)"
    and re: "if fin then v = JObject (obj_set k v1 acc) \<and> r = r2
             else object_loop pv n (obj_set k v1 acc) r2 = Done v r"
    using Suc.prems(2) unfolding object_loop_Done by blast
  have "length r2 < length s"
    using parse_key_length [OF st(1)] consumesD [OF Suc.prems(1) st(2)] parse_sep_length [OF st(3)]
    by simp
  with re show ?case
    using Suc.IH [OF Suc.prems(1), of "obj_set k v1 acc" r2] by (auto split: if_splits)
qed simp

lemma array_loop_length:
  "consumes pv \<Longrightarrow> array_loop pv n acc s = Done v r \<Longrightarrow> length r < length s"
proof (induction n arbitrary: acc s)
  case (Suc n)
  obtain v1 r1 fin r2 where st: "pv (skip_whitespace s) = Done v1 r1"
      "parse_sep (CHR '']'') '' in array'' r1 = Inr (fin, r2)"
    and re: "if fin then v = JArray (acc @ [v1]) \<and> r = r2
             else array_loop pv n (acc @ [v1]) r2 = Done v r"
    using Suc.prems(2) unfolding array_loop_Done by blast
  have "length r2 < length s"
    using skip_whitespace_length [of s] consumesD [OF Suc.prems(1) st(1)] parse_sep_length [OF st(2)]
    by linarith
  with re show ?case
    using Suc.IH [OF Suc.prems(1), of "acc @ [v1]" r2] by (auto split: if_splits)
qed simp

declare object_loop.simps(2) [simp del] array_loop.simps(2) [simp del]

lemma parse_object_Done:
  assumes "parse_object pv s = Done v r"
  shows "\<exists>s'. s = CHR ''{'' # s' \<and>
    (skip_whitespace s' = CHR ''}'' # r \<and> v = JObject [] \<or>
     object_loop pv (length s) [] (skip_whitespace s') = Done v r)"
  using assms by (auto simp: parse_object_def match_Some split: option.splits)

lemma parse_array_Done:
  assumes "parse_array pv s = Done v r"
  shows "\<exists>s'. s = CHR ''['' # s' \<and>
    (skip_whitespace s' = CHR '']'' # r \<and> v = JArray [] \<or>
     array_loop pv (length s) [] (skip_whitespace s') = Done v r)"
  using assms by (auto simp: parse_array_def match_Some split: option.splits)

lemma parse_object_length:
  assumes "consumes pv" and "parse_object pv s = Done v r"
  shows "length r < length s"
proof -
  obtain s' where s: "s = CHR ''{'' # s'"
    and d: "skip_whitespace s' = CHR ''}'' # r \<and> v = JObject [] \<or>
      object_loop pv (length s) [] (skip_whitespace s') = Done v r"
    using parse_object_Done [OF assms(2)] by blast
  from d have "length r < length s'"
    using object_loop_length [OF assms(1)] skip_whitespace_Cons skip_whitespace_length [of s']
    by (meson order.strict_trans2)
  then show ?thesis using s by simp
qed

lemma parse_array_length:
  assumes "consumes pv" and "parse_array pv s = Done v r"
  shows "length r < length s"
proof -
  obtain s' where s: "s = CHR ''['' # s'"
    and d: "skip_whitespace s' = CHR '']'' # r \<and> v = JArray [] \<or>
      array_loop pv (length s) [] (skip_whitespace s') = Done v r"
    using parse_array_Done [OF assms(2)] by blast
  from d have "length r < length s'"
    using array_loop_length [OF assms(1)] skip_whitespace_Cons skip_whitespace_length [of s']
    by (meson order.strict_trans2)
  then show ?thesis using s by simp
qed

lemma of_result_Done: "of_result x = Done v r \<longleftrightarrow> x = Inr (v, r)"
  by (auto simp: of_result_def split: sum.splits)

lemma parse_string_value:
  "map_sum id (\<lambda>(str, r'). (JString str, r')) x = Inr (v, r) \<longleftrightarrow>
   (\<exists>str. x = Inr (str, r) \<and> v = JString str)"
  by (cases x) auto

text \<open>The cases of a successful \<open>parse_value\<close>.\<close>

lemma parse_literal_Inr:
  "parse_literal l v s = Inr (v', r) \<longleftrightarrow> v' = v \<and> s = l @ r"
  by (auto simp: parse_literal_def) (metis append_take_drop_id)

lemma parse_value_Done:
  assumes "parse_value strtod (Suc fuel) s0 = Done v r"
  defines "s \<equiv> skip_whitespace s0"
  shows "(\<exists>l. (l, v) \<in> {(''null'', JNull), (''true'', JBool True), (''false'', JBool False)} \<and>
              s = l @ r) \<or>
         (\<exists>str. parse_string s = Inr (str, r) \<and> v = JString str) \<or>
         parse_object (parse_value strtod fuel) s = Done v r \<or>
         parse_array (parse_value strtod fuel) s = Done v r \<or>
         parse_number strtod s = Inr (v, r)"
proof (cases s)
  case Nil
  then show ?thesis using assms by simp
next
  case (Cons c cs)
  then show ?thesis
    using assms(1) unfolding parse_value.simps s_def [symmetric] Let_def Cons
    by (auto simp only: of_result_Done parse_literal_Inr parse_string_value list.case
      split: if_splits)
qed

lemma parse_value_consumes: "consumes (parse_value strtod fuel)"
proof (induction fuel)
  case (Suc fuel)
  have "length r < length s0"
    if "parse_value strtod (Suc fuel) s0 = Done v r" for s0 v r
  proof -
    have "length r < length (skip_whitespace s0)"
      using parse_value_Done [OF that] parse_number_length parse_string_length
        parse_object_length [OF Suc] parse_array_length [OF Suc]
      by fastforce
    then show ?thesis using skip_whitespace_length [of s0] by linarith
  qed
  then show ?case
    unfolding consumes_def by blast
qed (simp add: consumes_def)

subsection \<open>The fuel is enough\<close>

lemma object_loop_fuel:
  assumes "consumes pv" and "\<And>s'. length s' < length s \<Longrightarrow> pv s' \<noteq> OutOfFuel"
    and "length s < n"
  shows "object_loop pv n acc s \<noteq> OutOfFuel"
  using assms(2,3)
proof (induction n arbitrary: acc s)
  case (Suc n)
  have "object_loop pv n acc' r2 \<noteq> OutOfFuel"
    if "parse_key s = Inr (k, r)" "pv r = Done v r1" "parse_sep c w r1 = Inr (b, r2)"
    for acc' k r v r1 c w b r2
  proof (rule Suc.IH)
    have *: "length r2 < length s"
      using parse_key_length [OF that(1)] consumesD [OF assms(1) that(2)]
        parse_sep_length [OF that(3)] by simp
    then show "length r2 < n" using Suc.prems(2) by simp
    show "pv s' \<noteq> OutOfFuel" if "length s' < length r2" for s'
      using * that by (intro Suc.prems(1)) simp
  qed
  moreover have "pv r \<noteq> OutOfFuel" if "parse_key s = Inr (k, r)" for k r
    using Suc.prems(1) parse_key_length [OF that] .
  ultimately show ?case
    by (auto simp: object_loop.simps(2) split: sum.splits parsed.splits)
qed simp

lemma array_loop_fuel:
  assumes "consumes pv" and "\<And>s'. length s' \<le> length s \<Longrightarrow> pv s' \<noteq> OutOfFuel"
    and "length s < n"
  shows "array_loop pv n acc s \<noteq> OutOfFuel"
  using assms(2,3)
proof (induction n arbitrary: acc s)
  case (Suc n)
  have "array_loop pv n acc' r2 \<noteq> OutOfFuel"
    if "pv (skip_whitespace s) = Done v r1" "parse_sep c w r1 = Inr (b, r2)"
    for acc' v r1 c w b r2
  proof (rule Suc.IH)
    have *: "length r2 < length s"
      using skip_whitespace_length [of s] consumesD [OF assms(1) that(1)]
        parse_sep_length [OF that(2)] by linarith
    then show "length r2 < n" using Suc.prems(2) by simp
    show "pv s' \<noteq> OutOfFuel" if "length s' \<le> length r2" for s'
      using * that by (intro Suc.prems(1)) simp
  qed
  moreover have "pv (skip_whitespace s) \<noteq> OutOfFuel"
    by (rule Suc.prems(1)) simp
  ultimately show ?case
    by (auto simp: array_loop.simps(2) split: sum.splits parsed.splits)
qed simp

lemma parse_object_fuel:
  assumes "consumes pv" and "\<And>s'. length s' < length s \<Longrightarrow> pv s' \<noteq> OutOfFuel"
  shows "parse_object pv s \<noteq> OutOfFuel"
proof -
  have "object_loop pv (length s) [] (skip_whitespace s') \<noteq> OutOfFuel" if "s = c # s'" for c s'
  proof (intro object_loop_fuel assms)
    show "length (skip_whitespace s') < length s"
      using that skip_whitespace_length [of s'] by (simp add: less_Suc_eq_le)
    then show "length t < length s" if "length t < length (skip_whitespace s')" for t
      using that by simp
  qed
  then show ?thesis by (auto simp: parse_object_def match_Some split: option.splits)
qed

lemma parse_array_fuel:
  assumes "consumes pv" and "\<And>s'. length s' < length s \<Longrightarrow> pv s' \<noteq> OutOfFuel"
  shows "parse_array pv s \<noteq> OutOfFuel"
proof -
  have "array_loop pv (length s) [] (skip_whitespace s') \<noteq> OutOfFuel" if "s = c # s'" for c s'
  proof (intro array_loop_fuel assms)
    show "length (skip_whitespace s') < length s"
      using that skip_whitespace_length [of s'] by (simp add: less_Suc_eq_le)
    then show "length t < length s" if "length t \<le> length (skip_whitespace s')" for t
      using that by simp
  qed
  then show ?thesis by (auto simp: parse_array_def match_Some split: option.splits)
qed

lemma of_result_fuel [simp]: "of_result x \<noteq> OutOfFuel"
  by (auto simp: of_result_def split: sum.splits)

lemma parse_value_fuel: "length s < fuel \<Longrightarrow> parse_value strtod fuel s \<noteq> OutOfFuel"
proof (induction fuel arbitrary: s)
  case (Suc fuel)
  have sub: "parse_value strtod fuel s' \<noteq> OutOfFuel" if "length s' < length (skip_whitespace s)" for s'
    using that Suc.prems skip_whitespace_length [of s] by (intro Suc.IH) linarith
  show ?case
    using parse_object_fuel [OF parse_value_consumes sub]
      parse_array_fuel [OF parse_value_consumes sub]
    by (simp add: Let_def split: list.split)
qed simp

subsection \<open>Well-formed results\<close>

fun json_wf :: "'d json \<Rightarrow> bool" where
  "json_wf (JInt i) \<longleftrightarrow> - (2 ^ 63) \<le> i \<and> i < 2 ^ 63"
| "json_wf (JUint n) \<longleftrightarrow> n < 2 ^ 64"
| "json_wf (JArray vs) \<longleftrightarrow> list_all json_wf vs"
| "json_wf (JObject kvs) \<longleftrightarrow> distinct (map fst kvs) \<and> list_all (\<lambda>kv. json_wf (snd kv)) kvs"
| "json_wf _ \<longleftrightarrow> True"

definition parsed_wf :: "'d parsed \<Rightarrow> bool" where
  "parsed_wf p = (case p of Done v r \<Rightarrow> json_wf v | Failed v m r \<Rightarrow> json_wf v | OutOfFuel \<Rightarrow> True)"

lemma parsed_wf_simps [simp]:
  "parsed_wf (Done v r) = json_wf v"
  "parsed_wf (Failed v m r) = json_wf v"
  "parsed_wf OutOfFuel"
  by (simp_all add: parsed_wf_def)

lemma json_wf_obj_set:
  assumes "json_wf (JObject acc)" and "json_wf v"
  shows "json_wf (JObject (obj_set k v acc))"
proof -
  have "list_all (\<lambda>kv. json_wf (snd kv)) acc \<Longrightarrow> list_all (\<lambda>kv. json_wf (snd kv)) (obj_set k v acc)"
    using assms(2) by (induction acc) auto
  then show ?thesis
    using assms(1) by (simp add: distinct_obj_set)
qed

lemma object_loop_wf:
  assumes "\<And>s. parsed_wf (pv s)"
  shows "json_wf (JObject acc) \<Longrightarrow> parsed_wf (object_loop pv n acc s)"
proof (induction n arbitrary: acc s)
  case (Suc n)
  have "json_wf (JObject (obj_set k v1 acc))" if "pv r0 = Done v1 r1" for k r0 v1 r1
    using json_wf_obj_set [OF Suc.prems] assms [of r0] that by simp
  moreover from this have "parsed_wf (object_loop pv n (obj_set k v1 acc) r2)"
    if "pv r0 = Done v1 r1" for k r0 v1 r1 r2
    using that by (intro Suc.IH)
  ultimately show ?case
    using Suc.prems
    by (simp add: object_loop.simps(2) del: json_wf.simps split: sum.split parsed.split prod.split)
qed simp

lemma array_loop_wf:
  assumes "\<And>s. parsed_wf (pv s)"
  shows "json_wf (JArray acc) \<Longrightarrow> parsed_wf (array_loop pv n acc s)"
proof (induction n arbitrary: acc s)
  case (Suc n)
  have "json_wf (JArray (acc @ [v1]))" if "pv r0 = Done v1 r1" for r0 v1 r1
    using Suc.prems assms [of r0] that by simp
  moreover from this have "parsed_wf (array_loop pv n (acc @ [v1]) r2)"
    if "pv r0 = Done v1 r1" for r0 v1 r1 r2
    using that by (intro Suc.IH)
  ultimately show ?case
    using Suc.prems
    by (simp add: array_loop.simps(2) del: json_wf.simps split: sum.split parsed.split prod.split)
qed simp

lemma parse_number_wf: "parse_number strtod s = Inr (v, r) \<Longrightarrow> json_wf v"
  by (auto simp: parse_number_def convert_number_def split: sum.splits option.splits if_splits)

lemma of_result_wf:
  "(\<And>v r. x = Inr (v, r) \<Longrightarrow> json_wf v) \<Longrightarrow> parsed_wf (of_result x)"
  by (auto simp: of_result_def split: sum.splits)

lemma parse_value_wf:
  fixes strtod :: "string \<Rightarrow> 'd option"
  shows "parsed_wf (parse_value strtod fuel s)"
proof (induction fuel arbitrary: s)
  case (Suc fuel)
  have "parsed_wf (parse_object (parse_value strtod fuel) t)" for t
    using object_loop_wf [OF Suc, of "[]"] by (simp add: parse_object_def split: option.split)
  moreover have "parsed_wf (parse_array (parse_value strtod fuel) t)" for t
    using array_loop_wf [OF Suc, of "[]"] by (simp add: parse_array_def split: option.split)
  moreover have "parsed_wf (of_result (parse_number strtod t))" for t
    by (rule of_result_wf) (rule parse_number_wf)
  moreover have "parsed_wf (of_result (parse_literal l v t))" if "json_wf v" for l t and v :: "'d json"
    using that by (auto intro!: of_result_wf simp: parse_literal_Inr)
  moreover have "parsed_wf (of_result (map_sum id (\<lambda>(str, r'). (JString str :: 'd json, r')) x))" for x
    by (auto intro!: of_result_wf simp: parse_string_value)
  ultimately show ?case
    by (simp add: Let_def split: list.split)
qed simp

text \<open>
  C22: the parser returns on every input: the recursion depth never exceeds the length of the
  input, whatever \<open>strtod\<close> answers. The value returned, also next to an error, is well formed:
  integers fit their 64-bit kinds and no object has two members with the same key.
\<close>

theorem parse_total_wf:
  "\<exists>v e. parse strtod s = Some (v, e) \<and> json_wf v"
proof -
  have "parse_value strtod (Suc (length s)) s \<noteq> OutOfFuel"
    by (rule parse_value_fuel) simp
  then show ?thesis
    using parse_value_wf [of strtod "Suc (length s)" s]
    by (auto simp: parse_def Let_def simp del: parse_value.simps split: parsed.split)
qed

end
