(* ===== verification/JsonSerializer.thy ===== *)
theory JsonSerializer
  imports JsonValue
begin

text \<open>
  The two-pass serializer of \<open>base/json/json_serializer.cpp\<close>: \<open>compute_size\<close> adds up the length of
  the output, a buffer of that size plus one is allocated, and \<open>write\<close> fills it. The written bytes
  are a string here; \<open>serialize\<close> answers \<open>None\<close> where they do not fit the buffer. The text of a
  double is \<open>snprintf("%.17g")\<close> of the C library, the parameter \<open>fmt\<close>. Bit masks on a byte are
  written as division and remainder by powers of two.
\<close>

subsection \<open>Strings\<close>

text \<open>\<open>for (k = 1; k < len; ++k)\<close> of \<open>utf8_seq_len\<close>: the code point, unless a byte is no continuation.\<close>

fun utf8_cont :: "nat \<Rightarrow> nat \<Rightarrow> string \<Rightarrow> nat option" where
  "utf8_cont 0 cp s = Some cp"
| "utf8_cont (Suc k) cp [] = None"
| "utf8_cont (Suc k) cp (c # cs) =
     (if byte c div 64 \<noteq> 2 then None else utf8_cont k (cp * 64 + byte c mod 64) cs)"

text \<open>The length and the payload bits that the leading byte announces.\<close>

definition utf8_lead :: "nat \<Rightarrow> (nat \<times> nat) option" where
  "utf8_lead c =
     (if c div 32 = 6 then Some (2, c mod 32)
      else if c div 16 = 14 then Some (3, c mod 16)
      else if c div 8 = 30 then Some (4, c mod 8)
      else None)"

text \<open>Code points that are out of range, surrogates, or encoded too long.\<close>

definition utf8_reject :: "nat \<Rightarrow> nat \<Rightarrow> bool" where
  "utf8_reject len cp \<longleftrightarrow>
     cp > 0x10FFFF \<or> 0xD800 \<le> cp \<and> cp \<le> 0xDFFF \<or>
     len = 2 \<and> cp < 0x80 \<or> len = 3 \<and> cp < 0x800 \<or> len = 4 \<and> cp < 0x10000"

definition utf8_seq_len :: "string \<Rightarrow> nat" where
  "utf8_seq_len s =
     (case s of
        [] \<Rightarrow> 1
      | p0 # rest \<Rightarrow>
          if byte p0 < 0x80 then 1
          else case utf8_lead (byte p0) of
            None \<Rightarrow> 1
          | Some (len, cp0) \<Rightarrow>
              if length s < len then 1
              else case utf8_cont (len - 1) cp0 rest of
                None \<Rightarrow> 1
              | Some cp \<Rightarrow> if utf8_reject len cp then 1 else len)"

text \<open>The switch on the bytes with a two-character escape: the letter after the backslash.\<close>

definition short_escape :: "char \<Rightarrow> char option" where
  "short_escape c =
     (if c = CHR 0x22 then Some (CHR 0x22)
      else if c = CHR 0x5C then Some (CHR 0x5C)
      else if c = CHR 0x08 then Some (CHR ''b'')
      else if c = CHR 0x0C then Some (CHR ''f'')
      else if c = CHR 0x0A then Some (CHR ''n'')
      else if c = CHR 0x0D then Some (CHR ''r'')
      else if c = CHR 0x09 then Some (CHR ''t'')
      else None)"

function escaped_size_loop :: "string \<Rightarrow> nat" where
  "escaped_size_loop [] = 0"
| "escaped_size_loop (c # cs) =
     (if short_escape c \<noteq> None then 2 + escaped_size_loop cs
      else if byte c < 0x20 then 6 + escaped_size_loop cs
      else if byte c \<ge> 0x80 then
        (let seq = utf8_seq_len (c # cs) in
         if seq > 1 then seq + escaped_size_loop (drop (seq - 1) cs)
         else 6 + escaped_size_loop cs)
      else 1 + escaped_size_loop cs)"
  by pat_completeness auto
termination
  by (relation "measure length") auto

definition escaped_string_size :: "string \<Rightarrow> nat" where
  "escaped_string_size str = 2 + escaped_size_loop str"

definition hex_upper :: "nat \<Rightarrow> char" where
  "hex_upper n = ''0123456789ABCDEF'' ! n"

function escape_loop :: "string \<Rightarrow> string" where
  "escape_loop [] = []"
| "escape_loop (c # cs) =
     (case short_escape c of
        Some e \<Rightarrow> CHR 0x5C # e # escape_loop cs
      | None \<Rightarrow>
          if byte c < 0x20 then
            CHR 0x5C # ''u00'' @ [hex_upper (byte c div 16 mod 16), hex_upper (byte c mod 16)] @
            escape_loop cs
          else if byte c \<ge> 0x80 then
            (let seq = utf8_seq_len (c # cs) in
             if seq > 1 then take seq (c # cs) @ escape_loop (drop (seq - 1) cs)
             else CHR 0x5C # ''uFFFD'' @ escape_loop cs)
          else c # escape_loop cs)"
  by pat_completeness auto
termination
  by (relation "measure length") auto

definition write_escaped_string :: "string \<Rightarrow> string" where
  "write_escaped_string s = CHR 0x22 # escape_loop s @ [CHR 0x22]"

subsection \<open>Numbers\<close>

text \<open>\<open>while (val > 0) { ++size; val /= 10; }\<close>\<close>

function digits_loop :: "int \<Rightarrow> nat" where
  "digits_loop val = (if val > 0 then 1 + digits_loop (val div 10) else 0)"
  by pat_completeness auto
termination
  by (relation "measure nat") auto

declare digits_loop.simps [simp del]

text \<open>Negation of an \<open>int64_t\<close>, with two's complement wrap-around for the smallest value.\<close>

definition neg_int64 :: "int \<Rightarrow> int" where
  "neg_int64 val = (- val + 2 ^ 63) mod 2 ^ 64 - 2 ^ 63"

definition int64_to_size :: "int \<Rightarrow> nat" where
  "int64_to_size val =
     (if val = 0 then 1
      else if val < 0 then 1 + digits_loop (neg_int64 val)
      else digits_loop val)"

definition uint64_to_size :: "nat \<Rightarrow> nat" where
  "uint64_to_size val = (if val = 0 then 1 else digits_loop (int val))"

definition write_int64 :: "int \<Rightarrow> string" where
  "write_int64 val = (if val < 0 then CHR ''-'' # decimal (nat (- val)) else decimal (nat val))"

definition write_uint64 :: "nat \<Rightarrow> string" where
  "write_uint64 val = decimal val"

subsection \<open>The two passes\<close>

text \<open>Elements joined by a separator, the \<open>if (i > 0)\<close> of the loops.\<close>

fun join :: "string \<Rightarrow> string list \<Rightarrow> string" where
  "join sep [] = []"
| "join sep [x] = x"
| "join sep (x # y # xs) = x @ sep @ join sep (y # xs)"

text \<open>A line break and \<open>n * indent\<close> spaces, unless the output is compact.\<close>

definition newline :: "int \<Rightarrow> nat \<Rightarrow> string" where
  "newline indent n =
     (if indent < 0 then [] else CHR 0x0A # replicate (nat (int n * indent)) (CHR '' ''))"

text \<open>The size terms of a non-empty container with \<open>n\<close> elements, apart from the elements.\<close>

definition container_size :: "int \<Rightarrow> nat \<Rightarrow> nat \<Rightarrow> nat" where
  "container_size indent depth n =
     2 + (n - 1) * (if indent < 0 then 1 else 1 + 1) +
     (if indent < 0 then 0
      else n * (1 + (depth + 1) * nat indent) + (1 + depth * nat indent))"

fun compute_size :: "('d \<Rightarrow> string) \<Rightarrow> int \<Rightarrow> nat \<Rightarrow> 'd json \<Rightarrow> nat" where
  "compute_size fmt indent depth JNull = 4"
| "compute_size fmt indent depth (JBool b) = (if b then 4 else 5)"
| "compute_size fmt indent depth (JInt i) = int64_to_size i"
| "compute_size fmt indent depth (JUint n) = uint64_to_size n"
| "compute_size fmt indent depth (JDouble d) = length (fmt d)"
| "compute_size fmt indent depth (JString s) = escaped_string_size s"
| "compute_size fmt indent depth (JArray vs) =
     (if vs = [] then 2
      else container_size indent depth (length vs) +
           sum_list (map (compute_size fmt indent (depth + 1)) vs))"
| "compute_size fmt indent depth (JObject kvs) =
     (if kvs = [] then 2
      else container_size indent depth (length kvs) +
           sum_list (map (\<lambda>(k, v). escaped_string_size k + (if indent < 0 then 1 else 3) +
                                   compute_size fmt indent (depth + 1) v) kvs))"

fun json_write :: "('d \<Rightarrow> string) \<Rightarrow> int \<Rightarrow> nat \<Rightarrow> 'd json \<Rightarrow> string" where
  "json_write fmt indent depth JNull = ''null''"
| "json_write fmt indent depth (JBool b) = (if b then ''true'' else ''false'')"
| "json_write fmt indent depth (JInt i) = write_int64 i"
| "json_write fmt indent depth (JUint n) = write_uint64 n"
| "json_write fmt indent depth (JDouble d) = fmt d"
| "json_write fmt indent depth (JString s) = write_escaped_string s"
| "json_write fmt indent depth (JArray vs) =
     (if vs = [] then ''[]''
      else ''['' @ newline indent (depth + 1) @
           join ('','' @ newline indent (depth + 1)) (map (json_write fmt indent (depth + 1)) vs) @
           newline indent depth @ '']'')"
| "json_write fmt indent depth (JObject kvs) =
     (if kvs = [] then ''{}''
      else ''{'' @ newline indent (depth + 1) @
           join ('','' @ newline indent (depth + 1))
             (map (\<lambda>(k, v). write_escaped_string k @ (if indent < 0 then '':'' else '': '') @
                            json_write fmt indent (depth + 1) v) kvs) @
           newline indent depth @ ''}'')"

text \<open>
  \<open>serialize\<close>: the buffer has \<open>size + 1\<close> bytes, which hold the output and the NUL that
  \<open>snprintf\<close> puts after a number. \<open>None\<close> is a write past its end.
\<close>

definition serialize :: "('d \<Rightarrow> string) \<Rightarrow> 'd json \<Rightarrow> int \<Rightarrow> string option" where
  "serialize fmt root indent =
     (let size = compute_size fmt indent 0 root;
          out = json_write fmt indent 0 root
      in if length out + 1 \<le> size + 1 then Some out else None)"

subsection \<open>The size is right\<close>

lemma utf8_cont_length: "utf8_cont k cp s = Some cp' \<Longrightarrow> k \<le> length s"
  by (induction k cp s rule: utf8_cont.induct) (auto split: if_splits)

lemma utf8_cont_bytes:
  "utf8_cont k cp s = Some cp' \<Longrightarrow> c \<in> set (take k s) \<Longrightarrow> 128 \<le> byte c"
proof (induction k cp s rule: utf8_cont.induct)
  case (3 k cp c cs)
  then show ?case by (auto split: if_splits)
qed auto

text \<open>A sequence longer than one byte lies within the string and has only bytes from 0x80.\<close>

lemma utf8_seq_len_multi:
  assumes "utf8_seq_len (c # cs) > 1"
  shows "utf8_seq_len (c # cs) \<le> Suc (length cs)"
    and "\<And>b. b \<in> set (take (utf8_seq_len (c # cs)) (c # cs)) \<Longrightarrow> 128 \<le> byte b"
proof -
  obtain k cp cp' where k: "utf8_seq_len (c # cs) = Suc k" "utf8_cont k cp cs = Some cp'" "128 \<le> byte c"
    using assms
    by (auto simp: utf8_seq_len_def not_less split: if_splits option.splits prod.splits)
      (metis Suc_pred less_imp_Suc_add not_less0 zero_less_Suc)
  show "utf8_seq_len (c # cs) \<le> Suc (length cs)"
    using k utf8_cont_length by simp
  show "128 \<le> byte b" if "b \<in> set (take (utf8_seq_len (c # cs)) (c # cs))" for b
    using that k utf8_cont_bytes [OF k(2)] by auto
qed

lemma escape_loop_length: "length (escape_loop s) = escaped_size_loop s"
proof (induction s rule: escape_loop.induct)
  case (2 c cs)
  show ?case
  proof (cases "utf8_seq_len (c # cs) > 1")
    case True
    with 2 utf8_seq_len_multi(1) [OF True] show ?thesis
      by (auto simp: Let_def min_def split: option.split)
  next
    case False
    with 2 show ?thesis by (auto simp: Let_def split: option.split)
  qed
qed simp

lemma write_escaped_string_length: "length (write_escaped_string s) = escaped_string_size s"
  by (simp add: write_escaped_string_def escaped_string_size_def escape_loop_length)

lemma decimal_digits: "0 < n \<Longrightarrow> length (decimal n) = digits_loop (int n)"
proof (induction n rule: decimal.induct)
  case (1 n)
  then show ?case
    by (cases "n < 10")
      (auto simp: decimal.simps [of n] digits_loop.simps [of "int n"] digits_loop.simps [of 0]
        zdiv_int)
qed

lemma write_uint64_length: "length (write_uint64 n) = uint64_to_size n"
  by (cases "n = 0") (simp_all add: write_uint64_def uint64_to_size_def decimal_digits decimal.simps [of 0])

lemma neg_int64_eq: "- (2 ^ 63) < i \<Longrightarrow> i < 2 ^ 63 \<Longrightarrow> neg_int64 i = - i"
  by (simp add: neg_int64_def)

lemma write_int64_length:
  "- (2 ^ 63) < i \<Longrightarrow> i < 2 ^ 63 \<Longrightarrow> length (write_int64 i) = int64_to_size i"
  using decimal_digits [of "nat i"] decimal_digits [of "nat (- i)"]
  by (auto simp: write_int64_def int64_to_size_def neg_int64_eq decimal.simps [of 0])

text \<open>Every integer lies strictly above the smallest \<open>int64_t\<close>.\<close>

fun no_int64_min :: "'d json \<Rightarrow> bool" where
  "no_int64_min (JInt i) \<longleftrightarrow> - (2 ^ 63) < i \<and> i < 2 ^ 63"
| "no_int64_min (JArray vs) \<longleftrightarrow> list_all no_int64_min vs"
| "no_int64_min (JObject kvs) \<longleftrightarrow> list_all (\<lambda>kv. no_int64_min (snd kv)) kvs"
| "no_int64_min _ \<longleftrightarrow> True"

lemma join_length:
  "xs \<noteq> [] \<Longrightarrow> length (join sep xs) = sum_list (map length xs) + (length xs - 1) * length sep"
  by (induction sep xs rule: join.induct) auto

lemma newline_length:
  "length (newline indent n) = (if indent < 0 then 0 else 1 + n * nat indent)"
  by (simp add: newline_def nat_mult_distrib)

text \<open>The brackets, separators and line breaks of a container with \<open>n\<close> elements.\<close>

definition container_length :: "int \<Rightarrow> nat \<Rightarrow> nat \<Rightarrow> nat" where
  "container_length indent depth n =
     2 + n * length (newline indent (depth + 1)) + (n - 1) + length (newline indent depth)"

lemma container_length_le: "0 < n \<Longrightarrow> container_length indent depth n \<le> container_size indent depth n"
  by (cases n) (simp_all add: container_length_def container_size_def newline_length)

lemma container_length_compact:
  "0 < n \<Longrightarrow> indent < 0 \<Longrightarrow> container_length indent depth n = container_size indent depth n"
  by (simp add: container_length_def container_size_def newline_length)

lemma container_write_length:
  "xs \<noteq> [] \<Longrightarrow>
   length ([a] @ newline indent (depth + 1) @ join ('','' @ newline indent (depth + 1)) xs @
           newline indent depth @ [b]) =
   container_length indent depth (length xs) + sum_list (map length xs)"
  by (cases xs) (simp_all add: join_length container_length_def algebra_simps)

lemma write_length_le:
  "no_int64_min v \<Longrightarrow> length (json_write fmt indent depth v) \<le> compute_size fmt indent depth v"
proof (induction v arbitrary: depth)
  case (JArray vs)
  have "sum_list (map length (map (json_write fmt indent (depth + 1)) vs)) \<le>
        sum_list (map (compute_size fmt indent (depth + 1)) vs)"
    unfolding map_map using JArray by (intro sum_list_mono) (auto simp: list_all_iff)
  then show ?case
    using container_length_le [of "length vs" indent depth]
      container_write_length [of "map (json_write fmt indent (depth + 1)) vs" _ indent depth]
    by (cases "vs = []") (simp_all del: map_map)
next
  case (JObject kvs)
  let ?w = "\<lambda>(k, v). write_escaped_string k @ (if indent < 0 then '':'' else '': '') @
                     json_write fmt indent (depth + 1) v"
  have "length (?w kv) \<le> (\<lambda>(k, v). escaped_string_size k + (if indent < 0 then 1 else 3) +
          compute_size fmt indent (depth + 1) v) kv" if "kv \<in> set kvs" for kv
    using JObject.IH [of kv "snd kv" "depth + 1"] JObject.prems that
    by (cases kv) (auto simp: list_all_iff write_escaped_string_length)
  then have "sum_list (map length (map ?w kvs)) \<le>
        sum_list (map (\<lambda>(k, v). escaped_string_size k + (if indent < 0 then 1 else 3) +
          compute_size fmt indent (depth + 1) v) kvs)"
    unfolding map_map by (intro sum_list_mono) simp
  then show ?case
    using container_length_le [of "length kvs" indent depth]
      container_write_length [of "map ?w kvs" _ indent depth]
    by (cases "kvs = []") (simp_all del: map_map)
qed (simp_all add: write_int64_length write_uint64_length write_escaped_string_length)

text \<open>
  C23: the first pass never underestimates: unless the value holds the smallest \<open>int64_t\<close>, the
  output of \<open>write\<close> fits the buffer that \<open>serialize\<close> allocated from \<open>compute_size\<close>, for compact and
  indented output and any nesting.
\<close>

theorem serialize_fits:
  assumes "no_int64_min v"
  shows "serialize fmt v indent = Some (json_write fmt indent 0 v)"
  using write_length_le [OF assms, of fmt indent 0] by (simp add: serialize_def)

theorem serialize_fits_witness:
  "serialize (\<lambda>d::unit. ''0'') (JArray [JInt (-5), JObject [(''k'', JBool True)]]) (-1) =
   Some (json_write (\<lambda>d::unit. ''0'') (-1) 0 (JArray [JInt (-5), JObject [(''k'', JBool True)]]))"
  by (rule serialize_fits) simp

text \<open>
  For the smallest \<open>int64_t\<close> the negation in \<open>int64_to_size\<close> wraps around to a negative value,
  so its digit loop does not run: one byte is accounted for and twenty are written, past the end
  of the two-byte buffer.
\<close>

theorem serialize_int64_min_overflow:
  "compute_size fmt indent depth (JInt (- (2 ^ 63))) = 1 \<and>
   length (json_write fmt indent depth (JInt (- (2 ^ 63)))) = 20 \<and>
   serialize fmt (JInt (- (2 ^ 63))) indent = None"
proof -
  have "length (decimal 9223372036854775808) = 19"
    by (simp add: decimal_digits, simp add: digits_loop.simps)
  then show ?thesis
    by (simp add: serialize_def int64_to_size_def neg_int64_def digits_loop.simps write_int64_def)
qed

end
