(* ===== verification/JsonRoundtrip.thy ===== *)
theory JsonRoundtrip
  imports JsonParser JsonSerializer
begin

text \<open>
  The parser and the serializer together: the fast path of \<open>parse_string\<close> is an optimisation of
  the slow one, an escaped string parses back to its bytes with every invalid UTF-8 byte
  replaced by U+FFFD, and a serialized document parses back to itself up to the signedness of
  its non-negative integers.
\<close>

subsection \<open>Strings\<close>

lemma fast_scan_slow:
  "(case fast_scan acc s of
      Closed str r \<Rightarrow> Inr (str, r)
    | Escape str r \<Rightarrow> slow_loop str r
    | FastError m r \<Rightarrow> Inl (m, r)) = slow_loop acc s"
proof (induction acc s rule: fast_scan.induct)
  case (2 acc c cs)
  then show ?case by (simp add: slow_loop_Cons)
qed (simp add: slow_loop_Nil)

text \<open>
  The fast path of \<open>parse_string\<close> changes nothing: on every input that starts with a quote the
  function returns what the escape-aware loop alone would return, errors and their positions
  included.
\<close>

theorem parse_string_fast_path:
  "parse_string (CHR 0x22 # s) = slow_loop [] s"
  using fast_scan_slow [of "[]" s] by (simp add: parse_string_def)

text \<open>What a round trip makes of a string: an invalid byte becomes U+FFFD.\<close>

function sanitize :: "string \<Rightarrow> string" where
  "sanitize [] = []"
| "sanitize (c # cs) =
     (if byte c < 0x80 then c # sanitize cs
      else
        (let seq = utf8_seq_len (c # cs) in
         if seq > 1 then take seq (c # cs) @ sanitize (drop (seq - 1) cs)
         else map char_of [0xEF, 0xBF, 0xBD :: nat] @ sanitize cs))"
  by pat_completeness auto
termination
  by (relation "measure length") auto

lemma slow_loop_plain:
  "(\<And>c. c \<in> set xs \<Longrightarrow> c \<noteq> CHR 0x22 \<and> c \<noteq> CHR 0x5C \<and> \<not> byte c < 0x20) \<Longrightarrow>
   slow_loop acc (xs @ r) = slow_loop (acc @ xs) r"
proof (induction xs arbitrary: acc)
  case (Cons x xs)
  then show ?case by (simp add: slow_loop_Cons)
qed simp

lemma short_escape_unescape:
  "short_escape c = Some e \<Longrightarrow> unescape (e # r) = Inr ([c], r)"
  by (auto simp: short_escape_def unescape_def split: if_splits)

lemma hex_upper_digit: "n < 16 \<Longrightarrow> hex_digit (hex_upper n) = Some n"
proof -
  have "\<forall>n\<in>set [0..<16]. hex_digit (hex_upper n) = Some n"
    by code_simp
  then show "n < 16 \<Longrightarrow> hex_digit (hex_upper n) = Some n" by simp
qed

lemma hex_run_4:
  assumes "hex_digit a = Some d1" "hex_digit b = Some d2" "hex_digit c = Some d3" "hex_digit d = Some d4"
  shows "hex_run 4 0 (a # b # c # d # r) = Some (((d1 * 16 + d2) * 16 + d3) * 16 + d4)"
proof -
  have four: "Suc (Suc (Suc (Suc 0))) = 4" by simp
  have "hex_run (Suc (Suc (Suc (Suc 0)))) 0 (a # b # c # d # r) =
      Some (((d1 * 16 + d2) * 16 + d3) * 16 + d4)"
    using assms by simp
  then show ?thesis unfolding four .
qed

lemma unescape_u_bmp:
  assumes "hex_run 4 0 (a # b # c # d # r) = Some cp" and "cp < 0xD800 \<or> 0xDBFF < cp"
  shows "unescape (CHR ''u'' # a # b # c # d # r) = Inr (utf8_encode cp, r)"
  using assms by (auto simp: unescape_def unescape_u_def Let_def)

lemma unescape_control:
  assumes "byte c < 0x20"
  shows "unescape (''u00'' @ [hex_upper (byte c div 16 mod 16), hex_upper (byte c mod 16)] @ r) =
    Inr ([c], r)"
proof -
  have zero: "hex_digit (CHR ''0'') = Some 0" by code_simp
  have "utf8_encode (byte c) = [c]"
    using assms by (simp add: utf8_encode_def byte_def)
  moreover have "(byte c div 16 mod 16) * 16 + byte c mod 16 = byte c"
    using assms by simp
  ultimately show ?thesis
    using assms hex_run_4 [OF zero zero hex_upper_digit hex_upper_digit,
        of "byte c div 16 mod 16" "byte c mod 16" r]
    by (simp add: unescape_u_bmp)
qed

lemma unescape_replacement:
  "unescape (''uFFFD'' @ r) = Inr (map char_of [0xEF, 0xBF, 0xBD :: nat], r)"
proof -
  have F: "hex_digit (CHR ''F'') = Some 15" and D: "hex_digit (CHR ''D'') = Some 13"
    by code_simp+
  have "utf8_encode 0xFFFD = map char_of [0xEF, 0xBF, 0xBD :: nat]"
    by (simp add: utf8_encode_def)
  then show ?thesis
    using unescape_u_bmp [OF hex_run_4 [OF F F F D], of r] by simp
qed

lemma slow_loop_escape:
  "slow_loop acc (escape_loop s @ CHR 0x22 # r) = Inr (acc @ sanitize s, r)"
proof (induction s arbitrary: acc rule: escape_loop.induct)
  case 1
  then show ?case by (simp add: slow_loop_Cons)
next
  case (2 c cs)
  have ascii: "byte c < 0x80" if "short_escape c = Some e" for e
    using that by (auto simp: short_escape_def byte_def split: if_splits)
  consider (short) e where "short_escape c = Some e"
    | (control) "short_escape c = None" "byte c < 0x20"
    | (multi) "short_escape c = None" "0x80 \<le> byte c" "1 < utf8_seq_len (c # cs)"
    | (bad) "short_escape c = None" "0x80 \<le> byte c" "\<not> 1 < utf8_seq_len (c # cs)"
    | (plain) "short_escape c = None" "\<not> byte c < 0x20" "byte c < 0x80"
    by fastforce
  then show ?case
  proof cases
    case short
    with 2(5) [OF short, of "acc @ [c]"] ascii [OF short] show ?thesis
      by (simp add: slow_loop_Cons short_escape_unescape)
  next
    case control
    with 2(1) unescape_control [of c] show ?thesis
      by (simp add: slow_loop_Cons)
  next
    case multi
    let ?n = "utf8_seq_len (c # cs)"
    have "slow_loop acc (take ?n (c # cs) @ t) = slow_loop (acc @ take ?n (c # cs)) t" for t
      using utf8_seq_len_multi(2) [OF multi(3)]
      by (intro slow_loop_plain) (fastforce simp: byte_def)
    with multi 2(2) show ?thesis
      by (simp add: Let_def del: take_Suc_Cons)
  next
    case bad
    with 2(3) unescape_replacement show ?thesis
      by (simp add: slow_loop_Cons Let_def)
  next
    case plain
    then have "c \<noteq> CHR 0x22" "c \<noteq> CHR 0x5C"
      by (auto simp: short_escape_def)
    with plain 2(4) show ?thesis by (simp add: slow_loop_Cons)
  qed
qed

lemma write_escaped_string_parse:
  "parse_string (write_escaped_string s @ r) = Inr (sanitize s, r)"
  using slow_loop_escape [of "[]" s r] fast_scan_slow [of "[]"]
  by (simp add: write_escaped_string_def parse_string_def)

text \<open>
  Every byte string survives escaping and parsing as a string: \<open>parse_string\<close> reads exactly
  what \<open>write_escaped_string\<close> wrote and returns the bytes, with each byte that is not part of a
  valid UTF-8 sequence replaced by the three bytes of U+FFFD.
\<close>

theorem string_roundtrip:
  "parse_string (write_escaped_string s @ r) = Inr (sanitize s, r)"
  by (rule write_escaped_string_parse)

subsection \<open>Numbers\<close>

text \<open>What may follow a number without changing how it is read.\<close>

definition ends_number :: "string \<Rightarrow> bool" where
  "ends_number r \<longleftrightarrow>
     (case r of [] \<Rightarrow> True
      | c # _ \<Rightarrow> \<not> is_digit c \<and> c \<noteq> CHR ''.'' \<and> c \<noteq> CHR ''e'' \<and> c \<noteq> CHR ''E'')"

lemma is_digit_char_of: "n < 10 \<Longrightarrow> is_digit (char_of (48 + n)) \<and> byte (char_of (48 + n)) = 48 + n"
  by (simp add: is_digit_def byte_char_of)

lemma decimal_all_digits: "list_all is_digit (decimal n)"
proof (induction n rule: decimal.induct)
  case (1 n)
  then show ?case
    using is_digit_char_of [of n] is_digit_char_of [of "n mod 10"]
    by (cases "n < 10") (simp_all add: decimal.simps [of n])
qed

lemma dec_val_snoc: "dec_val (ds @ [c]) = dec_val ds * 10 + (byte c - 48)"
  by (simp add: dec_val_def)

lemma dec_val_decimal: "dec_val (decimal n) = n"
proof (induction n rule: decimal.induct)
  case (1 n)
  then show ?case
    using is_digit_char_of [of n] is_digit_char_of [of "n mod 10"]
    by (cases "n < 10") (simp_all add: decimal.simps [of n] dec_val_snoc dec_val_def)
qed

text \<open>A decimal starts with a zero only if it is zero.\<close>

lemma decimal_hd: "decimal n = CHR ''0'' # ds \<Longrightarrow> n = 0"
proof (induction n arbitrary: ds rule: decimal.induct)
  case (1 n)
  show ?case
  proof (cases "n < 10")
    case True
    then have "byte (char_of (48 + n)) = byte (CHR ''0'')"
      using 1(2) by (simp add: decimal.simps [of n])
    then show ?thesis
      using True by (simp add: byte_char_of) (simp add: byte_def)
  next
    case False
    obtain d ds' where d: "decimal (n div 10) = d # ds'"
      using decimal_nonempty [of "n div 10"] by (cases "decimal (n div 10)") auto
    then have "n div 10 = 0"
      using 1(2) False by (intro 1(1) [of ds']) (simp_all add: decimal.simps [of n])
    with False show ?thesis by simp
  qed
qed

lemma dropWhile_digits:
  "list_all is_digit ds \<Longrightarrow> ends_number r \<Longrightarrow> dropWhile is_digit (ds @ r) = r"
  by (induction ds) (auto simp: ends_number_def split: list.splits)

lemma scan_int_decimal:
  assumes "ends_number r"
  shows "scan_int (decimal n @ r) = Inr r"
    and "scan_int (CHR ''-'' # decimal n @ r) = Inr r"
proof -
  obtain c ds where d: "decimal n = c # ds"
    using decimal_nonempty [of n] by (cases "decimal n") auto
  have dig: "is_digit c" "list_all is_digit ds"
    using decimal_all_digits [of n] d by simp_all
  have "ds = []" if "c = CHR ''0''"
    using decimal_hd [of n ds] that d by (auto simp: decimal.simps [of 0])
  moreover have "c \<noteq> CHR ''-''"
    using dig(1) by (auto simp: is_digit_def byte_def)
  ultimately show "scan_int (decimal n @ r) = Inr r" "scan_int (CHR ''-'' # decimal n @ r) = Inr r"
    using dig dropWhile_digits [OF dig(2) assms]
    by (auto simp: scan_int_def d)
qed

lemma scan_rest:
  assumes "ends_number r"
  shows "scan_frac r = Inr (False, r)" and "scan_exp r = Inr (False, r)"
  using assms
  by (auto simp: scan_frac_def scan_exp_def match_def ends_number_def split: list.splits)

lemma parse_number_int:
  assumes "ends_number r" and "scan_int (txt @ r) = Inr r" and "convert_number strtod False txt = Some v"
  shows "parse_number strtod (txt @ r) = Inr (v, r)"
  using assms scan_rest [OF assms(1)] by (simp add: parse_number_def)

lemma match_minus_decimal: "match (CHR ''-'') (decimal n) = None"
  using decimal_all_digits [of n]
  by (cases "decimal n") (auto simp: is_digit_def byte_def)

lemma parse_number_uint:
  assumes "ends_number r" and "n < 2 ^ 64"
  shows "parse_number strtod (decimal n @ r) = Inr (JUint n, r)"
  using assms(2)
  by (intro parse_number_int [OF assms(1) scan_int_decimal(1) [OF assms(1)]])
    (simp add: convert_number_def match_minus_decimal dec_val_decimal)

lemma parse_number_neg:
  assumes "ends_number r" and "n \<le> 2 ^ 63"
  shows "parse_number strtod ((CHR ''-'' # decimal n) @ r) = Inr (JInt (- int n), r)"
  using assms(2) scan_int_decimal(2) [OF assms(1)]
  by (intro parse_number_int [OF assms(1)])
    (simp_all add: convert_number_def dec_val_decimal)

subsection \<open>Documents\<close>

text \<open>The value a serialized document parses to.\<close>

fun reparsed :: "'d json \<Rightarrow> 'd json" where
  "reparsed (JInt i) = (if i < 0 then JInt i else JUint (nat i))"
| "reparsed (JString s) = JString (sanitize s)"
| "reparsed (JArray vs) = JArray (map reparsed vs)"
| "reparsed (JObject kvs) =
     JObject (fold (\<lambda>(k, v). obj_set k v) (map (\<lambda>(k, v). (sanitize k, reparsed v)) kvs) [])"
| "reparsed v = v"

text \<open>No doubles, integers in range, and not the smallest \<open>int64_t\<close>.\<close>

fun plain :: "'d json \<Rightarrow> bool" where
  "plain (JInt i) \<longleftrightarrow> - (2 ^ 63) < i \<and> i < 2 ^ 63"
| "plain (JUint n) \<longleftrightarrow> n < 2 ^ 64"
| "plain (JDouble d) \<longleftrightarrow> False"
| "plain (JArray vs) \<longleftrightarrow> list_all plain vs"
| "plain (JObject kvs) \<longleftrightarrow> list_all (\<lambda>kv. plain (snd kv)) kvs"
| "plain _ \<longleftrightarrow> True"

lemma skip_whitespace_idem [simp]: "skip_whitespace (skip_whitespace s) = skip_whitespace s"
  by (induction s) auto

lemma skip_whitespace_newline [simp]: "skip_whitespace (newline i n @ s) = skip_whitespace s"
proof -
  have "skip_whitespace (replicate k (CHR '' '') @ s) = skip_whitespace s" for k
    by (induction k) (simp_all add: is_ws_def)
  then show ?thesis by (simp add: newline_def is_ws_def)
qed

lemma array_loop_skip [simp]: "array_loop pv n acc (skip_whitespace s) = array_loop pv n acc s"
  by (cases n) (simp_all add: array_loop.simps(2))

lemma object_loop_skip [simp]: "object_loop pv n acc (skip_whitespace s) = object_loop pv n acc s"
  by (cases n) (simp_all add: object_loop.simps(2) parse_key_def Let_def)

lemma ends_number_newline: "ends_number s \<Longrightarrow> ends_number (newline i n @ s)"
  by (simp add: newline_def ends_number_def is_digit_def byte_def)

lemma ends_number_punct [simp]:
  "ends_number (CHR '']'' # r)" "ends_number (CHR ''}'' # r)" "ends_number (CHR '','' # r)"
  by (simp_all add: ends_number_def is_digit_def byte_def)

definition starts_value :: "string \<Rightarrow> bool" where
  "starts_value s \<longleftrightarrow> (\<exists>c cs. s = c # cs \<and> \<not> is_ws c \<and> c \<noteq> CHR '']'')"

lemma starts_value_skip: "starts_value s \<Longrightarrow> skip_whitespace (s @ r) = s @ r"
  by (auto simp: starts_value_def)

lemma parse_sep_close:
  "close \<noteq> CHR '','' \<Longrightarrow> \<not> is_ws close \<Longrightarrow> parse_sep close w (newline i n @ close # r) = Inr (True, r)"
  by (simp add: parse_sep_def)

lemma parse_sep_comma:
  "close \<noteq> CHR '','' \<Longrightarrow> parse_sep close w (CHR '','' # r) = Inr (False, r)"
  by (simp add: parse_sep_def is_ws_def)

lemma array_loop_write:
  assumes "\<And>v r. v \<in> set vs \<Longrightarrow> ends_number r \<Longrightarrow> pv (w v @ r) = Done (g v) r"
    and "\<And>v. v \<in> set vs \<Longrightarrow> starts_value (w v)" and "vs \<noteq> []" and "length vs \<le> n"
  shows "array_loop pv n acc
      (newline i k @ join ('','' @ newline i k) (map w vs) @ newline i d @ '']'' @ r) =
    Done (JArray (acc @ map g vs)) r"
  using assms
proof (induction vs arbitrary: n acc)
  case (Cons v vs)
  obtain m where n: "n = Suc m" using Cons.prems(4) by (cases n) auto
  have step: "array_loop pv n acc (newline i k @ w v @ t) =
      (case parse_sep (CHR '']'') '' in array'' t of
         Inl (e, r1) \<Rightarrow> Failed (JArray (acc @ [g v])) e r1
       | Inr (fin, r1) \<Rightarrow>
           if fin then Done (JArray (acc @ [g v])) r1 else array_loop pv m (acc @ [g v]) r1)"
    if "ends_number t" for t
    using Cons.prems(1) [of v t] Cons.prems(2) [of v] that
    by (simp add: n array_loop.simps(2) starts_value_skip)
  show ?case
  proof (cases vs)
    case Nil
    then show ?thesis
      using step [of "newline i d @ '']'' @ r"]
      by (simp add: parse_sep_close is_ws_def ends_number_newline)
  next
    case (Cons v' vs')
    let ?t = "newline i k @ join ('','' @ newline i k) (map w vs) @ newline i d @ '']'' @ r"
    have "array_loop pv m (acc @ [g v]) ?t = Done (JArray ((acc @ [g v]) @ map g vs)) r"
      using Cons.prems Cons n by (intro Cons.IH) auto
    then show ?thesis
      using step [of "CHR '','' # ?t"] Cons by (simp add: parse_sep_comma)
  qed
qed simp

abbreviation colon :: "int \<Rightarrow> string" where
  "colon i \<equiv> (if i < 0 then '':'' else '': '')"

lemma parse_key_write:
  "parse_key (newline i k @ write_escaped_string key @ colon i @ t) =
   Inr (sanitize key, (if i < 0 then [] else '' '') @ t)"
proof -
  have "skip_whitespace (write_escaped_string key @ u) = write_escaped_string key @ u" for u
    by (simp add: write_escaped_string_def is_ws_def)
  moreover have "hd (write_escaped_string key @ u) = CHR 0x22" "write_escaped_string key @ u \<noteq> []" for u
    by (simp_all add: write_escaped_string_def)
  ultimately show ?thesis
    by (simp add: parse_key_def is_ws_def write_escaped_string_parse)
qed

lemma object_loop_write:
  assumes "\<And>kv r. kv \<in> set kvs \<Longrightarrow> ends_number r \<Longrightarrow> pv (w (snd kv) @ r) = Done (g (snd kv)) r"
    and "\<And>s. pv (CHR '' '' # s) = pv s" and "kvs \<noteq> []" and "length kvs \<le> n"
  shows "object_loop pv n acc
      (newline i k @
       join ('','' @ newline i k) (map (\<lambda>(k, v). write_escaped_string k @ colon i @ w v) kvs) @
       newline i d @ ''}'' @ r) =
    Done (JObject (fold (\<lambda>(k, v). obj_set k v) (map (\<lambda>(k, v). (sanitize k, g v)) kvs) acc)) r"
  using assms
proof (induction kvs arbitrary: n acc)
  case (Cons kv kvs)
  obtain key v where kv: "kv = (key, v)" by force
  obtain m where n: "n = Suc m" using Cons.prems(4) by (cases n) auto
  let ?acc = "obj_set (sanitize key) (g v) acc"
  have step: "object_loop pv n acc (newline i k @ write_escaped_string key @ colon i @ w v @ t) =
      (case parse_sep (CHR ''}'') '' in object'' t of
         Inl (e, r1) \<Rightarrow> Failed (JObject ?acc) e r1
       | Inr (fin, r1) \<Rightarrow>
           if fin then Done (JObject ?acc) r1 else object_loop pv m ?acc r1)"
    if "ends_number t" for t
    using Cons.prems(1) [of kv t] Cons.prems(2) [of "w v @ t"] that kv
      parse_key_write [of i k key "w v @ t"]
    by (simp add: n object_loop.simps(2))
  show ?case
  proof (cases kvs)
    case Nil
    then show ?thesis
      using step [of "newline i d @ ''}'' @ r"] kv
      by (simp add: parse_sep_close is_ws_def ends_number_newline)
  next
    case (Cons kv' kvs')
    let ?t = "newline i k @
       join ('','' @ newline i k) (map (\<lambda>(k, v). write_escaped_string k @ colon i @ w v) kvs) @
       newline i d @ ''}'' @ r"
    have "object_loop pv m ?acc ?t =
        Done (JObject (fold (\<lambda>(k, v). obj_set k v) (map (\<lambda>(k, v). (sanitize k, g v)) kvs) ?acc)) r"
      using Cons.prems Cons n by (intro Cons.IH) auto
    then show ?thesis
      using step [of "CHR '','' # ?t"] Cons kv by (simp add: parse_sep_comma)
  qed
qed simp

lemma parse_value_skip: "parse_value strtod f (skip_whitespace s) = parse_value strtod f s"
  by (cases f) simp_all

lemma parse_value_space: "parse_value strtod f (CHR '' '' # s) = parse_value strtod f s"
  by (cases f) (simp_all add: is_ws_def)

lemma parse_value_number:
  assumes "c = CHR ''-'' \<or> is_digit c"
  shows "parse_value strtod (Suc f) (c # cs) = of_result (parse_number strtod (c # cs))"
proof -
  let ?L = "[CHR '' '', CHR 0x09, CHR 0x0A, CHR 0x0D, CHR ''n'', CHR ''t'', CHR ''f'', CHR 0x22,
             CHR ''{'', CHR '']'', CHR ''['']"
  have "list_all (\<lambda>d. \<not> (d = CHR ''-'' \<or> is_digit d)) ?L"
    by code_simp
  then have "c \<notin> set ?L"
    using assms unfolding list_all_iff by blast
  then have n: "\<not> is_ws c" "c \<noteq> CHR ''n''" "c \<noteq> CHR ''t''" "c \<noteq> CHR ''f''" "c \<noteq> CHR 0x22"
      "c \<noteq> CHR ''{''" "c \<noteq> CHR ''[''"
    by (simp_all add: is_ws_def)
  show ?thesis
    unfolding parse_value.simps skip_whitespace.simps Let_def if_not_P [OF n(1)] list.case
      if_not_P [OF n(2)] if_not_P [OF n(3)] if_not_P [OF n(4)] if_not_P [OF n(5)]
      if_not_P [OF n(6)] if_not_P [OF n(7)] if_P [OF assms] ..
qed

lemma parse_value_bracket:
  "parse_value strtod (Suc f) (CHR ''['' # t) = parse_array (parse_value strtod f) (CHR ''['' # t)"
  "parse_value strtod (Suc f) (CHR ''{'' # t) = parse_object (parse_value strtod f) (CHR ''{'' # t)"
  by (simp_all add: Let_def is_ws_def)

lemma write_starts:
  assumes "plain v"
  shows "starts_value (json_write fmt i d v)"
proof (cases v)
  have dec: "starts_value (decimal n)" for n
    using decimal_all_digits [of n] decimal_nonempty [of n]
    by (cases "decimal n") (auto simp: starts_value_def is_ws_def is_digit_def byte_def)
  {
    case (JInt x)
    then show ?thesis using dec
      by (auto simp: write_int64_def starts_value_def is_ws_def)
  next
    case (JUint x)
    then show ?thesis using dec by (simp add: write_uint64_def)
  }
qed (use assms in \<open>auto simp: starts_value_def is_ws_def write_escaped_string_def\<close>)

lemma parse_value_string:
  "parse_value strtod (Suc f) (write_escaped_string s @ r) = Done (JString (sanitize s)) r"
  using write_escaped_string_parse [of s r]
  by (simp add: write_escaped_string_def is_ws_def Let_def of_result_def)

lemma parse_value_decimal:
  assumes "ends_number r" and "n < 2 ^ 64"
  shows "parse_value strtod (Suc f) (decimal n @ r) = Done (JUint n) r"
proof -
  obtain c cs where d: "decimal n = c # cs" "is_digit c"
    using decimal_all_digits [of n] decimal_nonempty [of n] by (cases "decimal n") auto
  then show ?thesis
    using parse_value_number [of c strtod f "cs @ r"] parse_number_uint [OF assms, of strtod]
    by (simp del: parse_value.simps add: of_result_def)
qed

lemma join_element_length: "x \<in> set xs \<Longrightarrow> length x \<le> length (join sep xs)"
  by (induction sep xs rule: join.induct) auto

lemma join_count: "\<forall>x\<in>set xs. x \<noteq> [] \<Longrightarrow> length xs \<le> length (join sep xs)"
proof (induction sep xs rule: join.induct)
  case (3 sep x y xs)
  then show ?case by (cases x) auto
qed (auto simp: Suc_le_eq)

lemma starts_value_join: "starts_value x \<Longrightarrow> starts_value (join sep (x # xs))"
  by (cases xs) (auto simp: starts_value_def)

lemma parse_value_array:
  assumes "\<And>v f r. v \<in> set vs \<Longrightarrow> ends_number r \<Longrightarrow> length (json_write fmt i (Suc d) v) \<le> f \<Longrightarrow>
      parse_value strtod f (json_write fmt i (Suc d) v @ r) = Done (reparsed v) r"
    and "list_all plain vs" and "length (json_write fmt i d (JArray vs)) \<le> Suc f"
  shows "parse_value strtod (Suc f) (json_write fmt i d (JArray vs) @ r) =
    Done (JArray (map reparsed vs)) r"
proof (cases "vs = []")
  case True
  then show ?thesis by (simp add: Let_def is_ws_def parse_array_def)
next
  case False
  let ?w = "json_write fmt i (Suc d)"
  let ?j = "join ('','' @ newline i (Suc d)) (map ?w vs)"
  let ?t = "newline i (Suc d) @ ?j @ newline i d @ '']'' @ r"
  have starts: "starts_value (?w v)" if "v \<in> set vs" for v
    using that assms(2) by (intro write_starts) (simp add: list_all_iff)
  have len: "length (?w v) \<le> f" if "v \<in> set vs" for v
    using that False assms(3) join_element_length [of "?w v" "map ?w vs" "'','' @ newline i (Suc d)"]
    by simp
  have "length vs \<le> length ?j"
    using join_count [of "map ?w vs" "'','' @ newline i (Suc d)"] starts
    by (force simp: starts_value_def)
  then have "array_loop (parse_value strtod f) (length (CHR ''['' # ?t)) [] ?t =
      Done (JArray ([] @ map reparsed vs)) r"
    using False starts len assms(1) by (intro array_loop_write) simp_all
  moreover have "match (CHR '']'') (skip_whitespace ?t) = None"
  proof -
    have "starts_value ?j"
      using False starts starts_value_join by (cases vs) auto
    then show ?thesis
      by (auto simp: starts_value_skip) (auto simp: starts_value_def)
  qed
  ultimately have "parse_array (parse_value strtod f) (CHR ''['' # ?t) = Done (JArray (map reparsed vs)) r"
    unfolding parse_array_def match_simps by (simp only: array_loop_skip) simp
  moreover have "json_write fmt i d (JArray vs) @ r = CHR ''['' # ?t"
    using False by simp
  ultimately show ?thesis
    by (simp only: parse_value_bracket)
qed

lemma parse_value_object:
  assumes "\<And>kv f r. kv \<in> set kvs \<Longrightarrow> ends_number r \<Longrightarrow>
      length (json_write fmt i (Suc d) (snd kv)) \<le> f \<Longrightarrow>
      parse_value strtod f (json_write fmt i (Suc d) (snd kv) @ r) = Done (reparsed (snd kv)) r"
    and "length (json_write fmt i d (JObject kvs)) \<le> Suc f"
  shows "parse_value strtod (Suc f) (json_write fmt i d (JObject kvs) @ r) =
    Done (reparsed (JObject kvs)) r"
proof (cases "kvs = []")
  case True
  then show ?thesis by (simp add: Let_def is_ws_def parse_object_def)
next
  case False
  let ?w = "json_write fmt i (Suc d)"
  let ?e = "\<lambda>(k, v). write_escaped_string k @ colon i @ ?w v"
  let ?j = "join ('','' @ newline i (Suc d)) (map ?e kvs)"
  let ?t = "newline i (Suc d) @ ?j @ newline i d @ ''}'' @ r"
  have len: "length (?w (snd kv)) \<le> f" if "kv \<in> set kvs" for kv
  proof -
    have "length (?e kv) \<le> length ?j"
      using that by (intro join_element_length) simp
    moreover have "length (?w (snd kv)) \<le> length (?e kv)"
      by (cases kv) simp
    ultimately show ?thesis using False assms(2) by simp
  qed
  have "length kvs \<le> length ?j"
    using join_count [of "map ?e kvs" "'','' @ newline i (Suc d)"]
    by (force simp: write_escaped_string_def)
  then have "object_loop (parse_value strtod f) (length (CHR ''{'' # ?t)) [] ?t = Done (reparsed (JObject kvs)) r"
    unfolding reparsed.simps
    using False len assms(1) parse_value_space by (intro object_loop_write) simp_all
  moreover have "match (CHR ''}'') (skip_whitespace ?t) = None"
  proof -
    have "\<exists>u. ?j = CHR 0x22 # u"
      using False by (cases kvs rule: remdups_adj.cases) (auto simp: write_escaped_string_def)
    then show ?thesis by (auto simp: is_ws_def)
  qed
  ultimately have "parse_object (parse_value strtod f) (CHR ''{'' # ?t) = Done (reparsed (JObject kvs)) r"
    unfolding parse_object_def match_simps by (simp only: object_loop_skip) simp
  moreover have "json_write fmt i d (JObject kvs) @ r = CHR ''{'' # ?t"
    using False by simp
  ultimately show ?thesis
    by (simp only: parse_value_bracket)
qed

lemma write_parse:
  "plain v \<Longrightarrow> ends_number r \<Longrightarrow> length (json_write fmt i d v) \<le> f \<Longrightarrow>
   parse_value strtod f (json_write fmt i d v @ r) = Done (reparsed v) r"
proof (induction v arbitrary: d f r)
  case (JInt x)
  then obtain f' where f: "f = Suc f'"
    using decimal_nonempty by (cases f) (auto simp: write_int64_def split: if_splits)
  show ?case
  proof (cases "x < 0")
    case True
    then show ?thesis
      using parse_number_neg [OF JInt.prems(2), of "nat (- x)" strtod] JInt.prems(1)
        parse_value_number [of "CHR ''-''" strtod f' "decimal (nat (- x)) @ r"]
      by (simp add: write_int64_def f of_result_def del: parse_value.simps)
  next
    case False
    then show ?thesis
      using JInt.prems parse_value_decimal [OF JInt.prems(2), of "nat x" strtod f']
      by (simp add: write_int64_def f del: parse_value.simps)
  qed
next
  case (JUint x)
  then show ?case
    using parse_value_decimal [OF JUint.prems(2), of x strtod "f - 1"] decimal_nonempty [of x]
    by (cases f) (simp_all add: write_uint64_def del: parse_value.simps)
next
  case (JString x)
  then show ?case
    using parse_value_string [of strtod "f - 1" x r]
    by (cases f) (simp_all add: write_escaped_string_def del: parse_value.simps)
next
  case (JArray vs)
  then obtain f' where f: "f = Suc f'" by (cases f) (auto split: if_splits)
  show ?case
    unfolding f reparsed.simps
    using JArray.prems f by (intro parse_value_array JArray.IH) (auto simp: list_all_iff)
next
  case (JObject kvs)
  then obtain f' where f: "f = Suc f'" by (cases f) (auto split: if_splits)
  have "parse_value strtod g (json_write fmt i (Suc d) (snd kv) @ t) = Done (reparsed (snd kv)) t"
    if "kv \<in> set kvs" "ends_number t" "length (json_write fmt i (Suc d) (snd kv)) \<le> g" for kv g t
    using JObject.IH [of kv "snd kv" t "Suc d" g] JObject.prems(1) that
    by (cases kv) (auto simp: list_all_iff)
  then show ?case
    unfolding f using JObject.prems f by (intro parse_value_object) auto
next
  case (JBool x)
  then show ?case
    by (cases f; cases x) (auto simp: is_ws_def Let_def parse_literal_def of_result_def)
next
  case JNull
  then show ?case
    by (cases f) (auto simp: is_ws_def Let_def parse_literal_def of_result_def)
qed simp

lemma plain_no_int64_min: "plain v \<Longrightarrow> no_int64_min v"
  by (induction v) (auto simp: list_all_iff)

lemma serialized_parses:
  assumes "plain v"
  shows "\<exists>out. serialize fmt v indent = Some out \<and> parse strtod out = Some (reparsed v, None)"
proof -
  have "parse_value strtod (Suc (length (json_write fmt indent 0 v))) (json_write fmt indent 0 v) =
      Done (reparsed v) []"
    using write_parse [OF assms, of "[]" fmt indent 0 "Suc (length (json_write fmt indent 0 v))" strtod]
    by (simp add: ends_number_def del: parse_value.simps)
  then show ?thesis
    using write_length_le [OF plain_no_int64_min [OF assms], of fmt indent 0]
    by (simp add: serialize_def parse_def del: parse_value.simps)
qed



text \<open>
  A low surrogate with no high surrogate before it is accepted and encoded as three bytes that
  the serializer itself does not count as valid UTF-8.
\<close>

lemma lone_low_surrogate:
  "parse_string ([CHR 0x22, CHR 0x5C] @ ''udc00'' @ [CHR 0x22]) =
     Inr (map char_of [0xED, 0xB0, 0x80 :: nat], [])"
  "utf8_seq_len (map char_of [0xED, 0xB0, 0x80 :: nat]) = 1"
proof -
  have d: "hex_digit (CHR ''d'') = Some 13" and c: "hex_digit (CHR ''c'') = Some 12"
    and z: "hex_digit (CHR ''0'') = Some 0"
    by code_simp+
  have "utf8_encode 0xDC00 = map char_of [0xED, 0xB0, 0x80 :: nat]"
    by (simp add: utf8_encode_def)
  then have "unescape (''udc00'' @ [CHR 0x22]) = Inr (map char_of [0xED, 0xB0, 0x80 :: nat], [CHR 0x22])"
    using unescape_u_bmp [OF hex_run_4 [OF d c z z], of "[CHR 0x22]"] by simp
  then show "parse_string ([CHR 0x22, CHR 0x5C] @ ''udc00'' @ [CHR 0x22]) =
      Inr (map char_of [0xED, 0xB0, 0x80 :: nat], [])"
    by (simp add: parse_string_def slow_loop_Cons)
  have "utf8_lead 0xED = Some (3, 13)"
    by (simp add: utf8_lead_def)
  moreover have "utf8_cont (Suc (Suc 0)) 13 (map char_of [0xB0, 0x80 :: nat]) = Some 0xDC00"
    by (simp add: byte_char_of)
  ultimately show "utf8_seq_len (map char_of [0xED, 0xB0, 0x80 :: nat]) = 1"
    by (simp add: utf8_seq_len_def byte_char_of utf8_reject_def numeral_2_eq_2)
qed

end
