(* ===== verification/Dag.thy ===== *)
theory Dag
  imports BG_Prelude
begin

text \<open>
  The dependency graph of a workflow (\<open>workflow/dag.hpp\<close>). The three maps are association lists in
  traversal order and the sets of neighbours are lists without repetition; the traversal order
  of the hash tables is not fixed by the code, and no theorem below depends on it. A \<open>.at\<close> on a
  missing key is the error \<open>OutOfRange\<close>, an \<open>in_degree\<close> is a \<open>size_t\<close> and wraps.
\<close>

datatype dag_error = InvalidArgument string | RuntimeError string | OutOfRange

type_synonym task_id = string

record 't dag =
  tasks :: "(task_id \<times> 't) list"
  dependencies :: "(task_id \<times> task_id list) list"
  dependents :: "(task_id \<times> task_id list) list"

definition dag_new :: "'t dag" where
  "dag_new = \<lparr>tasks = [], dependencies = [], dependents = []\<rparr>"

definition dag_size :: "'t dag \<Rightarrow> nat" where
  "dag_size d = length (tasks d)"

definition dag_empty :: "'t dag \<Rightarrow> bool" where
  "dag_empty d \<longleftrightarrow> tasks d = []"

definition get_task :: "'t dag \<Rightarrow> task_id \<Rightarrow> 't option" where
  "get_task d i = map_of (tasks d) i"

definition get_all_task_ids :: "'t dag \<Rightarrow> task_id list" where
  "get_all_task_ids d = map fst (tasks d)"

text \<open>\<open>map[key] = value\<close> and \<open>map[key].insert(x)\<close>; a missing key is created.\<close>

fun map_put :: "'k \<Rightarrow> 'v \<Rightarrow> ('k \<times> 'v) list \<Rightarrow> ('k \<times> 'v) list" where
  "map_put k v [] = [(k, v)]"
| "map_put k v ((k', v') # kvs) = (if k' = k then (k, v) # kvs else (k', v') # map_put k v kvs)"

definition set_insert :: "'a \<Rightarrow> 'a list \<Rightarrow> 'a list" where
  "set_insert x xs = (if x \<in> set xs then xs else xs @ [x])"

definition insert_at :: "'k \<Rightarrow> 'a \<Rightarrow> ('k \<times> 'a list) list \<Rightarrow> ('k \<times> 'a list) list" where
  "insert_at k x m = map_put k (set_insert x (case map_of m k of None \<Rightarrow> [] | Some xs \<Rightarrow> xs)) m"

definition add_task :: "'t dag \<Rightarrow> task_id \<Rightarrow> 't \<Rightarrow> dag_error + 't dag" where
  "add_task d i task =
     (if map_of (tasks d) i \<noteq> None then Inl (InvalidArgument (''Task already exists: '' @ i))
      else Inr (d\<lparr>tasks := map_put i task (tasks d),
                  dependencies := map_put i [] (dependencies d),
                  dependents := map_put i [] (dependents d)\<rparr>))"

subsection \<open>Reachability by breadth-first search\<close>

text \<open>The loop over the successors: \<open>None\<close> when the target is met.\<close>

fun visit_next ::
  "task_id \<Rightarrow> task_id list \<Rightarrow> task_id list \<times> task_id list \<Rightarrow> (task_id list \<times> task_id list) option" where
  "visit_next target [] vq = Some vq"
| "visit_next target (n # ns) (visited, queue) =
     (if n = target then None
      else if n \<in> set visited then visit_next target ns (visited, queue)
      else visit_next target ns (n # visited, queue @ [n]))"

definition succ_nodes :: "'t dag \<Rightarrow> task_id set" where
  "succ_nodes d = (\<Union>kv\<in>set (dependents d). set (snd kv))"

lemma finite_succ_nodes [simp]: "finite (succ_nodes d)"
  by (simp add: succ_nodes_def)

lemma map_of_succ_nodes: "map_of (dependents d) i = Some ns \<Longrightarrow> set ns \<subseteq> succ_nodes d"
  by (force simp: succ_nodes_def dest: map_of_SomeD)

lemma visit_next_measure:
  "visit_next target ns (visited, queue) = Some (visited', queue') \<Longrightarrow> finite U \<Longrightarrow> set ns \<subseteq> U \<Longrightarrow>
   card (U - set visited') + length queue' \<le> card (U - set visited) + length queue"
proof (induction ns arbitrary: visited queue)
  case (Cons n ns)
  show ?case
  proof (cases "n \<in> set visited")
    case True
    then show ?thesis using Cons.prems by (intro Cons.IH) (auto split: if_splits)
  next
    case False
    have "U - set (n # visited) = (U - set visited) - {n}" by auto
    moreover have "Suc (card ((U - set visited) - {n})) = card (U - set visited)"
      using False Cons.prems(2,3) by (intro card_Suc_Diff1) auto
    ultimately have "card (U - set (n # visited)) + length (queue @ [n]) = card (U - set visited) + length queue"
      by simp
    moreover have "card (U - set visited') + length queue' \<le>
        card (U - set (n # visited)) + length (queue @ [n])"
      using False Cons.prems by (intro Cons.IH) (auto split: if_splits)
    ultimately show ?thesis by linarith
  qed
qed simp

function can_reach_loop :: "'t dag \<Rightarrow> task_id \<Rightarrow> task_id list \<Rightarrow> task_id list \<Rightarrow> bool" where
  "can_reach_loop d target visited queue =
     (case queue of
        [] \<Rightarrow> False
      | current # q \<Rightarrow>
          (case map_of (dependents d) current of
             None \<Rightarrow> can_reach_loop d target visited q
           | Some ns \<Rightarrow>
               (case visit_next target ns (visited, q) of
                  None \<Rightarrow> True
                | Some (visited', q') \<Rightarrow> can_reach_loop d target visited' q')))"
  by pat_completeness auto
termination
  by (relation "measure (\<lambda>(d, target, visited, queue). card (succ_nodes d - set visited) + length queue)")
    (auto dest!: visit_next_measure [OF _ finite_succ_nodes map_of_succ_nodes])

declare can_reach_loop.simps [simp del]

lemma can_reach_loop_simps [simp]:
  "can_reach_loop d target visited [] = False"
  "can_reach_loop d target visited (current # q) =
     (case map_of (dependents d) current of
        None \<Rightarrow> can_reach_loop d target visited q
      | Some ns \<Rightarrow>
          (case visit_next target ns (visited, q) of
             None \<Rightarrow> True
           | Some (visited', q') \<Rightarrow> can_reach_loop d target visited' q'))"
  by (simp_all add: can_reach_loop.simps [of d target visited "[]"]
    can_reach_loop.simps [of d target visited "current # q"])

definition can_reach :: "'t dag \<Rightarrow> task_id \<Rightarrow> task_id \<Rightarrow> bool" where
  "can_reach d start target = can_reach_loop d target [start] [start]"

definition add_dependency :: "'t dag \<Rightarrow> task_id \<Rightarrow> task_id \<Rightarrow> dag_error + 't dag" where
  "add_dependency d from to =
     (if map_of (tasks d) from = None then Inl (InvalidArgument (''Task not found: '' @ from))
      else if map_of (tasks d) to = None then Inl (InvalidArgument (''Task not found: '' @ to))
      else if can_reach d to from then Inl (RuntimeError ''Adding dependency would create a cycle'')
      else Inr (d\<lparr>dependencies := insert_at to from (dependencies d),
                  dependents := insert_at from to (dependents d)\<rparr>))"

subsection \<open>Cycle detection by depth-first search\<close>

text \<open>
  \<open>has_cycle_dfs\<close> with the recursive call as an argument of the loop over the dependents. The
  result carries the two sets. The recursion is bounded by fuel; one unit per task is enough.
\<close>

datatype dfs_result = Cycle | NoCycle "task_id list" "task_id list" | DfsError dag_error | DfsFuel

fun dfs_loop ::
  "(task_id \<Rightarrow> task_id list \<Rightarrow> task_id list \<Rightarrow> dfs_result) \<Rightarrow> task_id list \<Rightarrow>
   task_id list \<Rightarrow> task_id list \<Rightarrow> dfs_result" where
  "dfs_loop dfs [] visited rec_stack = NoCycle visited rec_stack"
| "dfs_loop dfs (n # ns) visited rec_stack =
     (case dfs n visited rec_stack of
        NoCycle visited' rec' \<Rightarrow> dfs_loop dfs ns visited' rec'
      | r \<Rightarrow> r)"

primrec has_cycle_dfs ::
  "'t dag \<Rightarrow> nat \<Rightarrow> task_id \<Rightarrow> task_id list \<Rightarrow> task_id list \<Rightarrow> dfs_result" where
  "has_cycle_dfs d 0 i visited rec_stack = DfsFuel"
| "has_cycle_dfs d (Suc fuel) i visited rec_stack =
     (if i \<in> set rec_stack then Cycle
      else if i \<in> set visited then NoCycle visited rec_stack
      else case map_of (dependents d) i of
        None \<Rightarrow> DfsError OutOfRange
      | Some ns \<Rightarrow>
          (case dfs_loop (has_cycle_dfs d fuel) ns (i # visited) (i # rec_stack) of
             NoCycle visited' rec' \<Rightarrow> NoCycle visited' (removeAll i rec')
           | r \<Rightarrow> r))"

definition has_cycle :: "'t dag \<Rightarrow> (dag_error + bool) option" where
  "has_cycle d =
     (case dfs_loop (has_cycle_dfs d (Suc (dag_size d))) (map fst (tasks d)) [] [] of
        Cycle \<Rightarrow> Some (Inr True)
      | NoCycle _ _ \<Rightarrow> Some (Inr False)
      | DfsError e \<Rightarrow> Some (Inl e)
      | DfsFuel \<Rightarrow> None)"

subsection \<open>Topological sort and ready tasks\<close>

text \<open>The loop over the dependents of the popped task.\<close>

fun relax :: "task_id list \<Rightarrow> (task_id \<Rightarrow> u64) \<times> task_id list \<Rightarrow> (task_id \<Rightarrow> u64) \<times> task_id list" where
  "relax [] dq = dq"
| "relax (n # ns) (deg, queue) =
     relax ns (deg(n := deg n - 1), if deg n - 1 = 0 then queue @ [n] else queue)"

primrec kahn_loop ::
  "'t dag \<Rightarrow> nat \<Rightarrow> (task_id \<Rightarrow> u64) \<Rightarrow> task_id list \<Rightarrow> task_id list \<Rightarrow>
   (dag_error + task_id list) option" where
  "kahn_loop d 0 deg queue result = None"
| "kahn_loop d (Suc fuel) deg queue result =
     (case queue of
        [] \<Rightarrow> Some (Inr result)
      | current # q \<Rightarrow>
          (case map_of (dependents d) current of
             None \<Rightarrow> Some (Inl OutOfRange)
           | Some ns \<Rightarrow>
               (let (deg', q') = relax ns (deg, q)
                in kahn_loop d fuel deg' q' (result @ [current]))))"

fun in_degrees :: "(task_id \<times> task_id list) list \<Rightarrow> task_id list \<Rightarrow> dag_error + (task_id \<Rightarrow> u64)" where
  "in_degrees deps [] = Inr (\<lambda>_. 0)"
| "in_degrees deps (i # is) =
     (case map_of deps i of
        None \<Rightarrow> Inl OutOfRange
      | Some ds \<Rightarrow> bind_sum (in_degrees deps is) (\<lambda>deg. Inr (deg(i := of_nat (length ds)))))"

definition topological_sort :: "'t dag \<Rightarrow> (dag_error + task_id list) option" where
  "topological_sort d =
     (case in_degrees (dependencies d) (map fst (tasks d)) of
        Inl e \<Rightarrow> Some (Inl e)
      | Inr deg \<Rightarrow>
          kahn_loop d (Suc (dag_size d)) deg (filter (\<lambda>i. deg i = 0) (map fst (tasks d))) [])"

fun ready_loop ::
  "(task_id \<times> task_id list) list \<Rightarrow> task_id list \<Rightarrow> task_id list \<Rightarrow> dag_error + task_id list" where
  "ready_loop deps completed [] = Inr []"
| "ready_loop deps completed (i # is) =
     (if i \<in> set completed then ready_loop deps completed is
      else case map_of deps i of
        None \<Rightarrow> Inl OutOfRange
      | Some ds \<Rightarrow>
          bind_sum (ready_loop deps completed is)
            (\<lambda>rs. Inr (if list_all (\<lambda>dep. dep \<in> set completed) ds then i # rs else rs)))"

definition get_ready_tasks :: "'t dag \<Rightarrow> task_id list \<Rightarrow> dag_error + task_id list" where
  "get_ready_tasks d completed = ready_loop (dependencies d) completed (map fst (tasks d))"

subsection \<open>The invariant and the edge relation\<close>

definition deps_of :: "'t dag \<Rightarrow> task_id \<Rightarrow> task_id list" where
  "deps_of d i = (case map_of (dependencies d) i of None \<Rightarrow> [] | Some ds \<Rightarrow> ds)"

definition succs_of :: "'t dag \<Rightarrow> task_id \<Rightarrow> task_id list" where
  "succs_of d i = (case map_of (dependents d) i of None \<Rightarrow> [] | Some ds \<Rightarrow> ds)"

definition edges :: "'t dag \<Rightarrow> (task_id \<times> task_id) set" where
  "edges d = {(a, b). b \<in> set (succs_of d a)}"

definition ids :: "'t dag \<Rightarrow> task_id set" where
  "ids d = fst ` set (tasks d)"

definition dag_inv :: "'t dag \<Rightarrow> bool" where
  "dag_inv d \<longleftrightarrow>
     distinct (map fst (tasks d)) \<and>
     dom (map_of (dependencies d)) = ids d \<and> dom (map_of (dependents d)) = ids d \<and>
     (\<forall>a b. b \<in> set (succs_of d a) \<longleftrightarrow> a \<in> set (deps_of d b)) \<and>
     (\<forall>a. distinct (succs_of d a) \<and> distinct (deps_of d a)) \<and>
     edges d \<subseteq> ids d \<times> ids d"

text \<open>No execution order exists if and only if some task depends on itself, directly or not.\<close>

definition dag_acyclic :: "'t dag \<Rightarrow> bool" where
  "dag_acyclic d \<longleftrightarrow> acyclic (edges d)"

lemma dag_invD:
  assumes "dag_inv d"
  shows "distinct (map fst (tasks d))"
    and "i \<in> ids d \<Longrightarrow> map_of (dependencies d) i = Some (deps_of d i)"
    and "i \<in> ids d \<Longrightarrow> map_of (dependents d) i = Some (succs_of d i)"
    and "b \<in> set (succs_of d a) \<longleftrightarrow> a \<in> set (deps_of d b)"
    and "distinct (succs_of d a)" and "distinct (deps_of d a)"
    and "(a, b) \<in> edges d \<Longrightarrow> a \<in> ids d \<and> b \<in> ids d"
proof -
  show "distinct (map fst (tasks d))" "b \<in> set (succs_of d a) \<longleftrightarrow> a \<in> set (deps_of d b)"
    "distinct (succs_of d a)" "distinct (deps_of d a)"
    using assms by (simp_all add: dag_inv_def)
  show "(a, b) \<in> edges d \<Longrightarrow> a \<in> ids d \<and> b \<in> ids d"
    using assms by (auto simp: dag_inv_def)
  show "i \<in> ids d \<Longrightarrow> map_of (dependencies d) i = Some (deps_of d i)"
    "i \<in> ids d \<Longrightarrow> map_of (dependents d) i = Some (succs_of d i)"
    using assms by (auto simp: dag_inv_def deps_of_def succs_of_def domIff split: option.split)
qed

lemma edges_iff: "(a, b) \<in> edges d \<longleftrightarrow> b \<in> set (succs_of d a)"
  by (simp add: edges_def)

lemma edges_deps: "dag_inv d \<Longrightarrow> (a, b) \<in> edges d \<longleftrightarrow> a \<in> set (deps_of d b)"
  by (simp add: edges_iff dag_invD(4))

lemma ids_iff: "i \<in> ids d \<longleftrightarrow> map_of (tasks d) i \<noteq> None"
  by (simp add: ids_def map_of_eq_None_iff)

subsection \<open>Breadth-first search is reachability\<close>

lemma visit_next_None: "visit_next target ns (visited, queue) = None \<longleftrightarrow> target \<in> set ns"
  by (induction ns arbitrary: visited queue) auto

lemma visit_next_Some:
  "visit_next target ns (visited, queue) = Some (visited', queue') \<Longrightarrow>
   set visited' = set visited \<union> set ns \<and> set queue' \<subseteq> set queue \<union> set ns \<and>
   set queue \<subseteq> set queue' \<and> set visited' - set queue' \<subseteq> set visited - set queue"
proof (induction ns arbitrary: visited queue)
  case (Cons n ns)
  show ?case
  proof (cases "n \<in> set visited")
    case True
    with Cons.prems have "visit_next target ns (visited, queue) = Some (visited', queue')"
      by (simp split: if_splits)
    from Cons.IH [OF this] True show ?thesis by auto
  next
    case False
    with Cons.prems have "visit_next target ns (n # visited, queue @ [n]) = Some (visited', queue')"
      by (simp split: if_splits)
    from Cons.IH [OF this] False show ?thesis by auto
  qed
qed simp

text \<open>
  The state of the search: the visited nodes outside the queue are finished, that is their
  successors are visited and none is the target.
\<close>

definition bfs_inv :: "'t dag \<Rightarrow> task_id \<Rightarrow> task_id list \<Rightarrow> task_id list \<Rightarrow> bool" where
  "bfs_inv d target visited queue \<longleftrightarrow> set queue \<subseteq> set visited \<and>
     (\<forall>a\<in>set visited - set queue. set (succs_of d a) \<subseteq> set visited - {target})"

lemma bfs_inv_skip:
  "bfs_inv d target visited (current # q) \<Longrightarrow> succs_of d current = [] \<Longrightarrow> bfs_inv d target visited q"
  by (auto simp: bfs_inv_def)

lemma bfs_inv_visit:
  assumes "bfs_inv d target visited (current # q)" and "succs_of d current = ns"
    and "visit_next target ns (visited, q) = Some (visited', q')"
  shows "bfs_inv d target visited' q'"
proof -
  note v = visit_next_Some [OF assms(3)]
  have t: "target \<notin> set ns"
    using assms(3) visit_next_None [of target ns visited q] by auto
  have sub: "set q \<subseteq> set visited" "current \<in> set visited"
    and fin: "\<And>a. a \<in> set visited \<Longrightarrow> a \<notin> set (current # q) \<Longrightarrow> set (succs_of d a) \<subseteq> set visited - {target}"
    using assms(1) by (auto simp: bfs_inv_def)
  have "set (succs_of d a) \<subseteq> set visited' - {target}" if "a \<in> set visited' - set q'" for a
  proof (cases "a = current")
    case True
    then show ?thesis using v t assms(2) by auto
  next
    case False
    then show ?thesis using v that fin [of a] by auto
  qed
  then show ?thesis using v sub by (auto simp: bfs_inv_def)
qed

lemma bfs_inv_finished:
  assumes "bfs_inv d target visited []" and "a \<in> set visited" and "(a, b) \<in> (edges d)\<^sup>+"
  shows "b \<in> set visited - {target}"
  using assms(3)
proof (induction rule: trancl_induct)
  case (base b)
  then show ?case using assms(1,2) by (auto simp: bfs_inv_def edges_iff)
next
  case (step b c)
  then show ?case using assms(1) by (auto simp: bfs_inv_def edges_iff)
qed

lemma visit_next_reach:
  assumes "visit_next target (succs_of d current) (visited, q) = Some (visited', q')"
    and "current \<in> set visited"
  shows "(\<exists>a\<in>set visited'. (a, t) \<in> (edges d)\<^sup>+) \<longleftrightarrow> (\<exists>a\<in>set visited. (a, t) \<in> (edges d)\<^sup>+)"
proof -
  have "(current, t) \<in> (edges d)\<^sup>+" if "a \<in> set (succs_of d current)" "(a, t) \<in> (edges d)\<^sup>+" for a
    using that trancl_into_trancl2 [of current a "edges d" t] by (simp add: edges_iff)
  moreover have "set visited' = set visited \<union> set (succs_of d current)"
    using visit_next_Some [OF assms(1)] by blast
  ultimately show ?thesis using assms(2) by blast
qed

lemma can_reach_loop_correct:
  "bfs_inv d target visited queue \<Longrightarrow>
   can_reach_loop d target visited queue \<longleftrightarrow> (\<exists>a\<in>set visited. (a, target) \<in> (edges d)\<^sup>+)"
proof (induction d target visited queue rule: can_reach_loop.induct)
  case (1 d target visited queue)
  show ?case
  proof (cases queue)
    case Nil
    then show ?thesis using bfs_inv_finished [of d target visited _ target] 1(3) by auto
  next
    case (Cons current q)
    note inv = 1(3) [unfolded Cons]
    have cur: "current \<in> set visited" using inv by (simp add: bfs_inv_def)
    show ?thesis
    proof (cases "map_of (dependents d) current")
      case None
      then have "bfs_inv d target visited q"
        using bfs_inv_skip [OF inv] by (simp add: succs_of_def)
      from 1(1) [OF Cons None this] show ?thesis using Cons None by simp
    next
      case (Some ns)
      then have ns: "succs_of d current = ns" by (simp add: succs_of_def)
      show ?thesis
      proof (cases "visit_next target ns (visited, q)")
        case None
        then have "(current, target) \<in> edges d" using ns by (simp add: visit_next_None edges_iff)
        then show ?thesis using cur None Cons Some by auto
      next
        case (Some vq)
        obtain visited' q' where vq: "vq = (visited', q')" by force
        note v = Some [unfolded vq]
        have "can_reach_loop d target visited' q' \<longleftrightarrow> (\<exists>a\<in>set visited'. (a, target) \<in> (edges d)\<^sup>+)"
          by (rule 1(2) [OF Cons \<open>map_of (dependents d) current = Some ns\<close> Some vq [symmetric] bfs_inv_visit [OF inv ns v]])
        also have "\<dots> \<longleftrightarrow> (\<exists>a\<in>set visited. (a, target) \<in> (edges d)\<^sup>+)"
          by (rule visit_next_reach [OF v [folded ns] cur])
        finally show ?thesis
          using Cons v \<open>map_of (dependents d) current = Some ns\<close> by simp
      qed
    qed
  qed
qed

lemma can_reach_iff: "can_reach d start target \<longleftrightarrow> (start, target) \<in> (edges d)\<^sup>+"
proof -
  have "bfs_inv d target [start] [start]" by (simp add: bfs_inv_def)
  then show ?thesis unfolding can_reach_def by (simp add: can_reach_loop_correct del: can_reach_loop_simps)
qed

subsection \<open>Building the graph\<close>

lemma map_of_map_put [simp]: "map_of (map_put k v m) = (map_of m)(k \<mapsto> v)"
  by (induction m) auto

lemma keys_map_put: "fst ` set (map_put k v m) = insert k (fst ` set m)"
proof (induction m)
  case (Cons kv m)
  then show ?case by (cases kv) (simp add: insert_commute)
qed simp

lemma distinct_map_put: "distinct (map fst m) \<Longrightarrow> distinct (map fst (map_put k v m))"
proof (induction m)
  case (Cons kv m)
  then show ?case using keys_map_put [of k v m] by (cases kv) auto
qed simp

lemma map_put_fresh: "map_of m k = None \<Longrightarrow> map_put k v m = m @ [(k, v)]"
  by (induction m) (auto split: if_splits)

lemma set_set_insert [simp]: "set (set_insert x xs) = insert x (set xs)"
  by (auto simp: set_insert_def)

lemma distinct_set_insert [simp]: "distinct (set_insert x xs) = distinct xs"
  by (simp add: set_insert_def)

lemma dag_new_inv: "dag_inv dag_new" and dag_new_acyclic: "dag_acyclic dag_new"
  by (simp_all add: dag_inv_def dag_new_def succs_of_def deps_of_def edges_def ids_def
    dag_acyclic_def acyclic_def)

lemma add_task_Inr:
  "add_task d i task = Inr d' \<longleftrightarrow>
   i \<notin> ids d \<and>
   d' = d\<lparr>tasks := map_put i task (tasks d), dependencies := map_put i [] (dependencies d),
          dependents := map_put i [] (dependents d)\<rparr>"
  by (auto simp: add_task_def ids_iff)

lemma add_task_views:
  assumes "dag_inv d" and "add_task d i task = Inr d'"
  shows "ids d' = insert i (ids d)" and "succs_of d' = succs_of d" and "deps_of d' = deps_of d"
    and "edges d' = edges d" and "dom (map_of (dependencies d')) = insert i (ids d)"
    and "dom (map_of (dependents d')) = insert i (ids d)"
proof -
  have i: "i \<notin> dom (map_of (dependencies d))" "i \<notin> dom (map_of (dependents d))"
    using assms by (simp_all add: add_task_Inr dag_inv_def)
  show s: "succs_of d' = succs_of d" and "deps_of d' = deps_of d"
    using assms(2) i by (auto simp: fun_eq_iff add_task_Inr succs_of_def deps_of_def domIff)
  show "edges d' = edges d" using s by (simp add: edges_def)
  show "ids d' = insert i (ids d)"
    using assms(2) keys_map_put [of i task "tasks d"] by (auto simp: add_task_Inr ids_def)
  show "dom (map_of (dependencies d')) = insert i (ids d)" "dom (map_of (dependents d')) = insert i (ids d)"
    using assms by (simp_all add: add_task_Inr dag_inv_def)
qed

lemma add_task_inv:
  assumes "dag_inv d" and "add_task d i task = Inr d'"
  shows "dag_inv d'"
proof -
  have "distinct (map fst (tasks d'))"
    using assms(2) distinct_map_put [OF dag_invD(1) [OF assms(1)]] by (auto simp: add_task_Inr)
  then show ?thesis
    using assms(1) add_task_views [OF assms] by (auto simp: dag_inv_def)
qed

lemma add_dependency_Inr:
  "add_dependency d from to = Inr d' \<longleftrightarrow>
   from \<in> ids d \<and> to \<in> ids d \<and> (to, from) \<notin> (edges d)\<^sup>+ \<and>
   d' = d\<lparr>dependencies := insert_at to from (dependencies d),
          dependents := insert_at from to (dependents d)\<rparr>"
  by (auto simp: add_dependency_def ids_iff can_reach_iff)

lemma add_dependency_views:
  assumes "add_dependency d from to = Inr d'"
  shows "ids d' = ids d" and "tasks d' = tasks d"
    and "succs_of d' = (succs_of d)(from := set_insert to (succs_of d from))"
    and "deps_of d' = (deps_of d)(to := set_insert from (deps_of d to))"
    and "edges d' = insert (from, to) (edges d)"
proof -
  show "ids d' = ids d" "tasks d' = tasks d"
    using assms by (auto simp: add_dependency_Inr ids_def)
  show s: "succs_of d' = (succs_of d)(from := set_insert to (succs_of d from))"
    and "deps_of d' = (deps_of d)(to := set_insert from (deps_of d to))"
    using assms by (auto simp: add_dependency_Inr succs_of_def deps_of_def insert_at_def fun_eq_iff)
  show "edges d' = insert (from, to) (edges d)"
    unfolding edges_def s by (auto split: if_splits)
qed

lemma add_dependency_inv:
  assumes "dag_inv d" and "add_dependency d from to = Inr d'"
  shows "dag_inv d'"
proof -
  note v = add_dependency_views [OF assms(2)]
  have mem: "from \<in> ids d" "to \<in> ids d"
    using assms(2) by (simp_all add: add_dependency_Inr)
  have doms: "dom (map_of (dependencies d')) = ids d" "dom (map_of (dependents d')) = ids d"
    using assms mem by (auto simp: add_dependency_Inr insert_at_def dag_inv_def)
  have "b \<in> set (succs_of d' a) \<longleftrightarrow> a \<in> set (deps_of d' b)" for a b
    using dag_invD(4) [OF assms(1), of b a] by (auto simp: v)
  moreover have "distinct (succs_of d' a) \<and> distinct (deps_of d' a)" for a
    using dag_invD(5,6) [OF assms(1)] by (simp add: v)
  moreover have "edges d' \<subseteq> ids d' \<times> ids d'"
    using mem dag_invD(7) [OF assms(1)] by (auto simp: v)
  ultimately show ?thesis
    unfolding dag_inv_def doms v(1,2) using dag_invD(1) [OF assms(1)] by blast
qed

lemma add_dependency_acyclic:
  assumes "dag_acyclic d" and "from \<noteq> to" and "add_dependency d from to = Inr d'"
  shows "dag_acyclic d'"
  using assms add_dependency_views(5) [OF assms(3)]
  by (auto simp: dag_acyclic_def acyclic_insert add_dependency_Inr rtrancl_eq_or_trancl)

text \<open>
  C24: \<open>add_dependency\<close> on a well-formed acyclic graph, for two distinct tasks: unknown tasks are
  rejected with the name of the first one missing, an edge that would close a cycle is rejected
  and exactly such an edge, and otherwise the edge is added to both maps and the graph stays
  well formed and acyclic.
\<close>

theorem add_dependency_correct:
  assumes "dag_inv d" and "dag_acyclic d" and "from \<noteq> to"
  shows "case add_dependency d from to of
      Inl (InvalidArgument m) \<Rightarrow>
        (from \<notin> ids d \<and> m = ''Task not found: '' @ from) \<or>
        (from \<in> ids d \<and> to \<notin> ids d \<and> m = ''Task not found: '' @ to)
    | Inl (RuntimeError m) \<Rightarrow> from \<in> ids d \<and> to \<in> ids d \<and> \<not> acyclic (insert (from, to) (edges d))
    | Inl OutOfRange \<Rightarrow> False
    | Inr d' \<Rightarrow> dag_inv d' \<and> dag_acyclic d' \<and> tasks d' = tasks d \<and>
               edges d' = insert (from, to) (edges d)"
proof (cases "add_dependency d from to")
  case (Inl e)
  have "\<not> acyclic (insert (from, to) (edges d))" if "can_reach d to from"
    using that by (simp add: can_reach_iff acyclic_insert trancl_into_rtrancl)
  then show ?thesis
    using Inl by (auto simp: add_dependency_def ids_iff split: if_splits)
next
  case (Inr d')
  then show ?thesis
    using add_dependency_inv [OF assms(1) Inr] add_dependency_acyclic [OF assms(2,3) Inr]
      add_dependency_views [OF Inr] by simp
qed

text \<open>The two-task graph of the witnesses.\<close>

definition two_tasks :: "unit dag" where
  "two_tasks = \<lparr>tasks = [(''a'', ()), (''b'', ())], dependencies = [(''a'', []), (''b'', [''a''])],
                dependents = [(''a'', [''b'']), (''b'', [])]\<rparr>"

lemma two_tasks_ok: "dag_inv two_tasks" "dag_acyclic two_tasks"
proof -
  obtain d1 d2 where d: "add_task dag_new ''a'' () = Inr d1" "add_task d1 ''b'' () = Inr d2"
      "add_dependency d2 ''a'' ''b'' = Inr two_tasks"
    by (simp add: add_task_def dag_new_def add_dependency_def can_reach_def insert_at_def set_insert_def
      two_tasks_def)
  have i1: "dag_inv d1" by (rule add_task_inv [OF dag_new_inv d(1)])
  have i2: "dag_inv d2" by (rule add_task_inv [OF i1 d(2)])
  show "dag_inv two_tasks" by (rule add_dependency_inv [OF i2 d(3)])
  have "dag_acyclic d2"
    using add_task_views(4) [OF dag_new_inv d(1)] add_task_views(4) [OF i1 d(2)] dag_new_acyclic
    by (simp add: dag_acyclic_def)
  then show "dag_acyclic two_tasks" by (rule add_dependency_acyclic [OF _ _ d(3)]) simp
qed

theorem add_dependency_correct_witness:
  "\<not> acyclic (insert (''b'', ''a'') (edges two_tasks))"
  using add_dependency_correct [OF two_tasks_ok, of "''b''" "''a''"]
  by (simp add: add_dependency_def can_reach_def two_tasks_def)

text \<open>
  The incremental check misses the shortest cycle: adding a task as its own dependency is
  accepted on every acyclic graph, because the search only tests the nodes after its start, and
  the resulting graph is cyclic.
\<close>

theorem self_dependency_accepted:
  assumes "dag_acyclic d" and "i \<in> ids d"
  shows "\<exists>d'. add_dependency d i i = Inr d' \<and> \<not> dag_acyclic d'"
proof -
  obtain d' where d': "add_dependency d i i = Inr d'"
    using assms by (auto simp: add_dependency_Inr dag_acyclic_def acyclic_def)
  then have "(i, i) \<in> edges d'" using add_dependency_views(5) [OF d'] by simp
  then have "\<not> dag_acyclic d'" by (auto simp: dag_acyclic_def acyclic_def)
  with d' show ?thesis by blast
qed

theorem self_dependency_accepted_witness:
  "\<exists>d'. add_dependency two_tasks ''a'' ''a'' = Inr d' \<and> \<not> dag_acyclic d'"
  by (rule self_dependency_accepted [OF two_tasks_ok(2)]) (simp add: ids_def two_tasks_def)

subsection \<open>Depth-first search finds exactly the cyclic graphs\<close>

text \<open>
  The finished nodes are the visited ones off the stack: they are closed under successors and
  lie on no cycle.
\<close>

definition dfs_inv :: "'t dag \<Rightarrow> task_id list \<Rightarrow> task_id list \<Rightarrow> bool" where
  "dfs_inv d visited rec_stack \<longleftrightarrow> set rec_stack \<subseteq> set visited \<and> set visited \<subseteq> ids d \<and>
     (\<forall>a\<in>set visited - set rec_stack.
        set (succs_of d a) \<subseteq> set visited - set rec_stack \<and> (a, a) \<notin> (edges d)\<^sup>+)"

definition dfs_post ::
  "'t dag \<Rightarrow> task_id set \<Rightarrow> task_id list \<Rightarrow> task_id list \<Rightarrow> dfs_result \<Rightarrow> bool" where
  "dfs_post d ns visited rec_stack res =
     (case res of
        Cycle \<Rightarrow> \<not> dag_acyclic d
      | NoCycle v r \<Rightarrow>
          dfs_inv d v r \<and> set r = set rec_stack \<and> set visited \<subseteq> set v \<and> ns \<subseteq> set v - set r
      | _ \<Rightarrow> False)"

definition dfs_pre :: "'t dag \<Rightarrow> nat \<Rightarrow> task_id set \<Rightarrow> task_id list \<Rightarrow> task_id list \<Rightarrow> bool" where
  "dfs_pre d fuel ns visited rec_stack \<longleftrightarrow>
     dfs_inv d visited rec_stack \<and> ns \<subseteq> ids d \<and> (\<forall>r\<in>set rec_stack. \<forall>n\<in>ns. (r, n) \<in> (edges d)\<^sup>+) \<and>
     card (ids d - set visited) < fuel"

lemma finite_ids [simp]: "finite (ids d)"
  by (simp add: ids_def)

lemma dfs_loop_correct:
  assumes "\<And>i visited rec_stack. dfs_pre d fuel {i} visited rec_stack \<Longrightarrow>
      dfs_post d {i} visited rec_stack (dfs i visited rec_stack)"
  shows "dfs_pre d fuel (set ns) visited rec_stack \<Longrightarrow>
    dfs_post d (set ns) visited rec_stack (dfs_loop dfs ns visited rec_stack)"
proof (induction ns arbitrary: visited rec_stack)
  case Nil
  then show ?case by (simp add: dfs_post_def dfs_pre_def)
next
  case (Cons n ns)
  have "dfs_pre d fuel {n} visited rec_stack" using Cons.prems by (simp add: dfs_pre_def)
  note post = assms [OF this]
  show ?case
  proof (cases "dfs n visited rec_stack")
    case (NoCycle v r)
    then have p: "dfs_inv d v r" "set r = set rec_stack" "set visited \<subseteq> set v" "n \<in> set v - set r"
      using post by (auto simp: dfs_post_def)
    have "card (ids d - set v) \<le> card (ids d - set visited)"
      using p(3) by (intro card_mono) auto
    then have "dfs_pre d fuel (set ns) v r"
      using Cons.prems p by (auto simp: dfs_pre_def)
    from Cons.IH [OF this] NoCycle p show ?thesis
      by (auto simp: dfs_post_def split: dfs_result.splits)
  qed (use post in \<open>simp_all add: dfs_post_def\<close>)
qed

lemma closed_trancl:
  assumes "(a, b) \<in> (edges d)\<^sup>+" and "\<And>a. a \<in> F \<Longrightarrow> set (succs_of d a) \<subseteq> F"
    and "set (succs_of d a) \<subseteq> F"
  shows "b \<in> F"
  using assms(1)
proof (induction rule: trancl_induct)
  case (base b)
  then show ?case using assms(3) by (auto simp: edges_iff)
next
  case (step b c)
  then show ?case using assms(2) [of b] by (auto simp: edges_iff)
qed

lemma dfs_finish:
  assumes "dfs_inv d v r" and "i \<in> set r" and "set (succs_of d i) \<subseteq> set v - set r"
  shows "dfs_inv d v (removeAll i r)"
proof -
  let ?F = "set v - set r"
  have F: "set (succs_of d a) \<subseteq> ?F" "(a, a) \<notin> (edges d)\<^sup>+" if "a \<in> ?F" for a
    using assms(1) that by (auto simp: dfs_inv_def)
  have "(i, i) \<notin> (edges d)\<^sup>+"
    using closed_trancl [OF _ F(1) assms(3), of i] assms(2) by blast
  moreover have "set v - set (removeAll i r) = insert i ?F"
    using assms(1,2) by (auto simp: dfs_inv_def)
  ultimately show ?thesis
    using assms F unfolding dfs_inv_def by auto
qed

lemma has_cycle_dfs_correct:
  assumes "dag_inv d"
  shows "dfs_pre d fuel {i} visited rec_stack \<Longrightarrow>
    dfs_post d {i} visited rec_stack (has_cycle_dfs d fuel i visited rec_stack)"
proof (induction fuel arbitrary: i visited rec_stack)
  case 0
  then show ?case by (simp add: dfs_pre_def)
next
  case (Suc fuel)
  consider (stack) "i \<in> set rec_stack" | (seen) "i \<notin> set rec_stack" "i \<in> set visited"
    | (fresh) "i \<notin> set rec_stack" "i \<notin> set visited"
    by blast
  then show ?case
  proof cases
    case stack
    then have "(i, i) \<in> (edges d)\<^sup>+" using Suc.prems by (simp add: dfs_pre_def)
    then show ?thesis using stack by (auto simp: dfs_post_def dag_acyclic_def acyclic_def)
  next
    case seen
    then show ?thesis using Suc.prems by (simp add: dfs_post_def dfs_pre_def)
  next
    case fresh
    let ?ns = "succs_of d i"
    have i: "i \<in> ids d" and at: "map_of (dependents d) i = Some ?ns"
      using Suc.prems dag_invD(3) [OF assms] by (simp_all add: dfs_pre_def)
    have "ids d - set (i # visited) = (ids d - set visited) - {i}" by auto
    moreover have "Suc (card ((ids d - set visited) - {i})) = card (ids d - set visited)"
      using i fresh by (intro card_Suc_Diff1) auto
    ultimately have card: "card (ids d - set (i # visited)) < fuel"
      using Suc.prems by (simp add: dfs_pre_def)
    have reach: "(r, n) \<in> (edges d)\<^sup>+" if "r \<in> set (i # rec_stack)" "n \<in> set ?ns" for r n
      using that Suc.prems by (auto simp: dfs_pre_def edges_iff intro: trancl_into_trancl)
    have "dfs_inv d (i # visited) (i # rec_stack)"
      using Suc.prems i fresh by (auto simp: dfs_pre_def dfs_inv_def)
    moreover have "set ?ns \<subseteq> ids d"
      using dag_invD(7) [OF assms, of i] by (auto simp: edges_iff)
    ultimately have "dfs_pre d fuel (set ?ns) (i # visited) (i # rec_stack)"
      using card reach unfolding dfs_pre_def by blast
    then have post: "dfs_post d (set ?ns) (i # visited) (i # rec_stack)
        (dfs_loop (has_cycle_dfs d fuel) ?ns (i # visited) (i # rec_stack))"
      by (rule dfs_loop_correct [rotated]) (rule Suc.IH)
    show ?thesis
    proof (cases "dfs_loop (has_cycle_dfs d fuel) ?ns (i # visited) (i # rec_stack)")
      case (NoCycle v r)
      then have p: "dfs_inv d v r" "set r = insert i (set rec_stack)" "insert i (set visited) \<subseteq> set v"
          "set ?ns \<subseteq> set v - set r"
        using post by (auto simp: dfs_post_def)
      have "dfs_inv d v (removeAll i r)" using p by (intro dfs_finish) simp_all
      then show ?thesis using p NoCycle fresh at by (auto simp: dfs_post_def)
    qed (use post fresh at in \<open>simp_all add: dfs_post_def\<close>)
  qed
qed

lemma has_cycle_eq:
  assumes "dag_inv d"
  shows "has_cycle d = Some (Inr (\<not> dag_acyclic d))"
proof -
  have "card (ids d) \<le> dag_size d"
    using card_image_le [of "set (tasks d)" fst] card_length [of "tasks d"]
    by (simp add: ids_def dag_size_def)
  then have "dfs_pre d (Suc (dag_size d)) (set (map fst (tasks d))) [] []"
    by (simp add: dfs_pre_def dfs_inv_def ids_def)
  then have post: "dfs_post d (ids d) [] []
      (dfs_loop (has_cycle_dfs d (Suc (dag_size d))) (map fst (tasks d)) [] [])"
    unfolding ids_def list.set_map [symmetric]
    by (rule dfs_loop_correct [rotated]) (rule has_cycle_dfs_correct [OF assms])
  have "dag_acyclic d" if "dfs_inv d v r" "ids d \<subseteq> set v - set r" for v r
    using that dag_invD(7) [OF assms] unfolding dag_acyclic_def acyclic_def dfs_inv_def
    by (metis subsetD tranclD)
  with post show ?thesis
    by (auto simp: has_cycle_def dfs_post_def split: dfs_result.splits simp del: has_cycle_dfs.simps)
qed

text \<open>
  C26: \<open>has_cycle\<close> decides cyclicity: on a well-formed graph the depth-first search returns (fuel
  for one level per task is enough, and no lookup fails), and it answers true exactly when
  some task depends on itself through one or more edges.
\<close>

theorem has_cycle_correct:
  assumes "dag_inv d"
  shows "has_cycle d = Some (Inr (\<exists>i. (i, i) \<in> (edges d)\<^sup>+))"
  using has_cycle_eq [OF assms] by (simp add: dag_acyclic_def acyclic_def)

theorem has_cycle_correct_witness: "has_cycle two_tasks = Some (Inr False)"
  using has_cycle_correct [OF two_tasks_ok(1)] two_tasks_ok(2) by (simp add: dag_acyclic_def acyclic_def)

subsection \<open>Kahn's algorithm\<close>

lemma relax_eq:
  "distinct ns \<Longrightarrow>
   relax ns (deg, queue) =
     (\<lambda>i. if i \<in> set ns then deg i - 1 else deg i, queue @ filter (\<lambda>n. deg n - 1 = 0) ns)"
proof (induction ns arbitrary: deg queue)
  case (Cons n ns)
  have "filter (\<lambda>m. (deg(n := deg n - 1)) m - 1 = 0) ns = filter (\<lambda>m. deg m - 1 = 0) ns"
    using Cons.prems by (intro filter_cong) auto
  then show ?case using Cons by (auto simp: fun_eq_iff)
qed simp

text \<open>Each task of the list stands after all tasks it depends on.\<close>

definition deps_first :: "'t dag \<Rightarrow> task_id list \<Rightarrow> bool" where
  "deps_first d r \<longleftrightarrow> (\<forall>k<length r. set (deps_of d (r ! k)) \<subseteq> set (take k r))"

lemma deps_first_snoc:
  "deps_first d (r @ [i]) \<longleftrightarrow> deps_first d r \<and> set (deps_of d i) \<subseteq> set r"
  by (auto simp: deps_first_def nth_append less_Suc_eq)

lemma deps_first_closed: "deps_first d r \<Longrightarrow> i \<in> set r \<Longrightarrow> set (deps_of d i) \<subseteq> set r"
  by (metis deps_first_def in_set_conv_nth order_trans set_take_subset)

definition kahn_inv :: "'t dag \<Rightarrow> (task_id \<Rightarrow> u64) \<Rightarrow> task_id list \<Rightarrow> task_id list \<Rightarrow> bool" where
  "kahn_inv d deg queue result \<longleftrightarrow>
     distinct (result @ queue) \<and> set (result @ queue) \<subseteq> ids d \<and> deps_first d result \<and>
     (\<forall>i\<in>ids d. deg i = of_nat (card (set (deps_of d i) - set result))) \<and>
     (\<forall>i\<in>ids d. i \<in> set (result @ queue) \<longleftrightarrow> set (deps_of d i) \<subseteq> set result)"

lemma card_ids: "dag_inv d \<Longrightarrow> card (ids d) = dag_size d"
  using distinct_card [OF dag_invD(1)] by (simp add: ids_def dag_size_def)

lemma deps_ids: "dag_inv d \<Longrightarrow> set (deps_of d i) \<subseteq> ids d"
  using dag_invD(7) edges_deps by blast

text \<open>The number of missing dependencies fits a \<open>size_t\<close>.\<close>

lemma missing_zero:
  assumes "dag_inv d" and "dag_size d < 2 ^ 64"
  shows "(of_nat (card (set (deps_of d i) - R)) :: u64) = 0 \<longleftrightarrow> set (deps_of d i) \<subseteq> R"
proof -
  have "card (set (deps_of d i) - R) \<le> card (ids d)"
    using deps_ids [OF assms(1), of i] by (intro card_mono) auto
  then have "card (set (deps_of d i) - R) < 2 ^ 64"
    using assms(2) card_ids [OF assms(1)] by linarith
  then have "(of_nat (card (set (deps_of d i) - R)) :: u64) = 0 \<longleftrightarrow> card (set (deps_of d i) - R) = 0"
    by (rule of_nat_u64_eq_0)
  then show ?thesis by auto
qed

lemma kahn_step:
  assumes inv: "dag_inv d" and size: "dag_size d < 2 ^ 64" and k: "kahn_inv d deg (current # q) result"
    and r: "relax (succs_of d current) (deg, q) = (deg', q')"
  shows "kahn_inv d deg' q' (result @ [current])"
proof -
  let ?R = "set result" and ?R' = "set (result @ [current])"
  have cur: "current \<in> ids d" "current \<notin> ?R" "current \<notin> set q" "set (deps_of d current) \<subseteq> ?R"
    and ready: "\<And>i. i \<in> ids d \<Longrightarrow> i \<in> set (result @ current # q) \<longleftrightarrow> set (deps_of d i) \<subseteq> ?R"
    and deg: "\<And>i. i \<in> ids d \<Longrightarrow> deg i = of_nat (card (set (deps_of d i) - ?R))"
    using k by (auto simp: kahn_inv_def)
  have succ: "i \<in> set (succs_of d current) \<longleftrightarrow> current \<in> set (deps_of d i)" for i
    by (rule dag_invD(4) [OF inv])
  have deg': "deg' = (\<lambda>i. if i \<in> set (succs_of d current) then deg i - 1 else deg i)"
    and q': "q' = q @ filter (\<lambda>n. deg n - 1 = 0) (succs_of d current)"
    using r relax_eq [OF dag_invD(5) [OF inv], of current deg q] by auto
  have D': "deg' i = of_nat (card (set (deps_of d i) - ?R'))" if "i \<in> ids d" for i
  proof (cases "current \<in> set (deps_of d i)")
    case True
    have "Suc (card (set (deps_of d i) - ?R - {current})) = card (set (deps_of d i) - ?R)"
      using True cur by (intro card_Suc_Diff1) auto
    moreover have "set (deps_of d i) - ?R - {current} = set (deps_of d i) - ?R'" by auto
    ultimately have "deg i = of_nat (card (set (deps_of d i) - ?R')) + 1"
      using deg [OF that] by (metis of_nat_Suc add.commute)
    then show ?thesis using True succ by (simp add: deg')
  next
    case False
    then have "set (deps_of d i) - ?R = set (deps_of d i) - ?R'" by auto
    then show ?thesis using False succ deg [OF that] by (simp add: deg')
  qed
  have succ_ids: "i \<in> ids d" if "i \<in> set (succs_of d current)" for i
    using that dag_invD(7) [OF inv] by (auto simp: edges_iff)
  have new: "i \<in> set q' \<longleftrightarrow> i \<in> set q \<or> current \<in> set (deps_of d i) \<and> set (deps_of d i) \<subseteq> ?R'" for i
    using D' [of i] missing_zero [OF inv size, of i ?R'] succ_ids [of i] succ [of i]
    by (auto simp: q' deg' split: if_splits)
  have R': "i \<in> set ((result @ [current]) @ q') \<longleftrightarrow> set (deps_of d i) \<subseteq> ?R'" if "i \<in> ids d" for i
    using ready [OF that] new [of i] by auto
  have "distinct ((result @ [current]) @ q')"
  proof -
    have "i \<notin> set (result @ current # q)" if "i \<in> set (succs_of d current)" for i
      using that ready [OF succ_ids [OF that]] succ cur(2) by auto
    then show ?thesis
      using k dag_invD(5) [OF inv, of current] by (auto simp: kahn_inv_def q')
  qed
  moreover have "set ((result @ [current]) @ q') \<subseteq> ids d"
    using k succ_ids by (auto simp: kahn_inv_def q')
  moreover have "deps_first d (result @ [current])"
    using k cur(4) by (simp add: kahn_inv_def deps_first_snoc)
  ultimately show ?thesis
    unfolding kahn_inv_def using D' R' by blast
qed

lemma kahn_loop_correct:
  assumes inv: "dag_inv d" and size: "dag_size d < 2 ^ 64"
  shows "kahn_inv d deg queue result \<Longrightarrow> dag_size d < fuel + length result \<Longrightarrow>
    \<exists>deg' r. kahn_loop d fuel deg queue result = Some (Inr r) \<and> kahn_inv d deg' [] r"
proof (induction fuel arbitrary: deg queue result)
  case 0
  have "length result = card (set result)" using 0(1) by (simp add: kahn_inv_def distinct_card)
  also have "\<dots> \<le> card (ids d)" using 0(1) by (intro card_mono) (auto simp: kahn_inv_def)
  finally show ?case using 0(2) card_ids [OF inv] by simp
next
  case (Suc fuel)
  show ?case
  proof (cases queue)
    case Nil
    then show ?thesis using Suc.prems by auto
  next
    case (Cons current q)
    obtain deg' q' where r: "relax (succs_of d current) (deg, q) = (deg', q')" by force
    have "current \<in> ids d" using Suc.prems Cons by (simp add: kahn_inv_def)
    moreover have "kahn_inv d deg' q' (result @ [current])"
      using Suc.prems(1) Cons by (intro kahn_step [OF inv size _ r]) simp
    ultimately show ?thesis
      using Suc.IH [of deg' q' "result @ [current]"] Suc.prems(2) Cons r dag_invD(3) [OF inv]
      by simp
  qed
qed

lemma in_degrees_ok:
  assumes "dag_inv d" and "set is \<subseteq> ids d" and "distinct is"
  shows "\<exists>deg. in_degrees (dependencies d) is = Inr deg \<and>
    (\<forall>i\<in>set is. deg i = of_nat (card (set (deps_of d i))))"
  using assms(2,3)
proof (induction "is")
  case (Cons i "is")
  then obtain deg where deg: "in_degrees (dependencies d) is = Inr deg"
      "\<forall>i\<in>set is. deg i = of_nat (card (set (deps_of d i)))"
    by auto
  have "length (deps_of d i) = card (set (deps_of d i))"
    using distinct_card [OF dag_invD(6) [OF assms(1)]] by simp
  then show ?case
    using deg Cons.prems dag_invD(2) [OF assms(1), of i] by auto
qed simp

lemma pred_closed_trancl:
  assumes "dag_inv d" and "(a, b) \<in> (edges d)\<^sup>+" and "\<And>i. i \<in> R \<Longrightarrow> set (deps_of d i) \<subseteq> R"
    and "set (deps_of d b) \<subseteq> R"
  shows "a \<in> R"
  using assms(2)
proof (induction rule: converse_trancl_induct)
  case (base a)
  then show ?case using assms(1,4) by (auto simp: edges_deps)
next
  case (step a c)
  then show ?case using assms(1,3) by (auto simp: edges_deps)
qed

lemma deps_first_acyclic:
  "dag_inv d \<Longrightarrow> deps_first d r \<Longrightarrow> distinct r \<Longrightarrow> i \<in> set r \<Longrightarrow> (i, i) \<notin> (edges d)\<^sup>+"
proof (induction r rule: rev_induct)
  case (snoc x r)
  have f: "deps_first d r" "set (deps_of d x) \<subseteq> set r" "x \<notin> set r"
    using snoc.prems by (auto simp: deps_first_snoc)
  have "(x, x) \<notin> (edges d)\<^sup>+"
    using pred_closed_trancl [OF snoc.prems(1) _ deps_first_closed [OF f(1)] f(2), of x] f(3) by blast
  then show ?case using snoc f(1) by auto
qed simp

lemma finite_edges: "dag_inv d \<Longrightarrow> finite (edges d)"
  by (rule finite_subset [of _ "ids d \<times> ids d"]) (auto simp: dag_inv_def)

lemma ready_closed_complete:
  assumes "dag_inv d" and "dag_acyclic d" and "\<And>i. i \<in> ids d \<Longrightarrow> set (deps_of d i) \<subseteq> R \<Longrightarrow> i \<in> R"
  shows "ids d \<subseteq> R"
proof (rule ccontr)
  assume "\<not> ids d \<subseteq> R"
  then obtain x where "x \<in> ids d - R" by auto
  moreover have "wf (edges d)"
    using assms(2) finite_edges [OF assms(1)] by (simp add: dag_acyclic_def finite_acyclic_wf)
  ultimately obtain z where z: "z \<in> ids d - R" "\<And>y. (y, z) \<in> edges d \<Longrightarrow> y \<notin> ids d - R"
    using wfE_min [of "edges d" x "ids d - R"] by metis
  have "set (deps_of d z) \<subseteq> R"
    using z(2) edges_deps [OF assms(1)] deps_ids [OF assms(1)] by blast
  then show False using assms(3) z(1) by blast
qed



subsection \<open>Ready tasks\<close>

lemma ready_loop_eq:
  assumes "dag_inv d" and "set is \<subseteq> ids d"
  shows "ready_loop (dependencies d) completed is =
    Inr (filter (\<lambda>i. i \<notin> set completed \<and> set (deps_of d i) \<subseteq> set completed) is)"
  using assms(2)
proof (induction "is")
  case (Cons i "is")
  then show ?case using dag_invD(2) [OF assms(1), of i] by (auto simp: list_all_iff subset_iff)
qed simp

lemma get_ready_tasks_eq:
  assumes "dag_inv d"
  shows "get_ready_tasks d completed =
    Inr (filter (\<lambda>i. i \<notin> set completed \<and> set (deps_of d i) \<subseteq> set completed) (map fst (tasks d)))"
  unfolding get_ready_tasks_def by (rule ready_loop_eq [OF assms]) (simp add: ids_def)

text \<open>
  A workflow never stalls: in a well-formed acyclic graph with some task not yet completed
  \<open>get_ready_tasks\<close> returns at least one task, each returned task is incomplete and has all its
  dependencies completed, and no task is returned twice.
\<close>

theorem get_ready_tasks_progress:
  assumes "dag_inv d" and "dag_acyclic d" and "\<not> ids d \<subseteq> set completed"
  shows "\<exists>rs. get_ready_tasks d completed = Inr rs \<and> rs \<noteq> [] \<and> distinct rs \<and>
    (\<forall>i\<in>set rs. i \<in> ids d \<and> i \<notin> set completed \<and> set (deps_of d i) \<subseteq> set completed)"
proof -
  obtain i where "i \<in> ids d" "i \<notin> set completed" "set (deps_of d i) \<subseteq> set completed"
    using ready_closed_complete [OF assms(1,2), of "set completed"] assms(3) by blast
  then show ?thesis
    using dag_invD(1) [OF assms(1)] by (auto simp: get_ready_tasks_eq [OF assms(1)] ids_def filter_empty_conv)
qed

theorem get_ready_tasks_progress_witness:
  "\<exists>rs. get_ready_tasks two_tasks [] = Inr rs \<and> rs \<noteq> []"
  using get_ready_tasks_progress [OF two_tasks_ok, of "[]"] by (auto simp: ids_def two_tasks_def)

end
