(* ===== verification/Executor.thy ===== *)
theory Executor
  imports Dag
begin

text \<open>
  Task results, the task executor (\<open>workflow/executor.cpp\<close>) and the metrics collector
  (\<open>workflow/metrics.cpp\<close>). What a task does is a parameter: \<open>exec task ctx attempt\<close> is the
  outcome of the given attempt, a result or an exception. A null task pointer is \<open>None\<close>. The
  futures of a batch are read in the order of the tasks, so a batch is a list of outcomes and
  the first exception in that order is the one that leaves the function.
\<close>

record 'o task_result =
  success :: bool
  error_message :: string
  res_output :: "'o option"

definition ok_result :: "'o option \<Rightarrow> 'o task_result" where
  "ok_result out = \<lparr>success = True, error_message = [], res_output = out\<rparr>"

definition error_result :: "string \<Rightarrow> 'o task_result" where
  "error_result msg = \<lparr>success = False, error_message = msg, res_output = None\<rparr>"

record 'o task_context =
  ctx_task_id :: task_id
  upstream_results :: "(task_id \<times> 'o task_result) list"

datatype 'o outcome = Returned "'o task_result" | Threw string

type_synonym ('t, 'o) exec = "'t \<Rightarrow> 'o task_context \<Rightarrow> nat \<Rightarrow> 'o outcome"

record retry_policy =
  max_retries :: nat
  retry_delay_ms :: u32
  exponential_backoff :: bool

definition execute_task :: "('t, 'o) exec \<Rightarrow> 't option \<Rightarrow> 'o task_context \<Rightarrow> 'o outcome" where
  "execute_task exec task ctx =
     (case task of None \<Rightarrow> Returned (error_result ''Task is null'') | Some t \<Rightarrow> exec t ctx 0)"

text \<open>The delay before the next attempt; \<open>uint32_t\<close> arithmetic.\<close>

definition retry_delay :: "retry_policy \<Rightarrow> nat \<Rightarrow> u32" where
  "retry_delay policy attempt =
     (if exponential_backoff policy then retry_delay_ms policy * push_bit attempt 1
      else retry_delay_ms policy)"

text \<open>
  The attempt loop, from attempt \<open>a\<close> with \<open>n\<close> retries left; the second component is the list of
  delays slept.
\<close>

primrec retry_loop ::
  "('t, 'o) exec \<Rightarrow> 't \<Rightarrow> 'o task_context \<Rightarrow> retry_policy \<Rightarrow> nat \<Rightarrow> nat \<Rightarrow> 'o task_result \<times> u32 list" where
  "retry_loop exec t ctx policy a 0 =
     (case exec t ctx a of
        Returned r \<Rightarrow> if success r then (r, []) else (error_result ''Max retries exceeded'', [])
      | Threw e \<Rightarrow> (error_result ''Max retries exceeded'', []))"
| "retry_loop exec t ctx policy a (Suc n) =
     (let again = (case retry_loop exec t ctx policy (Suc a) n of
                     (r, ds) \<Rightarrow> (r, retry_delay policy a # ds))
      in case exec t ctx a of
           Returned r \<Rightarrow> if success r then (r, []) else again
         | Threw e \<Rightarrow> again)"

definition execute_task_with_retry ::
  "('t, 'o) exec \<Rightarrow> 't option \<Rightarrow> 'o task_context \<Rightarrow> retry_policy \<Rightarrow> 'o task_result \<times> u32 list" where
  "execute_task_with_retry exec task ctx policy =
     (case task of
        None \<Rightarrow> (error_result ''Task is null'', [])
      | Some t \<Rightarrow> retry_loop exec t ctx policy 0 (max_retries policy))"

text \<open>\<open>future.get()\<close> over the batch: the first exception is rethrown.\<close>

fun get_all :: "'o outcome list \<Rightarrow> string + 'o task_result list" where
  "get_all [] = Inr []"
| "get_all (Threw e # os) = Inl e"
| "get_all (Returned r # os) = bind_sum (get_all os) (\<lambda>rs. Inr (r # rs))"

text \<open>\<open>task->id()\<close> is the parameter \<open>tid\<close>; null tasks are skipped.\<close>

definition execute_batch ::
  "('t, 'o) exec \<Rightarrow> ('t \<Rightarrow> task_id) \<Rightarrow> 't option list \<Rightarrow> 'o task_context \<Rightarrow> string + 'o task_result list" where
  "execute_batch exec tid ts ctx =
     get_all (map (\<lambda>t. exec t (ctx\<lparr>ctx_task_id := tid t\<rparr>) 0) (List.map_filter id ts))"

definition execute_batch_with_retry ::
  "('t, 'o) exec \<Rightarrow> ('t \<Rightarrow> task_id) \<Rightarrow> 't option list \<Rightarrow> 'o task_context \<Rightarrow> retry_policy \<Rightarrow>
   string + 'o task_result list" where
  "execute_batch_with_retry exec tid ts ctx policy =
     Inr (map (\<lambda>t. fst (execute_task_with_retry exec (Some t) (ctx\<lparr>ctx_task_id := tid t\<rparr>) policy))
           (List.map_filter id ts))"

subsection \<open>Metrics\<close>

text \<open>Times are milliseconds; the clock is an argument. \<open>estimated_cost\<close> is a floating-point value and is left out.\<close>

record metrics =
  total_duration :: nat
  llm_time :: nat
  tool_time :: nat
  total_tokens :: nat
  total_tool_calls :: nat
  parallel_tasks_peak :: nat
  total_tasks :: nat
  completed_count :: nat
  failed_count :: nat

record collector =
  metrics_data :: metrics
  task_start_times :: "(string \<times> nat) list"
  task_types :: "(string \<times> string) list"
  current_parallel_tasks :: u64
  peak :: u64

definition metrics_zero :: metrics where
  "metrics_zero = \<lparr>total_duration = 0, llm_time = 0, tool_time = 0, total_tokens = 0,
     total_tool_calls = 0, parallel_tasks_peak = 0, total_tasks = 0, completed_count = 0, failed_count = 0\<rparr>"

definition metrics_reset :: collector where
  "metrics_reset = \<lparr>metrics_data = metrics_zero, task_start_times = [], task_types = [],
     current_parallel_tasks = 0, peak = 0\<rparr>"

definition record_task_start :: "nat \<Rightarrow> string \<Rightarrow> string \<Rightarrow> collector \<Rightarrow> collector" where
  "record_task_start now i ty c =
     c\<lparr>task_start_times := map_put i now (task_start_times c),
       task_types := map_put i ty (task_types c),
       current_parallel_tasks := current_parallel_tasks c + 1,
       peak := max (peak c) (current_parallel_tasks c + 1)\<rparr>"

definition add_duration :: "string option \<Rightarrow> nat \<Rightarrow> metrics \<Rightarrow> metrics" where
  "add_duration ty duration m =
     (if ty = Some ''llm'' then m\<lparr>llm_time := llm_time m + duration\<rparr>
      else if ty = Some ''tool'' then m\<lparr>tool_time := tool_time m + duration\<rparr>
      else m)"

definition record_task_complete :: "nat \<Rightarrow> string \<Rightarrow> 'o task_result \<Rightarrow> collector \<Rightarrow> collector" where
  "record_task_complete now i r c =
     (let (m, starts) =
        (case map_of (task_start_times c) i of
           None \<Rightarrow> (metrics_data c, task_start_times c)
         | Some t \<Rightarrow> (add_duration (map_of (task_types c) i) (now - t) (metrics_data c),
                      filter (\<lambda>kv. fst kv \<noteq> i) (task_start_times c)));
          m1 = m\<lparr>total_tasks := total_tasks m + 1\<rparr>;
          m2 = (if success r then m1\<lparr>completed_count := completed_count m1 + 1\<rparr>
                else m1\<lparr>failed_count := failed_count m1 + 1\<rparr>)
      in c\<lparr>metrics_data := m2, task_start_times := starts,
           current_parallel_tasks := current_parallel_tasks c - 1\<rparr>)"

definition record_tool_call :: "collector \<Rightarrow> collector" where
  "record_tool_call c =
     c\<lparr>metrics_data := (metrics_data c)\<lparr>total_tool_calls := total_tool_calls (metrics_data c) + 1\<rparr>\<rparr>"

definition record_tokens :: "nat \<Rightarrow> collector \<Rightarrow> collector" where
  "record_tokens n c =
     c\<lparr>metrics_data := (metrics_data c)\<lparr>total_tokens := total_tokens (metrics_data c) + n\<rparr>\<rparr>"

definition set_total_duration :: "nat \<Rightarrow> collector \<Rightarrow> collector" where
  "set_total_duration ms c = c\<lparr>metrics_data := (metrics_data c)\<lparr>total_duration := ms\<rparr>\<rparr>"

definition get_metrics :: "collector \<Rightarrow> metrics" where
  "get_metrics c = metrics_data c"

subsection \<open>Retrying\<close>

definition attempt_ok :: "('t, 'o) exec \<Rightarrow> 't \<Rightarrow> 'o task_context \<Rightarrow> nat \<Rightarrow> bool" where
  "attempt_ok exec t ctx k \<longleftrightarrow> (case exec t ctx k of Returned r \<Rightarrow> success r | Threw _ \<Rightarrow> False)"

lemma retry_loop_success:
  assumes "k \<le> n" and "\<And>j. j < k \<Longrightarrow> \<not> attempt_ok exec t ctx (a + j)" and "attempt_ok exec t ctx (a + k)"
  shows "exec t ctx (a + k) = Returned (fst (retry_loop exec t ctx policy a n)) \<and>
    snd (retry_loop exec t ctx policy a n) = map (retry_delay policy) [a..<a + k]"
  using assms
proof (induction n arbitrary: a k)
  case 0
  then show ?case by (auto simp: attempt_ok_def split: outcome.splits)
next
  case (Suc n)
  show ?case
  proof (cases k)
    case 0
    then show ?thesis using Suc.prems(3) by (auto simp: attempt_ok_def Let_def split: outcome.splits)
  next
    case (Suc k')
    have "\<not> attempt_ok exec t ctx a" using Suc.prems(2) [of 0] Suc by simp
    moreover have "exec t ctx (Suc a + k') = Returned (fst (retry_loop exec t ctx policy (Suc a) n)) \<and>
        snd (retry_loop exec t ctx policy (Suc a) n) = map (retry_delay policy) [Suc a..<Suc a + k']"
      using Suc.prems Suc Suc.prems(2) [of "Suc _"] by (intro Suc.IH) auto
    moreover have "[a..<a + k] = a # [Suc a..<Suc a + k']"
      using Suc by (simp add: upt_conv_Cons)
    ultimately show ?thesis
      using Suc by (auto simp: attempt_ok_def Let_def split: outcome.splits prod.splits)
  qed
qed

lemma retry_loop_exhausted:
  "(\<And>j. j \<le> n \<Longrightarrow> \<not> attempt_ok exec t ctx (a + j)) \<Longrightarrow>
   retry_loop exec t ctx policy a n =
     (error_result ''Max retries exceeded'', map (retry_delay policy) [a..<a + n])"
proof (induction n arbitrary: a)
  case 0
  then show ?case by (auto simp: attempt_ok_def split: outcome.splits)
next
  case (Suc n)
  have "\<not> attempt_ok exec t ctx a" using Suc.prems [of 0] by simp
  moreover have "retry_loop exec t ctx policy (Suc a) n =
      (error_result ''Max retries exceeded'', map (retry_delay policy) [Suc a..<Suc a + n])"
    using Suc.prems [of "Suc _"] by (intro Suc.IH) auto
  moreover have "[a..<a + Suc n] = a # [Suc a..<Suc a + n]"
    by (simp add: upt_conv_Cons del: upt_Suc)
  ultimately show ?case
    by (auto simp: attempt_ok_def Let_def simp del: upt_Suc split: outcome.splits)
qed

text \<open>
  \<open>execute_task_with_retry\<close> makes at most \<open>max_retries + 1\<close> attempts and stops at the first one
  that succeeds, returning its result: with the first success at attempt \<open>k\<close> exactly the delays
  of the attempts before it are slept. If no attempt succeeds, by an error or an exception, the
  result is the failure \<open>Max retries exceeded\<close> after \<open>max_retries\<close> delays.
\<close>

theorem retry_correct:
  "case find (attempt_ok exec t ctx) [0..<Suc (max_retries policy)] of
     Some k \<Rightarrow>
       exec t ctx k = Returned (fst (execute_task_with_retry exec (Some t) ctx policy)) \<and>
       snd (execute_task_with_retry exec (Some t) ctx policy) = map (retry_delay policy) [0..<k]
   | None \<Rightarrow>
       execute_task_with_retry exec (Some t) ctx policy =
         (error_result ''Max retries exceeded'', map (retry_delay policy) [0..<max_retries policy])"
proof (cases "find (attempt_ok exec t ctx) [0..<Suc (max_retries policy)]")
  case None
  then have "\<not> attempt_ok exec t ctx j" if "j \<le> max_retries policy" for j
    using that by (auto simp: find_None_iff simp del: upt_Suc)
  then show ?thesis
    using None retry_loop_exhausted [of "max_retries policy" exec t ctx 0 policy]
    by (simp add: execute_task_with_retry_def del: upt_Suc)
next
  case (Some k)
  then have "k \<le> max_retries policy" "attempt_ok exec t ctx k" "\<And>j. j < k \<Longrightarrow> \<not> attempt_ok exec t ctx j"
    by (auto simp: find_Some_iff less_Suc_eq_le simp del: upt_Suc)
  then show ?thesis
    using Some retry_loop_success [of k "max_retries policy" exec t ctx 0 policy]
    by (simp add: execute_task_with_retry_def del: upt_Suc)
qed

subsection \<open>Collected metrics\<close>

datatype 'o metric_call =
    StartCall nat string string
  | CompleteCall nat string "'o task_result"
  | ToolCall
  | TokensCall nat
  | DurationCall nat

fun metric_step :: "'o metric_call \<Rightarrow> collector \<Rightarrow> collector" where
  "metric_step (StartCall now i ty) c = record_task_start now i ty c"
| "metric_step (CompleteCall now i r) c = record_task_complete now i r c"
| "metric_step ToolCall c = record_tool_call c"
| "metric_step (TokensCall n) c = record_tokens n c"
| "metric_step (DurationCall ms) c = set_total_duration ms c"

lemmas metric_defs = record_task_start_def record_task_complete_def record_tool_call_def
  record_tokens_def set_total_duration_def add_duration_def get_metrics_def Let_def

lemma metric_step_counts:
  "total_tasks (metrics_data c) = completed_count (metrics_data c) + failed_count (metrics_data c) \<and>
   parallel_tasks_peak (metrics_data c) = 0 \<Longrightarrow>
   total_tasks (metrics_data (metric_step call c)) =
     completed_count (metrics_data (metric_step call c)) + failed_count (metrics_data (metric_step call c)) \<and>
   parallel_tasks_peak (metrics_data (metric_step call c)) = 0"
  by (cases call) (auto simp: metric_defs split: option.split)

text \<open>
  After any sequence of recording calls the reported number of tasks is the number of
  completed plus the number of failed ones, but the reported peak of parallel tasks is always
  zero: the collector keeps the peak in a member that \<open>get_metrics\<close> does not copy.
\<close>

theorem metrics_counts:
  "let m = get_metrics (fold metric_step calls metrics_reset)
   in total_tasks m = completed_count m + failed_count m \<and> parallel_tasks_peak m = 0"
proof -
  let ?P = "\<lambda>c. total_tasks (metrics_data c) = completed_count (metrics_data c) + failed_count (metrics_data c) \<and>
    parallel_tasks_peak (metrics_data c) = 0"
  have "?P c \<Longrightarrow> ?P (fold metric_step calls c)" for c
    by (induction calls arbitrary: c) (simp_all add: metric_step_counts)
  then show ?thesis by (simp add: metrics_reset_def metrics_zero_def get_metrics_def)
qed

end
