(* ===== verification/Scheduler.thy ===== *)
theory Scheduler
  imports Executor
begin

text \<open>
  The workflow scheduler (\<open>workflow/scheduler.cpp\<close>). One run is a function of the scheduler's
  state and of its environment: \<open>exec\<close> and \<open>tid\<close> of theory \<open>Executor\<close>, the flags that other threads
  set (\<open>signals k\<close> is what \<open>paused_\<close> and \<open>cancelled_\<close> hold at the \<open>k\<close>-th check), and the clock,
  indexed by the number of events emitted so far. The emitted events are kept as a trace; log
  output is left out. The loop carries fuel, and one unit per task plus one is shown to be enough.
\<close>

datatype workflow_status = WPending | WRunning | WPaused | WSuccess | WFailed | WCancelled

fun workflow_status_name :: "workflow_status \<Rightarrow> string" where
  "workflow_status_name WPending = ''pending''"
| "workflow_status_name WRunning = ''running''"
| "workflow_status_name WPaused = ''paused''"
| "workflow_status_name WSuccess = ''success''"
| "workflow_status_name WFailed = ''failed''"
| "workflow_status_name WCancelled = ''cancelled''"

datatype error_strategy = FailFast | Continue | Retry

record 'o workflow_result =
  wr_success :: bool
  wr_error :: string
  wr_results :: "(task_id \<times> 'o task_result) list"
  wr_status :: workflow_status
  wr_total :: nat
  wr_completed :: nat
  wr_failed :: nat
  wr_time_ms :: nat

definition result_new :: "'o workflow_result" where
  "result_new = \<lparr>wr_success = False, wr_error = [], wr_results = [], wr_status = WRunning,
     wr_total = 0, wr_completed = 0, wr_failed = 0, wr_time_ms = 0\<rparr>"

datatype event =
    TaskStarted task_id
  | TaskCompleted task_id
  | TaskFailed task_id string
  | Progress nat nat

record ('t, 'o) scheduler =
  dag_of :: "'t option dag"
  strategy :: error_strategy
  policy :: retry_policy
  running :: bool
  paused :: bool
  cancelled :: bool
  completed_tasks :: "task_id list"
  task_results :: "(task_id \<times> 'o task_result) list"
  metrics_of :: "collector option"
  trace :: "event list"

record ('t, 'o) environment =
  env_exec :: "('t, 'o) exec"
  env_tid :: "'t \<Rightarrow> task_id"
  env_signals :: "nat \<Rightarrow> bool \<times> bool"
  env_clock :: "nat \<Rightarrow> nat"

definition scheduler_new ::
  "'t option dag \<Rightarrow> error_strategy \<Rightarrow> retry_policy \<Rightarrow> collector option \<Rightarrow> ('t, 'o) scheduler" where
  "scheduler_new d str pol m = \<lparr>dag_of = d, strategy = str, policy = pol, running = False, paused = False,
     cancelled = False, completed_tasks = [], task_results = [], metrics_of = m, trace = []\<rparr>"

definition pause :: "('t, 'o) scheduler \<Rightarrow> ('t, 'o) scheduler" where
  "pause s = s\<lparr>paused := True\<rparr>"

definition resume :: "('t, 'o) scheduler \<Rightarrow> ('t, 'o) scheduler" where
  "resume s = s\<lparr>paused := False\<rparr>"

definition cancel :: "('t, 'o) scheduler \<Rightarrow> ('t, 'o) scheduler" where
  "cancel s = s\<lparr>cancelled := True\<rparr>"

definition should_stop :: "('t, 'o) scheduler \<Rightarrow> bool" where
  "should_stop s \<longleftrightarrow> cancelled s \<or> paused s"

definition successful_task_ids :: "('t, 'o) scheduler \<Rightarrow> task_id list" where
  "successful_task_ids s = map fst (filter (\<lambda>ir. success (snd ir)) (task_results s))"

definition failed_results :: "(task_id \<times> 'o task_result) list \<Rightarrow> nat" where
  "failed_results rs = length (filter (\<lambda>ir. \<not> success (snd ir)) rs)"

text \<open>\<open>get_ready_tasks\<close> on the successful tasks, less the completed ones.\<close>

definition ready_batch :: "('t, 'o) scheduler \<Rightarrow> dag_error + task_id list" where
  "ready_batch s =
     map_sum id (filter (\<lambda>i. i \<notin> set (completed_tasks s)))
       (get_ready_tasks (dag_of s) (successful_task_ids s))"

text \<open>A null task pointer counts as missing.\<close>

definition find_task :: "'t option dag \<Rightarrow> task_id \<Rightarrow> 't option" where
  "find_task d i = (case get_task d i of None \<Rightarrow> None | Some t \<Rightarrow> t)"

definition execute_single_task ::
  "('t, 'o) environment \<Rightarrow> ('t, 'o) scheduler \<Rightarrow> task_id \<Rightarrow> 'o outcome" where
  "execute_single_task env s i =
     (case find_task (dag_of s) i of
        None \<Rightarrow> Returned (error_result (''Task not found: '' @ i))
      | Some t \<Rightarrow>
          (let ctx = \<lparr>ctx_task_id = i, upstream_results = task_results s\<rparr> in
           if 0 < max_retries (policy s)
           then Returned (fst (execute_task_with_retry (env_exec env) (Some t) ctx (policy s)))
           else execute_task (env_exec env) (Some t) ctx))"

text \<open>Pairs the scheduled tasks with the results of the batch; a missing result is an error.\<close>

fun pair_results :: "task_id list \<Rightarrow> 'o task_result list \<Rightarrow> (task_id \<times> 'o task_result) list" where
  "pair_results [] rs = []"
| "pair_results (i # is) [] =
     (i, error_result ''batch execution returned missing result'') # pair_results is []"
| "pair_results (i # is) (r # rs) = (i, r) # pair_results is rs"

definition execute_batch_tasks ::
  "('t, 'o) environment \<Rightarrow> ('t, 'o) scheduler \<Rightarrow> task_id list \<Rightarrow>
   string + (task_id \<times> 'o task_result) list" where
  "execute_batch_tasks env s batch =
     (let missing = filter (\<lambda>i. find_task (dag_of s) i = None) batch;
          scheduled = filter (\<lambda>i. find_task (dag_of s) i \<noteq> None) batch;
          ts = map (find_task (dag_of s)) scheduled;
          errors = map (\<lambda>i. (i, error_result (''Task not found: '' @ i))) missing;
          ctx = \<lparr>ctx_task_id = [], upstream_results = task_results s\<rparr>
      in if ts = [] then Inr errors
         else bind_sum
           (if 0 < max_retries (policy s)
            then execute_batch_with_retry (env_exec env) (env_tid env) ts ctx (policy s)
            else execute_batch (env_exec env) (env_tid env) ts ctx)
           (\<lambda>rs. Inr (errors @ pair_results scheduled rs)))"

definition emit :: "event \<Rightarrow> ('t, 'o) scheduler \<Rightarrow> ('t, 'o) scheduler" where
  "emit e s = s\<lparr>trace := trace s @ [e]\<rparr>"

definition now_ms :: "('t, 'o) environment \<Rightarrow> ('t, 'o) scheduler \<Rightarrow> nat" where
  "now_ms env s = env_clock env (length (trace s))"

text \<open>The started events of a batch, then the metrics of its tasks.\<close>

definition start_batch ::
  "('t, 'o) environment \<Rightarrow> task_id list \<Rightarrow> ('t, 'o) scheduler \<Rightarrow> ('t, 'o) scheduler" where
  "start_batch env batch s =
     (let s1 = fold (\<lambda>i. emit (TaskStarted i)) batch s
      in s1\<lparr>metrics_of :=
           map_option
             (fold (\<lambda>i. record_task_start (now_ms env s1) i
                (if find_task (dag_of s1) i \<noteq> None then ''task'' else ''unknown'')) batch)
             (metrics_of s1)\<rparr>)"

text \<open>One result: recorded, marked completed, published, counted.\<close>

definition record_result ::
  "('t, 'o) environment \<Rightarrow> task_id \<times> 'o task_result \<Rightarrow> ('t, 'o) scheduler \<Rightarrow> ('t, 'o) scheduler" where
  "record_result env ir s =
     (case ir of (i, r) \<Rightarrow>
        (let s1 = s\<lparr>task_results := map_put i r (task_results s),
                    completed_tasks := set_insert i (completed_tasks s)\<rparr>;
             s2 = emit (if success r then TaskCompleted i else TaskFailed i (error_message r)) s1
         in s2\<lparr>metrics_of := map_option (record_task_complete (now_ms env s2) i r) (metrics_of s2)\<rparr>))"

text \<open>
  The loop over the results of a batch; \<open>Inl\<close> is the early return of \<open>FAIL_FAST\<close> with the failed
  task, whose later neighbours in the batch are not recorded.
\<close>

fun process_results ::
  "('t, 'o) environment \<Rightarrow> (task_id \<times> 'o task_result) list \<Rightarrow> ('t, 'o) scheduler \<Rightarrow>
   (task_id \<times> 'o task_result) option \<times> ('t, 'o) scheduler" where
  "process_results env [] s = (None, s)"
| "process_results env (ir # irs) s =
     (let s1 = record_result env ir s in
      if \<not> success (snd ir) \<and> strategy s1 = FailFast then (Some ir, s1)
      else process_results env irs s1)"

datatype 'o run_outcome = RunDone "'o workflow_result" | RunThrew string | RunDagError dag_error | RunFuel

definition fail_result :: "string \<Rightarrow> 'o workflow_result" where
  "fail_result msg = result_new\<lparr>wr_error := msg, wr_status := WFailed\<rparr>"

text \<open>The end of a run that processed every task.\<close>

definition finish_run ::
  "('t, 'o) environment \<Rightarrow> nat \<Rightarrow> ('t, 'o) scheduler \<Rightarrow> 'o run_outcome \<times> ('t, 'o) scheduler" where
  "finish_run env start s =
     (let duration = now_ms env s - start;
          failed = failed_results (task_results s);
          r = result_new\<lparr>wr_results := task_results s, wr_completed := length (completed_tasks s),
                wr_success := (failed = 0), wr_status := (if failed = 0 then WSuccess else WFailed),
                wr_total := dag_size (dag_of s), wr_failed := failed, wr_time_ms := duration\<rparr>
      in (RunDone r,
          s\<lparr>metrics_of := map_option (set_total_duration duration) (metrics_of s), running := False\<rparr>))"

primrec run_loop ::
  "('t, 'o) environment \<Rightarrow> nat \<Rightarrow> nat \<Rightarrow> nat \<Rightarrow> ('t, 'o) scheduler \<Rightarrow>
   'o run_outcome \<times> ('t, 'o) scheduler" where
  "run_loop env start 0 k s = (RunFuel, s)"
| "run_loop env start (Suc fuel) k s =
     (if length (completed_tasks s) < dag_size (dag_of s) then
        (let s0 = s\<lparr>paused := fst (env_signals env k), cancelled := snd (env_signals env k)\<rparr> in
         if should_stop s0 then
           (RunDone (result_new\<lparr>wr_status := (if cancelled s0 then WCancelled else WPaused)\<rparr>),
            s0\<lparr>running := False\<rparr>)
         else case ready_batch s0 of
           Inl e \<Rightarrow> (RunDagError e, s0)
         | Inr batch \<Rightarrow>
             if batch = [] then
               (RunDone (fail_result ''Some tasks failed, blocking downstream tasks''), s0\<lparr>running := False\<rparr>)
             else
               (let s1 = start_batch env batch s0 in
                case execute_batch_tasks env s1 batch of
                  Inl e \<Rightarrow> (RunThrew e, s1)
                | Inr results \<Rightarrow>
                    (case process_results env results s1 of
                       (Some (i, r), s2) \<Rightarrow>
                         (RunDone (fail_result (''Task failed: '' @ i @ '' - '' @ error_message r)),
                          s2\<lparr>running := False\<rparr>)
                     | (None, s2) \<Rightarrow>
                         run_loop env start fuel (Suc k)
                           (emit (Progress (length (completed_tasks s2)) (dag_size (dag_of s2))) s2))))
      else finish_run env start s)"

definition run :: "('t, 'o) environment \<Rightarrow> ('t, 'o) scheduler \<Rightarrow> 'o run_outcome \<times> ('t, 'o) scheduler" where
  "run env s =
     (let s0 = s\<lparr>running := True, paused := False, cancelled := False\<rparr> in
      if dag_empty (dag_of s0) then
        (RunDone (result_new\<lparr>wr_success := True, wr_status := WSuccess\<rparr>), s0\<lparr>running := False\<rparr>)
      else case has_cycle (dag_of s0) of
        None \<Rightarrow> (RunFuel, s0)
      | Some (Inl e) \<Rightarrow> (RunDagError e, s0)
      | Some (Inr c) \<Rightarrow>
          if c then (RunDone (fail_result ''DAG contains cycle''), s0\<lparr>running := False\<rparr>)
          else run_loop env (now_ms env s0) (Suc (dag_size (dag_of s0))) 0 s0)"

record status_snapshot =
  snap_running :: bool
  snap_total :: nat
  snap_completed :: nat
  snap_failed :: nat
  snap_current :: task_id

definition get_status :: "('t, 'o) scheduler \<Rightarrow> dag_error + status_snapshot" where
  "get_status s =
     (let snap = \<lparr>snap_running = running s, snap_total = dag_size (dag_of s),
                  snap_completed = length (completed_tasks s),
                  snap_failed = failed_results (task_results s), snap_current = []\<rparr>
      in if running s \<and> length (completed_tasks s) < dag_size (dag_of s)
         then bind_sum (ready_batch s)
           (\<lambda>batch. Inr (case batch of [] \<Rightarrow> snap | i # _ \<Rightarrow> snap\<lparr>snap_current := i\<rparr>))
         else Inr snap)"

subsection \<open>Traces\<close>

fun starts :: "event list \<Rightarrow> task_id list" where
  "starts [] = []"
| "starts (TaskStarted i # es) = i # starts es"
| "starts (_ # es) = starts es"

lemma starts_append [simp]: "starts (es @ fs) = starts es @ starts fs"
  by (induction es rule: starts.induct) simp_all

lemma starts_started [simp]: "starts (map TaskStarted is) = is"
  by (induction "is") simp_all

text \<open>A task is started only after all its dependencies have completed successfully.\<close>

definition deps_completed_first :: "'t dag \<Rightarrow> event list \<Rightarrow> bool" where
  "deps_completed_first d es \<longleftrightarrow>
     (\<forall>k<length es. \<forall>i. es ! k = TaskStarted i \<longrightarrow>
        (\<forall>j\<in>set (deps_of d i). TaskCompleted j \<in> set (take k es)))"

lemma deps_completed_first_snoc:
  "deps_completed_first d (es @ [e]) \<longleftrightarrow>
   deps_completed_first d es \<and>
   (\<forall>i. e = TaskStarted i \<longrightarrow> (\<forall>j\<in>set (deps_of d i). TaskCompleted j \<in> set es))"
  by (auto simp: deps_completed_first_def nth_append less_Suc_eq)

lemma deps_completed_first_batch:
  "deps_completed_first d es \<Longrightarrow> (\<And>i j. i \<in> set is \<Longrightarrow> j \<in> set (deps_of d i) \<Longrightarrow> TaskCompleted j \<in> set es) \<Longrightarrow>
   deps_completed_first d (es @ map TaskStarted is)"
proof (induction "is" rule: rev_induct)
  case (snoc i "is")
  then show ?case
    using deps_completed_first_snoc [of d "es @ map TaskStarted is" "TaskStarted i"] by auto
qed simp

subsection \<open>The invariant of a run\<close>

definition core_inv :: "('t, 'o) scheduler \<Rightarrow> bool" where
  "core_inv s \<longleftrightarrow>
     dag_inv (dag_of s) \<and>
     distinct (map fst (task_results s)) \<and> distinct (completed_tasks s) \<and>
     fst ` set (task_results s) = set (completed_tasks s) \<and>
     set (completed_tasks s) \<subseteq> set (starts (trace s)) \<and> set (starts (trace s)) \<subseteq> ids (dag_of s) \<and>
     distinct (starts (trace s)) \<and> deps_completed_first (dag_of s) (trace s) \<and>
     (\<forall>i. TaskCompleted i \<in> set (trace s) \<longleftrightarrow>
        (\<exists>r. map_of (task_results s) i = Some r \<and> success r))"

text \<open>Between two batches every started task has completed.\<close>

definition head_inv :: "('t, 'o) scheduler \<Rightarrow> bool" where
  "head_inv s \<longleftrightarrow> core_inv s \<and> set (starts (trace s)) = set (completed_tasks s)"

lemma successful_ids_iff:
  "distinct (map fst (task_results s)) \<Longrightarrow>
   i \<in> set (successful_task_ids s) \<longleftrightarrow> (\<exists>r. map_of (task_results s) i = Some r \<and> success r)"
  by (force simp: successful_task_ids_def dest: map_of_SomeD)

lemma scheduler_new_inv: "dag_inv d \<Longrightarrow> head_inv (scheduler_new d str pol m)"
  by (simp add: head_inv_def core_inv_def scheduler_new_def deps_completed_first_def)

lemma ready_batch_spec:
  assumes "head_inv s"
  shows "\<exists>batch. ready_batch s = Inr batch \<and> distinct batch \<and> set batch \<subseteq> ids (dag_of s) \<and>
    set batch \<inter> set (completed_tasks s) = {} \<and>
    (\<forall>i\<in>set batch. \<forall>j\<in>set (deps_of (dag_of s) i). TaskCompleted j \<in> set (trace s))"
proof -
  have c: "dag_inv (dag_of s)" "distinct (map fst (task_results s))"
    "\<And>i. TaskCompleted i \<in> set (trace s) \<longleftrightarrow> i \<in> set (successful_task_ids s)"
    using assms successful_ids_iff [of s] by (auto simp: head_inv_def core_inv_def)
  show ?thesis
    using dag_invD(1) [OF c(1)] c(3)
    by (auto simp: ready_batch_def get_ready_tasks_eq [OF c(1)] ids_def subset_iff)
qed

lemma fold_emit_started: "fold (\<lambda>i. emit (TaskStarted i)) is s = s\<lparr>trace := trace s @ map TaskStarted is\<rparr>"
  by (induction "is" arbitrary: s) (simp_all add: emit_def)

lemma start_batch_sel [simp]:
  "trace (start_batch env batch s) = trace s @ map TaskStarted batch"
  "dag_of (start_batch env batch s) = dag_of s"
  "task_results (start_batch env batch s) = task_results s"
  "completed_tasks (start_batch env batch s) = completed_tasks s"
  "strategy (start_batch env batch s) = strategy s"
  "policy (start_batch env batch s) = policy s"
  by (simp_all add: start_batch_def fold_emit_started Let_def)

lemma start_batch_inv:
  assumes "head_inv s" and "distinct batch" and "set batch \<subseteq> ids (dag_of s)"
    and "set batch \<inter> set (completed_tasks s) = {}"
    and "\<And>i j. i \<in> set batch \<Longrightarrow> j \<in> set (deps_of (dag_of s) i) \<Longrightarrow> TaskCompleted j \<in> set (trace s)"
  shows "core_inv (start_batch env batch s)"
  using assms deps_completed_first_batch [of "dag_of s" "trace s" batch]
  by (auto simp: head_inv_def core_inv_def)

lemma pair_results_keys: "map fst (pair_results is rs) = is"
  by (induction "is" rs rule: pair_results.induct) simp_all

lemma execute_batch_tasks_keys:
  assumes "execute_batch_tasks env s batch = Inr irs" and "distinct batch"
  shows "distinct (map fst irs)" and "fst ` set irs = set batch"
proof -
  have "map fst irs = filter (\<lambda>i. find_task (dag_of s) i = None) batch @
      filter (\<lambda>i. find_task (dag_of s) i \<noteq> None) batch"
    using assms(1)
    by (auto simp: execute_batch_tasks_def Let_def bind_sum_Inr pair_results_keys comp_def
      filter_empty_conv split: if_splits)
  then show "distinct (map fst irs)" "fst ` set irs = set batch"
    using assms(2) by (auto simp flip: set_map)
qed

lemma record_result_sel [simp]:
  "trace (record_result env (i, r) s) =
     trace s @ [if success r then TaskCompleted i else TaskFailed i (error_message r)]"
  "dag_of (record_result env ir s) = dag_of s"
  "task_results (record_result env (i, r) s) = map_put i r (task_results s)"
  "completed_tasks (record_result env (i, r) s) = set_insert i (completed_tasks s)"
  "strategy (record_result env ir s) = strategy s"
  "policy (record_result env ir s) = policy s"
  by (simp_all add: record_result_def emit_def Let_def split: prod.split)

lemma record_result_inv:
  assumes "core_inv s" and "i \<in> set (starts (trace s))" and "i \<notin> set (completed_tasks s)"
  shows "core_inv (record_result env (i, r) s)"
proof -
  let ?s = "record_result env (i, r) s"
  have fresh: "map_of (task_results s) i = None"
    using assms(1,3) unfolding core_inv_def map_of_eq_None_iff by blast
  then have nc: "TaskCompleted i \<notin> set (trace s)"
    using assms(1) unfolding core_inv_def by simp
  have "TaskCompleted j \<in> set (trace ?s) \<longleftrightarrow>
      (\<exists>r. map_of (task_results ?s) j = Some r \<and> success r)" for j
    using assms(1) fresh nc by (auto simp: core_inv_def)
  moreover have "deps_completed_first (dag_of ?s) (trace ?s)"
    using assms(1) by (simp add: core_inv_def deps_completed_first_snoc)
  moreover have "starts (trace ?s) = starts (trace s)" by simp
  moreover have "distinct (map fst (task_results ?s))"
    using assms(1) by (simp add: core_inv_def distinct_map_put)
  moreover have "fst ` set (task_results ?s) = set (completed_tasks ?s)"
    using assms(1) by (simp add: core_inv_def keys_map_put)
  ultimately show ?thesis
    using assms(1,2) by (simp add: core_inv_def del: record_result_sel(1))
qed

lemma process_results_inv:
  "core_inv s \<Longrightarrow> distinct (map fst irs) \<Longrightarrow> fst ` set irs \<subseteq> set (starts (trace s)) \<Longrightarrow>
   fst ` set irs \<inter> set (completed_tasks s) = {} \<Longrightarrow> process_results env irs s = (o', s') \<Longrightarrow>
   core_inv s' \<and> dag_of s' = dag_of s \<and> starts (trace s') = starts (trace s) \<and>
   (o' = None \<longrightarrow> set (completed_tasks s') = set (completed_tasks s) \<union> fst ` set irs)"
proof (induction irs arbitrary: s)
  case Nil
  then show ?case by simp
next
  case (Cons ir irs)
  obtain i r where ir: "ir = (i, r)" by force
  let ?s = "record_result env ir s"
  have inv: "core_inv ?s"
    using Cons.prems(1,3,4) unfolding ir by (intro record_result_inv) auto
  have st: "starts (trace ?s) = starts (trace s)" by (simp add: ir)
  show ?case
  proof (cases "\<not> success (snd ir) \<and> strategy ?s = FailFast")
    case True
    then show ?thesis using Cons.prems(5) inv st by (auto simp: Let_def)
  next
    case False
    then have "process_results env irs ?s = (o', s')"
      using Cons.prems(5) by (auto simp: Let_def split: if_splits)
    with inv have "core_inv s' \<and> dag_of s' = dag_of ?s \<and> starts (trace s') = starts (trace ?s) \<and>
        (o' = None \<longrightarrow> set (completed_tasks s') = set (completed_tasks ?s) \<union> fst ` set irs)"
      using Cons.prems(2-4) by (intro Cons.IH) (auto simp: ir)
    then show ?thesis using st by (auto simp: ir)
  qed
qed

lemma emit_progress_inv: "head_inv s \<Longrightarrow> head_inv (emit (Progress a b) s)"
  by (auto simp: head_inv_def core_inv_def emit_def deps_completed_first_snoc)

lemma emit_sel [simp]:
  "dag_of (emit e s) = dag_of s" "completed_tasks (emit e s) = completed_tasks s"
  "task_results (emit e s) = task_results s" "trace (emit e s) = trace s @ [e]"
  by (simp_all add: emit_def)

lemma head_inv_flags:
  "head_inv (s\<lparr>paused := p, cancelled := c\<rparr>) = head_inv s"
  "core_inv (s\<lparr>running := b\<rparr>) = core_inv s"
  "head_inv (s\<lparr>running := b\<rparr>) = head_inv s"
  by (simp_all add: head_inv_def core_inv_def)

lemma head_core: "head_inv s \<Longrightarrow> core_inv s"
  by (simp add: head_inv_def)

text \<open>One pass through the loop body, from the flags that were read to the next head.\<close>

lemma batch_step:
  assumes "head_inv s" and "ready_batch s = Inr batch" and "batch \<noteq> []"
  shows "core_inv (start_batch env batch s)"
    and "execute_batch_tasks env (start_batch env batch s) batch = Inr irs \<Longrightarrow>
      process_results env irs (start_batch env batch s) = (o', s') \<Longrightarrow>
      core_inv s' \<and> dag_of s' = dag_of s \<and>
      (o' = None \<longrightarrow> head_inv s' \<and> length (completed_tasks s) < length (completed_tasks s'))"
proof -
  have b: "distinct batch" "set batch \<subseteq> ids (dag_of s)" "set batch \<inter> set (completed_tasks s) = {}"
    "\<And>i j. i \<in> set batch \<Longrightarrow> j \<in> set (deps_of (dag_of s) i) \<Longrightarrow> TaskCompleted j \<in> set (trace s)"
    using ready_batch_spec [OF assms(1)] assms(2) by auto
  show start: "core_inv (start_batch env batch s)" by (rule start_batch_inv [OF assms(1) b])
  assume e: "execute_batch_tasks env (start_batch env batch s) batch = Inr irs"
    and p: "process_results env irs (start_batch env batch s) = (o', s')"
  note keys = execute_batch_tasks_keys [OF e b(1)]
  have s': "core_inv s'" "dag_of s' = dag_of s" "starts (trace s') = starts (trace s) @ batch"
    "o' = None \<Longrightarrow> set (completed_tasks s') = set (completed_tasks s) \<union> set batch"
    using process_results_inv [OF start keys(1) _ _ p] b(3) keys(2) by auto
  have "head_inv s' \<and> length (completed_tasks s) < length (completed_tasks s')" if "o' = None"
  proof
    show "head_inv s'"
      using s' that assms(1) by (simp add: head_inv_def)
    have "distinct (completed_tasks s @ batch)" "distinct (completed_tasks s')"
      using assms(1) b s'(1) by (auto simp: head_inv_def core_inv_def)
    then have "length (completed_tasks s') = length (completed_tasks s @ batch)"
      using s'(4) [OF that] distinct_card by (metis set_append)
    then show "length (completed_tasks s) < length (completed_tasks s')"
      using assms(3) by simp
  qed
  with s' show "core_inv s' \<and> dag_of s' = dag_of s \<and>
      (o' = None \<longrightarrow> head_inv s' \<and> length (completed_tasks s) < length (completed_tasks s'))"
    by blast
qed

subsection \<open>Runs\<close>

definition all_succeeded :: "('t, 'o) scheduler \<Rightarrow> bool" where
  "all_succeeded s \<longleftrightarrow>
     (\<forall>i\<in>ids (dag_of s). \<exists>r. map_of (task_results s) i = Some r \<and> success r)"

text \<open>What holds of the outcome and the final state of a run.\<close>

definition run_post :: "'t option dag \<Rightarrow> 'o run_outcome \<Rightarrow> ('t, 'o) scheduler \<Rightarrow> bool" where
  "run_post d out s' \<longleftrightarrow> core_inv s' \<and> dag_of s' = d \<and>
     (case out of
        RunDone r \<Rightarrow> \<not> running s' \<and> (wr_success r \<longleftrightarrow> wr_status r = WSuccess) \<and>
          wr_status r \<in> {WSuccess, WFailed, WPaused, WCancelled} \<and>
          (wr_success r \<longrightarrow> all_succeeded s')
      | RunThrew e \<Rightarrow> running s'
      | _ \<Rightarrow> False)"

lemma finish_run_post:
  assumes "head_inv s" and "\<not> length (completed_tasks s) < dag_size (dag_of s)"
  shows "run_post (dag_of s) (fst (finish_run env start s)) (snd (finish_run env start s))"
proof -
  have inv: "dag_inv (dag_of s)" "distinct (completed_tasks s)" "set (completed_tasks s) \<subseteq> ids (dag_of s)"
    "fst ` set (task_results s) = set (completed_tasks s)" "distinct (map fst (task_results s))"
    using assms(1) by (auto simp: head_inv_def core_inv_def)
  have "card (set (completed_tasks s)) = card (ids (dag_of s))"
    using assms(2) card_ids [OF inv(1)] distinct_card [OF inv(2)] card_mono [OF finite_ids inv(3)] by simp
  then have all: "fst ` set (task_results s) = ids (dag_of s)"
    using inv(3,4) card_subset_eq [OF finite_ids] by blast
  have "all_succeeded s" if "failed_results (task_results s) = 0"
  proof -
    have "success r" if "(i, r) \<in> set (task_results s)" for i r
      using \<open>failed_results (task_results s) = 0\<close> that by (auto simp: failed_results_def filter_empty_conv)
    moreover have "\<exists>r. map_of (task_results s) i = Some r" if "i \<in> ids (dag_of s)" for i
      using that all by (metis map_of_eq_None_iff not_None_eq)
    ultimately show ?thesis using map_of_SomeD unfolding all_succeeded_def by fast
  qed
  then show ?thesis
    using head_core [OF assms(1)]
    by (auto simp: run_post_def finish_run_def Let_def result_new_def core_inv_def all_succeeded_def)
qed

lemma running_kept [simp]:
  "running (start_batch env batch s) = running s" "running (record_result env ir s) = running s"
  "running (emit e s) = running s"
  by (simp_all add: start_batch_def record_result_def fold_emit_started emit_def Let_def split: prod.split)

lemma running_process: "process_results env irs s = (o', s') \<Longrightarrow> running s' = running s"
  by (induction irs arbitrary: s) (auto simp: Let_def split: if_splits)

lemma completed_bound: "head_inv s \<Longrightarrow> length (completed_tasks s) \<le> dag_size (dag_of s)"
  using card_ids [of "dag_of s"] distinct_card [of "completed_tasks s"]
    card_mono [OF finite_ids, of "set (completed_tasks s)" "dag_of s"]
  by (auto simp: head_inv_def core_inv_def)

lemma run_post_stop:
  "head_inv s \<Longrightarrow> dag_of s = d \<Longrightarrow> \<not> wr_success r \<Longrightarrow> wr_status r \<in> {WFailed, WPaused, WCancelled} \<Longrightarrow>
   run_post d (RunDone r) (s\<lparr>running := False\<rparr>)"
  by (auto simp: run_post_def head_core head_inv_flags)

lemma run_loop_post:
  "head_inv s \<Longrightarrow> running s \<Longrightarrow> dag_size (dag_of s) < fuel + length (completed_tasks s) \<Longrightarrow>
   run_post (dag_of s) (fst (run_loop env start fuel k s)) (snd (run_loop env start fuel k s))"
proof (induction fuel arbitrary: k s)
  case 0
  then show ?case using completed_bound [of s] by simp
next
  case (Suc fuel)
  let ?s0 = "s\<lparr>paused := fst (env_signals env k), cancelled := snd (env_signals env k)\<rparr>"
  have h0: "head_inv ?s0" using Suc.prems(1) by (simp add: head_inv_flags)
  consider (finished) "\<not> length (completed_tasks s) < dag_size (dag_of s)"
    | (stop) "length (completed_tasks s) < dag_size (dag_of s)" "should_stop ?s0"
    | (go) "length (completed_tasks s) < dag_size (dag_of s)" "\<not> should_stop ?s0"
    by blast
  then show ?case
  proof cases
    case finished
    then show ?thesis using finish_run_post [OF Suc.prems(1)] by simp
  next
    case stop
    then show ?thesis
      using run_post_stop [OF h0, of "dag_of s"] by (simp add: Let_def result_new_def)
  next
    case go
    obtain batch where batch: "ready_batch ?s0 = Inr batch"
      using ready_batch_spec [OF h0] by auto
    show ?thesis
    proof (cases "batch = []")
      case True
      then show ?thesis
        using go batch run_post_stop [OF h0, of "dag_of s"] by (simp add: Let_def fail_result_def result_new_def)
    next
      case False
      let ?s1 = "start_batch env batch ?s0"
      note st = batch_step [OF h0 batch False, of env]
      show ?thesis
      proof (cases "execute_batch_tasks env ?s1 batch")
        case (Inl e)
        then show ?thesis
          using go batch False st(1) Suc.prems(2) by (simp add: Let_def run_post_def)
      next
        case (Inr irs)
        obtain o' s2 where p: "process_results env irs ?s1 = (o', s2)" by force
        have post: "core_inv s2" "dag_of s2 = dag_of s"
            "o' = None \<Longrightarrow> head_inv s2 \<and> length (completed_tasks s) < length (completed_tasks s2)"
          using st(2) [OF Inr p] by simp_all
        have run2: "running s2" using running_process [OF p] Suc.prems(2) by simp
        show ?thesis
        proof (cases o')
          case (Some ir)
          then show ?thesis
            using go batch False Inr p post
            by (cases ir) (simp add: Let_def run_post_def fail_result_def result_new_def head_inv_flags)
        next
          case None
          let ?s3 = "emit (Progress (length (completed_tasks s2)) (dag_size (dag_of s2))) s2"
          have "run_post (dag_of ?s3) (fst (run_loop env start fuel (Suc k) ?s3))
              (snd (run_loop env start fuel (Suc k) ?s3))"
            using None post run2 Suc.prems(3) by (intro Suc.IH emit_progress_inv) auto
          then show ?thesis
            using go batch False Inr p None post by (simp add: Let_def)
        qed
      qed
    qed
  qed
qed

lemma run_post_run:
  assumes "head_inv s"
  shows "run_post (dag_of s) (fst (run env s)) (snd (run env s))"
proof -
  let ?s0 = "s\<lparr>running := True, paused := False, cancelled := False\<rparr>"
  have h0: "head_inv ?s0" using assms by (simp add: head_inv_flags)
  then have "dag_inv (dag_of s)" by (simp add: head_inv_def core_inv_def)
  then have hc: "has_cycle (dag_of s) = Some (Inr (\<not> dag_acyclic (dag_of s)))"
    by (rule has_cycle_eq)
  have "run_post (dag_of ?s0) (fst (run_loop env t (Suc (dag_size (dag_of s))) 0 ?s0))
      (snd (run_loop env t (Suc (dag_size (dag_of s))) 0 ?s0))" for t
    by (rule run_loop_post [OF h0]) simp_all
  moreover have "run_post (dag_of s) (RunDone (result_new\<lparr>wr_success := True, wr_status := WSuccess\<rparr>))
      (?s0\<lparr>running := False\<rparr>)" if "dag_empty (dag_of s)"
  proof -
    have "core_inv (?s0\<lparr>running := False\<rparr>)"
      unfolding head_inv_flags(2) by (rule head_core [OF h0])
    then show ?thesis
      using that by (simp add: run_post_def all_succeeded_def ids_def dag_empty_def result_new_def)
  qed
  moreover have "run_post (dag_of s) (RunDone (fail_result m)) (?s0\<lparr>running := False\<rparr>)" for m
    by (rule run_post_stop [OF h0]) (simp_all add: fail_result_def result_new_def)
  ultimately show ?thesis
    by (simp add: run_def Let_def hc del: run_loop.simps)
qed

text \<open>The instance of the witnesses: one task and an environment in which it returns a result.\<close>

definition one_task :: "unit option dag" where
  "one_task = \<lparr>tasks = [(''a'', Some ())], dependencies = [(''a'', [])], dependents = [(''a'', [])]\<rparr>"

definition one_env :: "(unit, unit) environment" where
  "one_env = \<lparr>env_exec = \<lambda>t ctx a. Returned (ok_result None), env_tid = \<lambda>t. ''a'',
              env_signals = \<lambda>k. (False, False), env_clock = id\<rparr>"

definition one_policy :: retry_policy where
  "one_policy = \<lparr>max_retries = 1, retry_delay_ms = 5, exponential_backoff = True\<rparr>"

lemma one_task_ok: "dag_inv one_task" "dag_acyclic one_task"
  by (auto simp: one_task_def dag_inv_def ids_def succs_of_def deps_of_def edges_def dag_acyclic_def
    acyclic_def split: if_splits option.splits dest: tranclD)

text \<open>
  C27: every run returns. From a scheduler over a well-formed graph, whatever the tasks do, whatever
  other threads signal and whatever the clock says, \<open>run\<close> ends with a result or with the exception
  of a task: no map lookup fails and one loop pass per task is enough. A returned result is
  never left in the running state, and it reports success exactly when its status is \<open>SUCCESS\<close>,
  in which case every task of the graph has a successful result.
\<close>

theorem run_returns:
  assumes "dag_inv d"
  shows "case run env (scheduler_new d str pol m) of
      (RunDone r, s') \<Rightarrow> \<not> running s' \<and> (wr_success r \<longleftrightarrow> wr_status r = WSuccess) \<and>
        wr_status r \<in> {WSuccess, WFailed, WPaused, WCancelled} \<and>
        (wr_success r \<longrightarrow> (\<forall>i\<in>ids d. \<exists>res. map_of (task_results s') i = Some res \<and> success res))
    | (RunThrew e, s') \<Rightarrow> running s'
    | _ \<Rightarrow> False"
  using run_post_run [OF scheduler_new_inv [OF assms, of str pol m], of env]
  by (auto simp: run_post_def all_succeeded_def scheduler_new_def split: prod.splits run_outcome.splits)

theorem run_returns_witness:
  "case run one_env (scheduler_new one_task FailFast one_policy None) of
      (RunDone r, s') \<Rightarrow> \<not> running s' \<and> (wr_success r \<longleftrightarrow> wr_status r = WSuccess) \<and>
        wr_status r \<in> {WSuccess, WFailed, WPaused, WCancelled} \<and>
        (wr_success r \<longrightarrow>
          (\<forall>i\<in>ids one_task. \<exists>res. map_of (task_results s') i = Some res \<and> success res))
    | (RunThrew e, s') \<Rightarrow> running s'
    | _ \<Rightarrow> False"
  by (rule run_returns [OF one_task_ok(1)])

text \<open>
  C10: execution order. In the trace of events of any run, however it ends, no task is started
  twice, and a task is started only after the completion of each of its dependencies was
  reported as successful.
\<close>

theorem run_order:
  assumes "dag_inv d"
  shows "distinct (starts (trace (snd (run env (scheduler_new d str pol m))))) \<and>
    deps_completed_first d (trace (snd (run env (scheduler_new d str pol m))))"
  using run_post_run [OF scheduler_new_inv [OF assms, of str pol m], of env]
  by (auto simp: run_post_def core_inv_def scheduler_new_def)

theorem run_order_witness:
  "distinct (starts (trace (snd (run one_env (scheduler_new one_task FailFast one_policy None))))) \<and>
   deps_completed_first one_task (trace (snd (run one_env (scheduler_new one_task FailFast one_policy None))))"
  by (rule run_order [OF one_task_ok(1)])

subsection \<open>A run of successful tasks\<close>

definition all_ok :: "('t, 'o) environment \<Rightarrow> bool" where
  "all_ok env \<longleftrightarrow> (\<forall>t ctx a. attempt_ok (env_exec env) t ctx a)"

lemma all_ok_exec: "all_ok env \<Longrightarrow> \<exists>r. env_exec env t ctx a = Returned r \<and> success r"
  by (cases "env_exec env t ctx a") (auto simp: all_ok_def attempt_ok_def dest: spec split: outcome.splits)

lemma get_all_ok:
  "(\<And>x. x \<in> set os \<Longrightarrow> \<exists>r. x = Returned r \<and> success r) \<Longrightarrow>
   \<exists>rs. get_all os = Inr rs \<and> length rs = length os \<and> list_all success rs"
proof (induction os)
  case (Cons x os)
  obtain r where "x = Returned r" "success r" using Cons.prems [of x] by auto
  moreover obtain rs where "get_all os = Inr rs" "length rs = length os" "list_all success rs"
    using Cons by auto
  ultimately show ?case by simp
qed simp

lemma pair_results_ok:
  "length rs = length is \<Longrightarrow> list_all success rs \<Longrightarrow> list_all (\<lambda>ir. success (snd ir)) (pair_results is rs)"
  by (induction "is" rs rule: pair_results.induct) simp_all

lemma map_filter_Some: "List.map_filter id (map Some ts) = ts"
  by (induction ts) (simp_all add: map_filter_simps)

lemma retry_ok:
  assumes "all_ok env"
  shows "success (fst (execute_task_with_retry (env_exec env) (Some t) ctx pol))"
  using all_ok_exec [OF assms, of t ctx 0]
  by (cases "max_retries pol") (auto simp: execute_task_with_retry_def Let_def)

lemma execute_batch_tasks_ok:
  assumes "all_ok env" and "\<And>i. i \<in> set batch \<Longrightarrow> find_task (dag_of s) i \<noteq> None"
  shows "\<exists>irs. execute_batch_tasks env s batch = Inr irs \<and> list_all (\<lambda>ir. success (snd ir)) irs"
proof -
  define ts where "ts = map (\<lambda>i. the (find_task (dag_of s) i)) batch"
  have ts: "map (find_task (dag_of s)) batch = map Some ts"
    using assms(2) by (simp add: ts_def)
  have len: "length ts = length batch" by (simp add: ts_def)
  have f: "filter (\<lambda>i. find_task (dag_of s) i = None) batch = []"
      "filter (\<lambda>i. find_task (dag_of s) i \<noteq> None) batch = batch"
    using assms(2) by (auto simp: filter_empty_conv filter_id_conv)
  have "\<exists>rs. execute_batch (env_exec env) (env_tid env) (map Some ts) ctx = Inr rs \<and>
      length rs = length ts \<and> list_all success rs" for ctx
  proof -
    have "\<exists>r. x = Returned r \<and> success r"
      if "x \<in> set (map (\<lambda>t. env_exec env t (ctx\<lparr>ctx_task_id := env_tid env t\<rparr>) 0) ts)" for x
      using that all_ok_exec [OF assms(1)] by auto
    then have "\<exists>rs. get_all (map (\<lambda>t. env_exec env t (ctx\<lparr>ctx_task_id := env_tid env t\<rparr>) 0) ts) = Inr rs \<and>
        length rs = length (map (\<lambda>t. env_exec env t (ctx\<lparr>ctx_task_id := env_tid env t\<rparr>) 0) ts) \<and>
        list_all success rs"
      by (rule get_all_ok)
    then show ?thesis by (simp add: execute_batch_def map_filter_Some)
  qed
  moreover have "\<exists>rs. execute_batch_with_retry (env_exec env) (env_tid env) (map Some ts) ctx pol = Inr rs \<and>
      length rs = length ts \<and> list_all success rs" for ctx pol
    using retry_ok [OF assms(1)] by (simp add: execute_batch_with_retry_def map_filter_Some list_all_iff)
  ultimately have "\<exists>rs. (if 0 < max_retries (policy s)
      then execute_batch_with_retry (env_exec env) (env_tid env) (map Some ts) ctx (policy s)
      else execute_batch (env_exec env) (env_tid env) (map Some ts) ctx) = Inr rs \<and>
      length rs = length ts \<and> list_all success rs" for ctx
    by simp
  from this [of "\<lparr>ctx_task_id = [], upstream_results = task_results s\<rparr>"]
  obtain rs where rs: "(if 0 < max_retries (policy s)
      then execute_batch_with_retry (env_exec env) (env_tid env) (map Some ts)
        \<lparr>ctx_task_id = [], upstream_results = task_results s\<rparr> (policy s)
      else execute_batch (env_exec env) (env_tid env) (map Some ts)
        \<lparr>ctx_task_id = [], upstream_results = task_results s\<rparr>) = Inr rs"
      "length rs = length ts" "list_all success rs"
    by blast
  show ?thesis
    using rs len pair_results_ok [of rs batch]
    by (cases "ts = []"; cases "0 < max_retries (policy s)")
      (simp_all add: execute_batch_tasks_def Let_def f ts del: not_None_eq)
qed

lemma map_put_all: "list_all P m \<Longrightarrow> P (k, v) \<Longrightarrow> list_all P (map_put k v m)"
  by (induction m) auto

lemma process_results_ok:
  "list_all (\<lambda>ir. success (snd ir)) irs \<Longrightarrow> list_all (\<lambda>ir. success (snd ir)) (task_results s) \<Longrightarrow>
   \<exists>s'. process_results env irs s = (None, s') \<and> list_all (\<lambda>ir. success (snd ir)) (task_results s')"
proof (induction irs arbitrary: s)
  case (Cons ir irs)
  obtain i r where "ir = (i, r)" by force
  then show ?case using Cons by (simp add: Let_def map_put_all)
qed simp

lemma ready_batch_nonempty:
  assumes "head_inv s" and "dag_acyclic (dag_of s)" and "list_all (\<lambda>ir. success (snd ir)) (task_results s)"
    and "length (completed_tasks s) < dag_size (dag_of s)" and "ready_batch s = Inr batch"
  shows "batch \<noteq> []"
proof -
  have inv: "dag_inv (dag_of s)" "distinct (completed_tasks s)"
      "fst ` set (task_results s) = set (completed_tasks s)"
    using assms(1) by (auto simp: head_inv_def core_inv_def)
  have eq: "set (successful_task_ids s) = set (completed_tasks s)"
    using assms(3) inv(3) by (force simp: successful_task_ids_def list_all_iff)
  have "\<not> ids (dag_of s) \<subseteq> set (completed_tasks s)"
  proof
    assume "ids (dag_of s) \<subseteq> set (completed_tasks s)"
    then have "card (ids (dag_of s)) \<le> length (completed_tasks s)"
      using card_mono [OF finite_set] card_length order_trans by blast
    then show False using assms(4) card_ids [OF inv(1)] by simp
  qed
  then obtain i where "i \<in> ids (dag_of s)" "i \<notin> set (completed_tasks s)"
      "set (deps_of (dag_of s) i) \<subseteq> set (completed_tasks s)"
    using ready_closed_complete [OF inv(1) assms(2), of "set (completed_tasks s)"] by blast
  moreover have "batch = filter (\<lambda>i. i \<notin> set (completed_tasks s))
      (filter (\<lambda>i. i \<notin> set (successful_task_ids s) \<and>
         set (deps_of (dag_of s) i) \<subseteq> set (successful_task_ids s)) (map fst (tasks (dag_of s))))"
    using assms(5) by (simp add: ready_batch_def get_ready_tasks_eq [OF inv(1)] del: filter_filter)
  ultimately have "i \<in> set batch"
    unfolding eq by (simp add: ids_def)
  then show ?thesis by auto
qed

lemma run_loop_ok:
  assumes "all_ok env" and "\<And>k. env_signals env k = (False, False)"
  shows "head_inv s \<Longrightarrow> dag_acyclic (dag_of s) \<Longrightarrow> (\<forall>i\<in>ids (dag_of s). find_task (dag_of s) i \<noteq> None) \<Longrightarrow>
    list_all (\<lambda>ir. success (snd ir)) (task_results s) \<Longrightarrow>
    dag_size (dag_of s) < fuel + length (completed_tasks s) \<Longrightarrow>
    \<exists>r s'. run_loop env start fuel k s = (RunDone r, s') \<and> wr_status r = WSuccess"
proof (induction fuel arbitrary: k s)
  case 0
  then show ?case using completed_bound [of s] by simp
next
  case (Suc fuel)
  let ?s0 = "s\<lparr>paused := False, cancelled := False\<rparr>"
  have h0: "head_inv ?s0" using Suc.prems(1) by (simp add: head_inv_flags)
  show ?case
  proof (cases "length (completed_tasks s) < dag_size (dag_of s)")
    case False
    have "failed_results (task_results s) = 0"
      using Suc.prems(4) by (simp add: failed_results_def list_all_iff filter_empty_conv)
    then show ?thesis using False by (simp add: finish_run_def Let_def)
  next
    case True
    obtain batch where batch: "ready_batch ?s0 = Inr batch" "set batch \<subseteq> ids (dag_of s)"
      using ready_batch_spec [OF h0] by auto
    have ne: "batch \<noteq> []"
      using Suc.prems True by (intro ready_batch_nonempty [OF h0 _ _ _ batch(1)]) simp_all
    let ?s1 = "start_batch env batch ?s0"
    obtain irs where irs: "execute_batch_tasks env ?s1 batch = Inr irs" "list_all (\<lambda>ir. success (snd ir)) irs"
      using execute_batch_tasks_ok [OF assms(1), of batch ?s1] Suc.prems(3) batch(2) by auto
    obtain s2 where s2: "process_results env irs ?s1 = (None, s2)"
        "list_all (\<lambda>ir. success (snd ir)) (task_results s2)"
      using process_results_ok [OF irs(2), of ?s1 env] Suc.prems(4) by auto
    have post: "dag_of s2 = dag_of s" "head_inv s2" "length (completed_tasks s) < length (completed_tasks s2)"
      using batch_step(2) [OF h0 batch(1) ne irs(1) s2(1)] by simp_all
    let ?s3 = "emit (Progress (length (completed_tasks s2)) (dag_size (dag_of s2))) s2"
    have "\<exists>r s'. run_loop env start fuel (Suc k) ?s3 = (RunDone r, s') \<and> wr_status r = WSuccess"
      using Suc.prems post s2(2) by (intro Suc.IH emit_progress_inv) auto
    then show ?thesis
      using True batch ne irs(1) s2(1) assms(2) by (simp add: Let_def should_stop_def)
  qed
qed

text \<open>
  C12: progress. If the graph is acyclic and has no null task, every task execution returns a
  successful result, and nobody pauses or cancels, then a run of a fresh scheduler completes
  with status \<open>SUCCESS\<close>, under every error strategy and retry policy.
\<close>

theorem run_succeeds:
  fixes env :: "('t, 'o) environment"
  assumes "dag_inv d" and "dag_acyclic d" and "\<forall>i\<in>ids d. find_task d i \<noteq> None"
    and "all_ok env" and "\<forall>k. env_signals env k = (False, False)"
  shows "\<exists>r s'. run env (scheduler_new d str pol m) = (RunDone r, s') \<and> wr_status r = WSuccess"
proof -
  let ?s = "scheduler_new d str pol m :: ('t, 'o) scheduler"
  let ?s0 = "?s\<lparr>running := True, paused := False, cancelled := False\<rparr>"
  have h: "head_inv ?s0" using scheduler_new_inv [OF assms(1), of str pol m] by (simp add: head_inv_flags)
  have d: "dag_of ?s0 = d" "task_results ?s0 = []" by (simp_all add: scheduler_new_def)
  have "\<exists>r s'. run_loop env (now_ms env ?s0) (Suc (dag_size d)) 0 ?s0 = (RunDone r, s') \<and> wr_status r = WSuccess"
    by (rule run_loop_ok [OF assms(4) _ h]) (use assms d in simp_all)
  then show ?thesis
    using has_cycle_eq [OF assms(1)] assms(2) d
    by (simp add: run_def Let_def del: run_loop.simps)
qed

theorem run_succeeds_witness:
  "\<exists>r s'. run one_env (scheduler_new one_task FailFast one_policy None) = (RunDone r, s') \<and>
     wr_status r = WSuccess"
  by (rule run_succeeds [OF one_task_ok])
    (simp_all add: one_task_def one_env_def ids_def find_task_def get_task_def all_ok_def attempt_ok_def ok_result_def)

end
