(* ===== verification/Plan.thy ===== *)
theory Plan
  imports BG_Prelude
begin

text \<open>
  Plan mode (\<open>orchestration/plan.hpp\<close>, \<open>orchestration/plan.cpp\<close>): the draft, its status and stage, and
  every operation of \<open>PlanManager\<close>. The clock is the argument \<open>now\<close>. A thrown \<open>std::logic_error\<close> is
  \<open>Inl\<close> with its message; each of them is thrown before the draft is changed. The request counter
  is a \<open>uint64_t\<close> and wraps.
\<close>

datatype plan_status = PIdle | PDrafting | PReviewing | PConfirmed | PExecuting | PCancelled | PFailed

datatype plan_stage = SIdle | SOptionReview | SDetailing | SDecisionReview | SFinalizing | SFinalReview

record plan_choice =
  pc_id :: string
  pc_title :: string
  pc_description :: string
  pc_recommended :: bool

record plan_decision =
  pd_id :: string
  pd_title :: string
  pd_description :: string
  pd_required :: bool
  pd_choices :: "plan_choice list"
  pd_selected :: string
  pd_note :: string

record plan_item =
  pi_id :: string
  pi_title :: string
  pi_description :: string
  pi_order :: nat
  pi_required :: bool
  pi_choices :: "plan_choice list"
  pi_selected :: string
  pi_note :: string
  pi_decisions :: "plan_decision list"
  pi_risks :: "string list"
  pi_validation :: "string list"

record plan_option =
  po_id :: string
  po_title :: string
  po_summary :: string
  po_items :: "plan_item list"
  po_recommended :: bool

record plan_draft =
  plan_id :: string
  session_id :: string
  workspace :: string
  title :: string
  objective :: string
  status :: plan_status
  stage :: plan_stage
  revision :: int
  options :: "plan_option list"
  selected_option_id :: string
  detailed_option_id :: string
  items :: "plan_item list"
  global_risks :: "string list"
  validation :: "string list"
  final_summary :: string
  final_items :: "plan_item list"
  consistency_notes :: "string list"
  finalized_input_revision :: int
  planning_request_id :: u64
  error :: string
  updated_ms :: nat

record plan_command =
  cmd_plan_id :: string
  cmd_session_id :: string
  cmd_workspace :: string
  cmd_prompt :: string
  cmd_note :: string
  cmd_revision :: int
  cmd_items :: "plan_item list"

record decision_patch =
  dp_revision :: int
  dp_item_id :: string
  dp_decision_id :: string
  dp_choice_id :: string
  dp_note :: string

record final_draft =
  fd_summary :: string
  fd_items :: "plan_item list"
  fd_risks :: "string list"
  fd_validation :: "string list"
  fd_notes :: "string list"

definition draft_new :: plan_draft where
  "draft_new = \<lparr>plan_id = [], session_id = [], workspace = [], title = [], objective = [],
     status = PIdle, stage = SIdle, revision = 0, options = [], selected_option_id = [],
     detailed_option_id = [], items = [], global_risks = [], validation = [], final_summary = [],
     final_items = [], consistency_notes = [], finalized_input_revision = 0,
     planning_request_id = 0, error = [], updated_ms = 0\<rparr>"

subsection \<open>Names of states\<close>

fun status_to_string :: "plan_status \<Rightarrow> string" where
  "status_to_string PIdle = ''idle''"
| "status_to_string PDrafting = ''drafting''"
| "status_to_string PReviewing = ''reviewing''"
| "status_to_string PConfirmed = ''confirmed''"
| "status_to_string PExecuting = ''executing''"
| "status_to_string PCancelled = ''cancelled''"
| "status_to_string PFailed = ''failed''"

definition plan_status_from_string :: "string \<Rightarrow> plan_status" where
  "plan_status_from_string v =
     (if v = ''idle'' then PIdle
      else if v = ''drafting'' then PDrafting
      else if v = ''reviewing'' then PReviewing
      else if v = ''confirmed'' then PConfirmed
      else if v = ''executing'' then PExecuting
      else if v = ''cancelled'' then PCancelled
      else PFailed)"

fun stage_to_string :: "plan_stage \<Rightarrow> string" where
  "stage_to_string SIdle = ''idle''"
| "stage_to_string SOptionReview = ''option_review''"
| "stage_to_string SDetailing = ''detailing''"
| "stage_to_string SDecisionReview = ''decision_review''"
| "stage_to_string SFinalizing = ''finalizing''"
| "stage_to_string SFinalReview = ''final_review''"

definition plan_stage_from_string :: "string \<Rightarrow> plan_stage" where
  "plan_stage_from_string v =
     (if v = ''option_review'' then SOptionReview
      else if v = ''detailing'' then SDetailing
      else if v = ''decision_review'' then SDecisionReview
      else if v = ''finalizing'' then SFinalizing
      else if v = ''final_review'' then SFinalReview
      else SIdle)"

subsection \<open>Normalization\<close>

definition make_id :: "string \<Rightarrow> nat \<Rightarrow> string" where
  "make_id prefix seed = prefix @ '':'' @ decimal seed"

definition or_default :: "string \<Rightarrow> string \<Rightarrow> string" where
  "or_default x y = (if x = [] then y else x)"

fun normalize_choices :: "string \<Rightarrow> nat \<Rightarrow> plan_choice list \<Rightarrow> plan_choice list" where
  "normalize_choices dflt n [] = []"
| "normalize_choices dflt n (c # cs) =
     c\<lparr>pc_id := or_default (pc_id c) (make_id ''choice'' n),
       pc_title := or_default (pc_title c) (or_default (pc_description c) dflt)\<rparr>
     # normalize_choices dflt (Suc n) cs"

fun normalize_decisions_from :: "nat \<Rightarrow> plan_decision list \<Rightarrow> plan_decision list" where
  "normalize_decisions_from n [] = []"
| "normalize_decisions_from n (d # ds) =
     d\<lparr>pd_id := or_default (pd_id d) (make_id ''decision'' n),
       pd_title := or_default (pd_title d) (or_default (pd_description d) ''Decision''),
       pd_choices := normalize_choices ''Option'' 1 (pd_choices d)\<rparr>
     # normalize_decisions_from (Suc n) ds"

definition normalize_decisions :: "plan_decision list \<Rightarrow> plan_decision list" where
  "normalize_decisions ds = normalize_decisions_from 1 ds"

text \<open>
  The selection of the first recommended choice, and else of the first choice, when the caller
  asks for it and nothing is selected yet.
\<close>

definition select_default :: "bool \<Rightarrow> string \<Rightarrow> plan_choice list \<Rightarrow> string" where
  "select_default select selected choices =
     (if select \<and> selected = [] then
        (case filter pc_recommended choices of
           c # _ \<Rightarrow> pc_id c
         | [] \<Rightarrow> (case choices of [] \<Rightarrow> [] | c # _ \<Rightarrow> pc_id c))
      else selected)"

fun normalize_items_from :: "nat \<Rightarrow> bool \<Rightarrow> plan_item list \<Rightarrow> plan_item list" where
  "normalize_items_from n select [] = []"
| "normalize_items_from n select (i # is) =
     (let cs = normalize_choices ''Default option'' 1 (pi_choices i) in
      i\<lparr>pi_id := or_default (pi_id i) (make_id ''plan_item'' n),
        pi_order := n,
        pi_title := or_default (pi_title i) (or_default (pi_description i) ''Untitled task''),
        pi_choices := cs,
        pi_selected := select_default select (pi_selected i) cs,
        pi_decisions := normalize_decisions (pi_decisions i)\<rparr>)
     # normalize_items_from (Suc n) select is"

definition normalize_items :: "bool \<Rightarrow> plan_item list \<Rightarrow> plan_item list" where
  "normalize_items select is = normalize_items_from 1 select is"

subsection \<open>Queries and helpers\<close>

definition is_terminal :: "plan_status \<Rightarrow> bool" where
  "is_terminal s \<longleftrightarrow> s = PCancelled \<or> s = PFailed"

definition is_active :: "plan_draft \<Rightarrow> bool" where
  "is_active d \<longleftrightarrow> status d \<noteq> PIdle \<and> \<not> is_terminal (status d)"

definition is_reviewing :: "plan_draft \<Rightarrow> bool" where
  "is_reviewing d \<longleftrightarrow> status d = PDrafting \<or> status d = PReviewing"

definition is_executing :: "plan_draft \<Rightarrow> bool" where
  "is_executing d \<longleftrightarrow> status d = PConfirmed \<or> status d = PExecuting"

definition read_only_tools :: "plan_draft \<Rightarrow> bool" where
  "read_only_tools d \<longleftrightarrow> is_reviewing d"

definition choice_resolved :: "string \<Rightarrow> string \<Rightarrow> bool" where
  "choice_resolved selected note \<longleftrightarrow> selected \<noteq> [] \<or> note \<noteq> []"

definition all_decisions_resolved :: "plan_draft \<Rightarrow> bool" where
  "all_decisions_resolved d \<longleftrightarrow>
     items d \<noteq> [] \<and>
     list_all (\<lambda>i. list_all (\<lambda>x. pd_required x \<longrightarrow> choice_resolved (pd_selected x) (pd_note x))
                    (pi_decisions i)) (items d)"

definition touch :: "nat \<Rightarrow> plan_draft \<Rightarrow> plan_draft" where
  "touch now d = d\<lparr>updated_ms := now\<rparr>"

definition bump_revision :: "nat \<Rightarrow> plan_draft \<Rightarrow> plan_draft" where
  "bump_revision now d = touch now (d\<lparr>revision := revision d + 1\<rparr>)"

definition next_request_id :: "plan_draft \<Rightarrow> u64 \<times> plan_draft" where
  "next_request_id d =
     (let r = planning_request_id d + 1; r = (if r = 0 then 1 else r)
      in (r, d\<lparr>planning_request_id := r\<rparr>))"

definition clear_final_fields :: "plan_draft \<Rightarrow> plan_draft" where
  "clear_final_fields d =
     d\<lparr>final_summary := [], final_items := [], consistency_notes := [], finalized_input_revision := 0\<rparr>"

subsection \<open>Operations\<close>

definition start :: "nat \<Rightarrow> plan_command \<Rightarrow> plan_draft" where
  "start now c =
     touch now (draft_new\<lparr>plan_id := or_default (cmd_plan_id c) (make_id ''plan'' now),
       session_id := cmd_session_id c, workspace := cmd_workspace c, objective := cmd_prompt c,
       status := PDrafting, stage := SIdle, revision := 1\<rparr>)"

definition mark_drafting :: "nat \<Rightarrow> plan_draft \<Rightarrow> plan_draft" where
  "mark_drafting now d = touch now (d\<lparr>status := PDrafting\<rparr>)"

definition apply_model_draft ::
  "nat \<Rightarrow> string \<Rightarrow> string \<Rightarrow> plan_item list \<Rightarrow> plan_draft \<Rightarrow> plan_draft" where
  "apply_model_draft now ttl obj is d =
     bump_revision now (clear_final_fields (d\<lparr>title := ttl, objective := or_default obj (objective d),
       items := normalize_items True is, stage := SDecisionReview, status := PReviewing, error := []\<rparr>))"

fun normalize_options_from :: "nat \<Rightarrow> plan_option list \<Rightarrow> plan_option list" where
  "normalize_options_from n [] = []"
| "normalize_options_from n (opt # opts) =
     opt\<lparr>po_id := or_default (po_id opt) (make_id ''option'' n),
         po_items := normalize_items False (po_items opt)\<rparr>
     # normalize_options_from (Suc n) opts"

definition apply_model_options ::
  "nat \<Rightarrow> string \<Rightarrow> string \<Rightarrow> plan_option list \<Rightarrow> string \<Rightarrow> plan_draft \<Rightarrow> plan_draft" where
  "apply_model_options now ttl obj opts sel d =
     bump_revision now ((clear_final_fields (d\<lparr>title := ttl, objective := or_default obj (objective d),
       options := normalize_options_from 1 opts, selected_option_id := sel, detailed_option_id := [],
       items := [], global_risks := [], validation := []\<rparr>))
       \<lparr>stage := SOptionReview, status := PReviewing, error := []\<rparr>)"

definition begin_detailing :: "nat \<Rightarrow> string \<Rightarrow> int \<Rightarrow> plan_draft \<Rightarrow> string + u64 \<times> plan_draft" where
  "begin_detailing now oid rv d =
     (if stage d \<noteq> SOptionReview \<or> status d \<noteq> PReviewing then
        Inl ''plan option can only be selected during option review''
      else if rv \<noteq> revision d then Inl ''stale plan revision''
      else if \<not> list_ex (\<lambda>opt. po_id opt = oid) (options d) then Inl ''plan option not found''
      else
        (let (r, d1) = next_request_id (clear_final_fields (d\<lparr>selected_option_id := oid,
               detailed_option_id := [], items := [], stage := SDetailing, status := PDrafting\<rparr>))
         in Inr (r, bump_revision now d1)))"

definition apply_model_detail ::
  "nat \<Rightarrow> string \<Rightarrow> u64 \<Rightarrow> string \<Rightarrow> string \<Rightarrow> plan_item list \<Rightarrow> string list \<Rightarrow> string list \<Rightarrow>
   plan_draft \<Rightarrow> string + plan_draft" where
  "apply_model_detail now oid req ttl obj is risks valid d =
     (if req \<noteq> planning_request_id d \<or> oid \<noteq> selected_option_id d then Inl ''stale plan detail result''
      else if is = [] then Inl ''detailed plan must contain at least one item''
      else Inr (bump_revision now (clear_final_fields (d\<lparr>title := or_default ttl (title d),
        objective := or_default obj (objective d), items := normalize_items False is,
        detailed_option_id := oid, global_risks := risks, validation := valid,
        stage := SDecisionReview, status := PReviewing, error := []\<rparr>))))"

definition select_option :: "nat \<Rightarrow> string \<Rightarrow> plan_draft \<Rightarrow> string + plan_draft" where
  "select_option now oid d =
     (if stage d = SOptionReview then map_sum id snd (begin_detailing now oid (revision d) d)
      else if \<not> is_reviewing d then Inl ''plan option can only be selected while reviewing''
      else case find (\<lambda>opt. po_id opt = oid) (options d) of
        None \<Rightarrow> Inl ''plan option not found''
      | Some opt \<Rightarrow>
          Inr (bump_revision now (clear_final_fields (d\<lparr>selected_option_id := oid,
            items := normalize_items False (po_items opt), stage := SDecisionReview,
            status := PReviewing\<rparr>))))"

definition apply_user_items :: "nat \<Rightarrow> plan_item list \<Rightarrow> plan_draft \<Rightarrow> string + plan_draft" where
  "apply_user_items now is d =
     (if \<not> is_reviewing d then Inl ''plan items can only be edited while reviewing''
      else Inr (bump_revision now (clear_final_fields (d\<lparr>items := normalize_items False is,
        selected_option_id := [], stage := SDecisionReview, status := PReviewing\<rparr>))))"

text \<open>The first decision with the given id, patched.\<close>

fun patch_decisions :: "decision_patch \<Rightarrow> plan_decision list \<Rightarrow> plan_decision list option" where
  "patch_decisions p [] = None"
| "patch_decisions p (x # xs) =
     (if pd_id x = dp_decision_id p
      then Some (x\<lparr>pd_selected := dp_choice_id p, pd_note := dp_note p\<rparr> # xs)
      else map_option (\<lambda>ys. x # ys) (patch_decisions p xs))"

fun patch_items :: "decision_patch \<Rightarrow> plan_item list \<Rightarrow> string + plan_item list" where
  "patch_items p [] = Inl ''plan item not found''"
| "patch_items p (i # is) =
     (if pi_id i = dp_item_id p then
        (case patch_decisions p (pi_decisions i) of
           None \<Rightarrow> Inl ''plan decision not found''
         | Some ds \<Rightarrow> Inr (i\<lparr>pi_decisions := ds\<rparr> # is))
      else bind_sum (patch_items p is) (\<lambda>js. Inr (i # js)))"

definition apply_decision :: "nat \<Rightarrow> decision_patch \<Rightarrow> plan_draft \<Rightarrow> string + bool \<times> plan_draft" where
  "apply_decision now p d =
     (if status d \<noteq> PReviewing \<or> stage d \<noteq> SDecisionReview \<and> stage d \<noteq> SFinalReview then
        Inl ''plan decision can only be applied during decision review''
      else if dp_revision p \<noteq> revision d then Inl ''stale plan revision''
      else bind_sum (patch_items p (items d)) (\<lambda>is.
        (let d1 = d\<lparr>items := is\<rparr>;
             d2 = (if stage d1 = SFinalReview
                   then clear_final_fields (d1\<lparr>stage := SDecisionReview\<rparr>) else d1);
             d3 = bump_revision now d2
         in Inr (all_decisions_resolved d3, d3))))"

definition begin_chat_revision :: "nat \<Rightarrow> int \<Rightarrow> plan_draft \<Rightarrow> string + u64 \<times> plan_draft" where
  "begin_chat_revision now rv d =
     (if status d \<noteq> PReviewing \<or>
         stage d \<noteq> SOptionReview \<and> stage d \<noteq> SDecisionReview \<and> stage d \<noteq> SFinalReview then
        Inl ''plan revision can only be requested while reviewing''
      else if rv \<noteq> 0 \<and> rv \<noteq> revision d then Inl ''stale plan revision''
      else (let (r, d1) = next_request_id (d\<lparr>status := PDrafting\<rparr>) in Inr (r, touch now d1)))"

definition apply_revised_options ::
  "nat \<Rightarrow> u64 \<Rightarrow> string \<Rightarrow> string \<Rightarrow> plan_option list \<Rightarrow> string \<Rightarrow> plan_draft \<Rightarrow> string + plan_draft" where
  "apply_revised_options now req ttl obj opts sel d =
     (if req \<noteq> planning_request_id d then Inl ''stale plan revision result''
      else Inr (apply_model_options now ttl obj opts sel d))"

definition apply_revised_detail ::
  "nat \<Rightarrow> u64 \<Rightarrow> string \<Rightarrow> string \<Rightarrow> plan_item list \<Rightarrow> string list \<Rightarrow> string list \<Rightarrow>
   plan_draft \<Rightarrow> string + plan_draft" where
  "apply_revised_detail now req ttl obj is risks valid d =
     (if req \<noteq> planning_request_id d then Inl ''stale plan revision result''
      else if is = [] then Inl ''detailed plan must contain at least one item''
      else Inr (bump_revision now (clear_final_fields (d\<lparr>title := or_default ttl (title d),
        objective := or_default obj (objective d), items := normalize_items False is,
        global_risks := risks, validation := valid,
        stage := SDecisionReview, status := PReviewing, error := []\<rparr>))))"

text \<open>The assignments shared by the two operations that store a final plan.\<close>

definition store_final :: "nat \<Rightarrow> final_draft \<Rightarrow> plan_draft \<Rightarrow> plan_draft" where
  "store_final now f d =
     bump_revision now (d\<lparr>final_summary := fd_summary f, final_items := normalize_items False (fd_items f),
       global_risks := fd_risks f, validation := fd_validation f, consistency_notes := fd_notes f,
       finalized_input_revision := revision d, stage := SFinalReview, status := PReviewing, error := []\<rparr>)"

definition apply_revised_final :: "nat \<Rightarrow> u64 \<Rightarrow> final_draft \<Rightarrow> plan_draft \<Rightarrow> string + plan_draft" where
  "apply_revised_final now req f d =
     (if req \<noteq> planning_request_id d then Inl ''stale plan final revision result''
      else if fd_items f = [] then Inl ''final plan must contain at least one item''
      else Inr (store_final now f d))"

definition begin_finalizing :: "nat \<Rightarrow> int \<Rightarrow> plan_draft \<Rightarrow> string + u64 \<times> plan_draft" where
  "begin_finalizing now rv d =
     (if status d = PReviewing \<and> stage d = SFinalReview \<and> finalized_input_revision d = rv then
        Inr (planning_request_id d, d)
      else if status d \<noteq> PReviewing \<or> stage d \<noteq> SDecisionReview then
        Inl ''plan can only be finalized during decision review''
      else if rv \<noteq> revision d then Inl ''stale plan revision''
      else if \<not> all_decisions_resolved d then
        Inl ''all required plan decisions must be resolved before finalization''
      else (let (r, d1) = next_request_id (d\<lparr>stage := SFinalizing, status := PDrafting\<rparr>)
            in Inr (r, touch now d1)))"

definition apply_model_final :: "nat \<Rightarrow> u64 \<Rightarrow> final_draft \<Rightarrow> plan_draft \<Rightarrow> string + plan_draft" where
  "apply_model_final now req f d =
     (if req \<noteq> planning_request_id d \<or> stage d \<noteq> SFinalizing then Inl ''stale plan finalization result''
      else if fd_items f = [] then Inl ''final plan must contain at least one item''
      else Inr (store_final now f d))"

definition mark_failed :: "nat \<Rightarrow> string \<Rightarrow> plan_draft \<Rightarrow> plan_draft" where
  "mark_failed now e d = touch now (d\<lparr>status := PFailed, error := e\<rparr>)"

definition mark_review_error :: "nat \<Rightarrow> string \<Rightarrow> plan_draft \<Rightarrow> plan_draft" where
  "mark_review_error now e d =
     touch now (d\<lparr>status := (if status d = PDrafting then PReviewing else status d), error := e\<rparr>)"

definition confirm :: "nat \<Rightarrow> int \<Rightarrow> plan_draft \<Rightarrow> string + plan_draft" where
  "confirm now rv d =
     (if status d \<noteq> PReviewing \<or> stage d \<noteq> SFinalReview then Inl ''final plan is not ready for confirmation''
      else if rv \<noteq> revision d then Inl ''stale plan revision''
      else if final_items d = [] then Inl ''final plan must contain at least one item''
      else Inr (touch now (d\<lparr>status := PConfirmed\<rparr>)))"

definition mark_executing :: "nat \<Rightarrow> plan_draft \<Rightarrow> string + plan_draft" where
  "mark_executing now d =
     (if status d \<noteq> PConfirmed \<and> status d \<noteq> PExecuting then Inl ''plan must be confirmed before execution''
      else Inr (touch now (d\<lparr>status := PExecuting\<rparr>)))"

definition plan_cancel :: "nat \<Rightarrow> plan_draft \<Rightarrow> plan_draft" where
  "plan_cancel now d = touch now (d\<lparr>status := PCancelled\<rparr>)"

definition restore :: "nat \<Rightarrow> plan_draft \<Rightarrow> plan_draft" where
  "restore now d0 =
     (let d1 = d0\<lparr>items := normalize_items False (items d0),
                  final_items := normalize_items False (final_items d0),
                  options := map (\<lambda>opt. opt\<lparr>po_items := normalize_items False (po_items opt)\<rparr>) (options d0)\<rparr>;
          d2 = (if stage d1 = SIdle \<and> status d1 = PReviewing
                then d1\<lparr>stage := (if options d1 = [] then SDecisionReview else SOptionReview)\<rparr> else d1)
      in if updated_ms d2 = 0 then touch now d2 else d2)"

subsection \<open>The state machine\<close>

datatype plan_op =
    Start plan_command
  | MarkDrafting
  | ApplyModelDraft string string "plan_item list"
  | ApplyModelOptions string string "plan_option list" string
  | BeginDetailing string int
  | ApplyModelDetail string u64 string string "plan_item list" "string list" "string list"
  | SelectOption string
  | ApplyUserItems "plan_item list"
  | ApplyDecision decision_patch
  | BeginChatRevision int
  | ApplyRevisedOptions u64 string string "plan_option list" string
  | ApplyRevisedDetail u64 string string "plan_item list" "string list" "string list"
  | ApplyRevisedFinal u64 final_draft
  | BeginFinalizing int
  | ApplyModelFinal u64 final_draft
  | MarkFailed string
  | MarkReviewError string
  | Confirm int
  | MarkExecuting
  | Cancel
  | Restore plan_draft
  | Reset

fun plan_step :: "nat \<Rightarrow> plan_op \<Rightarrow> plan_draft \<Rightarrow> string + plan_draft" where
  "plan_step now (Start c) d = Inr (start now c)"
| "plan_step now MarkDrafting d = Inr (mark_drafting now d)"
| "plan_step now (ApplyModelDraft t ob is) d = Inr (apply_model_draft now t ob is d)"
| "plan_step now (ApplyModelOptions t ob opts sel) d = Inr (apply_model_options now t ob opts sel d)"
| "plan_step now (BeginDetailing oid rv) d = map_sum id snd (begin_detailing now oid rv d)"
| "plan_step now (ApplyModelDetail oid req t ob is rs vs) d = apply_model_detail now oid req t ob is rs vs d"
| "plan_step now (SelectOption oid) d = select_option now oid d"
| "plan_step now (ApplyUserItems is) d = apply_user_items now is d"
| "plan_step now (ApplyDecision p) d = map_sum id snd (apply_decision now p d)"
| "plan_step now (BeginChatRevision rv) d = map_sum id snd (begin_chat_revision now rv d)"
| "plan_step now (ApplyRevisedOptions req t ob opts sel) d = apply_revised_options now req t ob opts sel d"
| "plan_step now (ApplyRevisedDetail req t ob is rs vs) d = apply_revised_detail now req t ob is rs vs d"
| "plan_step now (ApplyRevisedFinal req f) d = apply_revised_final now req f d"
| "plan_step now (BeginFinalizing rv) d = map_sum id snd (begin_finalizing now rv d)"
| "plan_step now (ApplyModelFinal req f) d = apply_model_final now req f d"
| "plan_step now (MarkFailed e) d = Inr (mark_failed now e d)"
| "plan_step now (MarkReviewError e) d = Inr (mark_review_error now e d)"
| "plan_step now (Confirm rv) d = confirm now rv d"
| "plan_step now MarkExecuting d = mark_executing now d"
| "plan_step now Cancel d = Inr (plan_cancel now d)"
| "plan_step now (Restore d0) d = Inr (restore now d0)"
| "plan_step now Reset d = Inr draft_new"

subsection \<open>Normalized items\<close>

definition choice_ok :: "plan_choice \<Rightarrow> bool" where
  "choice_ok c \<longleftrightarrow> pc_id c \<noteq> [] \<and> pc_title c \<noteq> []"

definition decision_ok :: "plan_decision \<Rightarrow> bool" where
  "decision_ok x \<longleftrightarrow> pd_id x \<noteq> [] \<and> pd_title x \<noteq> [] \<and> list_all choice_ok (pd_choices x)"

definition item_ok :: "plan_item \<Rightarrow> bool" where
  "item_ok i \<longleftrightarrow> pi_id i \<noteq> [] \<and> pi_title i \<noteq> [] \<and> list_all choice_ok (pi_choices i) \<and>
     list_all decision_ok (pi_decisions i)"

text \<open>Items are numbered from 1 and everything in them has an id and a title.\<close>

definition items_ok :: "plan_item list \<Rightarrow> bool" where
  "items_ok is \<longleftrightarrow> map pi_order is = [1..<Suc (length is)] \<and> list_all item_ok is"

lemma or_default_nonempty [simp]: "or_default x y = [] \<longleftrightarrow> x = [] \<and> y = []"
  by (simp add: or_default_def)

lemma make_id_nonempty [simp]: "make_id p n \<noteq> []"
  by (simp add: make_id_def)

lemma normalize_choices_ok: "dflt \<noteq> [] \<Longrightarrow> list_all choice_ok (normalize_choices dflt n cs)"
  by (induction dflt n cs rule: normalize_choices.induct) (simp_all add: choice_ok_def)

lemma normalize_decisions_ok: "list_all decision_ok (normalize_decisions ds)"
proof -
  have "list_all decision_ok (normalize_decisions_from n ds)" for n
    by (induction n ds rule: normalize_decisions_from.induct)
      (simp_all add: decision_ok_def normalize_choices_ok)
  then show ?thesis by (simp add: normalize_decisions_def)
qed

lemma normalize_items_from_ok:
  "list_all item_ok (normalize_items_from n select is) \<and>
   map pi_order (normalize_items_from n select is) = [n..<n + length is] \<and>
   length (normalize_items_from n select is) = length is"
proof (induction n select "is" rule: normalize_items_from.induct)
  case (2 n select i "is")
  have "[n..<n + length (i # is)] = n # [Suc n..<Suc n + length is]"
    by (simp add: upt_conv_Cons del: upt_Suc)
  then show ?case
    using 2 by (simp add: item_ok_def Let_def normalize_choices_ok normalize_decisions_ok del: upt_Suc)
qed simp

lemma normalize_items_ok [simp]: "items_ok (normalize_items select is)"
  using normalize_items_from_ok [of 1 select "is"] by (simp add: items_ok_def normalize_items_def)

lemma normalize_items_Nil [simp]: "normalize_items select is = [] \<longleftrightarrow> is = []"
  by (cases "is") (simp_all add: normalize_items_def Let_def)

lemma items_ok_Nil [simp]: "items_ok []"
  by (simp add: items_ok_def)

lemma patch_decisions_ok:
  "patch_decisions p ds = Some ds' \<Longrightarrow> list_all decision_ok ds \<Longrightarrow> list_all decision_ok ds'"
  by (induction ds arbitrary: ds') (auto simp: decision_ok_def split: if_splits)

lemma patch_items_ok:
  "patch_items p is = Inr js \<Longrightarrow> list_all item_ok is \<Longrightarrow>
   list_all item_ok js \<and> map pi_order js = map pi_order is"
proof (induction "is" arbitrary: js)
  case (Cons i "is")
  then show ?case
    by (auto simp: item_ok_def bind_sum_Inr patch_decisions_ok split: if_splits option.splits)
qed simp

lemma patch_items_items_ok: "patch_items p is = Inr js \<Longrightarrow> items_ok is \<Longrightarrow> items_ok js"
  using patch_items_ok [of p "is" js] by (metis items_ok_def length_map)

lemma normalize_options_ok:
  "list_all (\<lambda>opt. items_ok (po_items opt)) (normalize_options_from n opts)"
  by (induction n opts rule: normalize_options_from.induct) simp_all

subsection \<open>The invariant\<close>

definition plan_inv :: "plan_draft \<Rightarrow> bool" where
  "plan_inv d \<longleftrightarrow>
     items_ok (items d) \<and> items_ok (final_items d) \<and>
     list_all (\<lambda>opt. items_ok (po_items opt)) (options d) \<and>
     (stage d = SFinalReview \<longrightarrow> final_items d \<noteq> []) \<and>
     (is_executing d \<longrightarrow> stage d = SFinalReview) \<and>
     (stage d = SDetailing \<or> stage d = SFinalizing \<longrightarrow> planning_request_id d \<noteq> 0)"

definition new_request_id :: "plan_draft \<Rightarrow> u64" where
  "new_request_id d = (if planning_request_id d + 1 = 0 then 1 else planning_request_id d + 1)"

lemma new_request_id_nonzero [simp]: "new_request_id d \<noteq> 0"
  by (simp add: new_request_id_def)

lemma new_request_id_new [simp]: "new_request_id d \<noteq> planning_request_id d"
  by (auto simp: new_request_id_def)

lemma next_request_id_eq: "next_request_id d = (new_request_id d, d\<lparr>planning_request_id := new_request_id d\<rparr>)"
  by (simp add: next_request_id_def new_request_id_def Let_def)

text \<open>The fields the invariant reads, after the helpers.\<close>

lemma plan_helper_sel [simp]:
  "items (touch now d) = items d" "final_items (touch now d) = final_items d"
  "options (touch now d) = options d" "stage (touch now d) = stage d" "status (touch now d) = status d"
  "planning_request_id (touch now d) = planning_request_id d" "revision (touch now d) = revision d"
  "selected_option_id (touch now d) = selected_option_id d"
  "items (bump_revision now d) = items d" "final_items (bump_revision now d) = final_items d"
  "options (bump_revision now d) = options d" "stage (bump_revision now d) = stage d"
  "status (bump_revision now d) = status d"
  "planning_request_id (bump_revision now d) = planning_request_id d"
  "revision (bump_revision now d) = revision d + 1"
  "selected_option_id (bump_revision now d) = selected_option_id d"
  "items (clear_final_fields d) = items d" "final_items (clear_final_fields d) = []"
  "options (clear_final_fields d) = options d" "stage (clear_final_fields d) = stage d"
  "status (clear_final_fields d) = status d" "revision (clear_final_fields d) = revision d"
  "planning_request_id (clear_final_fields d) = planning_request_id d"
  "selected_option_id (clear_final_fields d) = selected_option_id d"
  by (simp_all add: touch_def bump_revision_def clear_final_fields_def)

lemma plan_inv_fields:
  "items_ok (items d) \<Longrightarrow> items_ok (final_items d) \<Longrightarrow> list_all (\<lambda>opt. items_ok (po_items opt)) (options d) \<Longrightarrow>
   (stage d = SFinalReview \<Longrightarrow> final_items d \<noteq> []) \<Longrightarrow>
   (status d = PConfirmed \<or> status d = PExecuting \<Longrightarrow> stage d = SFinalReview) \<Longrightarrow>
   (stage d = SDetailing \<or> stage d = SFinalizing \<Longrightarrow> planning_request_id d \<noteq> 0) \<Longrightarrow> plan_inv d"
  by (auto simp: plan_inv_def is_executing_def)

lemma plan_invD:
  assumes "plan_inv d"
  shows "items_ok (items d)" "items_ok (final_items d)"
    "list_all (\<lambda>opt. items_ok (po_items opt)) (options d)"
    "stage d = SFinalReview \<Longrightarrow> final_items d \<noteq> []"
    "status d = PConfirmed \<Longrightarrow> stage d = SFinalReview" "status d = PExecuting \<Longrightarrow> stage d = SFinalReview"
    "stage d = SDetailing \<Longrightarrow> planning_request_id d \<noteq> 0" "stage d = SFinalizing \<Longrightarrow> planning_request_id d \<noteq> 0"
  using assms by (auto simp: plan_inv_def is_executing_def)

lemma begin_detailing_Inr:
  "begin_detailing now oid rv d = Inr (r, d') \<Longrightarrow> plan_inv d \<Longrightarrow> plan_inv d'"
  by (rule plan_inv_fields)
    (auto simp: begin_detailing_def next_request_id_eq dest: plan_invD split: if_splits)

lemma store_final_inv: "plan_inv d \<Longrightarrow> fd_items f \<noteq> [] \<Longrightarrow> plan_inv (store_final now f d)"
  by (rule plan_inv_fields) (auto simp: store_final_def dest: plan_invD)

lemma apply_model_options_inv: "plan_inv (apply_model_options now t ob opts sel d)"
  by (rule plan_inv_fields) (auto simp: apply_model_options_def normalize_options_ok)

lemma select_option_inv: "select_option now oid d = Inr d' \<Longrightarrow> plan_inv d \<Longrightarrow> plan_inv d'"
proof (cases "stage d = SOptionReview")
  case True
  assume "select_option now oid d = Inr d'" "plan_inv d"
  then show ?thesis
    using True begin_detailing_Inr [of now oid "revision d" d _ d']
    by (cases "begin_detailing now oid (revision d) d") (auto simp: select_option_def)
next
  case False
  assume a: "select_option now oid d = Inr d'" "plan_inv d"
  show ?thesis
    by (rule plan_inv_fields)
      (use a False in \<open>auto simp: select_option_def dest: plan_invD split: if_splits option.splits\<close>)
qed

lemma apply_decision_Inr:
  assumes "apply_decision now p d = Inr (b, d')"
  shows "status d = PReviewing" and "stage d = SDecisionReview \<or> stage d = SFinalReview"
    and "dp_revision p = revision d"
    and "\<exists>js. patch_items p (items d) = Inr js \<and>
      d' = bump_revision now
        (if stage d = SFinalReview then clear_final_fields (d\<lparr>items := js, stage := SDecisionReview\<rparr>)
         else d\<lparr>items := js\<rparr>)"
proof -
  show "status d = PReviewing" "stage d = SDecisionReview \<or> stage d = SFinalReview"
      "dp_revision p = revision d"
    using assms by (simp_all add: apply_decision_def split: if_splits)
  then have "bind_sum (patch_items p (items d)) (\<lambda>is.
        (let d1 = d\<lparr>items := is\<rparr>;
             d2 = (if stage d1 = SFinalReview
                   then clear_final_fields (d1\<lparr>stage := SDecisionReview\<rparr>) else d1);
             d3 = bump_revision now d2
         in Inr (all_decisions_resolved d3, d3))) = Inr (b, d')"
    using assms by (simp add: apply_decision_def split: if_splits)
  then show "\<exists>js. patch_items p (items d) = Inr js \<and>
      d' = bump_revision now
        (if stage d = SFinalReview then clear_final_fields (d\<lparr>items := js, stage := SDecisionReview\<rparr>)
         else d\<lparr>items := js\<rparr>)"
    by (cases "patch_items p (items d)") (simp_all add: Let_def)
qed

lemma apply_decision_inv:
  assumes "apply_decision now p d = Inr (b, d')" and "plan_inv d"
  shows "plan_inv d'"
proof -
  note a = apply_decision_Inr [OF assms(1)]
  obtain js where js: "patch_items p (items d) = Inr js"
    and d': "d' = bump_revision now
        (if stage d = SFinalReview then clear_final_fields (d\<lparr>items := js, stage := SDecisionReview\<rparr>)
         else d\<lparr>items := js\<rparr>)"
    using a(4) by blast
  have "items_ok js" by (rule patch_items_items_ok [OF js plan_invD(1) [OF assms(2)]])
  then show ?thesis
    using a(1,2) plan_invD(2,3) [OF assms(2)] unfolding d'
    by (cases "stage d = SFinalReview") (simp_all add: plan_inv_def is_executing_def)
qed

lemma restore_inv: "plan_inv d0 \<Longrightarrow> plan_inv (restore now d0)"
  by (rule plan_inv_fields)
    (auto simp: restore_def Let_def list_all_iff dest: plan_invD split: if_splits)

lemma plan_step_inv:
  assumes "plan_inv d" and "plan_step now op d = Inr d'" and "\<And>d0. op = Restore d0 \<Longrightarrow> plan_inv d0"
  shows "plan_inv d'"
proof (cases op)
  case (SelectOption x)
  then show ?thesis using assms select_option_inv by simp
next
  case (ApplyDecision p)
  then have "map_sum id snd (apply_decision now p d) = Inr d'" using assms(2) by simp
  from map_sum_snd_Inr [OF this] obtain b where "apply_decision now p d = Inr (b, d')" ..
  then show ?thesis using assms(1) by (rule apply_decision_inv)
next
  case (Restore d0)
  then show ?thesis using assms(2) assms(3) [OF Restore] restore_inv by auto
next
  case (BeginDetailing oid rv)
  then have "map_sum id snd (begin_detailing now oid rv d) = Inr d'" using assms(2) by simp
  from map_sum_snd_Inr [OF this] obtain r where "begin_detailing now oid rv d = Inr (r, d')" ..
  then show ?thesis using assms(1) by (rule begin_detailing_Inr)
next
  case (ApplyModelOptions t ob opts sel)
  then show ?thesis using assms(2) apply_model_options_inv by auto
next
  case (ApplyRevisedOptions req t ob opts sel)
  then show ?thesis
    using assms(2) apply_model_options_inv by (auto simp: apply_revised_options_def split: if_splits)
next
  case (ApplyRevisedFinal req f)
  then show ?thesis using assms store_final_inv by (auto simp: apply_revised_final_def split: if_splits)
next
  case (ApplyModelFinal req f)
  then show ?thesis using assms store_final_inv by (auto simp: apply_model_final_def split: if_splits)
next
  case (BeginFinalizing rv)
  show ?thesis
    by (rule plan_inv_fields)
      (use assms(1,2) BeginFinalizing in \<open>auto simp: begin_finalizing_def next_request_id_eq dest: plan_invD split: if_splits\<close>)
next
  case (BeginChatRevision rv)
  show ?thesis
    by (rule plan_inv_fields)
      (use assms(1,2) BeginChatRevision in \<open>auto simp: begin_chat_revision_def next_request_id_eq dest: plan_invD split: if_splits\<close>)
next
  case (ApplyModelDetail oid req t ob "is" rs vs)
  show ?thesis
    by (rule plan_inv_fields)
      (use assms(1,2) ApplyModelDetail in \<open>auto simp: apply_model_detail_def dest: plan_invD split: if_splits\<close>)
next
  case (ApplyRevisedDetail req t ob "is" rs vs)
  show ?thesis
    by (rule plan_inv_fields)
      (use assms(1,2) ApplyRevisedDetail in \<open>auto simp: apply_revised_detail_def dest: plan_invD split: if_splits\<close>)
qed (use assms(1,2) in \<open>auto intro!: plan_inv_fields dest: plan_invD
  simp: start_def draft_new_def mark_drafting_def apply_model_draft_def apply_user_items_def
  mark_failed_def mark_review_error_def confirm_def mark_executing_def plan_cancel_def split: if_splits\<close>)

text \<open>
  The drafts of a session: from the empty draft by the operations of the manager; a draft that is
  restored comes from an earlier session.
\<close>

inductive plan_reach :: "plan_draft \<Rightarrow> bool" where
  init: "plan_reach draft_new"
| step: "plan_reach d \<Longrightarrow> plan_step now op d = Inr d' \<Longrightarrow>
    (\<forall>d0. op = Restore d0 \<longrightarrow> plan_reach d0) \<Longrightarrow> plan_reach d'"

inductive_simps plan_reach_simps: "plan_reach d"

lemma plan_reach_inv: "plan_reach d \<Longrightarrow> plan_inv d"
proof (induction rule: plan_reach.induct)
  case init
  then show ?case by (simp add: plan_inv_def draft_new_def is_executing_def)
next
  case (step d now op d')
  then show ?case using plan_step_inv [of d now op d'] by blast
qed


definition sample_item :: plan_item where
  "sample_item = \<lparr>pi_id = ''i'', pi_title = ''t'', pi_description = [], pi_order = 1, pi_required = True,
     pi_choices = [], pi_selected = [], pi_note = [], pi_decisions = [], pi_risks = [], pi_validation = []\<rparr>"

definition sample_plan :: plan_draft where
  "sample_plan = apply_model_draft 0 ''t'' ''o'' [sample_item] draft_new"

lemma sample_plan_reach: "plan_reach sample_plan"
proof -
  have "plan_step 0 (ApplyModelDraft ''t'' ''o'' [sample_item]) draft_new = Inr sample_plan"
    by (simp add: sample_plan_def)
  then show ?thesis using plan_reach.step [OF plan_reach.init] by blast
qed


subsection \<open>Confirmation and execution\<close>

lemma apply_model_options_status: "status (apply_model_options now t ob opts sel d) = PReviewing"
  by (simp add: apply_model_options_def)

lemma store_final_status: "status (store_final now f d) = PReviewing"
  by (simp add: store_final_def)

lemma begin_status:
  "begin_detailing now oid rv d = Inr (r, d') \<Longrightarrow> status d' = PDrafting"
  "begin_chat_revision now rv d = Inr (r, d') \<Longrightarrow> status d' = PDrafting"
  "begin_finalizing now rv d = Inr (r, d') \<Longrightarrow> status d' = PDrafting \<or> status d' = PReviewing"
  by (auto simp: begin_detailing_def begin_chat_revision_def begin_finalizing_def next_request_id_eq
    split: if_splits)

text \<open>Outside these four operations the resulting draft is never confirmed or executing.\<close>

lemma not_executing_after:
  assumes "plan_step now op d = Inr d'" and "is_executing d'"
  shows "(\<exists>rv. op = Confirm rv) \<or> op = MarkExecuting \<or> (\<exists>e. op = MarkReviewError e) \<or> (\<exists>d0. op = Restore d0)"
proof (cases op)
  case (SelectOption x)
  show ?thesis
  proof (cases "stage d = SOptionReview")
    case True
    then have "map_sum id snd (begin_detailing now x (revision d) d) = Inr d'"
      using assms(1) SelectOption by (simp add: select_option_def)
    from map_sum_snd_Inr [OF this] show ?thesis
      using assms(2) begin_status(1) by (auto simp: is_executing_def)
  next
    case False
    then show ?thesis
      using assms SelectOption by (auto simp: select_option_def is_executing_def split: if_splits option.splits)
  qed
next
  case (ApplyDecision p)
  then have "map_sum id snd (apply_decision now p d) = Inr d'" using assms(1) by simp
  from map_sum_snd_Inr [OF this] obtain b where "apply_decision now p d = Inr (b, d')" ..
  note a = apply_decision_Inr [OF this]
  then show ?thesis using assms(2) by (auto simp: is_executing_def split: if_splits)
next
  case (BeginDetailing oid rv)
  then have "map_sum id snd (begin_detailing now oid rv d) = Inr d'" using assms(1) by simp
  from map_sum_snd_Inr [OF this] show ?thesis
    using assms(2) begin_status(1) by (auto simp: is_executing_def)
next
  case (BeginChatRevision rv)
  then have "map_sum id snd (begin_chat_revision now rv d) = Inr d'" using assms(1) by simp
  from map_sum_snd_Inr [OF this] show ?thesis
    using assms(2) begin_status(2) by (auto simp: is_executing_def)
next
  case (BeginFinalizing rv)
  then have "map_sum id snd (begin_finalizing now rv d) = Inr d'" using assms(1) by simp
  from map_sum_snd_Inr [OF this] show ?thesis
    using assms(2) begin_status(3) by (fastforce simp: is_executing_def)
qed (use assms in \<open>auto simp: is_executing_def start_def draft_new_def mark_drafting_def apply_model_draft_def
  apply_model_options_status apply_model_detail_def apply_user_items_def apply_revised_options_def
  apply_revised_detail_def apply_revised_final_def apply_model_final_def store_final_status mark_failed_def
  plan_cancel_def split: if_splits\<close>)


text \<open>A plan that reached its final review, for the witnesses.\<close>

definition sample_final :: plan_draft where
  "sample_final = draft_new\<lparr>status := PReviewing, stage := SFinalReview, revision := 4,
     final_items := [sample_item], planning_request_id := 2\<rparr>"


subsection \<open>Stale results\<close>

text \<open>
  Once a new request has been issued (for details, for a chat revision or for finalization, each
  with a fresh non-zero request id), the result of the request before it is rejected by every
  operation that applies a model result.
\<close>

theorem stale_result_rejected:
  assumes "begin_detailing now oid rv d = Inr (req, d') \<or> begin_chat_revision now rv d = Inr (req, d') \<or>
      begin_finalizing now rv d = Inr (req, d') \<and> stage d \<noteq> SFinalReview"
    and "old = planning_request_id d"
  shows "req \<noteq> 0 \<and> req = planning_request_id d' \<and>
    apply_model_detail now oid' old t ob is rs vs d' = Inl ''stale plan detail result'' \<and>
    apply_revised_options now old t ob opts sel d' = Inl ''stale plan revision result'' \<and>
    apply_revised_detail now old t ob is rs vs d' = Inl ''stale plan revision result'' \<and>
    apply_revised_final now old f d' = Inl ''stale plan final revision result'' \<and>
    apply_model_final now old f d' = Inl ''stale plan finalization result''"
proof -
  have "req \<noteq> 0 \<and> req = planning_request_id d' \<and> old \<noteq> planning_request_id d'"
    using assms
    by (auto simp: begin_detailing_def begin_chat_revision_def begin_finalizing_def next_request_id_eq
      new_request_id_def split: if_splits)
  then show ?thesis
    by (auto simp: apply_model_detail_def apply_revised_options_def apply_revised_detail_def
      apply_revised_final_def apply_model_final_def)
qed

definition sample_answer :: final_draft where
  "sample_answer = \<lparr>fd_summary = [], fd_items = [sample_item], fd_risks = [], fd_validation = [], fd_notes = []\<rparr>"

theorem stale_result_rejected_witness:
  "\<exists>req d'. begin_chat_revision 0 4 sample_final = Inr (req, d') \<and>
     apply_revised_final 0 2 sample_answer d' = Inl ''stale plan final revision result''"
proof -
  obtain req d' where b: "begin_chat_revision 0 4 sample_final = Inr (req, d')"
    by (simp add: begin_chat_revision_def sample_final_def draft_new_def next_request_id_eq)
  have "2 = planning_request_id sample_final" by (simp add: sample_final_def)
  with stale_result_rejected [OF disjI2 [OF disjI1 [OF b]]] b show ?thesis by blast
qed

text \<open>
  Cancelling does not withdraw the outstanding request: for a plan that is being finalized, a
  result that arrives after \<open>cancel\<close> is still accepted and puts the cancelled plan back into the
  final review, where it can be confirmed.
\<close>

theorem cancelled_plan_revived:
  assumes "stage d = SFinalizing" and "fd_items f \<noteq> []"
  shows "\<exists>d' d''. apply_model_final now (planning_request_id d) f (plan_cancel now d) = Inr d' \<and>
    status d' = PReviewing \<and> confirm now (revision d') d' = Inr d'' \<and> is_executing d''"
  using assms
  by (simp add: apply_model_final_def plan_cancel_def store_final_def confirm_def is_executing_def)

theorem cancelled_plan_revived_witness:
  "\<exists>d' d''. apply_model_final 0 (planning_request_id (sample_final\<lparr>stage := SFinalizing\<rparr>))
      \<lparr>fd_summary = [], fd_items = [sample_item], fd_risks = [], fd_validation = [], fd_notes = []\<rparr>
      (plan_cancel 0 (sample_final\<lparr>stage := SFinalizing\<rparr>)) = Inr d' \<and>
    status d' = PReviewing \<and> confirm 0 (revision d') d' = Inr d'' \<and> is_executing d''"
  by (rule cancelled_plan_revived) simp_all

text \<open>
  After a failed finalization \<open>mark_review_error\<close> returns to the reviewing status but leaves the
  stage at finalizing, where the plan can neither be finalized again nor patched, revised or
  confirmed.
\<close>

lemma finalizing_error_stuck:
  assumes "stage d = SFinalizing" and "d' = mark_review_error now e d"
  shows "\<exists>m. begin_finalizing now rv d' = Inl m" "\<exists>m. apply_decision now p d' = Inl m"
    "\<exists>m. begin_chat_revision now rv d' = Inl m" "\<exists>m. confirm now rv d' = Inl m"
  using assms
  by (simp_all add: mark_review_error_def begin_finalizing_def apply_decision_def begin_chat_revision_def confirm_def)

text \<open>
  The textual names of the plan states read back to the states they were written from, and any
  other text reads as failed, respectively idle.
\<close>

lemma plan_names_roundtrip:
  "plan_status_from_string (status_to_string s) = s \<and> plan_stage_from_string (stage_to_string g) = g \<and>
   (v \<notin> range status_to_string \<longrightarrow> plan_status_from_string v = PFailed) \<and>
   (v \<notin> range stage_to_string \<longrightarrow> plan_stage_from_string v = SIdle)"
proof -
  have "plan_status_from_string v \<noteq> PFailed \<Longrightarrow> v = status_to_string (plan_status_from_string v)"
    by (auto simp: plan_status_from_string_def split: if_splits)
  moreover have "plan_stage_from_string v \<noteq> SIdle \<Longrightarrow> v = stage_to_string (plan_stage_from_string v)"
    by (auto simp: plan_stage_from_string_def split: if_splits)
  ultimately have "v \<notin> range status_to_string \<Longrightarrow> plan_status_from_string v = PFailed"
      "v \<notin> range stage_to_string \<Longrightarrow> plan_stage_from_string v = SIdle"
    by blast+
  moreover have "plan_status_from_string (status_to_string s) = s"
    by (cases s) (simp_all add: plan_status_from_string_def)
  moreover have "plan_stage_from_string (stage_to_string g) = g"
    by (cases g) (simp_all add: plan_stage_from_string_def)
  ultimately show ?thesis by blast
qed

end
