(* ===== verification/Todo.thy ===== *)
theory Todo
  imports Plan
begin

text \<open>
  The execution list (\<open>orchestration/todo.hpp\<close>, \<open>orchestration/todo.cpp\<close>): items derived from a
  confirmed plan and updated while it runs. The clock is the argument \<open>now\<close>. The pointer that
  \<open>find\<close> returns is the position of the first item with the id.
\<close>

datatype todo_status = TPending | TRunning | TSucceeded | TFailed | TCancelled | TBlocked | TSkipped

record todo_item =
  todo_id :: string
  ti_session_id :: string
  ti_workspace :: string
  ti_title :: string
  active_form :: string
  source_plan_item_id :: string
  parent_id :: string
  result_summary :: string
  ti_status :: todo_status
  ti_order :: int
  progress :: int
  ti_updated_ms :: nat
  has_status :: bool
  has_progress :: bool

record todo_state =
  td_session_id :: string
  td_workspace :: string
  td_plan_id :: string
  td_items :: "todo_item list"
  td_updated_ms :: nat

record todo_delta =
  de_session_id :: string
  de_workspace :: string
  de_plan_id :: string
  de_item :: todo_item
  de_action :: string

definition item_new :: todo_item where
  "item_new = \<lparr>todo_id = [], ti_session_id = [], ti_workspace = [], ti_title = [], active_form = [],
     source_plan_item_id = [], parent_id = [], result_summary = [], ti_status = TPending, ti_order = 0,
     progress = 0, ti_updated_ms = 0, has_status = True, has_progress = True\<rparr>"

definition state_new :: todo_state where
  "state_new = \<lparr>td_session_id = [], td_workspace = [], td_plan_id = [], td_items = [], td_updated_ms = 0\<rparr>"

fun todo_status_to_string :: "todo_status \<Rightarrow> string" where
  "todo_status_to_string TPending = ''pending''"
| "todo_status_to_string TRunning = ''running''"
| "todo_status_to_string TSucceeded = ''succeeded''"
| "todo_status_to_string TFailed = ''failed''"
| "todo_status_to_string TCancelled = ''cancelled''"
| "todo_status_to_string TBlocked = ''blocked''"
| "todo_status_to_string TSkipped = ''skipped''"

definition todo_status_from_string :: "string \<Rightarrow> todo_status" where
  "todo_status_from_string v =
     (if v = ''pending'' then TPending
      else if v = ''running'' then TRunning
      else if v = ''succeeded'' then TSucceeded
      else if v = ''cancelled'' then TCancelled
      else if v = ''blocked'' then TBlocked
      else if v = ''skipped'' then TSkipped
      else TFailed)"

definition todo_id_for :: "plan_item \<Rightarrow> nat \<Rightarrow> string" where
  "todo_id_for i order = ''todo:'' @ (if pi_id i \<noteq> [] then pi_id i else decimal order)"

definition todo_touch :: "nat \<Rightarrow> todo_state \<Rightarrow> todo_state" where
  "todo_touch now s = s\<lparr>td_updated_ms := now\<rparr>"

fun todo_items_from :: "nat \<Rightarrow> plan_draft \<Rightarrow> nat \<Rightarrow> plan_item list \<Rightarrow> todo_item list" where
  "todo_items_from now p n [] = []"
| "todo_items_from now p n (i # is) =
     item_new\<lparr>todo_id := todo_id_for i n, ti_session_id := session_id p, ti_workspace := workspace p,
       ti_title := pi_title i, active_form := pi_title i, source_plan_item_id := pi_id i,
       ti_status := TPending, ti_order := int n, ti_updated_ms := now\<rparr>
     # todo_items_from now p (Suc n) is"

definition initialize_from_plan :: "nat \<Rightarrow> plan_draft \<Rightarrow> todo_state" where
  "initialize_from_plan now p =
     todo_touch now (state_new\<lparr>td_session_id := session_id p, td_workspace := workspace p,
       td_plan_id := plan_id p,
       td_items := todo_items_from now p 1 (if final_items p = [] then items p else final_items p)\<rparr>)"

definition todo_find :: "todo_state \<Rightarrow> string \<Rightarrow> todo_item option" where
  "todo_find s i = find (\<lambda>x. todo_id x = i) (td_items s)"

text \<open>Writes through the pointer that \<open>find\<close> returned.\<close>

fun update_first :: "string \<Rightarrow> (todo_item \<Rightarrow> todo_item) \<Rightarrow> todo_item list \<Rightarrow> todo_item list" where
  "update_first i f [] = []"
| "update_first i f (x # xs) = (if todo_id x = i then f x # xs else x # update_first i f xs)"

definition merge_item :: "todo_item \<Rightarrow> todo_item \<Rightarrow> todo_item" where
  "merge_item item ex =
     ex\<lparr>ti_session_id := or_default (ti_session_id item) (ti_session_id ex),
        ti_workspace := or_default (ti_workspace item) (ti_workspace ex),
        ti_title := or_default (ti_title item) (ti_title ex),
        active_form := or_default (active_form item) (active_form ex),
        source_plan_item_id := or_default (source_plan_item_id item) (source_plan_item_id ex),
        parent_id := or_default (parent_id item) (parent_id ex),
        result_summary := or_default (result_summary item) (result_summary ex),
        ti_status := (if has_status item then ti_status item else ti_status ex),
        ti_order := (if ti_order item > 0 then ti_order item else ti_order ex),
        progress := (if has_progress item \<and> progress item \<ge> 0 then progress item else progress ex),
        ti_updated_ms := ti_updated_ms item\<rparr>"

definition upsert :: "nat \<Rightarrow> todo_item \<Rightarrow> string \<Rightarrow> todo_state \<Rightarrow> todo_delta \<times> todo_state" where
  "upsert now item0 action s =
     (let item = item0\<lparr>ti_updated_ms := now,
            ti_session_id := or_default (ti_session_id item0) (td_session_id s),
            ti_workspace := or_default (ti_workspace item0) (td_workspace s)\<rparr>;
          (item', items') =
            (case todo_find s (todo_id item) of
               Some ex \<Rightarrow> (merge_item item ex, update_first (todo_id item) (merge_item item) (td_items s))
             | None \<Rightarrow>
                 (let it = item\<lparr>ti_order := (if ti_order item > 0 then ti_order item
                                              else int (length (td_items s)) + 1)\<rparr>
                  in (it, td_items s @ [it])));
          s' = todo_touch now (s\<lparr>td_items := items'\<rparr>)
      in (\<lparr>de_session_id = td_session_id s', de_workspace = td_workspace s', de_plan_id = td_plan_id s',
           de_item = item', de_action = action\<rparr>, s'))"

definition set_status :: "nat \<Rightarrow> todo_status \<Rightarrow> string \<Rightarrow> int \<Rightarrow> todo_item \<Rightarrow> todo_item" where
  "set_status now st summary prog ex =
     ex\<lparr>ti_status := st, result_summary := or_default summary (result_summary ex),
        progress := (if prog \<ge> 0 then prog else progress ex), ti_updated_ms := now\<rparr>"

definition update_status ::
  "nat \<Rightarrow> string \<Rightarrow> todo_status \<Rightarrow> string \<Rightarrow> int \<Rightarrow> todo_state \<Rightarrow> todo_delta \<times> todo_state" where
  "update_status now i st summary prog s =
     (let (item', items') =
        (case todo_find s i of
           Some ex \<Rightarrow>
             (set_status now st summary prog ex, update_first i (set_status now st summary prog) (td_items s))
         | None \<Rightarrow>
             (let it = item_new\<lparr>todo_id := i, ti_session_id := td_session_id s,
                    ti_workspace := td_workspace s, ti_title := i, ti_status := st,
                    result_summary := summary, progress := (if prog \<ge> 0 then prog else 0),
                    ti_order := int (length (td_items s)) + 1, ti_updated_ms := now\<rparr>
              in (it, td_items s @ [it])));
          s' = todo_touch now (s\<lparr>td_items := items'\<rparr>)
      in (\<lparr>de_session_id = td_session_id s', de_workspace = td_workspace s', de_plan_id = td_plan_id s',
           de_item = item', de_action = ''status''\<rparr>, s'))"

definition todo_restore :: "nat \<Rightarrow> todo_state \<Rightarrow> todo_state" where
  "todo_restore now s0 = (if td_updated_ms s0 = 0 then todo_touch now s0 else s0)"

definition mark_item :: "nat \<Rightarrow> todo_status \<Rightarrow> string \<Rightarrow> todo_item \<Rightarrow> todo_item" where
  "mark_item now st summary x =
     (if ti_status x = TRunning
      then x\<lparr>ti_status := st, result_summary := summary, ti_updated_ms := now\<rparr> else x)"

definition mark_all_running_as :: "nat \<Rightarrow> todo_status \<Rightarrow> string \<Rightarrow> todo_state \<Rightarrow> todo_state" where
  "mark_all_running_as now st summary s =
     todo_touch now (s\<lparr>td_items := map (mark_item now st summary) (td_items s)\<rparr>)"

definition mark_running_as :: "nat \<Rightarrow> todo_status \<Rightarrow> string \<Rightarrow> todo_state \<Rightarrow> todo_state" where
  "mark_running_as now st summary s =
     todo_touch now (s\<lparr>td_items := map (mark_item now st summary) (td_items s)\<rparr>)"

definition todo_reset :: "nat \<Rightarrow> string \<Rightarrow> string \<Rightarrow> todo_state" where
  "todo_reset now sid ws = todo_touch now (state_new\<lparr>td_session_id := sid, td_workspace := ws\<rparr>)"

subsection \<open>Unique ids\<close>

abbreviation todo_ids :: "todo_state \<Rightarrow> string list" where
  "todo_ids s \<equiv> map todo_id (td_items s)"

lemma update_first_ids: "(\<And>x. todo_id (f x) = todo_id x) \<Longrightarrow> map todo_id (update_first i f xs) = map todo_id xs"
  by (induction xs) auto

lemma find_update_first:
  "(\<And>x. todo_id (f x) = todo_id x) \<Longrightarrow>
   find (\<lambda>x. todo_id x = j) (update_first i f xs) =
     (if j = i then map_option f (find (\<lambda>x. todo_id x = i) xs) else find (\<lambda>x. todo_id x = j) xs)"
  by (induction xs) auto

lemma find_append:
  "find P (xs @ ys) = (case find P xs of None \<Rightarrow> find P ys | Some x \<Rightarrow> Some x)"
  by (induction xs) auto

lemma todo_find_None: "todo_find s i = None \<longleftrightarrow> i \<notin> set (todo_ids s)"
  by (auto simp: todo_find_def find_None_iff)

lemma merge_item_id [simp]: "todo_id (merge_item item ex) = todo_id ex"
  by (simp add: merge_item_def)

lemma set_status_id [simp]: "todo_id (set_status now st sm pr ex) = todo_id ex"
  by (simp add: set_status_def)

lemma todo_items_from_props:
  "(\<And>i. i \<in> set is \<Longrightarrow> pi_id i \<noteq> []) \<Longrightarrow>
   map todo_id (todo_items_from now p n is) = map (\<lambda>i. ''todo:'' @ pi_id i) is \<and>
   map ti_title (todo_items_from now p n is) = map pi_title is \<and>
   map ti_order (todo_items_from now p n is) = map int [n..<n + length is] \<and>
   list_all (\<lambda>x. ti_status x = TPending) (todo_items_from now p n is)"
proof (induction now p n "is" rule: todo_items_from.induct)
  case (2 now p n i "is")
  have "[n..<n + length (i # is)] = n # [Suc n..<Suc n + length is]"
    by (simp add: upt_conv_Cons del: upt_Suc)
  then show ?case using 2 by (simp add: todo_id_for_def del: upt_Suc)
qed simp

definition source_items :: "plan_draft \<Rightarrow> plan_item list" where
  "source_items p = (if final_items p = [] then items p else final_items p)"

lemma source_items_ids: "plan_inv p \<Longrightarrow> i \<in> set (source_items p) \<Longrightarrow> pi_id i \<noteq> []"
  by (auto simp: source_items_def plan_inv_def items_ok_def list_all_iff item_ok_def split: if_splits)

text \<open>
  The execution list of a reachable plan has one entry per item of its final plan (or of the
  draft when there is no final plan), in order and numbered from 1, all pending, and the entries
  have pairwise different ids whenever the plan's items do.
\<close>

theorem initialize_from_plan_correct:
  assumes "plan_reach p"
  shows "map ti_title (td_items (initialize_from_plan now p)) = map pi_title (source_items p) \<and>
    todo_ids (initialize_from_plan now p) = map (\<lambda>i. ''todo:'' @ pi_id i) (source_items p) \<and>
    map ti_order (td_items (initialize_from_plan now p)) = map int [1..<Suc (length (source_items p))] \<and>
    list_all (\<lambda>x. ti_status x = TPending) (td_items (initialize_from_plan now p)) \<and>
    (distinct (map pi_id (source_items p)) \<longrightarrow> distinct (todo_ids (initialize_from_plan now p)))"
proof -
  have "td_items (initialize_from_plan now p) = todo_items_from now p 1 (source_items p)"
    by (simp add: initialize_from_plan_def todo_touch_def source_items_def)
  moreover have "distinct (map pi_id is) \<Longrightarrow> distinct (map (\<lambda>i. ''todo:'' @ pi_id i) is)" for "is" :: "plan_item list"
    by (induction "is") auto
  moreover have "\<And>i. i \<in> set (source_items p) \<Longrightarrow> pi_id i \<noteq> []"
    using source_items_ids [OF plan_reach_inv [OF assms]] .
  note todo_items_from_props [of "source_items p" now p 1, OF this]
  ultimately show ?thesis by (simp del: upt_Suc)
qed

theorem initialize_from_plan_correct_witness:
  "todo_ids (initialize_from_plan 7 sample_plan) = [''todo:i'']"
proof -
  have "map pi_id (source_items sample_plan) = [''i'']"
    by (simp add: sample_plan_def source_items_def apply_model_draft_def normalize_items_def sample_item_def Let_def or_default_def)
  then show ?thesis using initialize_from_plan_correct [OF sample_plan_reach, of 7] by auto
qed

subsection \<open>Updates\<close>

text \<open>What both updates do to the list: change the first entry with the id, or append one.\<close>

lemma update_or_append:
  assumes "distinct (todo_ids s)" and "\<And>x. todo_id (f x) = todo_id x" and "todo_id it = i"
    and "td_items s' = (case todo_find s i of None \<Rightarrow> td_items s @ [it] | Some ex \<Rightarrow> update_first i f (td_items s))"
  shows "distinct (todo_ids s') \<and> set (todo_ids s') = insert i (set (todo_ids s)) \<and>
    todo_find s' i = Some (case todo_find s i of None \<Rightarrow> it | Some ex \<Rightarrow> f ex) \<and>
    (\<forall>j. j \<noteq> i \<longrightarrow> todo_find s' j = todo_find s j)"
proof (cases "todo_find s i")
  case None
  then have "i \<notin> set (todo_ids s)" by (simp add: todo_find_None)
  then show ?thesis
    using None assms by (auto simp: todo_find_def find_append split: option.splits)
next
  case (Some ex)
  then have "i \<in> set (todo_ids s)" using todo_find_None [of s i] by auto
  then show ?thesis
    using Some assms find_update_first [OF assms(2)] update_first_ids [OF assms(2)]
    by (auto simp: todo_find_def insert_absorb simp flip: set_map)
qed

text \<open>
  \<open>upsert\<close> addresses one entry: it keeps ids unique, leaves every entry with another id as it
  was, adds at most one entry and only for a new id, and the returned delta carries the entry
  as it is stored afterwards.
\<close>

theorem upsert_local:
  assumes "distinct (todo_ids s)"
  shows "distinct (todo_ids (snd (upsert now item action s))) \<and>
    set (todo_ids (snd (upsert now item action s))) = insert (todo_id item) (set (todo_ids s)) \<and>
    todo_find (snd (upsert now item action s)) (todo_id item) = Some (de_item (fst (upsert now item action s))) \<and>
    (\<forall>j. j \<noteq> todo_id item \<longrightarrow> todo_find (snd (upsert now item action s)) j = todo_find s j)"
proof -
  let ?it = "item\<lparr>ti_updated_ms := now,
            ti_session_id := or_default (ti_session_id item) (td_session_id s),
            ti_workspace := or_default (ti_workspace item) (td_workspace s)\<rparr>"
  let ?new = "?it\<lparr>ti_order := (if ti_order ?it > 0 then ti_order ?it else int (length (td_items s)) + 1)\<rparr>"
  have "td_items (snd (upsert now item action s)) =
      (case todo_find s (todo_id item) of None \<Rightarrow> td_items s @ [?new]
       | Some ex \<Rightarrow> update_first (todo_id item) (merge_item ?it) (td_items s))"
    by (cases "todo_find s (todo_id item)") (simp_all add: upsert_def Let_def todo_touch_def)
  moreover have "de_item (fst (upsert now item action s)) =
      (case todo_find s (todo_id item) of None \<Rightarrow> ?new | Some ex \<Rightarrow> merge_item ?it ex)"
    by (cases "todo_find s (todo_id item)") (simp_all add: upsert_def Let_def)
  ultimately show ?thesis
    using update_or_append [OF assms, of "merge_item ?it" ?new "todo_id item" "snd (upsert now item action s)"]
    by simp
qed

theorem upsert_local_witness:
  "todo_find (snd (upsert 5 (item_new\<lparr>todo_id := ''a''\<rparr>) ''add'' state_new)) ''a'' =
   Some (de_item (fst (upsert 5 (item_new\<lparr>todo_id := ''a''\<rparr>) ''add'' state_new)))"
  using upsert_local [of state_new 5 "item_new\<lparr>todo_id := ''a''\<rparr>" "''add''"] by (simp add: state_new_def)

text \<open>
  \<open>update_status\<close> addresses one entry in the same way, and the entry it reports has the new
  status.
\<close>

lemma update_status_local:
  assumes "distinct (todo_ids s)"
  shows "distinct (todo_ids (snd (update_status now i st sm pr s))) \<and>
    set (todo_ids (snd (update_status now i st sm pr s))) = insert i (set (todo_ids s)) \<and>
    todo_find (snd (update_status now i st sm pr s)) i = Some (de_item (fst (update_status now i st sm pr s))) \<and>
    ti_status (de_item (fst (update_status now i st sm pr s))) = st \<and>
    (\<forall>j. j \<noteq> i \<longrightarrow> todo_find (snd (update_status now i st sm pr s)) j = todo_find s j)"
proof -
  let ?new = "item_new\<lparr>todo_id := i, ti_session_id := td_session_id s,
                    ti_workspace := td_workspace s, ti_title := i, ti_status := st,
                    result_summary := sm, progress := (if pr \<ge> 0 then pr else 0),
                    ti_order := int (length (td_items s)) + 1, ti_updated_ms := now\<rparr>"
  have "td_items (snd (update_status now i st sm pr s)) =
      (case todo_find s i of None \<Rightarrow> td_items s @ [?new]
       | Some ex \<Rightarrow> update_first i (set_status now st sm pr) (td_items s))"
    by (cases "todo_find s i") (simp_all add: update_status_def Let_def todo_touch_def)
  moreover have "de_item (fst (update_status now i st sm pr s)) =
      (case todo_find s i of None \<Rightarrow> ?new | Some ex \<Rightarrow> set_status now st sm pr ex)"
    by (cases "todo_find s i") (simp_all add: update_status_def Let_def)
  ultimately show ?thesis
    using update_or_append [OF assms, of "set_status now st sm pr" ?new i "snd (update_status now i st sm pr s)"]
    by (simp add: set_status_def split: option.split)
qed

text \<open>The two sweeps over the running entries are the same function.\<close>

lemma mark_running_same: "mark_running_as = mark_all_running_as"
  by (simp add: fun_eq_iff mark_running_as_def mark_all_running_as_def)

text \<open>After a sweep with another status no entry is running, and ids and order are kept.\<close>

lemma mark_all_running_none:
  "st \<noteq> TRunning \<Longrightarrow> x \<in> set (td_items (mark_all_running_as now st sm s)) \<Longrightarrow> ti_status x \<noteq> TRunning"
  by (auto simp: mark_all_running_as_def todo_touch_def mark_item_def)

lemma mark_all_running_ids: "todo_ids (mark_all_running_as now st sm s) = todo_ids s"
  by (simp add: mark_all_running_as_def todo_touch_def mark_item_def comp_def)

end
