(* ===== verification/Block.thy ===== *)
theory Block
  imports BG_Prelude
begin

text \<open>
  Raw storage, as the program's own containers (\<open>container::String\<close>, \<open>io::Buffer\<close>, \<open>container::Vector\<close>)
  use it: an allocation of a fixed number of cells, where \<open>None\<close> is a cell that holds no value
  (fresh or destroyed). Every access is checked against the allocation, so that a write past its
  end, a read of an indeterminate cell, a read through a pointer whose storage was released and a
  release through the wrong allocator are values of the model and can be proved absent or present. The same error type carries the exceptions the
  containers throw on purpose.
\<close>

datatype fault =
    OutOfBounds
  | Indeterminate
  | Dangling
  | BadFree
  | OutOfRange string
  | LengthError string

text \<open>The faults that are undefined behaviour rather than exceptions.\<close>

fun is_undefined :: "fault \<Rightarrow> bool" where
  "is_undefined OutOfBounds = True"
| "is_undefined Indeterminate = True"
| "is_undefined Dangling = True"
| "is_undefined BadFree = True"
| "is_undefined (OutOfRange m) = False"
| "is_undefined (LengthError m) = False"

type_synonym 'a block = "'a option list"

text \<open>\<open>std::numeric_limits<size_t>::max()\<close>.\<close>

definition size_max :: nat where
  "size_max = 2 ^ 64 - 1"

definition fresh :: "nat \<Rightarrow> 'a block" where
  "fresh n = replicate n None"

definition store :: "'a block \<Rightarrow> nat \<Rightarrow> 'a option list \<Rightarrow> fault + 'a block" where
  "store b i xs =
     (if i + length xs \<le> length b then Inr (take i b @ xs @ drop (i + length xs) b) else Inl OutOfBounds)"

definition fetch :: "'a block \<Rightarrow> nat \<Rightarrow> nat \<Rightarrow> fault + 'a option list" where
  "fetch b i n = (if i + n \<le> length b then Inr (take n (drop i b)) else Inl OutOfBounds)"

text \<open>\<open>std::memcpy(dst + i, src + j, n)\<close> and \<open>std::memmove(b + i, b + j, n)\<close>.\<close>

definition memcpy :: "'a block \<Rightarrow> nat \<Rightarrow> 'a block \<Rightarrow> nat \<Rightarrow> nat \<Rightarrow> fault + 'a block" where
  "memcpy dst i src j n = bind_sum (fetch src j n) (store dst i)"

definition memmove :: "'a block \<Rightarrow> nat \<Rightarrow> nat \<Rightarrow> nat \<Rightarrow> fault + 'a block" where
  "memmove b i j n = memcpy b i b j n"

text \<open>Reading cells as values.\<close>

fun initialised :: "'a option list \<Rightarrow> fault + 'a list" where
  "initialised [] = Inr []"
| "initialised (None # cs) = Inl Indeterminate"
| "initialised (Some x # cs) = bind_sum (initialised cs) (\<lambda>xs. Inr (x # xs))"

definition load :: "'a block \<Rightarrow> nat \<Rightarrow> nat \<Rightarrow> fault + 'a list" where
  "load b i n = bind_sum (fetch b i n) initialised"

subsection \<open>Blocks that start with given values\<close>

definition holds :: "'a block \<Rightarrow> 'a list \<Rightarrow> bool" where
  "holds b xs \<longleftrightarrow> (\<exists>r. b = map Some xs @ r)"

lemma holdsI: "b = map Some xs @ r \<Longrightarrow> holds b xs"
  by (auto simp: holds_def)

lemma holds_Nil [simp]: "holds b []"
  by (simp add: holds_def)

lemma holds_length: "holds b xs \<Longrightarrow> length xs \<le> length b"
  by (auto simp: holds_def)

lemma holds_prefix: "holds b (xs @ ys) \<Longrightarrow> holds b xs"
  by (auto simp: holds_def)

lemma holds_take: "holds b xs \<longleftrightarrow> take (length xs) b = map Some xs"
  by (metis append_eq_conv_conj append_take_drop_id holds_def length_map)

lemma holds_unique: "holds b xs \<Longrightarrow> holds b ys \<Longrightarrow> length xs = length ys \<Longrightarrow> xs = ys"
  by (metis holds_take list.inj_map_strong option.inject)

lemma initialised_map_Some [simp]: "initialised (map Some xs) = Inr xs"
  by (induction xs) simp_all

lemma length_fresh [simp]: "length (fresh n) = n"
  by (simp add: fresh_def)

lemma fetch_holds: "holds b xs \<Longrightarrow> i + n \<le> length xs \<Longrightarrow> fetch b i n = Inr (map Some (take n (drop i xs)))"
  by (auto simp: holds_def fetch_def take_map drop_map)

lemma load_holds: "holds b xs \<Longrightarrow> i + n \<le> length xs \<Longrightarrow> load b i n = Inr (take n (drop i xs))"
  by (simp add: load_def fetch_holds)

lemma store_length: "store b i xs = Inr b' \<Longrightarrow> length b' = length b"
  by (auto simp: store_def split: if_splits)

lemma store_Nil: "i \<le> length b \<Longrightarrow> store b i [] = Inr b"
  by (simp add: store_def)

text \<open>Overwriting from a position inside the values, possibly growing them.\<close>

lemma store_holds:
  assumes "holds b xs" and "i \<le> length xs" and "i + length ys \<le> length b"
  shows "\<exists>b'. store b i (map Some ys) = Inr b' \<and> length b' = length b \<and>
    holds b' (take i xs @ ys @ drop (i + length ys) xs)"
proof -
  from assms(1) obtain r where b: "b = map Some xs @ r" by (auto simp: holds_def)
  let ?b' = "take i b @ map Some ys @ drop (i + length ys) b"
  have "?b' = map Some (take i xs @ ys @ drop (i + length ys) xs) @ drop (i + length ys - length xs) r"
    using assms(2) b by (simp add: take_map drop_map)
  moreover have "store b i (map Some ys) = Inr ?b'"
    using assms(3) by (simp add: store_def)
  ultimately show ?thesis
    using store_length holdsI by metis
qed

text \<open>Replacing the middle part: shifting the tail before or after the new part is written.\<close>

lemma splice_grow:
  assumes "holds b (xs @ ys @ zs)" and "length xs + length vs + length zs \<le> length b"
    and "length ys \<le> length vs"
  shows "\<exists>b1 b2. memmove b (length xs + length vs) (length xs + length ys) (length zs) = Inr b1 \<and>
    store b1 (length xs) (map Some vs) = Inr b2 \<and> length b2 = length b \<and> holds b2 (xs @ vs @ zs)"
proof -
  from assms(1) obtain r where b: "b = map Some (xs @ ys @ zs) @ r" by (auto simp: holds_def)
  let ?b1 = "take (length xs + length vs) b @ map Some zs @ drop (length xs + length vs + length zs) b"
  have f: "fetch b (length xs + length ys) (length zs) = Inr (map Some zs)"
    using b by (simp add: fetch_def)
  have m: "memmove b (length xs + length vs) (length xs + length ys) (length zs) = Inr ?b1"
    using assms(2) by (simp add: memmove_def memcpy_def f store_def)
  have "take (length xs) ?b1 = map Some xs" using b by simp
  moreover have "drop (length xs + length vs) ?b1 = map Some zs @ drop (length xs + length vs + length zs) b"
    using assms(2) by simp
  ultimately have "store ?b1 (length xs) (map Some vs) =
      Inr (map Some (xs @ vs @ zs) @ drop (length xs + length vs + length zs) b)"
    using assms(2) by (simp add: store_def)
  with m show ?thesis using store_length holdsI assms(2)
    by (metis store_length [of b "length xs + length vs" "map Some zs" ?b1] f memmove_def memcpy_def bind_sum_simps(2))
qed

lemma splice_shrink:
  assumes "holds b (xs @ ys @ zs)" and "length vs \<le> length ys"
  shows "\<exists>b1 b2. store b (length xs) (map Some vs) = Inr b1 \<and>
    memmove b1 (length xs + length vs) (length xs + length ys) (length zs) = Inr b2 \<and>
    length b2 = length b \<and> holds b2 (xs @ vs @ zs)"
proof -
  from assms(1) obtain r where b: "b = map Some (xs @ ys @ zs) @ r" by (auto simp: holds_def)
  let ?b1 = "map Some (xs @ vs @ drop (length vs) ys @ zs) @ r"
  have s: "store b (length xs) (map Some vs) = Inr ?b1"
    using assms(2) b by (simp add: store_def drop_map)
  have "fetch ?b1 (length xs + length ys) (length zs) = Inr (map Some zs)"
    using assms(2) by (simp add: fetch_def)
  then have m: "memmove ?b1 (length xs + length vs) (length xs + length ys) (length zs) =
      Inr (take (length xs + length vs) ?b1 @ map Some zs @ drop (length xs + length vs + length zs) ?b1)"
    using assms(2) by (simp add: memmove_def memcpy_def store_def)
  have "take (length xs + length vs) ?b1 = map Some (xs @ vs)" by simp
  with m have "memmove ?b1 (length xs + length vs) (length xs + length ys) (length zs) =
      Inr (map Some (xs @ vs @ zs) @ drop (length xs + length vs + length zs) ?b1)"
    by simp
  moreover have "length (map Some (xs @ vs @ zs) @ drop (length xs + length vs + length zs) ?b1) = length b"
    using assms(2) b by simp
  ultimately show ?thesis using s holdsI by metis
qed

text \<open>The code skips a move of no bytes.\<close>

lemma memmove_guard:
  "i \<le> length b \<Longrightarrow> j \<le> length b \<Longrightarrow> (P \<longleftrightarrow> n > 0) \<Longrightarrow> (if P then memmove b i j n else Inr b) = memmove b i j n"
  by (auto simp: memmove_def memcpy_def fetch_def store_def)

text \<open>Copying the values into other storage.\<close>

lemma memcpy_holds:
  assumes "holds src xs" and "length xs \<le> length dst"
  shows "\<exists>b. memcpy dst 0 src 0 (length xs) = Inr b \<and> length b = length dst \<and> holds b xs"
proof -
  have "fetch src 0 (length xs) = Inr (map Some xs)" using fetch_holds [OF assms(1), of 0 "length xs"] by simp
  moreover obtain b where "store dst 0 (map Some xs) = Inr b" "length b = length dst" "holds b xs"
    using store_holds [of dst "[]" 0 xs] assms(2) by auto
  ultimately show ?thesis by (simp add: memcpy_def)
qed

end
