(* ===== verification/Simulation.thy ===== *)
theory Simulation
  imports BG_Prelude
begin

text \<open>
  Functional refinement of an object with operations that may throw. \<open>run_log\<close> performs a sequence of
  operations; an operation that throws is logged and leaves the object as it was, which is what the
  containers' strong exception guarantee means to a caller that catches. The locale takes the
  one-step refinement law of a component to every sequence of operations. The contract may restrict the
  operations a caller is allowed to use in a state (\<open>fits\<close>), as C++ preconditions do.
\<close>

fun run_log :: "('op \<Rightarrow> 's \<Rightarrow> 'e + 's) \<Rightarrow> 'op list \<Rightarrow> 's \<Rightarrow> 'e option list \<times> 's" where
  "run_log step [] s = ([], s)"
| "run_log step (a # as) s =
     (case step a s of
        Inl e \<Rightarrow> (let (es, s') = run_log step as s in (Some e # es, s'))
      | Inr s1 \<Rightarrow> (let (es, s') = run_log step as s1 in (None # es, s')))"

text \<open>The precondition of a whole sequence, along the abstract run.\<close>

fun run_fits :: "('op \<Rightarrow> 'a \<Rightarrow> bool) \<Rightarrow> ('op \<Rightarrow> 'a \<Rightarrow> 'e + 'a) \<Rightarrow> 'op list \<Rightarrow> 'a \<Rightarrow> bool" where
  "run_fits fits step [] a \<longleftrightarrow> True"
| "run_fits fits step (x # xs) a \<longleftrightarrow>
     fits x a \<and> run_fits fits step xs (case step x a of Inl e \<Rightarrow> a | Inr b \<Rightarrow> b)"

locale simulation =
  fixes rep :: "'c \<Rightarrow> 'a \<Rightarrow> bool"
    and fits :: "'op \<Rightarrow> 'a \<Rightarrow> bool"
    and conc :: "'op \<Rightarrow> 'c \<Rightarrow> 'e + 'c"
    and abst :: "'op \<Rightarrow> 'a \<Rightarrow> 'e + 'a"
  assumes step_law: "rep c a \<Longrightarrow> fits x a \<Longrightarrow>
    (case abst x a of Inl e \<Rightarrow> conc x c = Inl e | Inr b \<Rightarrow> \<exists>d. conc x c = Inr d \<and> rep d b)"
begin

lemma run_law:
  "rep c a \<Longrightarrow> run_fits fits abst xs a \<Longrightarrow>
   \<exists>d. run_log conc xs c = (fst (run_log abst xs a), d) \<and> rep d (snd (run_log abst xs a))"
proof (induction xs arbitrary: c a)
  case Nil
  then show ?case by simp
next
  case (Cons x xs)
  show ?case
  proof (cases "abst x a")
    case (Inl e)
    then have "conc x c = Inl e" using step_law [of c a x] Cons.prems by simp
    with Inl Cons.IH [of c a] Cons.prems show ?thesis by (auto simp: Let_def split_beta)
  next
    case (Inr b)
    then obtain d where "conc x c = Inr d" "rep d b" using step_law [of c a x] Cons.prems by auto
    with Inr Cons.IH [of d b] Cons.prems show ?thesis by (auto simp: Let_def split_beta)
  qed
qed

text \<open>An error of the concrete run is one of the abstract run, so faults the specification does not have never happen.\<close>

lemma run_errors:
  "rep c a \<Longrightarrow> run_fits fits abst xs a \<Longrightarrow> fst (run_log conc xs c) = fst (run_log abst xs a)"
  using run_law by fastforce

end

end
