(* ===== verification/Vec.thy ===== *)
theory Vec
  imports Block Simulation
begin

text \<open>
  The program's dynamic array \<open>container::Vector\<close> (\<open>base/container/vector.hpp\<close>) at the level of its cells:
  placement new, move construction and destructor calls are explicit, so that a cell outside the
  contents is raw memory (\<open>None\<close>) and an element is constructed and destroyed exactly once. A null
  \<open>data_\<close> is the empty block. The allocator is \<open>std::allocator\<close>, for which two allocators are always equal and
  assignments propagate; element copies do not throw. Iterators are positions. A range insertion
  takes the list of the range's elements, which are not elements of the vector itself.
\<close>

record 'a vec =
  vdata :: "'a block"
  vsize :: nat
  vcap :: nat

subsection \<open>Cells\<close>

definition cell :: "'a block \<Rightarrow> nat \<Rightarrow> fault + 'a" where
  "cell b i = (if i < length b then (case b ! i of None \<Rightarrow> Inl Indeterminate | Some x \<Rightarrow> Inr x) else Inl OutOfBounds)"

definition construct :: "'a block \<Rightarrow> nat \<Rightarrow> 'a \<Rightarrow> fault + 'a block" where
  "construct b i x = (if i < length b then Inr (b[i := Some x]) else Inl OutOfBounds)"

definition destroy :: "'a block \<Rightarrow> nat \<Rightarrow> fault + 'a block" where
  "destroy b i = bind_sum (cell b i) (\<lambda>x. Inr (b[i := None]))"

text \<open>\<open>new (&data_[i]) T(std::move(data_[j])); data_[j].~T();\<close>\<close>

definition relocate :: "'a block \<Rightarrow> nat \<Rightarrow> nat \<Rightarrow> fault + 'a block" where
  "relocate b i j = bind_sum (cell b j) (\<lambda>x. bind_sum (construct b i x) (\<lambda>b. destroy b j))"

text \<open>The element-wise loops of the code.\<close>

fun destroy_range :: "'a block \<Rightarrow> nat \<Rightarrow> nat \<Rightarrow> fault + 'a block" where
  "destroy_range b i 0 = Inr b"
| "destroy_range b i (Suc n) = bind_sum (destroy b i) (\<lambda>b. destroy_range b (Suc i) n)"

fun construct_all :: "'a block \<Rightarrow> nat \<Rightarrow> 'a list \<Rightarrow> fault + 'a block" where
  "construct_all b i [] = Inr b"
| "construct_all b i (x # xs) = bind_sum (construct b i x) (\<lambda>b. construct_all b (Suc i) xs)"

fun shift_up :: "'a block \<Rightarrow> nat \<Rightarrow> nat \<Rightarrow> nat \<Rightarrow> fault + 'a block" where
  "shift_up b index count i =
     (if i > index then bind_sum (relocate b (i + count - 1) (i - 1)) (\<lambda>b. shift_up b index count (i - 1))
      else Inr b)"

function shift_down :: "'a block \<Rightarrow> nat \<Rightarrow> nat \<Rightarrow> nat \<Rightarrow> fault + 'a block" where
  "shift_down b count i n =
     (if i < n then bind_sum (relocate b (i - count) i) (\<lambda>b. shift_down b count (Suc i) n) else Inr b)"
  by auto
termination by (relation "measure (\<lambda>(b, count, i, n). n - i)") auto

function move_all :: "'a block \<Rightarrow> 'a block \<Rightarrow> nat \<Rightarrow> nat \<Rightarrow> fault + 'a block" where
  "move_all nb ob i n =
     (if i < n then
        bind_sum (cell ob i) (\<lambda>x.
        bind_sum (construct nb i x) (\<lambda>nb.
        bind_sum (destroy ob i) (\<lambda>ob. move_all nb ob (Suc i) n)))
      else Inr nb)"
  by auto
termination by (relation "measure (\<lambda>(nb, ob, i, n). n - i)") auto

declare shift_up.simps [simp del] shift_down.simps [simp del] move_all.simps [simp del]

subsection \<open>Capacity\<close>

definition vec_new :: "'a vec" where
  "vec_new = \<lparr>vdata = [], vsize = 0, vcap = 0\<rparr>"

definition vec_clear :: "'a vec \<Rightarrow> fault + 'a vec" where
  "vec_clear v = bind_sum (destroy_range (vdata v) 0 (vsize v)) (\<lambda>b. Inr (v\<lparr>vdata := b, vsize := 0\<rparr>))"

definition reallocate :: "'a vec \<Rightarrow> nat \<Rightarrow> fault + 'a vec" where
  "reallocate v n =
     (if n = 0 then bind_sum (vec_clear v) (\<lambda>v. Inr (v\<lparr>vdata := [], vcap := 0\<rparr>))
      else bind_sum (move_all (fresh n) (vdata v) 0 (vsize v)) (\<lambda>b. Inr (v\<lparr>vdata := b, vcap := n\<rparr>)))"

definition ensure_capacity :: "'a vec \<Rightarrow> nat \<Rightarrow> fault + 'a vec" where
  "ensure_capacity v required =
     (if required > vcap v then reallocate v (max required (vcap v * 2)) else Inr v)"

definition vec_reserve :: "'a vec \<Rightarrow> nat \<Rightarrow> fault + 'a vec" where
  "vec_reserve v n = (if n > vcap v then reallocate v n else Inr v)"

definition shrink_to_fit :: "'a vec \<Rightarrow> fault + 'a vec" where
  "shrink_to_fit v = (if vsize v < vcap v then reallocate v (vsize v) else Inr v)"

subsection \<open>Modifiers\<close>

definition emplace_back :: "'a vec \<Rightarrow> 'a \<Rightarrow> fault + 'a vec" where
  "emplace_back v x =
     bind_sum (ensure_capacity v (vsize v + 1)) (\<lambda>v.
     bind_sum (construct (vdata v) (vsize v) x) (\<lambda>b. Inr (v\<lparr>vdata := b, vsize := vsize v + 1\<rparr>)))"

text \<open>\<open>v.push_back(v[i])\<close>: the argument refers into storage that \<open>ensure_capacity\<close> may release.\<close>

definition push_back_self :: "'a vec \<Rightarrow> nat \<Rightarrow> fault + 'a vec" where
  "push_back_self v i =
     (if vsize v + 1 > vcap v then bind_sum (ensure_capacity v (vsize v + 1)) (\<lambda>v'. Inl Dangling)
      else bind_sum (cell (vdata v) i) (emplace_back v))"

definition vec_pop_back :: "'a vec \<Rightarrow> fault + 'a vec" where
  "vec_pop_back v =
     (if vsize v > 0 then
        bind_sum (destroy (vdata v) (vsize v - 1)) (\<lambda>b. Inr (v\<lparr>vdata := b, vsize := vsize v - 1\<rparr>))
      else Inr v)"

definition vec_emplace :: "'a vec \<Rightarrow> nat \<Rightarrow> 'a \<Rightarrow> fault + 'a vec" where
  "vec_emplace v index x =
     bind_sum (ensure_capacity v (vsize v + 1)) (\<lambda>v.
     bind_sum (shift_up (vdata v) index 1 (vsize v)) (\<lambda>b.
     bind_sum (construct b index x) (\<lambda>b. Inr (v\<lparr>vdata := b, vsize := vsize v + 1\<rparr>))))"

definition vec_insert_range :: "'a vec \<Rightarrow> nat \<Rightarrow> 'a list \<Rightarrow> fault + 'a vec" where
  "vec_insert_range v index xs =
     (let count = length xs in
      if count = 0 then Inr v
      else
        bind_sum (ensure_capacity v (vsize v + count)) (\<lambda>v.
        bind_sum (shift_up (vdata v) index count (vsize v)) (\<lambda>b.
        bind_sum (construct_all b index xs) (\<lambda>b. Inr (v\<lparr>vdata := b, vsize := vsize v + count\<rparr>)))))"

definition vec_insert_count :: "'a vec \<Rightarrow> nat \<Rightarrow> nat \<Rightarrow> 'a \<Rightarrow> fault + 'a vec" where
  "vec_insert_count v index count x =
     (if count = 0 then Inr v
      else
        bind_sum (ensure_capacity v (vsize v + count)) (\<lambda>v.
        bind_sum (shift_up (vdata v) index count (vsize v)) (\<lambda>b.
        bind_sum (construct_all b index (replicate count x)) (\<lambda>b. Inr (v\<lparr>vdata := b, vsize := vsize v + count\<rparr>)))))"

text \<open>The loop of \<open>erase(pos)\<close> moves \<open>i + 1\<close> to \<open>i\<close> for \<open>index \<le> i < size_ - 1\<close>: \<open>shift_down\<close> by one, counted by the source.\<close>

definition vec_erase :: "'a vec \<Rightarrow> nat \<Rightarrow> fault + 'a vec" where
  "vec_erase v index =
     bind_sum (destroy (vdata v) index) (\<lambda>b.
     bind_sum (shift_down b 1 (index + 1) (vsize v)) (\<lambda>b. Inr (v\<lparr>vdata := b, vsize := vsize v - 1\<rparr>)))"

definition vec_erase_range :: "'a vec \<Rightarrow> nat \<Rightarrow> nat \<Rightarrow> fault + 'a vec" where
  "vec_erase_range v i j =
     (let count = j - i in
      if count = 0 then Inr v
      else
        bind_sum (destroy_range (vdata v) i count) (\<lambda>b.
        bind_sum (shift_down b count (i + count) (vsize v)) (\<lambda>b.
        Inr (v\<lparr>vdata := b, vsize := vsize v - count\<rparr>))))"

definition vec_resize :: "'a vec \<Rightarrow> nat \<Rightarrow> 'a \<Rightarrow> fault + 'a vec" where
  "vec_resize v count x =
     (if count < vsize v then
        bind_sum (destroy_range (vdata v) count (vsize v - count)) (\<lambda>b. Inr (v\<lparr>vdata := b, vsize := count\<rparr>))
      else if count > vsize v then
        bind_sum (vec_reserve v count) (\<lambda>v.
        bind_sum (construct_all (vdata v) (vsize v) (replicate (count - vsize v) x)) (\<lambda>b.
        Inr (v\<lparr>vdata := b, vsize := count\<rparr>)))
      else Inr (v\<lparr>vsize := count\<rparr>))"

definition vec_assign_count :: "'a vec \<Rightarrow> nat \<Rightarrow> 'a \<Rightarrow> fault + 'a vec" where
  "vec_assign_count v count x =
     bind_sum (vec_clear v) (\<lambda>v.
     bind_sum (vec_reserve v count) (\<lambda>v.
     bind_sum (construct_all (vdata v) 0 (replicate count x)) (\<lambda>b. Inr (v\<lparr>vdata := b, vsize := count\<rparr>))))"

fun emplace_all :: "'a vec \<Rightarrow> 'a list \<Rightarrow> fault + 'a vec" where
  "emplace_all v [] = Inr v"
| "emplace_all v (x # xs) = bind_sum (emplace_back v x) (\<lambda>v. emplace_all v xs)"

definition vec_assign :: "'a vec \<Rightarrow> 'a list \<Rightarrow> fault + 'a vec" where
  "vec_assign v xs = bind_sum (vec_clear v) (\<lambda>v. emplace_all v xs)"

subsection \<open>Access, copies and comparison\<close>

definition vec_at :: "'a vec \<Rightarrow> nat \<Rightarrow> fault + 'a" where
  "vec_at v pos = (if pos \<ge> vsize v then Inl (OutOfRange ''Vector index out of range'') else cell (vdata v) pos)"

definition vec_elements :: "'a vec \<Rightarrow> fault + 'a list" where
  "vec_elements v = load (vdata v) 0 (vsize v)"

definition vec_copy :: "'a vec \<Rightarrow> fault + 'a vec" where
  "vec_copy other = bind_sum (vec_elements other) (vec_assign vec_new)"

definition vec_move :: "'a vec \<Rightarrow> 'a vec \<times> 'a vec" where
  "vec_move other = (other, vec_new)"

definition vec_assign_move :: "'a vec \<Rightarrow> 'a vec \<Rightarrow> fault + 'a vec \<times> 'a vec" where
  "vec_assign_move v other = bind_sum (vec_clear v) (\<lambda>v. Inr (other, vec_new))"

definition vec_swap :: "'a vec \<Rightarrow> 'a vec \<Rightarrow> 'a vec \<times> 'a vec" where
  "vec_swap v other = (other, v)"

definition vec_eq :: "'a vec \<Rightarrow> 'a vec \<Rightarrow> fault + bool" where
  "vec_eq v w =
     (if vsize v = vsize w then
        bind_sum (vec_elements v) (\<lambda>xs. bind_sum (vec_elements w) (\<lambda>ys. Inr (xs = ys)))
      else Inr False)"

subsection \<open>Operations and their specification on lists\<close>

datatype 'a vec_op =
    VReserve nat
  | VShrink
  | VClear
  | VPush 'a
  | VPop
  | VEmplace nat 'a
  | VInsertCount nat nat 'a
  | VInsertRange nat "'a list"
  | VErase nat
  | VEraseRange nat nat
  | VResize nat 'a
  | VAssignCount nat 'a
  | VAssign "'a list"

fun vec_step :: "'a vec_op \<Rightarrow> 'a vec \<Rightarrow> fault + 'a vec" where
  "vec_step (VReserve n) v = vec_reserve v n"
| "vec_step VShrink v = shrink_to_fit v"
| "vec_step VClear v = vec_clear v"
| "vec_step (VPush x) v = emplace_back v x"
| "vec_step VPop v = vec_pop_back v"
| "vec_step (VEmplace i x) v = vec_emplace v i x"
| "vec_step (VInsertCount i n x) v = vec_insert_count v i n x"
| "vec_step (VInsertRange i xs) v = vec_insert_range v i xs"
| "vec_step (VErase i) v = vec_erase v i"
| "vec_step (VEraseRange i j) v = vec_erase_range v i j"
| "vec_step (VResize n x) v = vec_resize v n x"
| "vec_step (VAssignCount n x) v = vec_assign_count v n x"
| "vec_step (VAssign xs) v = vec_assign v xs"

fun vec_spec :: "'a vec_op \<Rightarrow> 'a list \<Rightarrow> fault + 'a list" where
  "vec_spec (VReserve n) xs = Inr xs"
| "vec_spec VShrink xs = Inr xs"
| "vec_spec VClear xs = Inr []"
| "vec_spec (VPush x) xs = Inr (xs @ [x])"
| "vec_spec VPop xs = Inr (butlast xs)"
| "vec_spec (VEmplace i x) xs = Inr (take i xs @ [x] @ drop i xs)"
| "vec_spec (VInsertCount i n x) xs = Inr (take i xs @ replicate n x @ drop i xs)"
| "vec_spec (VInsertRange i ys) xs = Inr (take i xs @ ys @ drop i xs)"
| "vec_spec (VErase i) xs = Inr (take i xs @ drop (i + 1) xs)"
| "vec_spec (VEraseRange i j) xs = Inr (take i xs @ drop j xs)"
| "vec_spec (VResize n x) xs = Inr (take n xs @ replicate (n - length xs) x)"
| "vec_spec (VAssignCount n x) xs = Inr (replicate n x)"
| "vec_spec (VAssign ys) xs = Inr ys"

text \<open>The preconditions of the iterator arguments.\<close>

fun vec_fits :: "'a vec_op \<Rightarrow> 'a list \<Rightarrow> bool" where
  "vec_fits (VEmplace i x) xs \<longleftrightarrow> i \<le> length xs"
| "vec_fits (VInsertCount i n x) xs \<longleftrightarrow> i \<le> length xs"
| "vec_fits (VInsertRange i ys) xs \<longleftrightarrow> i \<le> length xs"
| "vec_fits (VErase i) xs \<longleftrightarrow> i < length xs"
| "vec_fits (VEraseRange i j) xs \<longleftrightarrow> i \<le> j \<and> j \<le> length xs"
| "vec_fits _ xs \<longleftrightarrow> True"

subsection \<open>The loops on cells\<close>

lemma cell_split: "cell (p @ Some x # t) (length p) = Inr x"
  by (simp add: cell_def)

lemma construct_split: "construct (p @ c # t) (length p) x = Inr (p @ Some x # t)"
  by (simp add: construct_def)

lemma destroy_split: "destroy (p @ Some x # t) (length p) = Inr (p @ None # t)"
  by (simp add: destroy_def cell_split)

lemma relocate_up:
  "relocate (p @ Some x # q @ None # t) (length p + Suc (length q)) (length p) = Inr (p @ None # q @ Some x # t)"
  using construct_split [of "p @ Some x # q" None t x] destroy_split [of p x "q @ Some x # t"]
  by (simp add: relocate_def cell_split)

lemma relocate_down:
  "relocate (p @ None # q @ Some x # t) (length p) (length p + Suc (length q)) = Inr (p @ Some x # q @ None # t)"
  using cell_split [of "p @ None # q" x t] construct_split [of p None "q @ Some x # t" x]
    destroy_split [of "p @ Some x # q" x t]
  by (simp add: relocate_def)

lemma destroy_range_split:
  "destroy_range (p @ map Some xs @ t) (length p) (length xs) = Inr (p @ replicate (length xs) None @ t)"
proof (induction xs arbitrary: p)
  case (Cons x xs)
  from Cons.IH [of "p @ [None]"] show ?case by (simp add: destroy_split)
qed simp

lemma construct_all_split:
  "construct_all (p @ replicate (length xs) None @ t) (length p) xs = Inr (p @ map Some xs @ t)"
proof (induction xs arbitrary: p)
  case (Cons x xs)
  from Cons.IH [of "p @ [Some x]"] show ?case by (simp add: construct_split)
qed simp

text \<open>Opening a gap of \<open>n\<close> raw cells, and closing one.\<close>

lemma shift_up_split:
  assumes "n > 0"
  shows "shift_up (p @ map Some xs @ replicate n None @ t) (length p) n (length p + length xs) =
    Inr (p @ replicate n None @ map Some xs @ t)"
proof (induction xs arbitrary: t rule: rev_induct)
  case Nil
  then show ?case by (simp add: shift_up.simps)
next
  case (snoc x xs)
  obtain m where n: "n = Suc m" using assms by (cases n) auto
  let ?p = "p @ map Some xs"
  have "relocate (p @ map Some (xs @ [x]) @ replicate n None @ t) (length p + length xs + n) (length p + length xs) =
      Inr (p @ map Some xs @ replicate n None @ Some x # t)"
    using relocate_up [of ?p x "replicate m None" t] by (simp add: n replicate_app_Cons_same)
  then show ?case
    using snoc.IH [of "Some x # t"] by (subst shift_up.simps) (simp add: n replicate_app_Cons_same)
qed

lemma shift_down_split:
  assumes "n > 0"
  shows "shift_down (p @ replicate n None @ map Some xs @ t) n (length p + n) (length p + n + length xs) =
    Inr (p @ map Some xs @ replicate n None @ t)"
proof (induction xs arbitrary: p)
  case Nil
  then show ?case by (simp add: shift_down.simps)
next
  case (Cons x xs)
  obtain m where n: "n = Suc m" using assms by (cases n) auto
  have "relocate (p @ replicate n None @ map Some (x # xs) @ t) (length p) (length p + n) =
      Inr ((p @ [Some x]) @ replicate n None @ map Some xs @ t)"
    using relocate_down [of p "replicate m None" x "map Some xs @ t"] by (simp add: n replicate_app_Cons_same)
  then show ?case
    using Cons.IH [of "p @ [Some x]"] by (simp add: shift_down.simps [of _ n "length p + n"])
qed

lemma move_all_split:
  "move_all (p @ replicate (length xs) None @ t) (q @ map Some xs @ u) (length p) (length p + length xs) =
   Inr (p @ map Some xs @ t)" if "length q = length p"
  using that
proof (induction xs arbitrary: p q)
  case Nil
  then show ?case by (simp add: move_all.simps)
next
  case (Cons x xs)
  then show ?case
    using Cons.IH [of "q @ [None]" "p @ [Some x]"] cell_split [of q x "map Some xs @ u"]
      destroy_split [of q x "map Some xs @ u"] construct_split [of p None "replicate (length xs) None @ t" x]
    by (simp add: move_all.simps [of _ _ "length p"])
qed

subsection \<open>Every operation refines its specification\<close>

text \<open>Exactly the first \<open>size_\<close> cells hold elements.\<close>

definition vec_rep :: "'a vec \<Rightarrow> 'a list \<Rightarrow> bool" where
  "vec_rep v xs \<longleftrightarrow> vsize v = length xs \<and> length xs \<le> vcap v \<and>
     vdata v = map Some xs @ replicate (vcap v - length xs) None"

lemma vec_rep_new: "vec_rep vec_new []"
  by (simp add: vec_rep_def vec_new_def)

lemma vec_repD:
  assumes "vec_rep v xs"
  shows "vsize v = length xs" "length xs \<le> vcap v" "vdata v = map Some xs @ replicate (vcap v - length xs) None"
  using assms by (simp_all add: vec_rep_def)

text \<open>The room behind the contents, split off where the code is about to construct \<open>n\<close> elements.\<close>

lemma room_split: "length xs + n \<le> c \<Longrightarrow>
  replicate (c - length xs) None = replicate n None @ replicate (c - (length xs + n)) None"
  by (metis diff_diff_left le_add_diff_inverse nat_le_iff_add add_le_imp_le_diff add.commute replicate_add)

lemma vec_clear_spec: "vec_rep v xs \<Longrightarrow> \<exists>v'. vec_clear v = Inr v' \<and> vec_rep v' [] \<and> vcap v' = vcap v"
  using destroy_range_split [of "[]" xs "replicate (vcap v - length xs) None"]
  by (simp add: vec_rep_def vec_clear_def replicate_add [symmetric])

lemma reallocate_spec:
  assumes "vec_rep v xs" and "length xs \<le> n"
  shows "\<exists>v'. reallocate v n = Inr v' \<and> vec_rep v' xs \<and> vcap v' = n"
proof (cases "n = 0")
  case True
  then show ?thesis
    using vec_clear_spec [OF assms(1)] assms(2) by (auto simp: reallocate_def vec_rep_def)
next
  case False
  have f: "fresh n = replicate (length xs) None @ replicate (n - length xs) None"
    using assms(2) by (simp add: fresh_def replicate_add [symmetric])
  have "move_all (fresh n) (vdata v) 0 (vsize v) = Inr (map Some xs @ replicate (n - length xs) None)"
    unfolding f vec_repD(1,3) [OF assms(1)]
    using move_all_split [of "[]" "[]" xs "replicate (n - length xs) None" "replicate (vcap v - length xs) None"]
    by simp
  then show ?thesis
    using False assms vec_repD(1) [OF assms(1)] by (simp add: reallocate_def vec_rep_def)
qed

lemma ensure_capacity_spec:
  assumes "vec_rep v xs" and "length xs \<le> n"
  shows "\<exists>v'. ensure_capacity v n = Inr v' \<and> vec_rep v' xs \<and> n \<le> vcap v'"
proof -
  have "length xs \<le> max n (vcap v * 2)" using assms(2) by simp
  from reallocate_spec [OF assms(1) this] show ?thesis
    using assms(1) by (cases "n > vcap v") (fastforce simp: ensure_capacity_def)+
qed

lemma vec_reserve_spec:
  "vec_rep v xs \<Longrightarrow> \<exists>v'. vec_reserve v n = Inr v' \<and> vec_rep v' xs \<and> n \<le> vcap v'"
  using reallocate_spec [of v xs n] vec_repD(2) [of v xs] by (auto simp: vec_reserve_def)

lemma shrink_to_fit_spec: "vec_rep v xs \<Longrightarrow> \<exists>v'. shrink_to_fit v = Inr v' \<and> vec_rep v' xs"
  using reallocate_spec [of v xs "vsize v"] vec_repD(1) [of v xs] by (auto simp: shrink_to_fit_def)

text \<open>The common part of all insertions: grow, open the gap, construct.\<close>

lemma vec_open_gap:
  assumes "vec_rep v xs" and "i \<le> length xs" and "ys \<noteq> []"
  shows "\<exists>v'. bind_sum (ensure_capacity v (vsize v + length ys)) (\<lambda>v.
      bind_sum (shift_up (vdata v) i (length ys) (vsize v)) (\<lambda>b.
      bind_sum (construct_all b i ys) (\<lambda>b. Inr (v\<lparr>vdata := b, vsize := vsize v + length ys\<rparr>)))) = Inr v' \<and>
    vec_rep v' (take i xs @ ys @ drop i xs)"
proof -
  obtain v1 where v1: "ensure_capacity v (vsize v + length ys) = Inr v1" "vec_rep v1 xs" "length xs + length ys \<le> vcap v1"
    using ensure_capacity_spec [OF assms(1), of "vsize v + length ys"] vec_repD(1) [OF assms(1)] by auto
  let ?t = "replicate (vcap v1 - (length xs + length ys)) None"
  have d: "vdata v1 = map Some (take i xs) @ map Some (drop i xs) @ replicate (length ys) None @ ?t"
    unfolding vec_repD(3) [OF v1(2)] room_split [OF v1(3)]
    by (metis append.assoc append_take_drop_id map_append)
  have len: "length (map Some (take i xs)) = i" using assms(2) by simp
  have su: "shift_up (vdata v1) i (length ys) (vsize v1) =
      Inr (map Some (take i xs) @ replicate (length ys) None @ map Some (drop i xs) @ ?t)"
    using shift_up_split [of "length ys" "map Some (take i xs)" "drop i xs" ?t] assms(2,3) d vec_repD(1) [OF v1(2)] len by simp
  have ca: "construct_all (map Some (take i xs) @ replicate (length ys) None @ map Some (drop i xs) @ ?t) i ys =
      Inr (map Some (take i xs) @ map Some ys @ map Some (drop i xs) @ ?t)"
    using construct_all_split [of "map Some (take i xs)" ys "map Some (drop i xs) @ ?t"] len by simp
  have "vec_rep (v1\<lparr>vdata := map Some (take i xs) @ map Some ys @ map Some (drop i xs) @ ?t,
      vsize := vsize v1 + length ys\<rparr>) (take i xs @ ys @ drop i xs)"
    using v1(3) assms(2) vec_repD(1) [OF v1(2)] by (simp add: vec_rep_def add.commute)
  then show ?thesis by (simp only: v1(1) bind_sum_simps su ca) blast
qed

lemma vec_insert_spec:
  assumes "vec_rep v xs" and "i \<le> length xs"
  shows "\<exists>v'. vec_insert_range v i ys = Inr v' \<and> vec_rep v' (take i xs @ ys @ drop i xs)"
    "\<exists>v'. vec_insert_count v i n x = Inr v' \<and> vec_rep v' (take i xs @ replicate n x @ drop i xs)"
    "\<exists>v'. vec_emplace v i x = Inr v' \<and> vec_rep v' (take i xs @ [x] @ drop i xs)"
proof -
  show "\<exists>v'. vec_insert_range v i ys = Inr v' \<and> vec_rep v' (take i xs @ ys @ drop i xs)"
    using vec_open_gap [OF assms, of ys] assms(1) by (cases "ys = []") (simp_all add: vec_insert_range_def Let_def)
  show "\<exists>v'. vec_insert_count v i n x = Inr v' \<and> vec_rep v' (take i xs @ replicate n x @ drop i xs)"
    using vec_open_gap [OF assms, of "replicate n x"] assms(1) by (cases "n = 0") (simp_all add: vec_insert_count_def)
  show "\<exists>v'. vec_emplace v i x = Inr v' \<and> vec_rep v' (take i xs @ [x] @ drop i xs)"
    using vec_open_gap [OF assms, of "[x]"] by (simp add: vec_emplace_def)
qed

lemma emplace_back_spec:
  assumes "vec_rep v xs"
  shows "\<exists>v'. emplace_back v x = Inr v' \<and> vec_rep v' (xs @ [x])"
proof -
  obtain v1 where v1: "ensure_capacity v (vsize v + 1) = Inr v1" "vec_rep v1 xs" "length xs + 1 \<le> vcap v1"
    using ensure_capacity_spec [OF assms, of "vsize v + 1"] vec_repD(1) [OF assms] by auto
  have "vdata v1 = map Some xs @ None # replicate (vcap v1 - (length xs + 1)) None"
    using vec_repD(3) [OF v1(2)] room_split [OF v1(3)] by simp
  then have "construct (vdata v1) (vsize v1) x = Inr (map Some (xs @ [x]) @ replicate (vcap v1 - (length xs + 1)) None)"
    using construct_split [of "map Some xs"] vec_repD(1) [OF v1(2)] by simp
  then show ?thesis using v1 vec_repD(1) [OF v1(2)] by (simp add: emplace_back_def vec_rep_def)
qed

lemma vec_pop_back_spec:
  assumes "vec_rep v xs"
  shows "\<exists>v'. vec_pop_back v = Inr v' \<and> vec_rep v' (butlast xs)"
proof (cases xs rule: rev_cases)
  case Nil
  then show ?thesis using assms vec_repD(1) [OF assms] by (simp add: vec_pop_back_def)
next
  case (snoc ys y)
  then have "destroy (vdata v) (vsize v - 1) = Inr (map Some ys @ None # replicate (vcap v - length xs) None)"
    using destroy_split [of "map Some ys" y] vec_repD(1,3) [OF assms] by simp
  then show ?thesis
    using snoc vec_repD(1,2) [OF assms] by (simp add: vec_pop_back_def vec_rep_def Suc_diff_Suc flip: replicate_Suc)
qed

text \<open>The common part of both erasures: destroy the elements and close the gap.\<close>

lemma vec_close_gap:
  fixes v :: "'a vec"
  assumes "vec_rep v xs" and "i + n \<le> length xs" and "n > 0"
  shows "\<exists>v'. bind_sum (destroy_range (vdata v) i n) (\<lambda>b.
      bind_sum (shift_down b n (i + n) (vsize v)) (\<lambda>b. Inr (v\<lparr>vdata := b, vsize := vsize v - n\<rparr>))) = Inr v' \<and>
    vec_rep v' (take i xs @ drop (i + n) xs)"
proof -
  let ?t = "replicate (vcap v - length xs) None :: 'a block"
  let ?ys = "take n (drop i xs)" and ?zs = "drop (i + n) xs"
  have "xs = take i xs @ ?ys @ ?zs"
    by (metis append_take_drop_id drop_drop add.commute)
  then have "map Some xs = map Some (take i xs) @ map Some ?ys @ map Some ?zs"
    by (metis map_append)
  then have d: "vdata v = map Some (take i xs) @ map Some ?ys @ map Some ?zs @ ?t"
    using vec_repD(3) [OF assms(1)] by simp
  have len: "length (map Some (take i xs)) = i" "length ?ys = n" "i + n + length ?zs = vsize v"
    using assms(2) vec_repD(1) [OF assms(1)] by simp_all
  have dr: "destroy_range (vdata v) i n = Inr (map Some (take i xs) @ replicate n None @ map Some ?zs @ ?t)"
    using destroy_range_split [of "map Some (take i xs)" ?ys "map Some ?zs @ ?t"] unfolding d len .
  have sd: "shift_down (map Some (take i xs) @ replicate n None @ map Some ?zs @ ?t) n (i + n) (vsize v) =
      Inr (map Some (take i xs) @ map Some ?zs @ replicate n None @ ?t)"
    using shift_down_split [OF assms(3), of "map Some (take i xs)" ?zs ?t] unfolding len .
  have "replicate n None @ ?t = replicate (vcap v - length (take i xs @ ?zs)) None"
    using assms(2) vec_repD(2) [OF assms(1)] by (simp flip: replicate_add)
  then have "vec_rep (v\<lparr>vdata := map Some (take i xs) @ map Some ?zs @ replicate n None @ ?t, vsize := vsize v - n\<rparr>)
      (take i xs @ ?zs)"
    using assms(2) vec_repD(1,2) [OF assms(1)] by (simp add: vec_rep_def)
  then show ?thesis by (simp only: dr bind_sum_simps sd) blast
qed

lemma destroy_range_1: "destroy_range b i 1 = destroy b i"
  by simp

lemma vec_erase_specs:
  assumes "vec_rep v xs"
  shows "i < length xs \<Longrightarrow> \<exists>v'. vec_erase v i = Inr v' \<and> vec_rep v' (take i xs @ drop (i + 1) xs)"
    "i \<le> j \<Longrightarrow> j \<le> length xs \<Longrightarrow> \<exists>v'. vec_erase_range v i j = Inr v' \<and> vec_rep v' (take i xs @ drop j xs)"
  using vec_close_gap [OF assms, of i 1] vec_close_gap [OF assms, of i "j - i"] assms
  by (simp_all add: vec_erase_def vec_erase_range_def Let_def)

lemma vec_resize_spec:
  assumes "vec_rep v xs"
  shows "\<exists>v'. vec_resize v n x = Inr v' \<and> vec_rep v' (take n xs @ replicate (n - length xs) x)"
proof -
  note r = vec_repD [OF assms]
  consider "n = length xs" | "n < length xs" | "n > length xs" by linarith
  then show ?thesis
  proof cases
    case 1
    then show ?thesis using assms r by (simp add: vec_resize_def vec_rep_def)
  next
    case 2
    have "map Some xs = map Some (take n xs) @ map Some (drop n xs)" by (metis append_take_drop_id map_append)
    then have "destroy_range (vdata v) n (length xs - n) =
        Inr (map Some (take n xs) @ replicate (length xs - n) None @ replicate (vcap v - length xs) None)"
      using destroy_range_split [of "map Some (take n xs)" "drop n xs" "replicate (vcap v - length xs) None"] r(3) 2 by simp
    then show ?thesis using 2 r(1,2) by (simp add: vec_resize_def vec_rep_def flip: replicate_add)
  next
    case 3
    obtain v1 where v1: "vec_reserve v n = Inr v1" "vec_rep v1 xs" "n \<le> vcap v1"
      using vec_reserve_spec [OF assms] by blast
    have le: "length xs + (n - length xs) \<le> vcap v1" using v1(3) 3 by simp
    have "vdata v1 = map Some xs @ replicate (n - length xs) None @ replicate (vcap v1 - n) None"
      using vec_repD(3) [OF v1(2)] room_split [OF le] 3 by simp
    then have "construct_all (vdata v1) (vsize v1) (replicate (n - length xs) x) =
        Inr (map Some (xs @ replicate (n - length xs) x) @ replicate (vcap v1 - n) None)"
      using construct_all_split [of "map Some xs" "replicate (n - length xs) x"] vec_repD(1) [OF v1(2)] by simp
    then show ?thesis using v1 3 r(1) vec_repD(1) [OF v1(2)] by (simp add: vec_resize_def vec_rep_def)
  qed
qed

lemma emplace_all_spec: "vec_rep v xs \<Longrightarrow> \<exists>v'. emplace_all v ys = Inr v' \<and> vec_rep v' (xs @ ys)"
proof (induction ys arbitrary: v xs)
  case (Cons y ys)
  obtain v1 where "emplace_back v y = Inr v1" "vec_rep v1 (xs @ [y])"
    using emplace_back_spec [OF Cons.prems] by blast
  with Cons.IH [of v1 "xs @ [y]"] show ?case by simp
qed simp

lemma vec_assign_spec:
  assumes "vec_rep v xs"
  shows "\<exists>v'. vec_assign v ys = Inr v' \<and> vec_rep v' ys"
    "\<exists>v'. vec_assign_count v n x = Inr v' \<and> vec_rep v' (replicate n x)"
proof -
  obtain v1 where v1: "vec_clear v = Inr v1" "vec_rep v1 []" using vec_clear_spec [OF assms] by blast
  show "\<exists>v'. vec_assign v ys = Inr v' \<and> vec_rep v' ys"
    using emplace_all_spec [OF v1(2), of ys] by (simp add: vec_assign_def v1(1))
  obtain v2 where v2: "vec_reserve v1 n = Inr v2" "vec_rep v2 []" "n \<le> vcap v2"
    using vec_reserve_spec [OF v1(2)] by blast
  have "vdata v2 = replicate n None @ replicate (vcap v2 - n) None"
    using vec_repD(3) [OF v2(2)] v2(3) by (simp flip: replicate_add)
  then have "construct_all (vdata v2) 0 (replicate n x) = Inr (map Some (replicate n x) @ replicate (vcap v2 - n) None)"
    using construct_all_split [of "[]" "replicate n x" "replicate (vcap v2 - n) None"] by simp
  then show "\<exists>v'. vec_assign_count v n x = Inr v' \<and> vec_rep v' (replicate n x)"
    using v2 by (simp add: vec_assign_count_def v1(1) vec_rep_def)
qed

lemma vec_step_refines:
  assumes "vec_rep v xs" and "vec_fits op xs"
  shows "case vec_spec op xs of Inl e \<Rightarrow> vec_step op v = Inl e | Inr ys \<Rightarrow> \<exists>v'. vec_step op v = Inr v' \<and> vec_rep v' ys"
  using assms vec_clear_spec [OF assms(1)] vec_reserve_spec [OF assms(1)]
  by (cases op)
    (auto simp: shrink_to_fit_spec emplace_back_spec vec_pop_back_spec vec_resize_spec
      vec_assign_spec vec_insert_spec [simplified] vec_erase_specs [simplified])

interpretation vec: simulation vec_rep vec_fits vec_step vec_spec
  by unfold_locales (rule vec_step_refines)

lemma vec_elements_spec: "vec_rep v xs \<Longrightarrow> vec_elements v = Inr xs"
  using load_holds [OF holdsI [OF vec_repD(3)], of v xs 0 "length xs"] vec_repD(1) [of v xs] by (simp add: vec_elements_def)



text \<open>Copies, moves and comparison.\<close>

lemma vec_copy_spec: "vec_rep v xs \<Longrightarrow> \<exists>v'. vec_copy v = Inr v' \<and> vec_rep v' xs"
  using vec_assign_spec(1) [OF vec_rep_new, of xs] by (simp add: vec_copy_def vec_elements_spec)

lemma vec_assign_move_spec:
  "vec_rep v xs \<Longrightarrow> vec_rep w ys \<Longrightarrow> \<exists>v' w'. vec_assign_move v w = Inr (v', w') \<and> vec_rep v' ys \<and> vec_rep w' []"
  using vec_clear_spec [of v xs] by (auto simp: vec_assign_move_def vec_rep_new)

lemma vec_eq_spec: "vec_rep v xs \<Longrightarrow> vec_rep w ys \<Longrightarrow> vec_eq v w = Inr (xs = ys)"
  by (auto simp: vec_eq_def vec_elements_spec vec_repD(1))

text \<open>\<open>v.push_back(v[i])\<close> on a full vector reads the argument after its storage was released.\<close>

lemma push_back_self_dangling:
  assumes "vec_rep v xs" and "i < length xs" and "vcap v = length xs"
  shows "push_back_self v i = Inl Dangling"
  using ensure_capacity_spec [OF assms(1), of "vsize v + 1"] vec_repD(1) [OF assms(1)] assms(3)
  by (auto simp: push_back_self_def)

end
