(* ===== verification/IoBuffer.thy ===== *)
theory IoBuffer
  imports Block Simulation
begin

text \<open>
  The byte buffer \<open>io::Buffer\<close> (\<open>base/io/buffer.hpp\<close>). Its storage remembers the pool it was allocated from
  (\<open>None\<close> is \<open>operator new\<close>), because a buffer must return it there; a moved-from buffer has no storage.
  \<open>size_t\<close> arithmetic that the code does not check wraps at \<open>2 ^ 64\<close>. The pool itself
  (\<open>memory::MemoryPool\<close>) only appears as the name \<open>'p\<close> of the owner.
\<close>

record 'p iobuf =
  bdata :: "('p option \<times> char block) option"
  bcap :: nat
  bsize :: nat
  bpool :: "'p option"

abbreviation wrap64 :: "nat \<Rightarrow> nat" where
  "wrap64 n \<equiv> n mod 2 ^ 64"

definition buffer_new :: "nat \<Rightarrow> 'p option \<Rightarrow> 'p iobuf" where
  "buffer_new n pool = \<lparr>bdata = Some (pool, fresh n), bcap = n, bsize = 0, bpool = pool\<rparr>"

text \<open>The destructor, and the release of the old storage elsewhere.\<close>

definition release :: "'p iobuf \<Rightarrow> fault + unit" where
  "release b = (case bdata b of None \<Rightarrow> Inr () | Some (own, m) \<Rightarrow> if own = bpool b then Inr () else Inl BadFree)"

definition buffer_move :: "'p iobuf \<Rightarrow> 'p iobuf \<times> 'p iobuf" where
  "buffer_move other = (other, other\<lparr>bdata := None, bcap := 0, bsize := 0\<rparr>)"

definition buffer_assign_move :: "'p iobuf \<Rightarrow> 'p iobuf \<Rightarrow> fault + 'p iobuf \<times> 'p iobuf" where
  "buffer_assign_move b other =
     bind_sum (release b) (\<lambda>_.
     Inr (b\<lparr>bdata := bdata other, bcap := bcap other, bsize := bsize other\<rparr>,
          other\<lparr>bdata := None, bcap := 0, bsize := 0\<rparr>))"

text \<open>The storage, where the code dereferences \<open>data_\<close>.\<close>

definition storage :: "'p iobuf \<Rightarrow> char block" where
  "storage b = (case bdata b of None \<Rightarrow> [] | Some (own, m) \<Rightarrow> m)"

definition buffer_reserve :: "'p iobuf \<Rightarrow> nat \<Rightarrow> fault + 'p iobuf" where
  "buffer_reserve b n =
     (if n > bcap b then
        bind_sum (if bdata b \<noteq> None \<and> bsize b > 0 then memcpy (fresh n) 0 (storage b) 0 (bsize b) else Inr (fresh n)) (\<lambda>m.
        bind_sum (store m (bsize b) [Some CHR 0x00]) (\<lambda>m.
        bind_sum (release b) (\<lambda>_. Inr (b\<lparr>bdata := Some (bpool b, m), bcap := n\<rparr>))))
      else Inr b)"

definition buffer_resize :: "'p iobuf \<Rightarrow> nat \<Rightarrow> fault + 'p iobuf" where
  "buffer_resize b n =
     bind_sum (if n > bcap b then buffer_reserve b (wrap64 (n * 2)) else Inr b) (\<lambda>b. Inr (b\<lparr>bsize := n\<rparr>))"

definition buffer_clear :: "'p iobuf \<Rightarrow> 'p iobuf" where
  "buffer_clear b = b\<lparr>bsize := 0\<rparr>"

definition write_bytes :: "'p iobuf \<Rightarrow> char block \<Rightarrow> nat \<Rightarrow> 'p iobuf" where
  "write_bytes b m n = b\<lparr>bdata := map_option (\<lambda>(own, _). (own, m)) (bdata b), bsize := n\<rparr>"

definition buffer_append :: "'p iobuf \<Rightarrow> string \<Rightarrow> fault + 'p iobuf" where
  "buffer_append b cs =
     (let len = length cs; want = wrap64 (bsize b + len) in
      bind_sum (if want > bcap b then buffer_reserve b (max want (wrap64 (bcap b * 2))) else Inr b) (\<lambda>b.
      bind_sum (store (storage b) (bsize b) (map Some cs)) (\<lambda>m. Inr (write_bytes b m (wrap64 (bsize b + len))))))"

text \<open>The overload for C strings ignores a null pointer and stops at the first zero byte.\<close>

definition buffer_append_cstr :: "'p iobuf \<Rightarrow> string option \<Rightarrow> fault + 'p iobuf" where
  "buffer_append_cstr b p =
     (case p of None \<Rightarrow> Inr b | Some cs \<Rightarrow> buffer_append b (takeWhile (\<lambda>c. c \<noteq> CHR 0x00) cs))"

definition buffer_append_char :: "'p iobuf \<Rightarrow> char \<Rightarrow> fault + 'p iobuf" where
  "buffer_append_char b c =
     bind_sum (if wrap64 (bsize b + 1) > bcap b then buffer_reserve b (wrap64 (bcap b * 2)) else Inr b) (\<lambda>b.
     bind_sum (store (storage b) (bsize b) [Some c]) (\<lambda>m. Inr (write_bytes b m (wrap64 (bsize b + 1)))))"

definition buffer_read :: "'p iobuf \<Rightarrow> nat \<Rightarrow> nat \<Rightarrow> fault + string" where
  "buffer_read b offset len =
     (if offset \<ge> bsize b then Inr [] else load (storage b) offset (min len (bsize b - offset)))"

definition buffer_swap :: "'p iobuf \<Rightarrow> 'p iobuf \<Rightarrow> 'p iobuf \<times> 'p iobuf" where
  "buffer_swap b other = (other, b)"

subsection \<open>Operations and their specification\<close>

datatype buf_op =
    BReserve nat
  | BTruncate nat
  | BClear
  | BAppend string
  | BAppendCstr "string option"
  | BAppendChar char

fun buf_step :: "buf_op \<Rightarrow> 'p iobuf \<Rightarrow> fault + 'p iobuf" where
  "buf_step (BReserve n) b = buffer_reserve b n"
| "buf_step (BTruncate n) b = buffer_resize b n"
| "buf_step BClear b = Inr (buffer_clear b)"
| "buf_step (BAppend cs) b = buffer_append b cs"
| "buf_step (BAppendCstr p) b = buffer_append_cstr b p"
| "buf_step (BAppendChar c) b = buffer_append_char b c"

fun buf_spec :: "buf_op \<Rightarrow> string \<Rightarrow> fault + string" where
  "buf_spec (BReserve n) xs = Inr xs"
| "buf_spec (BTruncate n) xs = Inr (take n xs)"
| "buf_spec BClear xs = Inr []"
| "buf_spec (BAppend cs) xs = Inr (xs @ cs)"
| "buf_spec (BAppendCstr p) xs =
     Inr (xs @ (case p of None \<Rightarrow> [] | Some cs \<Rightarrow> takeWhile (\<lambda>c. c \<noteq> CHR 0x00) cs))"
| "buf_spec (BAppendChar c) xs = Inr (xs @ [c])"

text \<open>
  Sizes stay below half of the address space, so that no doubling wraps; \<open>resize\<close> is used to
  truncate (growing exposes bytes that nobody wrote).
\<close>

definition half_space :: nat where
  "half_space = 2 ^ 63"

fun buf_fits :: "buf_op \<Rightarrow> string \<Rightarrow> bool" where
  "buf_fits (BReserve n) xs \<longleftrightarrow> n < half_space"
| "buf_fits (BTruncate n) xs \<longleftrightarrow> n \<le> length xs"
| "buf_fits BClear xs \<longleftrightarrow> True"
| "buf_fits (BAppend cs) xs \<longleftrightarrow> length xs + length cs < half_space"
| "buf_fits (BAppendCstr p) xs \<longleftrightarrow>
     length xs + (case p of None \<Rightarrow> 0 | Some cs \<Rightarrow> length (takeWhile (\<lambda>c. c \<noteq> CHR 0x00) cs)) < half_space"
| "buf_fits (BAppendChar c) xs \<longleftrightarrow> length xs + 1 < half_space"

subsection \<open>Refinement\<close>

definition buf_rep :: "'p iobuf \<Rightarrow> string \<Rightarrow> bool" where
  "buf_rep b xs \<longleftrightarrow> (\<exists>m. bdata b = Some (bpool b, m) \<and> holds m xs \<and> length m = bcap b) \<and>
     bsize b = length xs \<and> bcap b > 0"

lemma buf_repD:
  assumes "buf_rep b xs"
  shows "bdata b = Some (bpool b, storage b)" "holds (storage b) xs" "length (storage b) = bcap b"
    "bsize b = length xs" "bcap b > 0" "length xs \<le> bcap b" "release b = Inr ()"
  using assms holds_length by (fastforce simp: buf_rep_def storage_def release_def)+

lemma buf_rep_new: "n > 0 \<Longrightarrow> buf_rep (buffer_new n pool) []"
  by (simp add: buf_rep_def buffer_new_def)

lemma buffer_reserve_spec:
  assumes "buf_rep b xs"
  shows "\<exists>b'. buffer_reserve b n = Inr b' \<and> buf_rep b' xs \<and> n \<le> bcap b' \<and> bpool b' = bpool b"
proof (cases "n > bcap b")
  case False
  then show ?thesis using assms by (simp add: buffer_reserve_def)
next
  case True
  note r = buf_repD [OF assms]
  obtain m where m: "(if bdata b \<noteq> None \<and> bsize b > 0 then memcpy (fresh n) 0 (storage b) 0 (bsize b) else Inr (fresh n)) = Inr m"
      "length m = n" "holds m xs"
    using memcpy_holds [OF r(2), of "fresh n"] r(1,4,6) True by (cases "xs = []") auto
  obtain m' where m': "store m (length xs) [Some CHR 0x00] = Inr m'" "length m' = n" "holds m' (xs @ [CHR 0x00])"
    using store_holds [OF m(3), of "length xs" "[CHR 0x00]"] m(2) r(6) True by auto
  have "buffer_reserve b n = Inr (b\<lparr>bdata := Some (bpool b, m'), bcap := n\<rparr>)"
    unfolding buffer_reserve_def m(1) using True m'(1) r(4,7) by simp
  moreover have "buf_rep (b\<lparr>bdata := Some (bpool b, m'), bcap := n\<rparr>) xs"
    using m' holds_prefix [OF m'(3)] r(4) True by (simp add: buf_rep_def)
  ultimately show ?thesis by simp
qed

text \<open>Writing behind the contents once there is room.\<close>

lemma write_spec:
  assumes "buf_rep b xs" and "length xs + length cs \<le> bcap b" and "length xs + length cs < 2 ^ 64"
  shows "\<exists>b'. bind_sum (store (storage b) (bsize b) (map Some cs)) (\<lambda>m. Inr (write_bytes b m (wrap64 (bsize b + length cs)))) = Inr b' \<and>
    buf_rep b' (xs @ cs)"
proof -
  note r = buf_repD [OF assms(1)]
  obtain m where "store (storage b) (bsize b) (map Some cs) = Inr m" "length m = bcap b" "holds m (xs @ cs)"
    using store_holds [OF r(2), of "length xs" cs] r(3,4) assms(2) by auto
  then show ?thesis using r(1,4,5) assms(3) by (simp add: buf_rep_def write_bytes_def)
qed

lemma buffer_append_spec:
  assumes "buf_rep b xs" and "length xs + length cs < half_space"
  shows "\<exists>b'. buffer_append b cs = Inr b' \<and> buf_rep b' (xs @ cs)"
proof -
  note r = buf_repD [OF assms(1)]
  let ?w = "length xs + length cs"
  have w: "wrap64 (bsize b + length cs) = ?w" using assms(2) r(4) by (simp add: half_space_def)
  obtain b1 where b1: "(if ?w > bcap b then buffer_reserve b (max ?w (wrap64 (bcap b * 2))) else Inr b) = Inr b1"
      "buf_rep b1 xs" "?w \<le> bcap b1"
    using buffer_reserve_spec [OF assms(1), of "max ?w (wrap64 (bcap b * 2))"] assms(1) by (cases "?w > bcap b") auto
  have "?w < 2 ^ 64" using assms(2) by (simp add: half_space_def)
  then show ?thesis
    using write_spec [OF b1(2,3)] unfolding buffer_append_def Let_def w b1(1) by simp
qed

lemma buffer_append_char_spec:
  assumes "buf_rep b xs" and "length xs + 1 < half_space"
  shows "\<exists>b'. buffer_append_char b c = Inr b' \<and> buf_rep b' (xs @ [c])"
proof -
  note r = buf_repD [OF assms(1)]
  have w: "wrap64 (bsize b + 1) = length xs + 1" using assms(2) r(4) by (simp add: half_space_def)
  have "\<exists>b1. (if length xs + 1 > bcap b then buffer_reserve b (wrap64 (bcap b * 2)) else Inr b) = Inr b1 \<and>
      buf_rep b1 xs \<and> length xs + 1 \<le> bcap b1"
  proof (cases "length xs + 1 > bcap b")
    case True
    then have "bcap b = length xs" using r(6) by simp
    then have "wrap64 (bcap b * 2) = length xs * 2" "length xs + 1 \<le> length xs * 2" using assms(2) r(5) by (simp_all add: half_space_def Suc_le_eq)
    then show ?thesis using buffer_reserve_spec [OF assms(1), of "length xs * 2"] True by (auto intro: order_trans)
  next
    case False
    then show ?thesis using assms(1) by simp
  qed
  then obtain b1 where b1: "(if length xs + 1 > bcap b then buffer_reserve b (wrap64 (bcap b * 2)) else Inr b) = Inr b1"
      "buf_rep b1 xs" "length xs + 1 \<le> bcap b1" by blast
  have "length xs + 1 < 2 ^ 64" using assms(2) by (simp add: half_space_def)
  then show ?thesis
    using write_spec [OF b1(2), of "[c]"] b1(3) unfolding buffer_append_char_def w b1(1) by simp
qed

lemma buf_step_refines:
  assumes "buf_rep b xs" and "buf_fits op xs"
  shows "case buf_spec op xs of Inl e \<Rightarrow> buf_step op b = Inl e | Inr ys \<Rightarrow> \<exists>b'. buf_step op b = Inr b' \<and> buf_rep b' ys"
proof (cases op)
  case (BReserve n)
  then show ?thesis using buffer_reserve_spec [OF assms(1), of n] by auto
next
  case (BTruncate n)
  note r = buf_repD [OF assms(1)]
  have "holds (storage b) (take n xs)" using r(2) holds_prefix [of _ "take n xs" "drop n xs"] by simp
  then show ?thesis
    using BTruncate assms r by (simp add: buffer_resize_def buf_rep_def)
next
  case BClear
  then show ?thesis using buf_repD [OF assms(1)] by (simp add: buffer_clear_def buf_rep_def)
next
  case (BAppendCstr p)
  then show ?thesis
    using assms buffer_append_spec [OF assms(1)] by (cases p) (simp_all add: buffer_append_cstr_def)
qed (use assms buffer_append_spec buffer_append_char_spec in simp_all)

interpretation buf: simulation buf_rep buf_fits buf_step buf_spec
  by unfold_locales (rule buf_step_refines)

lemma buffer_read_spec:
  assumes "buf_rep b xs"
  shows "buffer_read b offset len = Inr (take len (drop offset xs))"
proof (cases "offset < length xs")
  case True
  have "take (min len (length xs - offset)) (drop offset xs) = take len (drop offset xs)" by (simp add: min_def)
  then show ?thesis
    using True buf_repD [OF assms] load_holds [OF buf_repD(2) [OF assms], of offset "min len (length xs - offset)"]
    by (simp add: buffer_read_def)
qed (use buf_repD(4) [OF assms] in \<open>simp add: buffer_read_def\<close>)

text \<open>
  A buffer created with a positive capacity collects what is appended to it: after any sequence of
  appends, reservations, truncations and clears no operation has left the storage, and reading at
  any offset returns the bytes of the appended text that exist there.
\<close>

theorem buffer_refines:
  assumes "n > 0" and "run_fits buf_fits buf_spec ops []"
  shows "\<exists>b. run_log buf_step ops (buffer_new n pool) = (replicate (length ops) None, b) \<and>
    (\<forall>offset len. buffer_read b offset len = Inr (take len (drop offset (snd (run_log buf_spec ops [])))))"
proof -
  have "fst (run_log buf_spec ops a) = replicate (length ops) None" for a
  proof (induction ops arbitrary: a)
    case (Cons op ops)
    then show ?case by (cases op) (simp_all add: split_beta Let_def)
  qed simp
  then show ?thesis
    using buf.run_law [OF buf_rep_new [OF assms(1), of pool] assms(2)] buffer_read_spec by fastforce
qed

definition sample_buf_ops :: "buf_op list" where
  "sample_buf_ops = [BAppendChar CHR ''a'', BAppend ''bcd'', BTruncate 3]"

theorem buffer_refines_witness:
  "\<exists>b. snd (run_log buf_step sample_buf_ops (buffer_new 1 (None :: unit option))) = b \<and> buffer_read b 1 9 = Inr ''bc''"
proof -
  have "run_fits buf_fits buf_spec sample_buf_ops []" by (simp add: sample_buf_ops_def half_space_def)
  moreover have "snd (run_log buf_spec sample_buf_ops []) = ''abc''" by (simp add: sample_buf_ops_def)
  ultimately show ?thesis
    using buffer_refines [of 1 sample_buf_ops "None :: unit option"] by auto
qed

text \<open>
  Without capacity, as in \<open>Buffer(0)\<close> and in every moved-from buffer, \<open>append(char)\<close> doubles zero and writes
  outside the storage.
\<close>

lemma append_char_no_capacity:
  "bcap b = 0 \<Longrightarrow> bsize b = 0 \<Longrightarrow> storage b = [] \<Longrightarrow> buffer_append_char b c = Inl OutOfBounds"
  by (simp add: buffer_append_char_def buffer_reserve_def store_def)

lemma append_char_moved_from: "buffer_append_char (snd (buffer_move b)) c = Inl OutOfBounds"
  by (rule append_char_no_capacity) (simp_all add: buffer_move_def storage_def)

text \<open>Move assignment takes over the storage but not the pool it came from, so its release goes to the wrong allocator.\<close>

lemma assign_move_bad_free:
  assumes "buf_rep b xs" and "buf_rep other ys" and "bpool b \<noteq> bpool other"
  shows "\<exists>b' other'. buffer_assign_move b other = Inr (b', other') \<and> release b' = Inl BadFree"
  using buf_repD(7) [OF assms(1)] buf_repD(1) [OF assms(2)] assms(3)
  by (simp add: buffer_assign_move_def release_def)

end
