(* ===== verification/SsoString.thy ===== *)
theory SsoString
  imports Block Simulation
begin

text \<open>
  The program's string class \<open>container::String\<close> (\<open>base/container/string.hpp\<close>, \<open>base/container/string.cpp\<close>) at
  the level of its storage: up to 22 bytes live in the object, longer contents in a heap block of
  \<open>capacity + 1\<close> bytes, and the contents are followed by a terminating zero byte. The constructor of the
  data type is the tag \<open>is_small_\<close>. \<open>size_t\<close> values are natural numbers with the overflow checks of the code;
  the narrowing casts to \<open>uint8_t\<close> and \<open>uint32_t\<close> are written out. \<open>npos\<close> results are \<open>None\<close>. An argument that
  is a pointer with a length is the list of bytes it points to, which is taken not to overlap the
  string's own storage; \<open>str_append_self\<close> is the overlapping case.
\<close>

datatype sstr = Small "char block" nat | Large "char block" nat nat

abbreviation NUL :: char where "NUL \<equiv> CHR 0x00"

definition sso_capacity :: nat where
  "sso_capacity = 22"

fun str_buf :: "sstr \<Rightarrow> char block" where
  "str_buf (Small b n) = b"
| "str_buf (Large b n c) = b"

fun str_size :: "sstr \<Rightarrow> nat" where
  "str_size (Small b n) = n"
| "str_size (Large b n c) = n"

fun str_capacity :: "sstr \<Rightarrow> nat" where
  "str_capacity (Small b n) = sso_capacity"
| "str_capacity (Large b n c) = c"

text \<open>The branches \<open>if (is_small_) small_.size = \<dots> else large_.size = \<dots>\<close>, after the bytes were changed in place.\<close>

fun str_update :: "sstr \<Rightarrow> char block \<Rightarrow> nat \<Rightarrow> sstr" where
  "str_update (Small b0 n0) b n = Small b (n mod 2 ^ 8)"
| "str_update (Large b0 n0 c) b n = Large b n c"

definition terminate :: "sstr \<Rightarrow> char block \<Rightarrow> nat \<Rightarrow> fault + sstr" where
  "terminate s b n = bind_sum (store b n [Some NUL]) (\<lambda>b. Inr (str_update s b n))"

subsection \<open>Construction and assignment\<close>

definition str_new :: sstr where
  "str_new = Small (replicate (sso_capacity + 1) (Some NUL)) 0"

definition str_assign :: "sstr \<Rightarrow> string \<Rightarrow> fault + sstr" where
  "str_assign s cs =
     (let len = length cs in
      if len \<le> sso_capacity then
        (let b = (case s of Small b n \<Rightarrow> b | Large b n c \<Rightarrow> fresh (sso_capacity + 1)) in
         bind_sum (store b 0 (map Some cs)) (\<lambda>b.
         bind_sum (store b len [Some NUL]) (\<lambda>b. Inr (Small b (len mod 2 ^ 8)))))
      else
        (let (b, c) = (case s of
             Small b n \<Rightarrow> (fresh (len + 1), len)
           | Large b n c \<Rightarrow> if len > c then (fresh (len + 1), len) else (b, c)) in
         bind_sum (store b 0 (map Some cs)) (\<lambda>b.
         bind_sum (store b len [Some NUL]) (\<lambda>b. Inr (Large b len c)))))"

definition strlen :: "string \<Rightarrow> nat" where
  "strlen cs = length (takeWhile (\<lambda>c. c \<noteq> NUL) cs)"

definition str_cstr :: "string option \<Rightarrow> fault + sstr" where
  "str_cstr p = (case p of None \<Rightarrow> Inr str_new | Some cs \<Rightarrow> str_assign str_new (take (strlen cs) cs))"

definition str_of :: "string \<Rightarrow> fault + sstr" where
  "str_of cs = (if cs = [] then Inr str_new else str_assign str_new cs)"

text \<open>The constructor from an expiring \<open>std::string\<close>.\<close>

definition str_from_std_move :: "string \<Rightarrow> fault + sstr" where
  "str_from_std_move cs =
     (let len = length cs in
      if len \<le> sso_capacity then
        bind_sum (store (str_buf str_new) 0 (map Some cs)) (\<lambda>b.
        bind_sum (store b len [Some NUL]) (\<lambda>b. Inr (Small b (len mod 2 ^ 8))))
      else
        bind_sum (store (fresh (len + 1)) 0 (map Some (cs @ [NUL]))) (\<lambda>b.
        Inr (Large b (len mod 2 ^ 32) ((len + 1) mod 2 ^ 32))))"

definition str_bytes :: "sstr \<Rightarrow> fault + string" where
  "str_bytes s = load (str_buf s) 0 (str_size s)"

definition str_copy :: "sstr \<Rightarrow> fault + sstr" where
  "str_copy other = bind_sum (str_bytes other) (str_assign str_new)"

definition str_swap :: "sstr \<Rightarrow> sstr \<Rightarrow> sstr \<times> sstr" where
  "str_swap s other = (other, s)"

definition str_move :: "sstr \<Rightarrow> sstr \<times> sstr" where
  "str_move other = str_swap str_new other"

definition str_clear :: "sstr \<Rightarrow> sstr" where
  "str_clear s =
     (let b = (case s of Small b n \<Rightarrow> b | Large b n c \<Rightarrow> fresh (sso_capacity + 1))
      in Small (b[0 := Some NUL]) 0)"

text \<open>Copy and move assignment, from another object; the guards \<open>this != &other\<close> make self-assignment a no-op.\<close>

definition str_assign_copy :: "sstr \<Rightarrow> sstr \<Rightarrow> fault + sstr" where
  "str_assign_copy s other = bind_sum (str_bytes other) (str_assign s)"

definition str_assign_move :: "sstr \<Rightarrow> sstr \<Rightarrow> sstr \<times> sstr" where
  "str_assign_move s other = (let (s', other') = str_swap s other in (s', str_clear other'))"

definition str_assign_cstr :: "sstr \<Rightarrow> string option \<Rightarrow> fault + sstr" where
  "str_assign_cstr s p =
     (case p of None \<Rightarrow> Inr (str_clear s) | Some cs \<Rightarrow> str_assign s (take (strlen cs) cs))"

subsection \<open>Element access\<close>

definition str_cell :: "sstr \<Rightarrow> nat \<Rightarrow> fault + char" where
  "str_cell s i = bind_sum (load (str_buf s) i 1) (\<lambda>xs. Inr (hd xs))"

definition str_at :: "sstr \<Rightarrow> nat \<Rightarrow> fault + char" where
  "str_at s pos =
     (if pos \<ge> str_size s then Inl (OutOfRange ''String index out of range'') else str_cell s pos)"

definition str_front :: "sstr \<Rightarrow> fault + char" where
  "str_front s = str_cell s 0"

definition str_back :: "sstr \<Rightarrow> fault + char" where
  "str_back s = str_cell s ((str_size s + size_max) mod 2 ^ 64)"

definition str_set :: "sstr \<Rightarrow> nat \<Rightarrow> char \<Rightarrow> fault + sstr" where
  "str_set s pos c = bind_sum (store (str_buf s) pos [Some c]) (\<lambda>b. Inr (str_update s b (str_size s)))"

subsection \<open>Growth\<close>

definition checked_add_size :: "nat \<Rightarrow> nat \<Rightarrow> fault + nat" where
  "checked_add_size lhs rhs =
     (if rhs > size_max - lhs then Inl (LengthError ''String size overflow'') else Inr (lhs + rhs))"

definition growth_capacity :: "nat \<Rightarrow> nat \<Rightarrow> nat" where
  "growth_capacity required cur = (if cur > size_max div 2 then required else max required (cur * 2))"

definition str_reserve :: "sstr \<Rightarrow> nat \<Rightarrow> fault + sstr" where
  "str_reserve s n =
     (if n \<le> str_capacity s then Inr s
      else if n = size_max then Inl (LengthError ''String reserve capacity overflow'')
      else bind_sum (memcpy (fresh (n + 1)) 0 (str_buf s) 0 (str_size s + 1)) (\<lambda>b.
           Inr (Large b (str_size s) n)))"

text \<open>The conditional growth at the start of \<open>append\<close> and of a growing \<open>resize\<close>.\<close>

definition str_grow :: "sstr \<Rightarrow> nat \<Rightarrow> fault + sstr" where
  "str_grow s n =
     (if n > str_capacity s then str_reserve s (growth_capacity n (str_capacity s)) else Inr s)"

definition str_resize :: "sstr \<Rightarrow> nat \<Rightarrow> char \<Rightarrow> fault + sstr" where
  "str_resize s n fill =
     (let cur = str_size s in
      if n = cur then Inr s
      else if n < cur then terminate s (str_buf s) n
      else
        bind_sum (str_grow s n) (\<lambda>s.
        bind_sum (store (str_buf s) cur (replicate (n - cur) (Some fill))) (\<lambda>b. terminate s b n)))"

definition str_append :: "sstr \<Rightarrow> string \<Rightarrow> fault + sstr" where
  "str_append s cs =
     (if cs = [] then Inr s
      else
        bind_sum (checked_add_size (str_size s) (length cs)) (\<lambda>n.
        bind_sum (str_grow s n) (\<lambda>s'.
        bind_sum (store (str_buf s') (str_size s) (map Some cs)) (\<lambda>b. terminate s' b n))))"

text \<open>
  \<open>s.append(s)\<close>: the source pointer is taken before \<open>reserve\<close> releases (or, for a small string,
  reuses) the storage it points to.
\<close>

definition str_append_self :: "sstr \<Rightarrow> fault + sstr" where
  "str_append_self s =
     (if str_size s = 0 then Inr s
      else
        bind_sum (checked_add_size (str_size s) (str_size s)) (\<lambda>n.
        if n > str_capacity s then
          bind_sum (str_reserve s (growth_capacity n (str_capacity s))) (\<lambda>s'. Inl Dangling)
        else
          bind_sum (str_bytes s) (\<lambda>cs.
          bind_sum (store (str_buf s) (str_size s) (map Some cs)) (\<lambda>b. terminate s b n))))"

definition str_push_back :: "sstr \<Rightarrow> char \<Rightarrow> fault + sstr" where
  "str_push_back s c = str_append s [c]"

definition str_substr :: "sstr \<Rightarrow> nat \<Rightarrow> nat \<Rightarrow> fault + sstr" where
  "str_substr s pos len =
     (if pos > str_size s then Inl (OutOfRange ''String substr out of range'')
      else bind_sum (load (str_buf s) pos (min len (str_size s - pos))) str_of)"

definition str_pop_back :: "sstr \<Rightarrow> fault + sstr" where
  "str_pop_back s = (if str_size s = 0 then Inr s else terminate s (str_buf s) (str_size s - 1))"

subsection \<open>Editing in place\<close>

definition str_erase :: "sstr \<Rightarrow> nat \<Rightarrow> nat \<Rightarrow> fault + sstr" where
  "str_erase s pos count =
     (let cur = str_size s in
      if pos > cur then Inl (OutOfRange ''String erase out of range'')
      else
        (let len = min count (cur - pos) in
         if len = 0 then Inr s
         else
           bind_sum (if pos + len < cur then memmove (str_buf s) pos (pos + len) (cur - pos - len)
                     else Inr (str_buf s)) (\<lambda>b.
           terminate s b (cur - len))))"

definition str_insert :: "sstr \<Rightarrow> nat \<Rightarrow> string \<Rightarrow> fault + sstr" where
  "str_insert s pos cs =
     (let cur = str_size s; len = length cs in
      if pos > cur then Inl (OutOfRange ''String insert out of range'')
      else if len = 0 then Inr s
      else
        bind_sum (checked_add_size cur len) (\<lambda>n.
        bind_sum (str_reserve s n) (\<lambda>s.
        bind_sum (if pos < cur then memmove (str_buf s) (pos + len) pos (cur - pos) else Inr (str_buf s)) (\<lambda>b.
        bind_sum (store b pos (map Some cs)) (\<lambda>b. terminate s b n)))))"

definition str_replace :: "sstr \<Rightarrow> nat \<Rightarrow> nat \<Rightarrow> string \<Rightarrow> fault + sstr" where
  "str_replace s pos count cs =
     (let cur = str_size s; len = length cs in
      if pos > cur then Inl (OutOfRange ''String replace out of range'')
      else
        (let rlen = min count (cur - pos); tail = cur - pos - rlen in
         bind_sum (checked_add_size (cur - rlen) len) (\<lambda>n.
         if len = rlen then
           bind_sum (store (str_buf s) pos (map Some cs)) (\<lambda>b. Inr (str_update s b cur))
         else if len < rlen then
           bind_sum (store (str_buf s) pos (map Some cs)) (\<lambda>b.
           bind_sum (if tail > 0 then memmove b (pos + len) (pos + rlen) tail else Inr b) (\<lambda>b.
           terminate s b n))
         else
           bind_sum (str_reserve s n) (\<lambda>s.
           bind_sum (if tail > 0 then memmove (str_buf s) (pos + len) (pos + rlen) tail else Inr (str_buf s)) (\<lambda>b.
           bind_sum (store b pos (map Some cs)) (\<lambda>b. terminate s b n))))))"

definition str_plus :: "sstr \<Rightarrow> string \<Rightarrow> fault + sstr" where
  "str_plus s cs =
     bind_sum (str_reserve str_new ((str_size s + length cs) mod 2 ^ 64)) (\<lambda>r.
     bind_sum (str_bytes s) (\<lambda>xs.
     bind_sum (str_append r xs) (\<lambda>r. str_append r cs)))"

subsection \<open>Comparison and search\<close>

text \<open>\<open>std::memcmp\<close> on equally long byte sequences: the difference of the first two bytes that differ.\<close>

fun memcmp :: "string \<Rightarrow> string \<Rightarrow> int" where
  "memcmp (x # xs) (y # ys) = (if x = y then memcmp xs ys else int (byte x) - int (byte y))"
| "memcmp _ _ = 0"

definition length_tie :: "int \<Rightarrow> nat \<Rightarrow> nat \<Rightarrow> int" where
  "length_tie r m n = (if r = 0 then (if m < n then - 1 else if m > n then 1 else 0) else r)"

definition str_compare :: "sstr \<Rightarrow> sstr \<Rightarrow> fault + int" where
  "str_compare s other =
     (let m = min (str_size s) (str_size other) in
      bind_sum (load (str_buf s) 0 m) (\<lambda>xs.
      bind_sum (load (str_buf other) 0 m) (\<lambda>ys.
      Inr (length_tie (memcmp xs ys) (str_size s) (str_size other)))))"

definition str_compare_sub :: "sstr \<Rightarrow> nat \<Rightarrow> nat \<Rightarrow> string \<Rightarrow> fault + int" where
  "str_compare_sub s pos len cs =
     (if pos > str_size s then Inr 1
      else
        (let alen = min len (str_size s - pos); slen = strlen cs in
         bind_sum (load (str_buf s) pos (min alen slen)) (\<lambda>xs.
         Inr (length_tie (memcmp xs (take (min alen slen) cs)) alen slen))))"

text \<open>\<open>std::search\<close>: the first position at which \<open>ys\<close> occurs in \<open>xs\<close>.\<close>

fun search :: "string \<Rightarrow> string \<Rightarrow> nat option" where
  "search ys [] = None"
| "search ys (x # xs) =
     (if take (length ys) (x # xs) = ys then Some 0 else map_option Suc (search ys xs))"

definition str_find_char :: "sstr \<Rightarrow> char \<Rightarrow> nat \<Rightarrow> fault + nat option" where
  "str_find_char s c pos =
     (if pos \<ge> str_size s then Inr None
      else bind_sum (load (str_buf s) pos (str_size s - pos)) (\<lambda>xs.
           Inr (map_option (\<lambda>i. pos + i) (search [c] xs))))"

definition str_find :: "sstr \<Rightarrow> string \<Rightarrow> nat \<Rightarrow> fault + nat option" where
  "str_find s cs pos =
     (if pos > str_size s then Inr None
      else if cs = [] then Inr (Some pos)
      else if length cs > str_size s - pos then Inr None
      else bind_sum (load (str_buf s) pos (str_size s - pos)) (\<lambda>xs.
           Inr (map_option (\<lambda>i. pos + i) (search cs xs))))"

text \<open>The loop of both \<open>rfind\<close> overloads, downwards from \<open>i - 1\<close>.\<close>

fun rfind_loop :: "char block \<Rightarrow> string \<Rightarrow> nat \<Rightarrow> fault + nat option" where
  "rfind_loop b cs 0 = Inr None"
| "rfind_loop b cs (Suc i) =
     bind_sum (load b i (length cs)) (\<lambda>xs. if memcmp xs cs = 0 then Inr (Some i) else rfind_loop b cs i)"

definition str_rfind_char :: "sstr \<Rightarrow> char \<Rightarrow> nat \<Rightarrow> fault + nat option" where
  "str_rfind_char s c pos =
     (if str_size s = 0 then Inr None
      else rfind_loop (str_buf s) [c] (min pos (str_size s - 1) + 1))"

definition str_rfind :: "sstr \<Rightarrow> string \<Rightarrow> nat \<Rightarrow> fault + nat option" where
  "str_rfind s cs pos =
     (if cs = [] then Inr (Some (min pos (str_size s)))
      else if length cs > str_size s then Inr None
      else rfind_loop (str_buf s) cs (min pos (str_size s - length cs) + 1))"

definition str_starts_with :: "sstr \<Rightarrow> string \<Rightarrow> fault + bool" where
  "str_starts_with s cs =
     (if str_size s \<ge> length cs then
        bind_sum (load (str_buf s) 0 (length cs)) (\<lambda>xs. Inr (memcmp xs cs = 0))
      else Inr False)"

definition str_ends_with :: "sstr \<Rightarrow> string \<Rightarrow> fault + bool" where
  "str_ends_with s cs =
     (if str_size s \<ge> length cs then
        bind_sum (load (str_buf s) (str_size s - length cs) (length cs)) (\<lambda>xs. Inr (memcmp xs cs = 0))
      else Inr False)"

subsection \<open>Operations and their specification on byte lists\<close>

datatype str_op =
    Assign string
  | Append string
  | PushBack char
  | PopBack
  | Insert nat string
  | Erase nat nat
  | Replace nat nat string
  | Reserve nat
  | Resize nat char
  | SetAt nat char
  | Clear

fun str_step :: "str_op \<Rightarrow> sstr \<Rightarrow> fault + sstr" where
  "str_step (Assign cs) s = str_assign s cs"
| "str_step (Append cs) s = str_append s cs"
| "str_step (PushBack c) s = str_push_back s c"
| "str_step PopBack s = str_pop_back s"
| "str_step (Insert pos cs) s = str_insert s pos cs"
| "str_step (Erase pos n) s = str_erase s pos n"
| "str_step (Replace pos n cs) s = str_replace s pos n cs"
| "str_step (Reserve n) s = str_reserve s n"
| "str_step (Resize n c) s = str_resize s n c"
| "str_step (SetAt i c) s = str_set s i c"
| "str_step Clear s = Inr (str_clear s)"

fun str_spec :: "str_op \<Rightarrow> string \<Rightarrow> fault + string" where
  "str_spec (Assign cs) xs = Inr cs"
| "str_spec (Append cs) xs = Inr (xs @ cs)"
| "str_spec (PushBack c) xs = Inr (xs @ [c])"
| "str_spec PopBack xs = Inr (butlast xs)"
| "str_spec (Insert pos cs) xs =
     (if pos > length xs then Inl (OutOfRange ''String insert out of range'')
      else Inr (take pos xs @ cs @ drop pos xs))"
| "str_spec (Erase pos n) xs =
     (if pos > length xs then Inl (OutOfRange ''String erase out of range'')
      else Inr (take pos xs @ drop (pos + n) xs))"
| "str_spec (Replace pos n cs) xs =
     (if pos > length xs then Inl (OutOfRange ''String replace out of range'')
      else Inr (take pos xs @ cs @ drop (pos + n) xs))"
| "str_spec (Reserve n) xs = Inr xs"
| "str_spec (Resize n c) xs = Inr (take n xs @ replicate (n - length xs) c)"
| "str_spec (SetAt i c) xs = Inr (xs[i := c])"
| "str_spec Clear xs = Inr []"

text \<open>
  The preconditions: results fit into the address space, and \<open>operator[]\<close> is used inside the
  contents.
\<close>

fun str_fits :: "str_op \<Rightarrow> string \<Rightarrow> bool" where
  "str_fits (Append cs) xs \<longleftrightarrow> length xs + length cs < size_max"
| "str_fits (PushBack c) xs \<longleftrightarrow> length xs + 1 < size_max"
| "str_fits (Insert pos cs) xs \<longleftrightarrow> length xs + length cs < size_max"
| "str_fits (Replace pos n cs) xs \<longleftrightarrow> length xs + length cs < size_max"
| "str_fits (Reserve n) xs \<longleftrightarrow> n < size_max"
| "str_fits (Resize n c) xs \<longleftrightarrow> n < size_max"
| "str_fits (SetAt i c) xs \<longleftrightarrow> i < length xs"
| "str_fits _ xs \<longleftrightarrow> True"

subsection \<open>The representation invariant\<close>

text \<open>
  \<open>s\<close> represents \<open>xs\<close>: the storage holds the bytes and the terminator, and is one byte larger
  than the capacity. A small string therefore has at most 22 bytes.
\<close>

definition str_rep :: "sstr \<Rightarrow> string \<Rightarrow> bool" where
  "str_rep s xs \<longleftrightarrow>
     str_size s = length xs \<and> holds (str_buf s) (xs @ [NUL]) \<and> length (str_buf s) = str_capacity s + 1"

lemma str_repD:
  assumes "str_rep s xs"
  shows "str_size s = length xs" "holds (str_buf s) (xs @ [NUL])" "holds (str_buf s) xs"
    "length (str_buf s) = str_capacity s + 1" "length xs \<le> str_capacity s"
  using assms holds_length [of "str_buf s" "xs @ [NUL]"] holds_prefix [of "str_buf s" xs "[NUL]"]
  by (simp_all add: str_rep_def)

lemma str_update_sel [simp]:
  "str_buf (str_update s b n) = b"
  "str_capacity (str_update s b n) = str_capacity s"
  by (cases s; simp)+

lemma str_update_size: "n \<le> str_capacity s \<Longrightarrow> str_size (str_update s b n) = n"
  by (cases s) (simp_all add: sso_capacity_def)

lemma str_rep_new: "str_rep str_new []"
proof -
  have "str_buf str_new = map Some [NUL] @ replicate sso_capacity (Some NUL)"
    by (simp add: str_new_def)
  then show ?thesis using holdsI [of "str_buf str_new" "[NUL]"] by (simp add: str_rep_def str_new_def)
qed

text \<open>Every in-place operation ends by writing the terminator and the size.\<close>

lemma terminate_rep:
  assumes "holds b ys" and "length b = str_capacity s + 1" and "length ys \<le> str_capacity s" and "n = length ys"
  shows "\<exists>s'. terminate s b n = Inr s' \<and> str_rep s' ys"
proof -
  obtain b' where b': "store b n [Some NUL] = Inr b'" "length b' = length b" "holds b' (ys @ [NUL])"
    using store_holds [of b ys n "[NUL]"] assms by auto
  have "str_rep (str_update s b' n) ys"
    using b' assms by (simp add: str_rep_def str_update_size)
  then show ?thesis using b' by (simp add: terminate_def)
qed

lemma str_reserve_spec:
  assumes "str_rep s xs" and "n < size_max"
  shows "\<exists>s'. str_reserve s n = Inr s' \<and> str_rep s' xs \<and> n \<le> str_capacity s'"
proof (cases "n \<le> str_capacity s")
  case True
  then show ?thesis using assms by (simp add: str_reserve_def)
next
  case False
  note r = str_repD [OF assms(1)]
  obtain b where b: "memcpy (fresh (n + 1)) 0 (str_buf s) 0 (length xs + 1) = Inr b" "length b = n + 1"
      "holds b (xs @ [NUL])"
    using memcpy_holds [OF r(2), of "fresh (n + 1)"] False r(5) by auto
  then have "str_rep (Large b (length xs) n) xs" by (simp add: str_rep_def)
  then show ?thesis using b False assms(2) r(1) by (simp add: str_reserve_def)
qed

lemma growth_ok: "n < size_max \<Longrightarrow> growth_capacity n c < size_max \<and> n \<le> growth_capacity n c"
  by (auto simp: growth_capacity_def size_max_def)

lemma str_grow_spec:
  assumes "str_rep s xs" and "n < size_max"
  shows "\<exists>s'. str_grow s n = Inr s' \<and> str_rep s' xs \<and> n \<le> str_capacity s'"
  unfolding str_grow_def using str_reserve_spec [OF assms(1), of "growth_capacity n (str_capacity s)"] growth_ok [OF assms(2)]
    assms(1) by (fastforce intro: order_trans)

lemma checked_add_size_ok: "m + n < size_max \<Longrightarrow> checked_add_size m n = Inr (m + n)"
  by (simp add: checked_add_size_def)

subsection \<open>Every operation refines its specification\<close>

lemma str_assign_spec:
  assumes "str_rep s xs"
  shows "\<exists>s'. str_assign s cs = Inr s' \<and> str_rep s' cs"
proof -
  note r = str_repD [OF assms]
  have w: "\<exists>b'. bind_sum (store b 0 (map Some cs)) (\<lambda>b. bind_sum (store b (length cs) [Some NUL]) (\<lambda>b. Inr (f b))) = Inr (f b') \<and>
      length b' = length b \<and> holds b' (cs @ [NUL])" if len: "length cs < length b" for b :: "char block" and f :: "char block \<Rightarrow> sstr"
  proof -
    obtain b1 where b1: "store b 0 (map Some cs) = Inr b1" "length b1 = length b" "holds b1 cs"
      using store_holds [of b "[]" 0 cs] len by auto
    obtain b2 where "store b1 (length cs) [Some NUL] = Inr b2" "length b2 = length b1" "holds b2 (cs @ [NUL])"
      using store_holds [of b1 cs "length cs" "[NUL]"] b1 len by auto
    then show ?thesis using b1 by auto
  qed
  show ?thesis
  proof (cases "length cs \<le> sso_capacity")
    case True
    let ?b = "case s of Small b n \<Rightarrow> b | Large b n c \<Rightarrow> fresh (sso_capacity + 1)"
    have "length ?b = sso_capacity + 1" using r(4) by (cases s) simp_all
    with w [of ?b "\<lambda>b. Small b (length cs mod 2 ^ 8)"] True obtain b'
      where "str_assign s cs = Inr (Small b' (length cs mod 2 ^ 8))" "length b' = sso_capacity + 1" "holds b' (cs @ [NUL])"
      by (auto simp: str_assign_def Let_def)
    then show ?thesis using True by (auto simp: str_rep_def sso_capacity_def)
  next
    case False
    define p where "p = (case s of Small b n \<Rightarrow> (fresh (length cs + 1), length cs)
        | Large b n c \<Rightarrow> if length cs > c then (fresh (length cs + 1), length cs) else (b, c))"
    have p: "length (fst p) = snd p + 1" "length cs \<le> snd p"
      using r(4) by (cases s; auto simp: p_def)+
    with w [of "fst p" "\<lambda>b. Large b (length cs) (snd p)"] False obtain b'
      where "str_assign s cs = Inr (Large b' (length cs) (snd p))" "length b' = length (fst p)" "holds b' (cs @ [NUL])"
      by (auto simp: str_assign_def Let_def split_beta simp flip: p_def)
    then show ?thesis using p by (auto simp: str_rep_def)
  qed
qed

lemma str_append_spec:
  assumes "str_rep s xs" and "length xs + length cs < size_max"
  shows "\<exists>s'. str_append s cs = Inr s' \<and> str_rep s' (xs @ cs)"
proof (cases "cs = []")
  case True
  then show ?thesis using assms by (simp add: str_append_def)
next
  case False
  let ?n = "length xs + length cs"
  obtain s1 where s1: "str_grow s ?n = Inr s1"
      "str_rep s1 xs" "?n \<le> str_capacity s1"
    using str_grow_spec [OF assms] by blast
  note r = str_repD [OF s1(2)]
  obtain b where b: "store (str_buf s1) (length xs) (map Some cs) = Inr b" "length b = str_capacity s1 + 1" "holds b (xs @ cs)"
    using store_holds [OF r(3), of "length xs" cs] r(4) s1(3) by auto
  obtain s' where "terminate s1 b ?n = Inr s'" "str_rep s' (xs @ cs)"
    using terminate_rep [OF b(3) b(2) _ length_append [symmetric]] s1(3) unfolding length_append by blast
  moreover have "str_append s cs = terminate s1 b ?n"
    unfolding str_append_def str_repD(1) [OF assms(1)] checked_add_size_ok [OF assms(2)]
    using False by (simp add: s1(1) b(1))
  ultimately show ?thesis by simp
qed

lemma str_pop_back_spec:
  assumes "str_rep s xs"
  shows "\<exists>s'. str_pop_back s = Inr s' \<and> str_rep s' (butlast xs)"
proof -
  note r = str_repD [OF assms]
  have "holds (str_buf s) (butlast xs)" if "xs \<noteq> []"
    using r(3) that holds_prefix [of "str_buf s" "butlast xs" "[last xs]"] by simp
  then show ?thesis
    using terminate_rep [of "str_buf s" "butlast xs" s "length xs - 1"] r assms
    by (cases "xs = []") (simp_all add: str_pop_back_def)
qed

lemma str_resize_spec:
  assumes "str_rep s xs" and "n < size_max"
  shows "\<exists>s'. str_resize s n c = Inr s' \<and> str_rep s' (take n xs @ replicate (n - length xs) c)"
proof -
  note r = str_repD [OF assms(1)]
  consider "n = length xs" | "n < length xs" | "n > length xs" by linarith
  then show ?thesis
  proof cases
    case 1
    then show ?thesis using r assms by (simp add: str_resize_def)
  next
    case 2
    have "holds (str_buf s) (take n xs)" using r(3) holds_prefix [of _ "take n xs" "drop n xs"] by simp
    then show ?thesis using terminate_rep [of "str_buf s" "take n xs" s n] r 2 by (simp add: str_resize_def)
  next
    case 3
    obtain s1 where s1: "str_grow s n = Inr s1"
        "str_rep s1 xs" "n \<le> str_capacity s1"
      using str_grow_spec [OF assms] by blast
    note r1 = str_repD [OF s1(2)]
    obtain b where b: "store (str_buf s1) (length xs) (map Some (replicate (n - length xs) c)) = Inr b"
        "length b = str_capacity s1 + 1" "holds b (xs @ replicate (n - length xs) c)"
      using store_holds [OF r1(3), of "length xs" "replicate (n - length xs) c"] r1(4) s1(3) 3 by auto
    obtain s' where "terminate s1 b n = Inr s'" "str_rep s' (xs @ replicate (n - length xs) c)"
      using terminate_rep [OF b(3) b(2), of n] s1(3) 3 by auto
    then show ?thesis using b s1 r(1) 3 by (simp add: str_resize_def Let_def)
  qed
qed

lemma str_set_spec:
  assumes "str_rep s xs" and "i < length xs"
  shows "\<exists>s'. str_set s i c = Inr s' \<and> str_rep s' (xs[i := c])"
proof -
  note r = str_repD [OF assms(1)]
  obtain b where b: "store (str_buf s) i [Some c] = Inr b" "length b = length (str_buf s)"
      "holds b (take i (xs @ [NUL]) @ [c] @ drop (i + 1) (xs @ [NUL]))"
    using store_holds [OF r(2), of i "[c]"] assms(2) r(4,5) by auto
  moreover have "take i (xs @ [NUL]) @ [c] @ drop (i + 1) (xs @ [NUL]) = xs[i := c] @ [NUL]"
    using assms(2) by (simp add: upd_conv_take_nth_drop)
  ultimately have "str_rep (str_update s b (length xs)) (xs[i := c])"
    using r(4,5) by (simp add: str_rep_def str_update_size)
  then show ?thesis using b r(1) by (simp add: str_set_def)
qed

lemma str_clear_spec:
  assumes "str_rep s xs"
  shows "str_rep (str_clear s) []"
proof -
  define b where "b = (case s of Small b n \<Rightarrow> b | Large b n c \<Rightarrow> fresh (sso_capacity + 1))"
  have "length b = sso_capacity + 1" using str_repD(4) [OF assms] by (cases s) (simp_all add: b_def)
  then obtain x r where "b = x # r" "length r = sso_capacity" by (cases b) auto
  then have "b[0 := Some NUL] = map Some [NUL] @ r" "length r = sso_capacity" by simp_all
  then show ?thesis
    using holdsI [of "b[0 := Some NUL]" "[NUL]" r]
    by (simp add: str_rep_def str_clear_def Let_def flip: b_def)
qed

text \<open>Splitting the contents at an edit position, in the form the block lemmas take.\<close>

lemma edit_split:
  assumes "pos \<le> length xs" and "n = min count (length xs - pos)"
  shows "xs = take pos xs @ take n (drop pos xs) @ drop (pos + count) xs"
    "length (take pos xs) = pos" "length (take n (drop pos xs)) = n"
    "length (drop (pos + count) xs) = length xs - pos - n"
proof -
  have "drop n (drop pos xs) = drop (pos + count) xs"
    using assms by (simp add: add.commute min_def)
  then show "xs = take pos xs @ take n (drop pos xs) @ drop (pos + count) xs"
    by (metis append_take_drop_id)
qed (use assms in auto)

lemma str_erase_spec:
  assumes "str_rep s xs" and "pos \<le> length xs"
  shows "\<exists>s'. str_erase s pos count = Inr s' \<and> str_rep s' (take pos xs @ drop (pos + count) xs)"
proof -
  note r = str_repD [OF assms(1)]
  define n where "n = min count (length xs - pos)"
  note e = edit_split [OF assms(2) n_def]
  let ?ys = "take pos xs @ drop (pos + count) xs"
  show ?thesis
  proof (cases "n = 0")
    case True
    then have "?ys = xs" using e(1) by simp
    then show ?thesis using True r(1) assms by (simp add: str_erase_def Let_def n_def)
  next
    case False
    have h: "holds (str_buf s) (take pos xs @ take n (drop pos xs) @ drop (pos + count) xs)"
      using r(3) e(1) by simp
    obtain b where b: "memmove (str_buf s) pos (pos + n) (length xs - pos - n) = Inr b"
        "length b = str_capacity s + 1" "holds b ?ys"
      using splice_shrink [OF h, of "[]"] e(2-4) r(4,5) assms(2) by (auto simp: store_Nil)
    have "str_erase s pos count = terminate s b (length xs - n)"
      using False assms(2) b(1) r(1,4,5)
        memmove_guard [of pos "str_buf s" "pos + n" "pos + n < length xs" "length xs - pos - n"]
      by (auto simp: str_erase_def Let_def n_def)
    moreover have "length xs - n = length ?ys" "length ?ys \<le> str_capacity s"
      using e(2-4) r(5) assms(2) by (auto simp: n_def)
    ultimately show ?thesis using terminate_rep [OF b(3) b(2)] by simp
  qed
qed

text \<open>The part that \<open>insert\<close> and a growing \<open>replace\<close> share: make room, shift the tail, write.\<close>

lemma str_splice_grow:
  assumes "str_rep s xs" and "pos \<le> length xs" and "k = min count (length xs - pos)" and "k \<le> length cs"
    and "length xs - k + length cs < size_max" and "n = length xs - k + length cs"
    and "P \<longleftrightarrow> length xs - pos - k > 0"
  shows "\<exists>s'. bind_sum (str_reserve s n) (\<lambda>s.
        bind_sum (if P then memmove (str_buf s) (pos + length cs) (pos + k) (length xs - pos - k) else Inr (str_buf s)) (\<lambda>b.
        bind_sum (store b pos (map Some cs)) (\<lambda>b. terminate s b n))) = Inr s' \<and>
      str_rep s' (take pos xs @ cs @ drop (pos + count) xs)"
proof -
  note e = edit_split [OF assms(2,3)]
  let ?ys = "take pos xs @ cs @ drop (pos + count) xs"
  obtain s1 where s1: "str_reserve s n = Inr s1" "str_rep s1 xs" "n \<le> str_capacity s1"
    using str_reserve_spec [OF assms(1), of n] assms(5,6) by auto
  note r = str_repD [OF s1(2)]
  have h: "holds (str_buf s1) (take pos xs @ take k (drop pos xs) @ drop (pos + count) xs)"
    using r(3) e(1) by simp
  have kp: "pos + k \<le> length xs" using assms(2,3) by simp
  have "length (take pos xs) + length cs + length (drop (pos + count) xs) \<le> length (str_buf s1)"
    using e(2,4) s1(3) r(4) assms(6) kp by simp
  with splice_grow [OF h this] obtain b1 b2 where
    b: "memmove (str_buf s1) (pos + length cs) (pos + k) (length xs - pos - k) = Inr b1"
      "store b1 pos (map Some cs) = Inr b2" "length b2 = str_capacity s1 + 1" "holds b2 ?ys"
    using e(2-4) assms(4) r(4) by auto
  have len: "n = length ?ys" "length ?ys \<le> str_capacity s1" using e(2,4) assms(6) s1(3) kp by simp_all
  have "(if P then memmove (str_buf s1) (pos + length cs) (pos + k) (length xs - pos - k) else Inr (str_buf s1)) = Inr b1"
    using memmove_guard [of "pos + length cs" "str_buf s1" "pos + k" P "length xs - pos - k"] b(1) assms(7) r(4,5) len kp assms(6) s1(3)
    by simp
  then show ?thesis
    using terminate_rep [OF b(4) b(3) len(2) len(1)] s1(1) b(2) by simp
qed

lemma str_insert_spec:
  assumes "str_rep s xs" and "pos \<le> length xs" and "length xs + length cs < size_max"
  shows "\<exists>s'. str_insert s pos cs = Inr s' \<and> str_rep s' (take pos xs @ cs @ drop pos xs)"
proof (cases "cs = []")
  case True
  then show ?thesis using assms str_repD(1) [OF assms(1)] by (simp add: str_insert_def)
next
  case False
  have "str_insert s pos cs =
      bind_sum (str_reserve s (length xs - 0 + length cs)) (\<lambda>s.
        bind_sum (if pos < length xs then memmove (str_buf s) (pos + length cs) (pos + 0) (length xs - pos - 0) else Inr (str_buf s)) (\<lambda>b.
        bind_sum (store b pos (map Some cs)) (\<lambda>b. terminate s b (length xs - 0 + length cs))))"
    using False assms(2) str_repD(1) [OF assms(1)] checked_add_size_ok [OF assms(3)]
    by (simp add: str_insert_def Let_def cong: if_cong)
  then show ?thesis
    using str_splice_grow [OF assms(1,2), of 0 0 cs "length xs - 0 + length cs" "pos < length xs"] assms(3)
    by (simp only: min_0L diff_zero add_0_right zero_less_diff le0 simp_thms)
qed

lemma str_replace_spec:
  assumes "str_rep s xs" and "pos \<le> length xs" and "length xs + length cs < size_max"
  shows "\<exists>s'. str_replace s pos count cs = Inr s' \<and> str_rep s' (take pos xs @ cs @ drop (pos + count) xs)"
proof -
  note r = str_repD [OF assms(1)]
  define k where "k = min count (length xs - pos)"
  note e = edit_split [OF assms(2) k_def]
  let ?ys = "take pos xs @ cs @ drop (pos + count) xs"
  have kp: "pos + k \<le> length xs" using assms(2) by (simp add: k_def)
  have add: "checked_add_size (length xs - k) (length cs) = Inr (length xs - k + length cs)"
    using assms(3) by (simp add: checked_add_size_ok)
  have h: "holds (str_buf s) (take pos xs @ take k (drop pos xs) @ drop (pos + count) xs)"
    using r(3) e(1) by simp
  note def = str_replace_def [of s pos count cs, unfolded Let_def r(1), folded k_def]
  consider "length cs = k" | "length cs < k" | "length cs > k" by linarith
  then show ?thesis
  proof cases
    case 1
    obtain b where b: "store (str_buf s) pos (map Some cs) = Inr b" "length b = length (str_buf s)"
        "holds b (take pos (xs @ [NUL]) @ cs @ drop (pos + length cs) (xs @ [NUL]))"
      using store_holds [OF r(2), of pos cs] assms(2) r(4,5) 1 kp by auto
    have "drop (pos + length cs) xs = drop (pos + count) xs"
      using 1 by (simp add: k_def min_def)
    then have "take pos (xs @ [NUL]) @ cs @ drop (pos + length cs) (xs @ [NUL]) = ?ys @ [NUL]"
      using assms(2) 1 kp by simp
    with b have "str_rep (str_update s b (length xs)) ?ys"
      using r(4,5) e(2,4) 1 kp by (simp add: str_rep_def str_update_size)
    then show ?thesis using b assms(2) add 1 unfolding def by auto
  next
    case 2
    obtain b1 b2 where b: "store (str_buf s) pos (map Some cs) = Inr b1"
        "memmove b1 (pos + length cs) (pos + k) (length xs - pos - k) = Inr b2"
        "length b2 = str_capacity s + 1" "holds b2 ?ys"
      using splice_shrink [OF h, of cs] e(2-4) r(4) 2 kp by auto
    have len: "length xs - k + length cs = length ?ys" "length ?ys \<le> str_capacity s"
      using e(2,4) 2 kp r(5) by simp_all
    have "(if length xs - pos - k > 0 then memmove b1 (pos + length cs) (pos + k) (length xs - pos - k) else Inr b1) = Inr b2"
      using memmove_guard [of "pos + length cs" b1 "pos + k" "length xs - pos - k > 0" "length xs - pos - k"]
        b(2) store_length [OF b(1)] r(4,5) 2 kp by simp
    then show ?thesis
      using terminate_rep [OF b(4) b(3) len(2) len(1)] assms(2) add 2 b(1) unfolding def by simp
  next
    case 3
    have "length xs - k + length cs < size_max" using assms(3) by simp
    then show ?thesis
      using str_splice_grow [OF assms(1,2) k_def, of cs "length xs - k + length cs" "length xs - pos - k > 0"]
        assms(2) add 3 unfolding def by simp
  qed
qed

subsection \<open>Refinement\<close>

lemmas str_op_specs = str_assign_spec str_append_spec str_pop_back_spec str_insert_spec str_erase_spec
  str_replace_spec str_reserve_spec str_resize_spec str_set_spec str_clear_spec

lemma str_step_refines:
  assumes "str_rep s xs" and "str_fits op xs"
  shows "case str_spec op xs of Inl e \<Rightarrow> str_step op s = Inl e | Inr ys \<Rightarrow> \<exists>s'. str_step op s = Inr s' \<and> str_rep s' ys"
proof (cases op)
  case (Insert pos cs)
  then show ?thesis using str_insert_spec [OF assms(1), of pos cs] assms str_repD(1) [OF assms(1)]
    by (auto simp: str_insert_def)
next
  case (Erase pos n)
  then show ?thesis using str_erase_spec [OF assms(1), of pos n] str_repD(1) [OF assms(1)]
    by (auto simp: str_erase_def)
next
  case (Replace pos n cs)
  then show ?thesis using str_replace_spec [OF assms(1), of pos cs n] assms str_repD(1) [OF assms(1)]
    by (auto simp: str_replace_def)
next
  case (Reserve n)
  then show ?thesis using str_reserve_spec [OF assms(1), of n] assms(2) by auto
qed (use assms in \<open>simp_all add: str_assign_spec str_append_spec str_push_back_def str_pop_back_spec str_resize_spec str_set_spec str_clear_spec\<close>)

interpretation str: simulation str_rep str_fits str_step str_spec
  by unfold_locales (rule str_step_refines)

lemma str_spec_defined: "str_spec op xs = Inl e \<Longrightarrow> \<not> is_undefined e"
  by (cases op) (auto split: if_splits)

lemma run_log_errors:
  "Some e \<in> set (fst (run_log step ops a)) \<Longrightarrow> \<exists>op b. step op b = Inl e"
proof (induction ops arbitrary: a)
  case (Cons op ops)
  then show ?case by (cases "step op a") (auto simp: split_beta Let_def)
qed simp

text \<open>
  C13: a string built by any sequence of assignments, appends, insertions, erasures, replacements,
  resizes and reservations behaves as the byte list it stands for, across all transitions between
  the inline and the heap representation: it throws exactly where the list operation is out of
  range, is left unchanged then, and no operation ever reads or writes outside its storage or
  reads an uninitialised byte.
\<close>

theorem string_refines:
  assumes "run_fits str_fits str_spec ops []"
  shows "\<exists>s. run_log str_step ops str_new = (fst (run_log str_spec ops []), s) \<and>
      str_rep s (snd (run_log str_spec ops [])) \<and>
      str_bytes s = Inr (snd (run_log str_spec ops [])) \<and>
      (\<forall>e. Some e \<in> set (fst (run_log str_step ops str_new)) \<longrightarrow> \<not> is_undefined e)"
proof -
  from str.run_law [OF str_rep_new assms] obtain s
    where s: "run_log str_step ops str_new = (fst (run_log str_spec ops []), s)"
      "str_rep s (snd (run_log str_spec ops []))" by blast
  note r = str_repD [OF s(2)]
  have "str_bytes s = Inr (snd (run_log str_spec ops []))"
    using load_holds [OF r(3), of 0 "length (snd (run_log str_spec ops []))"] r(1) by (simp add: str_bytes_def)
  moreover have "\<not> is_undefined e" if "Some e \<in> set (fst (run_log str_step ops str_new))" for e
    using that s(1) run_log_errors [of e str_spec] str_spec_defined by (metis fst_conv)
  ultimately show ?thesis using s by blast
qed

definition sample_ops :: "str_op list" where
  "sample_ops = [Append ''a string that is longer than its inline buffer'', Erase 1 40, Insert 9 ''x'', Insert 1 ''bc'']"

lemma sample_ops_fit: "run_fits str_fits str_spec sample_ops []"
  by (simp add: sample_ops_def size_max_def)

theorem string_refines_witness:
  "\<exists>s. str_rep s ''abcuffer''  \<and> snd (run_log str_step sample_ops str_new) = s"
proof -
  have "snd (run_log str_spec sample_ops []) = ''abcuffer''" by (simp add: sample_ops_def)
  then show ?thesis using string_refines [OF sample_ops_fit] by auto
qed

text \<open>
  The constructor from an expiring \<open>std::string\<close> records a capacity one larger than the heap
  block allows: a string of at most 22 bytes is represented correctly, but for a longer one the next
  appended byte is written in place and its terminator lands behind the end of the allocation.
\<close>

theorem std_move_overflow:
  assumes "length cs + 1 < 2 ^ 32"
  shows "\<exists>s. str_from_std_move cs = Inr s \<and> str_bytes s = Inr cs \<and>
    (length cs \<le> sso_capacity \<longrightarrow> str_rep s cs) \<and>
    (length cs > sso_capacity \<longrightarrow> str_push_back s c = Inl OutOfBounds)"
proof (cases "length cs \<le> sso_capacity")
  case True
  then obtain s where "str_assign str_new cs = Inr s" "str_rep s cs"
    using str_assign_spec [OF str_rep_new] by blast
  moreover have "str_from_std_move cs = str_assign str_new cs"
    using True by (simp add: str_from_std_move_def str_assign_def str_new_def)
  ultimately show ?thesis
    using True load_holds [OF str_repD(3), of s cs 0 "length cs"] str_repD(1) [of s cs]
    by (simp add: str_bytes_def)
next
  case False
  let ?s = "Large (map Some (cs @ [NUL])) (length cs) (length cs + 1)"
  have s: "str_from_std_move cs = Inr ?s"
    using False assms by (simp add: str_from_std_move_def store_def Let_def)
  have "str_bytes ?s = Inr cs"
    using load_holds [OF holdsI [of "map Some (cs @ [NUL])" "cs @ [NUL]" "[]"], of 0 "length cs"]
    by (simp add: str_bytes_def)
  moreover have "str_push_back ?s c = Inl OutOfBounds"
    using assms by (simp add: str_push_back_def str_append_def checked_add_size_def size_max_def str_grow_def
      terminate_def store_def)
  ultimately show ?thesis using s False by auto
qed

theorem std_move_overflow_witness:
  "\<exists>s. str_from_std_move (replicate 23 CHR ''a'') = Inr s \<and> str_push_back s CHR ''b'' = Inl OutOfBounds"
  using std_move_overflow [of "replicate 23 CHR ''a''" "CHR ''b''"] by (simp add: sso_capacity_def) blast

text \<open>Appending a string to itself reads released storage as soon as it has to grow.\<close>

lemma append_self_dangling:
  assumes "str_rep s xs" and "xs \<noteq> []" and "str_capacity s < 2 * length xs" and "2 * length xs < size_max"
  shows "str_append_self s = Inl Dangling"
proof -
  have n: "length xs + length xs < size_max" using assms(4) by simp
  obtain s' where "str_reserve s (growth_capacity (length xs + length xs) (str_capacity s)) = Inr s'"
    using str_reserve_spec [OF assms(1)] growth_ok [OF n] by blast
  then show ?thesis
    using assms str_repD(1) [OF assms(1)] by (simp add: str_append_self_def checked_add_size_ok [OF n])
qed

subsection \<open>Copies, substrings and concatenation\<close>

lemma str_bytes_spec: "str_rep s xs \<Longrightarrow> str_bytes s = Inr xs"
  using load_holds [OF str_repD(3), of s xs 0 "length xs"] str_repD(1) [of s xs] by (simp add: str_bytes_def)

lemma str_of_spec: "\<exists>s. str_of cs = Inr s \<and> str_rep s cs"
  using str_assign_spec [OF str_rep_new, of cs] by (cases "cs = []") (simp_all add: str_of_def str_rep_new)

lemma str_copy_spec: "str_rep s xs \<Longrightarrow> \<exists>s'. str_copy s = Inr s' \<and> str_rep s' xs"
  using str_assign_spec [OF str_rep_new, of xs] by (simp add: str_copy_def str_bytes_spec)

lemma str_assign_copy_spec:
  "str_rep s xs \<Longrightarrow> str_rep t ys \<Longrightarrow> \<exists>s'. str_assign_copy s t = Inr s' \<and> str_rep s' ys"
  using str_assign_spec by (simp add: str_assign_copy_def str_bytes_spec)

lemma str_move_specs:
  "str_rep t ys \<Longrightarrow> str_rep (fst (str_move t)) ys \<and> str_rep (snd (str_move t)) []"
  "str_rep s xs \<Longrightarrow> str_rep t ys \<Longrightarrow>
   str_rep (fst (str_assign_move s t)) ys \<and> str_rep (snd (str_assign_move s t)) []"
  by (simp_all add: str_move_def str_swap_def str_rep_new str_assign_move_def str_clear_spec)

lemma str_substr_spec:
  assumes "str_rep s xs"
  shows "if pos \<le> length xs then \<exists>s'. str_substr s pos len = Inr s' \<and> str_rep s' (take len (drop pos xs))
    else str_substr s pos len = Inl (OutOfRange ''String substr out of range'')"
proof -
  note r = str_repD [OF assms]
  have "take (min len (length xs - pos)) (drop pos xs) = take len (drop pos xs)" by (simp add: min_def)
  then show ?thesis
    using load_holds [OF r(3), of pos "min len (length xs - pos)"] r(1) str_of_spec [of "take len (drop pos xs)"]
    by (auto simp: str_substr_def)
qed

lemma str_plus_spec:
  assumes "str_rep s xs" and "length xs + length cs < size_max"
  shows "\<exists>s'. str_plus s cs = Inr s' \<and> str_rep s' (xs @ cs)"
proof -
  have m: "(str_size s + length cs) mod 2 ^ 64 = length xs + length cs"
    using assms str_repD(1) [OF assms(1)] by (simp add: size_max_def)
  obtain r where r: "str_reserve str_new (length xs + length cs) = Inr r" "str_rep r []"
    using str_reserve_spec [OF str_rep_new assms(2)] by blast
  obtain r1 where r1: "str_append r xs = Inr r1" "str_rep r1 xs"
    using str_append_spec [OF r(2), of xs] assms(2) by auto
  obtain r2 where "str_append r1 cs = Inr r2" "str_rep r2 (xs @ cs)"
    using str_append_spec [OF r1(2) assms(2)] by auto
  then show ?thesis
    unfolding str_plus_def m by (simp add: r(1) r1(1) str_bytes_spec [OF assms(1)])
qed

subsection \<open>Comparison\<close>

abbreviation byte_less :: "(char \<times> char) set" where
  "byte_less \<equiv> {(a, b). byte a < byte b}"

lemma memcmp_0: "length xs = length ys \<Longrightarrow> memcmp xs ys = 0 \<longleftrightarrow> xs = ys"
  by (induction xs ys rule: memcmp.induct) auto

text \<open>The three-way result of comparing the common prefix and then the lengths.\<close>

lemma compare_lexord:
  fixes xs ys :: string
  defines "r \<equiv> length_tie (memcmp (take (length ys) xs) (take (length xs) ys)) (length xs) (length ys)"
  shows "(r = 0 \<longleftrightarrow> xs = ys) \<and> (r < 0 \<longleftrightarrow> (xs, ys) \<in> lexord byte_less)"
  unfolding r_def
proof (induction xs arbitrary: ys)
  case Nil
  then show ?case by (cases ys) (simp_all add: length_tie_def)
next
  case (Cons x xs)
  show ?case
  proof (cases ys)
    case Nil
    then show ?thesis by (simp add: length_tie_def)
  next
    case ys: (Cons y ys')
    then show ?thesis using Cons.IH [of ys'] by (auto simp: length_tie_def split: if_splits)
  qed
qed

text \<open>
  The comparison of two strings never faults and is the lexicographic order of their bytes:
  zero exactly for equal contents and negative exactly when the first is lexicographically smaller,
  whichever representations the two strings use.
\<close>

theorem str_compare_correct:
  assumes "str_rep s xs" and "str_rep t ys"
  shows "\<exists>r. str_compare s t = Inr r \<and> (r = 0 \<longleftrightarrow> xs = ys) \<and> (r < 0 \<longleftrightarrow> (xs, ys) \<in> lexord byte_less)"
proof -
  have "take (min (length xs) (length ys)) xs = take (length ys) xs"
    "take (min (length xs) (length ys)) ys = take (length xs) ys" by (simp_all add: min_def)
  then have "str_compare s t = Inr (length_tie (memcmp (take (length ys) xs) (take (length xs) ys)) (length xs) (length ys))"
    using load_holds [OF str_repD(3) [OF assms(1)], of 0 "min (length xs) (length ys)"]
      load_holds [OF str_repD(3) [OF assms(2)], of 0 "min (length xs) (length ys)"]
      str_repD(1) [OF assms(1)] str_repD(1) [OF assms(2)]
    by (simp add: str_compare_def)
  then show ?thesis using compare_lexord [of ys xs] by blast
qed

theorem str_compare_correct_witness:
  "\<exists>r. str_compare str_new str_new = Inr r \<and> r = 0"
  using str_compare_correct [OF str_rep_new str_rep_new] by blast

subsection \<open>Search\<close>

definition occurs_at :: "string \<Rightarrow> string \<Rightarrow> nat \<Rightarrow> bool" where
  "occurs_at xs cs i \<longleftrightarrow> i + length cs \<le> length xs \<and> take (length cs) (drop i xs) = cs"

lemma occurs_at_Cons: "occurs_at (x # xs) cs (Suc i) \<longleftrightarrow> occurs_at xs cs i"
  by (simp add: occurs_at_def)

lemma search_correct:
  assumes "cs \<noteq> []"
  shows "case search cs xs of None \<Rightarrow> \<forall>i. \<not> occurs_at xs cs i
    | Some i \<Rightarrow> occurs_at xs cs i \<and> (\<forall>j<i. \<not> occurs_at xs cs j)"
proof (induction xs)
  case Nil
  then show ?case using assms by (simp add: occurs_at_def)
next
  case (Cons x xs)
  have 0: "occurs_at (x # xs) cs 0 \<longleftrightarrow> take (length cs) (x # xs) = cs"
    by (auto simp: occurs_at_def dest: arg_cong [of _ _ length])
  have all: "(\<forall>i. \<not> occurs_at (x # xs) cs i) \<longleftrightarrow> \<not> occurs_at (x # xs) cs 0 \<and> (\<forall>i. \<not> occurs_at xs cs i)"
    by (metis occurs_at_Cons not0_implies_Suc)
  have bound: "(\<forall>j<Suc i. \<not> occurs_at (x # xs) cs j) \<longleftrightarrow> \<not> occurs_at (x # xs) cs 0 \<and> (\<forall>j<i. \<not> occurs_at xs cs j)" for i
    by (auto simp: All_less_Suc2 occurs_at_Cons)
  show ?case
  proof (cases "take (length cs) (x # xs) = cs")
    case True
    then show ?thesis using 0 by simp
  next
    case False
    then show ?thesis
      using Cons.IH 0 all bound by (simp add: occurs_at_Cons split: option.splits)
  qed
qed

lemma occurs_at_drop: "pos \<le> length xs \<Longrightarrow> occurs_at (drop pos xs) cs i \<longleftrightarrow> occurs_at xs cs (pos + i)"
  by (auto simp: occurs_at_def add.commute)

lemma rfind_loop_correct:
  assumes "holds b xs" and "m + length cs \<le> length xs + 1"
  shows "\<exists>r. rfind_loop b cs m = Inr r \<and>
    (case r of None \<Rightarrow> \<forall>i<m. \<not> occurs_at xs cs i
     | Some i \<Rightarrow> i < m \<and> occurs_at xs cs i \<and> (\<forall>j. i < j \<and> j < m \<longrightarrow> \<not> occurs_at xs cs j))"
  using assms(2)
proof (induction m)
  case (Suc i)
  let ?xs = "take (length cs) (drop i xs)"
  have l: "load b i (length cs) = Inr ?xs" using load_holds [OF assms(1)] Suc.prems by simp
  have o: "memcmp ?xs cs = 0 \<longleftrightarrow> occurs_at xs cs i"
    using memcmp_0 [of ?xs cs] Suc.prems by (simp add: occurs_at_def)
  show ?case
  proof (cases "occurs_at xs cs i")
    case True
    then show ?thesis using l o by auto
  next
    case False
    from Suc obtain r where r: "rfind_loop b cs i = Inr r" "case r of None \<Rightarrow> \<forall>j<i. \<not> occurs_at xs cs j
       | Some k \<Rightarrow> k < i \<and> occurs_at xs cs k \<and> (\<forall>j. k < j \<and> j < i \<longrightarrow> \<not> occurs_at xs cs j)" by auto
    then show ?thesis using l o False by (auto simp: less_Suc_eq split: option.splits)
  qed
qed simp

text \<open>
  \<open>find\<close> returns the first occurrence of a non-empty pattern at or after a position and \<open>rfind\<close> the
  last occurrence at or before one, and \<open>npos\<close> only if there is none; neither reads outside the string.
\<close>

theorem str_find_correct:
  assumes "str_rep s xs" and "cs \<noteq> []"
  shows "(\<exists>r. str_find s cs pos = Inr r \<and>
      (case r of None \<Rightarrow> \<forall>i\<ge>pos. \<not> occurs_at xs cs i
       | Some i \<Rightarrow> i \<ge> pos \<and> occurs_at xs cs i \<and> (\<forall>j. pos \<le> j \<and> j < i \<longrightarrow> \<not> occurs_at xs cs j))) \<and>
    (\<exists>r. str_rfind s cs pos = Inr r \<and>
      (case r of None \<Rightarrow> \<forall>i\<le>pos. \<not> occurs_at xs cs i
       | Some i \<Rightarrow> i \<le> pos \<and> occurs_at xs cs i \<and> (\<forall>j. i < j \<and> j \<le> pos \<longrightarrow> \<not> occurs_at xs cs j)))"
proof
  note r = str_repD [OF assms(1)]
  have far: "\<not> occurs_at xs cs i" if "length xs < i + length cs" for i
    using that by (simp add: occurs_at_def)
  show "\<exists>r. str_find s cs pos = Inr r \<and>
      (case r of None \<Rightarrow> \<forall>i\<ge>pos. \<not> occurs_at xs cs i
       | Some i \<Rightarrow> i \<ge> pos \<and> occurs_at xs cs i \<and> (\<forall>j. pos \<le> j \<and> j < i \<longrightarrow> \<not> occurs_at xs cs j))"
  proof (cases "pos + length cs \<le> length xs")
    case True
    then have f: "str_find s cs pos = Inr (map_option (\<lambda>i. pos + i) (search cs (drop pos xs)))"
      using load_holds [OF r(3), of pos "length xs - pos"] r(1) assms(2) by (simp add: str_find_def)
    have o: "occurs_at xs cs j \<longleftrightarrow> occurs_at (drop pos xs) cs (j - pos)" if "pos \<le> j" for j
      using occurs_at_drop [of pos xs cs "j - pos"] True that by simp
    show ?thesis
      using search_correct [OF assms(2), of "drop pos xs"] o
      by (auto simp: f split: option.splits)
  next
    case False
    then show ?thesis using far r(1) assms(2) by (auto simp: str_find_def)
  qed
  show "\<exists>r. str_rfind s cs pos = Inr r \<and>
      (case r of None \<Rightarrow> \<forall>i\<le>pos. \<not> occurs_at xs cs i
       | Some i \<Rightarrow> i \<le> pos \<and> occurs_at xs cs i \<and> (\<forall>j. i < j \<and> j \<le> pos \<longrightarrow> \<not> occurs_at xs cs j))"
  proof (cases "length cs \<le> length xs")
    case True
    let ?m = "min pos (length xs - length cs) + 1"
    have m: "?m + length cs \<le> length xs + 1" using True by simp
    have rf: "str_rfind s cs pos = rfind_loop (str_buf s) cs ?m"
      using True r(1) assms(2) by (simp only: str_rfind_def not_less [symmetric] if_False)
    from rfind_loop_correct [OF r(3) m] obtain q where
      q: "str_rfind s cs pos = Inr q" "case q of None \<Rightarrow> \<forall>i<?m. \<not> occurs_at xs cs i
       | Some i \<Rightarrow> i < ?m \<and> occurs_at xs cs i \<and> (\<forall>j. i < j \<and> j < ?m \<longrightarrow> \<not> occurs_at xs cs j)"
      unfolding rf by blast
    have "occurs_at xs cs j \<Longrightarrow> j \<le> pos \<Longrightarrow> j < ?m" for j using far [of j] True by linarith
    moreover have "j < ?m \<Longrightarrow> j \<le> pos" for j by linarith
    ultimately have
      "case q of None \<Rightarrow> \<forall>i\<le>pos. \<not> occurs_at xs cs i
       | Some i \<Rightarrow> i \<le> pos \<and> occurs_at xs cs i \<and> (\<forall>j. i < j \<and> j \<le> pos \<longrightarrow> \<not> occurs_at xs cs j)"
      using q(2) by (cases q) (simp_all only: option.case, blast+)
    then show ?thesis using q(1) by blast
  next
    case False
    then have "str_rfind s cs pos = Inr None" using r(1) assms(2) by (simp add: str_rfind_def)
    then show ?thesis using far False by auto
  qed
qed

theorem str_find_correct_witness:
  "\<exists>r. str_find str_new ''a'' 0 = Inr r"
  using str_find_correct [OF str_rep_new, of "''a''" 0] by blast

lemma str_affix_spec:
  assumes "str_rep s xs"
  shows "str_starts_with s cs = Inr (length cs \<le> length xs \<and> take (length cs) xs = cs)"
    "str_ends_with s cs = Inr (length cs \<le> length xs \<and> drop (length xs - length cs) xs = cs)"
proof -
  note r = str_repD [OF assms]
  show "str_starts_with s cs = Inr (length cs \<le> length xs \<and> take (length cs) xs = cs)"
    using load_holds [OF r(3), of 0 "length cs"] r(1) memcmp_0 [of "take (length cs) xs" cs]
    by (auto simp: str_starts_with_def)
  show "str_ends_with s cs = Inr (length cs \<le> length xs \<and> drop (length xs - length cs) xs = cs)"
    using load_holds [OF r(3), of "length xs - length cs" "length cs"] r(1)
      memcmp_0 [of "drop (length xs - length cs) xs" cs]
    by (auto simp: str_ends_with_def)
qed

end
