(* ===== verification/InputBuffer.thy ===== *)
theory InputBuffer
  imports SsoString
begin

unbundle bit_operations_syntax

text \<open>
  The line editor's buffer (\<open>cli/repl/input_buffer.hpp\<close>): a \<open>container::String\<close>, a byte cursor and two cached display
  widths. The bytes are edited through the model of theory \<open>SsoString\<close>, so that every read and write of the editor
  is one of the string's. The abstract editor is a pair of lists of UTF-8 characters, before and
  after the cursor.
\<close>

subsection \<open>UTF-8 helpers\<close>

definition is_ascii :: "char \<Rightarrow> bool" where
  "is_ascii c \<longleftrightarrow> byte c \<le> 0x7F"

definition is_continuation :: "char \<Rightarrow> bool" where
  "is_continuation c \<longleftrightarrow> byte c AND 0xC0 = 0x80"

definition is_leading :: "char \<Rightarrow> bool" where
  "is_leading c \<longleftrightarrow> byte c \<ge> 0xC0"

definition sequence_length :: "char \<Rightarrow> nat" where
  "sequence_length c =
     (if byte c \<le> 0x7F then 1
      else if byte c \<le> 0xDF then 2
      else if byte c \<le> 0xEF then 3
      else if byte c \<le> 0xF7 then 4
      else 1)"

function display_width :: "string \<Rightarrow> nat" where
  "display_width [] = 0"
| "display_width (c # cs) =
     (if is_continuation c then display_width cs
      else (if sequence_length c \<ge> 3 then 2 else 1) + display_width (drop (sequence_length c - 1) cs))"
  by pat_completeness auto
termination by (relation "measure length") auto

definition display_width_prefix :: "string \<Rightarrow> nat \<Rightarrow> nat" where
  "display_width_prefix cs n = display_width (take n cs)"

subsection \<open>The buffer\<close>

record input_buffer =
  ib_buf :: sstr
  ib_pos :: nat
  display_width_cache :: nat
  display_width_cache_valid :: bool
  cursor_col_cache :: nat
  cursor_col_cache_valid :: bool
  cursor_col_pos :: nat

definition input_buffer_new :: input_buffer where
  "input_buffer_new = \<lparr>ib_buf = str_new, ib_pos = 0, display_width_cache = 0, display_width_cache_valid = False,
     cursor_col_cache = 0, cursor_col_cache_valid = False, cursor_col_pos = 0\<rparr>"

definition invalidate_cache :: "input_buffer \<Rightarrow> input_buffer" where
  "invalidate_cache b = b\<lparr>display_width_cache_valid := False, cursor_col_cache_valid := False\<rparr>"

definition ib_display_width :: "input_buffer \<Rightarrow> fault + nat \<times> input_buffer" where
  "ib_display_width b =
     bind_sum (if display_width_cache_valid b then Inr b
               else bind_sum (str_bytes (ib_buf b)) (\<lambda>cs.
                    Inr (b\<lparr>display_width_cache := display_width cs, display_width_cache_valid := True\<rparr>))) (\<lambda>b.
     Inr (display_width_cache b, b))"

definition ib_cursor_col :: "input_buffer \<Rightarrow> fault + nat \<times> input_buffer" where
  "ib_cursor_col b =
     bind_sum (if \<not> cursor_col_cache_valid b \<or> cursor_col_pos b \<noteq> ib_pos b
               then bind_sum (str_bytes (ib_buf b)) (\<lambda>cs.
                    Inr (b\<lparr>cursor_col_cache := display_width_prefix cs (ib_pos b), cursor_col_cache_valid := True,
                           cursor_col_pos := ib_pos b\<rparr>))
               else Inr b) (\<lambda>b.
     Inr (cursor_col_cache b, b))"

subsection \<open>Character navigation\<close>

fun prev_loop :: "sstr \<Rightarrow> nat \<Rightarrow> fault + nat" where
  "prev_loop s 0 = Inr 0"
| "prev_loop s (Suc p) =
     bind_sum (str_cell s (Suc p)) (\<lambda>c. if is_continuation c then prev_loop s p else Inr (Suc p))"

definition prev_char_pos :: "sstr \<Rightarrow> nat \<Rightarrow> fault + nat" where
  "prev_char_pos s pos = (if pos = 0 then Inr 0 else prev_loop s (pos - 1))"

definition next_char_pos :: "sstr \<Rightarrow> nat \<Rightarrow> fault + nat" where
  "next_char_pos s pos =
     (if pos \<ge> str_size s then Inr (str_size s)
      else bind_sum (str_cell s pos) (\<lambda>c. Inr (min (pos + sequence_length c) (str_size s))))"

lemma prev_loop_le: "prev_loop s p = Inr q \<Longrightarrow> q \<le> p"
proof (induction p)
  case (Suc p)
  then show ?case by (fastforce simp: bind_sum_Inr split: if_splits)
qed simp

lemma prev_char_pos_less: "prev_char_pos s pos = Inr p \<Longrightarrow> pos \<noteq> 0 \<Longrightarrow> p < pos"
  using prev_loop_le [of s "pos - 1" p] by (auto simp: prev_char_pos_def)

text \<open>The two loops of \<open>backspace_word\<close>, back over characters whose first byte satisfies \<open>p\<close>.\<close>

function skip_back :: "sstr \<Rightarrow> (char \<Rightarrow> bool) \<Rightarrow> nat \<Rightarrow> fault + nat" where
  "skip_back s p pos =
     (if pos = 0 then Inr 0
      else bind_sum (prev_char_pos s pos) (\<lambda>prev.
           bind_sum (str_cell s prev) (\<lambda>c. if p c then skip_back s p prev else Inr pos)))"
  by auto
termination by (relation "measure (\<lambda>(s, p, pos). pos)") (auto dest: prev_char_pos_less)

declare skip_back.simps [simp del]

subsection \<open>Editing\<close>

definition ib_insert :: "input_buffer \<Rightarrow> string \<Rightarrow> fault + input_buffer" where
  "ib_insert b cs =
     bind_sum (str_insert (ib_buf b) (ib_pos b) cs) (\<lambda>s.
     Inr (invalidate_cache (b\<lparr>ib_buf := s, ib_pos := ib_pos b + length cs\<rparr>)))"

definition ib_insert_char :: "input_buffer \<Rightarrow> char \<Rightarrow> fault + input_buffer" where
  "ib_insert_char b c =
     bind_sum (str_insert (ib_buf b) (ib_pos b) [c]) (\<lambda>s.
     Inr (invalidate_cache (b\<lparr>ib_buf := s, ib_pos := ib_pos b + 1\<rparr>)))"

definition backspace :: "input_buffer \<Rightarrow> fault + bool \<times> input_buffer" where
  "backspace b =
     (if ib_pos b = 0 then Inr (False, b)
      else
        bind_sum (prev_char_pos (ib_buf b) (ib_pos b)) (\<lambda>new_pos.
        bind_sum (str_erase (ib_buf b) new_pos (ib_pos b - new_pos)) (\<lambda>s.
        Inr (True, invalidate_cache (b\<lparr>ib_buf := s, ib_pos := new_pos\<rparr>)))))"

definition delete_char :: "input_buffer \<Rightarrow> fault + bool \<times> input_buffer" where
  "delete_char b =
     (if ib_pos b \<ge> str_size (ib_buf b) then Inr (False, b)
      else
        bind_sum (next_char_pos (ib_buf b) (ib_pos b)) (\<lambda>e.
        bind_sum (str_erase (ib_buf b) (ib_pos b) (e - ib_pos b)) (\<lambda>s.
        Inr (True, invalidate_cache (b\<lparr>ib_buf := s\<rparr>)))))"

definition kill_to_end :: "input_buffer \<Rightarrow> fault + input_buffer" where
  "kill_to_end b =
     bind_sum (str_erase (ib_buf b) (ib_pos b) size_max) (\<lambda>s. Inr (invalidate_cache (b\<lparr>ib_buf := s\<rparr>)))"

definition kill_to_start :: "input_buffer \<Rightarrow> fault + input_buffer" where
  "kill_to_start b =
     bind_sum (str_erase (ib_buf b) 0 (ib_pos b)) (\<lambda>s. Inr (invalidate_cache (b\<lparr>ib_buf := s, ib_pos := 0\<rparr>)))"

definition backspace_word :: "input_buffer \<Rightarrow> fault + input_buffer" where
  "backspace_word b =
     bind_sum (skip_back (ib_buf b) (\<lambda>c. c = CHR '' '') (ib_pos b)) (\<lambda>p1.
     bind_sum (skip_back (ib_buf b) (\<lambda>c. c \<noteq> CHR '' '') p1) (\<lambda>p2.
     bind_sum (if p2 < ib_pos b then str_erase (ib_buf b) p2 (ib_pos b - p2) else Inr (ib_buf b)) (\<lambda>s.
     Inr (invalidate_cache (b\<lparr>ib_buf := s, ib_pos := p2\<rparr>)))))"

definition cursor_left :: "input_buffer \<Rightarrow> fault + bool \<times> input_buffer" where
  "cursor_left b =
     (if ib_pos b > 0 then
        bind_sum (prev_char_pos (ib_buf b) (ib_pos b)) (\<lambda>p.
        Inr (True, b\<lparr>ib_pos := p, cursor_col_cache_valid := False\<rparr>))
      else Inr (False, b))"

definition cursor_right :: "input_buffer \<Rightarrow> fault + bool \<times> input_buffer" where
  "cursor_right b =
     (if ib_pos b < str_size (ib_buf b) then
        bind_sum (next_char_pos (ib_buf b) (ib_pos b)) (\<lambda>p.
        Inr (True, b\<lparr>ib_pos := p, cursor_col_cache_valid := False\<rparr>))
      else Inr (False, b))"

definition cursor_home :: "input_buffer \<Rightarrow> input_buffer" where
  "cursor_home b = b\<lparr>ib_pos := 0, cursor_col_cache_valid := False\<rparr>"

definition cursor_end :: "input_buffer \<Rightarrow> input_buffer" where
  "cursor_end b = b\<lparr>ib_pos := str_size (ib_buf b), cursor_col_cache_valid := False\<rparr>"

definition ib_set :: "input_buffer \<Rightarrow> string \<Rightarrow> fault + input_buffer" where
  "ib_set b cs =
     bind_sum (str_append (str_clear (ib_buf b)) cs) (\<lambda>s.
     Inr (invalidate_cache (b\<lparr>ib_buf := s, ib_pos := str_size s\<rparr>)))"

definition ib_clear :: "input_buffer \<Rightarrow> input_buffer" where
  "ib_clear b = invalidate_cache (b\<lparr>ib_buf := str_clear (ib_buf b), ib_pos := 0\<rparr>)"

subsection \<open>Operations and the abstract editor\<close>

type_synonym uchar = string
type_synonym zipper = "uchar list \<times> uchar list"

text \<open>A whole character: a first byte that announces its length, then continuation bytes.\<close>

definition uchar_ok :: "uchar \<Rightarrow> bool" where
  "uchar_ok u \<longleftrightarrow> u \<noteq> [] \<and> \<not> is_continuation (hd u) \<and> length u = sequence_length (hd u) \<and>
     list_all is_continuation (tl u)"

datatype edit_op =
    EInsert "uchar list"
  | EInsertChar char
  | EBackspace
  | EDelete
  | EKillToEnd
  | EKillToStart
  | EBackspaceWord
  | ELeft
  | ERight
  | EHome
  | EEnd
  | ESet "uchar list"
  | EClear
  | EDisplayWidth
  | ECursorCol

fun edit_step :: "edit_op \<Rightarrow> input_buffer \<Rightarrow> fault + input_buffer" where
  "edit_step (EInsert us) b = ib_insert b (concat us)"
| "edit_step (EInsertChar c) b = ib_insert_char b c"
| "edit_step EBackspace b = map_sum id snd (backspace b)"
| "edit_step EDelete b = map_sum id snd (delete_char b)"
| "edit_step EKillToEnd b = kill_to_end b"
| "edit_step EKillToStart b = kill_to_start b"
| "edit_step EBackspaceWord b = backspace_word b"
| "edit_step ELeft b = map_sum id snd (cursor_left b)"
| "edit_step ERight b = map_sum id snd (cursor_right b)"
| "edit_step EHome b = Inr (cursor_home b)"
| "edit_step EEnd b = Inr (cursor_end b)"
| "edit_step (ESet us) b = ib_set b (concat us)"
| "edit_step EClear b = Inr (ib_clear b)"
| "edit_step EDisplayWidth b = map_sum id snd (ib_display_width b)"
| "edit_step ECursorCol b = map_sum id snd (ib_cursor_col b)"

definition drop_back :: "(uchar \<Rightarrow> bool) \<Rightarrow> uchar list \<Rightarrow> uchar list" where
  "drop_back p us = rev (dropWhile p (rev us))"

fun edit_spec :: "edit_op \<Rightarrow> zipper \<Rightarrow> fault + zipper" where
  "edit_spec (EInsert us) (ls, rs) = Inr (ls @ us, rs)"
| "edit_spec (EInsertChar c) (ls, rs) = Inr (ls @ [[c]], rs)"
| "edit_spec EBackspace (ls, rs) = Inr (butlast ls, rs)"
| "edit_spec EDelete (ls, rs) = Inr (ls, tl rs)"
| "edit_spec EKillToEnd (ls, rs) = Inr (ls, [])"
| "edit_spec EKillToStart (ls, rs) = Inr ([], rs)"
| "edit_spec EBackspaceWord (ls, rs) =
     Inr (drop_back (\<lambda>u. hd u \<noteq> CHR '' '') (drop_back (\<lambda>u. hd u = CHR '' '') ls), rs)"
| "edit_spec ELeft (ls, rs) = Inr (if ls = [] then (ls, rs) else (butlast ls, last ls # rs))"
| "edit_spec ERight (ls, rs) = Inr (case rs of [] \<Rightarrow> (ls, rs) | u # us \<Rightarrow> (ls @ [u], us))"
| "edit_spec EHome (ls, rs) = Inr ([], ls @ rs)"
| "edit_spec EEnd (ls, rs) = Inr (ls @ rs, [])"
| "edit_spec (ESet us) (ls, rs) = Inr (us, [])"
| "edit_spec EClear (ls, rs) = Inr ([], [])"
| "edit_spec EDisplayWidth (ls, rs) = Inr (ls, rs)"
| "edit_spec ECursorCol (ls, rs) = Inr (ls, rs)"

text \<open>The caller inserts whole characters, single bytes only if they are ASCII, and stays within the address space.\<close>

fun edit_fits :: "edit_op \<Rightarrow> zipper \<Rightarrow> bool" where
  "edit_fits (EInsert us) (ls, rs) \<longleftrightarrow>
     list_all uchar_ok us \<and> length (concat (ls @ rs)) + length (concat us) < size_max"
| "edit_fits (EInsertChar c) (ls, rs) \<longleftrightarrow> is_ascii c \<and> length (concat (ls @ rs)) + 1 < size_max"
| "edit_fits (ESet us) (ls, rs) \<longleftrightarrow> list_all uchar_ok us \<and> length (concat us) < size_max"
| "edit_fits _ (ls, rs) \<longleftrightarrow> True"

subsection \<open>Navigation on whole characters\<close>

lemma str_cell_spec:
  assumes "str_rep s xs" and "i < length xs"
  shows "str_cell s i = Inr (xs ! i)"
  using load_holds [OF str_repD(3) [OF assms(1)], of i 1] assms(2)
  by (simp add: str_cell_def take_Suc hd_drop_conv_nth)

lemma sequence_length_pos [simp]: "sequence_length c > 0"
  by (simp add: sequence_length_def)

lemma uchar_okD:
  assumes "uchar_ok u"
  shows "u \<noteq> []" "\<not> is_continuation (u ! 0)" "length u = sequence_length (u ! 0)"
    "0 < k \<Longrightarrow> k < length u \<Longrightarrow> is_continuation (u ! k)"
proof -
  obtain c cs where u: "u = c # cs" using assms by (cases u) (simp_all add: uchar_ok_def)
  then show "u \<noteq> []" "\<not> is_continuation (u ! 0)" "length u = sequence_length (u ! 0)"
    using assms by (simp_all add: uchar_ok_def)
  show "is_continuation (u ! k)" if "0 < k" "k < length u"
    using assms that u by (cases k) (simp_all add: uchar_ok_def list_all_iff)
qed

lemma uchar_ok_ascii: "is_ascii c \<Longrightarrow> uchar_ok [c]"
proof -
  assume "is_ascii c"
  then have "byte c < 2 ^ 7" by (simp add: is_ascii_def)
  then have no_bit: "\<not> bit (byte c) 7" by (simp add: bit_iff_odd)
  have "byte c AND 0xC0 \<noteq> 0x80"
  proof
    assume "byte c AND 0xC0 = 0x80"
    moreover have "bit (0x80 :: nat) 7" by (simp add: bit_iff_odd)
    ultimately have "bit (byte c AND 0xC0) 7" by simp
    with no_bit show False by (simp add: bit_and_iff)
  qed
  with \<open>is_ascii c\<close> show ?thesis by (simp add: uchar_ok_def is_continuation_def sequence_length_def is_ascii_def)
qed

lemma prev_loop_char:
  assumes "str_rep s (a @ u @ c)" and "uchar_ok u" and "k < length u"
  shows "prev_loop s (length a + k) = Inr (length a)"
  using assms(3)
proof (induction k)
  case 0
  then show ?case
    using str_cell_spec [OF assms(1), of "length a"] uchar_okD [OF assms(2)]
    by (cases "length a") (simp_all add: nth_append)
next
  case (Suc k)
  then have "str_cell s (length a + Suc k) = Inr (u ! Suc k)"
    using str_cell_spec [OF assms(1), of "length a + Suc k"] by (simp add: nth_append)
  then show ?case using Suc uchar_okD(4) [OF assms(2), of "Suc k"] by simp
qed

lemma prev_char_pos_char:
  assumes "str_rep s (a @ u @ c)" and "uchar_ok u"
  shows "prev_char_pos s (length a + length u) = Inr (length a)"
proof -
  obtain n where "length u = Suc n" using uchar_okD(1) [OF assms(2)] by (cases u) auto
  then show ?thesis
    using prev_loop_char [OF assms, of "length u - 1"] by (simp add: prev_char_pos_def)
qed

lemma next_char_pos_char:
  assumes "str_rep s (a @ u @ c)" and "uchar_ok u"
  shows "next_char_pos s (length a) = Inr (length a + length u)"
proof -
  note u = uchar_okD [OF assms(2)]
  have "str_cell s (length a) = Inr (u ! 0)"
    using str_cell_spec [OF assms(1), of "length a"] u(1) by (simp add: nth_append)
  then show ?thesis
    using u(1,3) str_repD(1) [OF assms(1)] by (simp add: next_char_pos_def)
qed

text \<open>The first byte of the character before the cursor, as \<open>backspace_word\<close> reads it.\<close>

lemma skip_back_chars:
  assumes "str_rep s (concat us @ c)" and "list_all uchar_ok us"
  shows "skip_back s p (length (concat us)) = Inr (length (concat (drop_back (\<lambda>u. p (hd u)) us)))"
  using assms
proof (induction us arbitrary: c rule: rev_induct)
  case Nil
  then show ?case by (simp add: skip_back.simps drop_back_def)
next
  case (snoc u us)
  have ok: "uchar_ok u" "list_all uchar_ok us" using snoc.prems by simp_all
  have r: "str_rep s (concat us @ u @ c)" using snoc.prems by simp
  have len: "length (concat (us @ [u])) = length (concat us) + length u" "length u > 0"
    using uchar_okD(1) [OF ok(1)] by simp_all
  have c: "str_cell s (length (concat us)) = Inr (hd u)"
    using str_cell_spec [OF r, of "length (concat us)"] len(2) by (simp add: nth_append hd_conv_nth)
  show ?case
    using snoc.IH [OF r ok(2)] len
    by (simp add: skip_back.simps [of s p "length (concat us) + length u"] prev_char_pos_char [OF r ok(1)] c drop_back_def)
qed

lemma display_width_uchar:
  assumes "uchar_ok u"
  shows "display_width (u @ cs) = (if sequence_length (hd u) \<ge> 3 then 2 else 1) + display_width cs"
proof -
  obtain x xs where u: "u = x # xs" using uchar_okD(1) [OF assms] by (cases u) auto
  then have "sequence_length x = Suc (length xs)" using assms by (simp add: uchar_ok_def)
  then show ?thesis using u assms by (simp add: uchar_ok_def)
qed

text \<open>Two columns for a character of three or more bytes, and else one.\<close>

definition uchar_width :: "uchar \<Rightarrow> nat" where
  "uchar_width u = (if length u \<ge> 3 then 2 else 1)"

lemma display_width_chars: "list_all uchar_ok us \<Longrightarrow> display_width (concat us) = sum_list (map uchar_width us)"
  by (induction us) (simp_all add: display_width_uchar uchar_width_def uchar_ok_def)

subsection \<open>Refinement\<close>

text \<open>The caches, when valid, hold what would be computed.\<close>

definition caches_ok :: "input_buffer \<Rightarrow> zipper \<Rightarrow> bool" where
  "caches_ok b z \<longleftrightarrow>
     (display_width_cache_valid b \<longrightarrow> display_width_cache b = display_width (concat (fst z @ snd z))) \<and>
     (cursor_col_cache_valid b \<and> cursor_col_pos b = ib_pos b \<longrightarrow> cursor_col_cache b = display_width (concat (fst z)))"

definition ib_rep :: "input_buffer \<Rightarrow> zipper \<Rightarrow> bool" where
  "ib_rep b z \<longleftrightarrow>
     str_rep (ib_buf b) (concat (fst z) @ concat (snd z)) \<and> ib_pos b = length (concat (fst z)) \<and>
     list_all uchar_ok (fst z) \<and> list_all uchar_ok (snd z) \<and>
     length (concat (fst z)) + length (concat (snd z)) < size_max \<and> caches_ok b z"

lemma ib_rep_new: "ib_rep input_buffer_new ([], [])"
  by (simp add: ib_rep_def input_buffer_new_def str_rep_new caches_ok_def size_max_def)

lemma ib_repD:
  assumes "ib_rep b (ls, rs)"
  shows "str_rep (ib_buf b) (concat ls @ concat rs)" "ib_pos b = length (concat ls)"
    "list_all uchar_ok ls" "list_all uchar_ok rs" "length (concat ls) + length (concat rs) < size_max"
    "caches_ok b (ls, rs)" "str_size (ib_buf b) = length (concat ls) + length (concat rs)"
  using assms str_repD(1) [of "ib_buf b" "concat ls @ concat rs"] by (simp_all add: ib_rep_def)

text \<open>Every edit replaces the string and the position and drops the caches.\<close>

lemma ib_repI:
  assumes "str_rep s (concat ls @ concat rs)" and "n = length (concat ls)" and "list_all uchar_ok ls"
    and "list_all uchar_ok rs" and "length (concat ls) + length (concat rs) < size_max"
  shows "ib_rep (invalidate_cache (b\<lparr>ib_buf := s, ib_pos := n\<rparr>)) (ls, rs)"
  using assms by (simp add: ib_rep_def caches_ok_def invalidate_cache_def)

lemma ib_repI_pos:
  assumes "str_rep s (concat ls @ concat rs)" and "ib_pos b = length (concat ls)" and "list_all uchar_ok ls"
    and "list_all uchar_ok rs" and "length (concat ls) + length (concat rs) < size_max"
  shows "ib_rep (invalidate_cache (b\<lparr>ib_buf := s\<rparr>)) (ls, rs)"
  using assms by (simp add: ib_rep_def caches_ok_def invalidate_cache_def)

lemma ib_rep_move:
  assumes "ib_rep b (ls, rs)" and "ls @ rs = ls' @ rs'" and "n = length (concat ls')"
  shows "ib_rep (b\<lparr>ib_pos := n, cursor_col_cache_valid := False\<rparr>) (ls', rs')"
proof -
  have c: "concat ls @ concat rs = concat ls' @ concat rs'" using arg_cong [OF assms(2), of concat] by simp
  have "list_all uchar_ok (ls' @ rs')" using ib_repD(3,4) [OF assms(1)] assms(2) by (metis list_all_append)
  moreover have "length (concat ls') + length (concat rs') < size_max"
    using ib_repD(5) [OF assms(1)] arg_cong [OF c, of length] by simp
  ultimately show ?thesis
    using ib_repD(1,6) [OF assms(1)] assms(3) c arg_cong [OF assms(2), of concat] by (simp add: ib_rep_def caches_ok_def)
qed

lemma ib_insert_spec:
  assumes "ib_rep b (ls, rs)" and "list_all uchar_ok us"
    and "length (concat ls) + length (concat rs) + length (concat us) < size_max"
  shows "\<exists>b'. ib_insert b (concat us) = Inr b' \<and> ib_rep b' (ls @ us, rs)"
proof -
  note r = ib_repD [OF assms(1)]
  have "length (concat ls @ concat rs) + length (concat us) < size_max" using assms(3) by simp
  then obtain s where s: "str_insert (ib_buf b) (ib_pos b) (concat us) = Inr s" "str_rep s (concat ls @ concat us @ concat rs)"
    using str_insert_spec [OF r(1), of "ib_pos b" "concat us"] r(2) by auto
  then show ?thesis
    using ib_repI [of s "ls @ us" rs "ib_pos b + length (concat us)" b] r assms(2,3) by (simp add: ib_insert_def)
qed

lemma backspace_spec:
  assumes "ib_rep b (ls, rs)"
  shows "\<exists>b'. backspace b = Inr (ls \<noteq> [], b') \<and> ib_rep b' (butlast ls, rs)"
proof (cases ls rule: rev_cases)
  case Nil
  then show ?thesis using assms ib_repD(2) [OF assms] by (simp add: backspace_def)
next
  case (snoc us u)
  note r = ib_repD [OF assms]
  have ok: "uchar_ok u" using r(3) snoc by simp
  have s: "str_rep (ib_buf b) (concat us @ u @ concat rs)" "ib_pos b = length (concat us) + length u" using r(1,2) snoc by simp_all
  obtain s' where "str_erase (ib_buf b) (length (concat us)) (length u) = Inr s'" "str_rep s' (concat us @ concat rs)"
    using str_erase_spec [OF s(1), of "length (concat us)" "length u"] by auto
  then show ?thesis
    using ib_repI [of s' us rs "length (concat us)" b] r(3-5) snoc s(2) prev_char_pos_char [OF s(1) ok] uchar_okD(1) [OF ok]
    by (simp add: backspace_def)
qed

lemma delete_char_spec:
  assumes "ib_rep b (ls, rs)"
  shows "\<exists>b'. delete_char b = Inr (rs \<noteq> [], b') \<and> ib_rep b' (ls, tl rs)"
proof (cases rs)
  case Nil
  then show ?thesis using assms ib_repD(2,7) [OF assms] by (simp add: delete_char_def)
next
  case (Cons u us)
  note r = ib_repD [OF assms]
  have ok: "uchar_ok u" using r(4) Cons by simp
  have s: "str_rep (ib_buf b) (concat ls @ u @ concat us)" using r(1) Cons by simp
  obtain s' where "str_erase (ib_buf b) (length (concat ls)) (length u) = Inr s'" "str_rep s' (concat ls @ concat us)"
    using str_erase_spec [OF s, of "length (concat ls)" "length u"] by auto
  then show ?thesis
    using ib_repI_pos [of s' ls us b] r(2-5,7) Cons next_char_pos_char [OF s ok] uchar_okD(1) [OF ok]
    by (simp add: delete_char_def)
qed

lemma kill_specs:
  assumes "ib_rep b (ls, rs)"
  shows "\<exists>b'. kill_to_end b = Inr b' \<and> ib_rep b' (ls, [])"
    "\<exists>b'. kill_to_start b = Inr b' \<and> ib_rep b' ([], rs)"
proof -
  note r = ib_repD [OF assms]
  obtain s where "str_erase (ib_buf b) (length (concat ls)) size_max = Inr s" "str_rep s (concat ls)"
    using str_erase_spec [OF r(1), of "length (concat ls)" size_max] r(5) by auto
  then show "\<exists>b'. kill_to_end b = Inr b' \<and> ib_rep b' (ls, [])"
    using ib_repI_pos [of s ls "[]" b] r(2,3,5) by (simp add: kill_to_end_def)
  obtain s where "str_erase (ib_buf b) 0 (length (concat ls)) = Inr s" "str_rep s (concat rs)"
    using str_erase_spec [OF r(1), of 0 "length (concat ls)"] by auto
  then show "\<exists>b'. kill_to_start b = Inr b' \<and> ib_rep b' ([], rs)"
    using ib_repI [of s "[]" rs 0 b] r(2,4,5) by (simp add: kill_to_start_def)
qed

lemma drop_back_split: "\<exists>us. ls = drop_back p ls @ us"
  by (metis drop_back_def rev_append rev_rev_ident takeWhile_dropWhile_id)

lemma backspace_word_spec:
  assumes "ib_rep b (ls, rs)"
  shows "\<exists>b'. backspace_word b = Inr b' \<and>
    ib_rep b' (drop_back (\<lambda>u. hd u \<noteq> CHR '' '') (drop_back (\<lambda>u. hd u = CHR '' '') ls), rs)"
proof -
  note r = ib_repD [OF assms]
  define l1 where "l1 = drop_back (\<lambda>u. hd u = CHR '' '') ls"
  define l2 where "l2 = drop_back (\<lambda>u. hd u \<noteq> CHR '' '') l1"
  obtain m1 where m1: "ls = l1 @ m1" using drop_back_split l1_def by metis
  obtain m2 where m2: "l1 = l2 @ m2" using drop_back_split l2_def by metis
  have s1: "skip_back (ib_buf b) (\<lambda>c. c = CHR '' '') (ib_pos b) = Inr (length (concat l1))"
    using skip_back_chars [OF r(1,3)] r(2) by (simp add: l1_def)
  have "str_rep (ib_buf b) (concat l1 @ concat (m1 @ rs))" using r(1) m1 by simp
  then have s2: "skip_back (ib_buf b) (\<lambda>c. c \<noteq> CHR '' '') (length (concat l1)) = Inr (length (concat l2))"
    using skip_back_chars [of _ l1] r(3) m1 by (simp add: l2_def)
  have all: "concat ls = concat l2 @ concat (m2 @ m1)" using m1 m2 by simp
  then have "str_rep (ib_buf b) (concat l2 @ concat (m2 @ m1) @ concat rs)" using r(1) by simp
  from str_erase_spec [OF this, of "length (concat l2)" "length (concat (m2 @ m1))"]
  obtain s where s: "str_erase (ib_buf b) (length (concat l2)) (length (concat (m2 @ m1))) = Inr s" "str_rep s (concat l2 @ concat rs)"
    by auto
  have "\<exists>s. (if length (concat l2) < ib_pos b then str_erase (ib_buf b) (length (concat l2)) (ib_pos b - length (concat l2)) else Inr (ib_buf b)) = Inr s \<and>
      str_rep s (concat l2 @ concat rs)"
    using s r(1,2) all by (cases "concat (m2 @ m1) = []") (auto simp del: concat_append)
  then obtain s where "(if length (concat l2) < ib_pos b then str_erase (ib_buf b) (length (concat l2)) (ib_pos b - length (concat l2)) else Inr (ib_buf b)) = Inr s"
      "str_rep s (concat l2 @ concat rs)" by blast
  moreover have "list_all uchar_ok l2" using r(3) m1 m2 by simp
  ultimately show ?thesis
    using ib_repI [of s l2 rs "length (concat l2)" b] r(4,5) all unfolding backspace_word_def
    by (simp add: s1 s2 flip: l1_def l2_def)
qed

lemma cursor_left_spec:
  assumes "ib_rep b (ls, rs)"
  shows "\<exists>b'. cursor_left b = Inr (ls \<noteq> [], b') \<and>
    ib_rep b' (if ls = [] then (ls, rs) else (butlast ls, last ls # rs))"
proof (cases ls rule: rev_cases)
  case Nil
  then show ?thesis using assms ib_repD(2) [OF assms] by (simp add: cursor_left_def)
next
  case (snoc us u)
  note r = ib_repD [OF assms]
  have ok: "uchar_ok u" using r(3) snoc by simp
  have s: "str_rep (ib_buf b) (concat us @ u @ concat rs)" "ib_pos b = length (concat us) + length u" using r(1,2) snoc by simp_all
  then show ?thesis
    using ib_rep_move [OF assms, of us "u # rs" "length (concat us)"] snoc prev_char_pos_char [OF s(1) ok] uchar_okD(1) [OF ok]
    by (simp add: cursor_left_def)
qed

lemma cursor_right_spec:
  assumes "ib_rep b (ls, rs)"
  shows "\<exists>b'. cursor_right b = Inr (rs \<noteq> [], b') \<and>
    ib_rep b' (case rs of [] \<Rightarrow> (ls, rs) | u # us \<Rightarrow> (ls @ [u], us))"
proof (cases rs)
  case Nil
  then show ?thesis using assms ib_repD(2,7) [OF assms] by (simp add: cursor_right_def)
next
  case (Cons u us)
  note r = ib_repD [OF assms]
  have ok: "uchar_ok u" using r(4) Cons by simp
  have s: "str_rep (ib_buf b) (concat ls @ u @ concat us)" using r(1) Cons by simp
  then show ?thesis
    using ib_rep_move [OF assms, of "ls @ [u]" us "length (concat ls) + length u"] Cons r(2,7)
      next_char_pos_char [OF s ok] uchar_okD(1) [OF ok]
    by (simp add: cursor_right_def)
qed

lemma cursor_ends:
  assumes "ib_rep b (ls, rs)"
  shows "ib_rep (cursor_home b) ([], ls @ rs)" "ib_rep (cursor_end b) (ls @ rs, [])"
  using ib_rep_move [OF assms, of "[]" "ls @ rs" 0] ib_rep_move [OF assms, of "ls @ rs" "[]" "length (concat (ls @ rs))"]
    ib_repD(7) [OF assms]
  by (simp_all add: cursor_home_def cursor_end_def)

lemma ib_set_spec:
  assumes "ib_rep b z" and "list_all uchar_ok us" and "length (concat us) < size_max"
  shows "\<exists>b'. ib_set b (concat us) = Inr b' \<and> ib_rep b' (us, [])"
proof -
  have "str_rep (str_clear (ib_buf b)) []" using assms(1) str_clear_spec by (auto simp: ib_rep_def)
  then obtain s where "str_append (str_clear (ib_buf b)) (concat us) = Inr s" "str_rep s (concat us)"
    using str_append_spec [of "str_clear (ib_buf b)" "[]" "concat us"] assms(3) by auto
  then show ?thesis
    using ib_repI [of s us "[]" "str_size s" b] assms(2,3) str_repD(1) [of s "concat us"] by (simp add: ib_set_def)
qed

lemma ib_clear_spec: "ib_rep b z \<Longrightarrow> ib_rep (ib_clear b) ([], [])"
  using ib_repI [of "str_clear (ib_buf b)" "[]" "[]" 0 b] str_clear_spec [of "ib_buf b"]
  by (auto simp: ib_clear_def ib_rep_def size_max_def)

lemma ib_width_specs:
  assumes "ib_rep b (ls, rs)"
  shows "\<exists>b'. ib_display_width b = Inr (display_width (concat (ls @ rs)), b') \<and> ib_rep b' (ls, rs)"
    "\<exists>b'. ib_cursor_col b = Inr (display_width (concat ls), b') \<and> ib_rep b' (ls, rs)"
  using assms ib_repD [OF assms] str_bytes_spec [OF ib_repD(1) [OF assms]]
  by (auto simp: ib_display_width_def ib_cursor_col_def display_width_prefix_def ib_rep_def caches_ok_def)

lemma map_sum_snd: "x = Inr (r, y) \<Longrightarrow> map_sum id snd x = Inr y"
  by simp

lemma edit_step_refines:
  assumes "ib_rep b z" and "edit_fits op z"
  shows "case edit_spec op z of Inl e \<Rightarrow> edit_step op b = Inl e | Inr y \<Rightarrow> \<exists>b'. edit_step op b = Inr b' \<and> ib_rep b' y"
proof -
  obtain ls rs where z: "z = (ls, rs)" by (cases z)
  note r = assms(1) [unfolded z]
  show ?thesis
  proof (cases op)
    case (EInsertChar c)
    then show ?thesis
      using ib_insert_spec [OF r, of "[[c]]"] assms(2) uchar_ok_ascii [of c] z
      by (simp add: ib_insert_def ib_insert_char_def)
  next
    case EBackspace
    then show ?thesis using backspace_spec [OF r] z by auto
  next
    case EDelete
    then show ?thesis using delete_char_spec [OF r] z by auto
  next
    case ELeft
    then show ?thesis using cursor_left_spec [OF r] z by auto
  next
    case ERight
    then show ?thesis using cursor_right_spec [OF r] z by auto
  next
    case EDisplayWidth
    then show ?thesis using ib_width_specs(1) [OF r] z by auto
  next
    case ECursorCol
    then show ?thesis using ib_width_specs(2) [OF r] z by auto
  qed (use assms r z ib_insert_spec [OF r] kill_specs [OF r] backspace_word_spec [OF r] cursor_ends [OF r]
      ib_set_spec [OF r] ib_clear_spec [OF r] in \<open>simp_all add: add.assoc\<close>)
qed

interpretation ib: simulation ib_rep edit_fits edit_step edit_spec
  by unfold_locales (rule edit_step_refines)

text \<open>
  C30: driven by any sequence of key strokes that insert whole UTF-8 characters, the byte buffer is
  the editor on characters: backspace, delete, word deletion and cursor movement act on whole
  characters, the cursor always stands between two of them, no access leaves the string, and both
  cached widths are the number of columns of the characters they stand for.
\<close>

theorem editor_refines:
  assumes "run_fits edit_fits edit_spec ops ([], [])"
    and "snd (run_log edit_spec ops ([], [])) = (ls, rs)"
  shows "\<exists>b b1 b2. run_log edit_step ops input_buffer_new = (replicate (length ops) None, b) \<and>
    str_bytes (ib_buf b) = Inr (concat (ls @ rs)) \<and> ib_pos b = length (concat ls) \<and>
    ib_display_width b = Inr (sum_list (map uchar_width (ls @ rs)), b1) \<and>
    ib_cursor_col b = Inr (sum_list (map uchar_width ls), b2)"
proof -
  have log: "fst (run_log edit_spec ops z) = replicate (length ops) None" for z
  proof (induction ops arbitrary: z)
    case (Cons op ops)
    obtain ls rs where "z = (ls, rs)" by (cases z)
    with Cons show ?case by (cases op) (simp_all add: split_beta Let_def)
  qed simp
  obtain b where b: "run_log edit_step ops input_buffer_new = (replicate (length ops) None, b)" "ib_rep b (ls, rs)"
    using ib.run_law [OF ib_rep_new assms(1)] assms(2) log by auto
  note r = ib_repD [OF b(2)]
  have "list_all uchar_ok (ls @ rs)" using r(3,4) by simp
  then show ?thesis
    using b(1) r(2) str_bytes_spec [OF r(1)] ib_width_specs [OF b(2)]
      display_width_chars [of "ls @ rs"] display_width_chars [OF r(3)] by auto
qed

text \<open>A two-column character (three bytes) between two ASCII letters.\<close>

definition sample_edit :: "edit_op list" where
  "sample_edit = [EInsertChar CHR ''a'', EInsert [[CHR 0xE4, CHR 0xBD, CHR 0xA0]], EInsertChar CHR ''b'', ELeft, EBackspace]"

lemma sample_edit_fits: "run_fits edit_fits edit_spec sample_edit ([], [])"
  by (simp add: sample_edit_def uchar_ok_def is_ascii_def is_continuation_def sequence_length_def byte_def size_max_def)

theorem editor_refines_witness:
  "\<exists>b. run_log edit_step sample_edit input_buffer_new = (replicate 5 None, b) \<and>
     str_bytes (ib_buf b) = Inr ''ab'' \<and> ib_pos b = 1"
proof -
  have "snd (run_log edit_spec sample_edit ([], [])) = ([''a''], [''b''])" by (simp add: sample_edit_def)
  from editor_refines [OF sample_edit_fits this] show ?thesis by (auto simp: sample_edit_def eval_nat_numeral)
qed

end
