(* ===== verification/Cooldown.thy ===== *)
theory Cooldown
  imports HashMap SsoString
begin

text \<open>
  Provider errors (\<open>llm/provider_error.hpp\<close>) and the per-model cooldown tracker (\<open>llm/cooldown_tracker.hpp\<close>,
  \<open>llm/cooldown_tracker.cpp\<close>). The tracker's table is the model of \<open>container::Map\<close> in theory \<open>HashMap\<close>, with the hash
  function as a parameter. Points in time are nanoseconds of the steady clock, passed in as \<open>now\<close>. The
  arithmetic of \<open>compute_cooldown\<close> is on 32-bit \<open>int\<close>: a shift by 32 or more and a product out of range are
  undefined and have the value \<open>Inl Overflow\<close>. Log output is left out; the mutex makes every
  operation atomic.
\<close>

datatype provider_error_kind =
    RateLimit | AuthError | BillingError | Transient | ModelNotFound | Timeout
  | ContextOverflow | BadRequest | Unknown

fun provider_error_kind_str :: "provider_error_kind \<Rightarrow> string" where
  "provider_error_kind_str RateLimit = ''rate_limit''"
| "provider_error_kind_str AuthError = ''auth_error''"
| "provider_error_kind_str BillingError = ''billing_error''"
| "provider_error_kind_str Transient = ''transient''"
| "provider_error_kind_str ModelNotFound = ''model_not_found''"
| "provider_error_kind_str Timeout = ''timeout''"
| "provider_error_kind_str ContextOverflow = ''context_overflow''"
| "provider_error_kind_str BadRequest = ''bad_request''"
| "provider_error_kind_str Unknown = ''unknown''"

definition classify_http_error :: "int \<Rightarrow> string \<Rightarrow> provider_error_kind" where
  "classify_http_error status body =
     (if status = 429 then RateLimit
      else if status = 401 \<or> status = 403 then AuthError
      else if status = 402 then BillingError
      else if status = 404 then (if search ''model'' body \<noteq> None then ModelNotFound else BadRequest)
      else if status = 400 then (if search ''context_length'' body \<noteq> None then ContextOverflow else BadRequest)
      else if status \<ge> 500 then Transient
      else Unknown)"

fun is_retryable_error :: "provider_error_kind \<Rightarrow> bool" where
  "is_retryable_error RateLimit = True"
| "is_retryable_error Transient = True"
| "is_retryable_error Timeout = True"
| "is_retryable_error ModelNotFound = True"
| "is_retryable_error _ = False"

definition detect_context_overflow :: "int \<Rightarrow> string \<Rightarrow> bool" where
  "detect_context_overflow status body \<longleftrightarrow>
     (if status \<noteq> 400 then False else search ''context_length'' body \<noteq> None)"

subsection \<open>The tracker\<close>

record cd_state =
  consecutive_failures :: int
  last_error :: provider_error_kind
  cooldown_until :: int
  last_failure_at :: int
  last_probe_at :: int

type_synonym tracker = "(string, cd_state) hmap"

datatype tracker_error = Overflow | NoTable

definition cd_new :: cd_state where
  "cd_new = \<lparr>consecutive_failures = 0, last_error = Unknown, cooldown_until = 0, last_failure_at = 0, last_probe_at = 0\<rparr>"

definition second :: int where
  "second = 10 ^ 9"

definition k_probe_interval :: int where
  "k_probe_interval = 30 * second"

definition k_failure_window_decay :: int where
  "k_failure_window_decay = 24 * 3600 * second"

fun base_cooldown :: "provider_error_kind \<Rightarrow> int" where
  "base_cooldown RateLimit = 10"
| "base_cooldown Transient = 5"
| "base_cooldown Timeout = 3"
| "base_cooldown AuthError = 60"
| "base_cooldown BillingError = 300"
| "base_cooldown _ = 30"

text \<open>The result is in seconds. Shifting into the sign bit (\<open>1 << 31\<close>) is defined and negative.\<close>

definition compute_cooldown :: "provider_error_kind \<Rightarrow> int \<Rightarrow> tracker_error + int" where
  "compute_cooldown kind failure_count =
     (let k = failure_count - 1 in
      if 0 \<le> k \<and> k < 32 then
        (let p = base_cooldown kind * (if k = 31 then - (2 ^ 31) else 2 ^ nat k)
         in if in_int p then Inr (min p 300) else Inl Overflow)
      else Inl Overflow)"

definition find_state :: "(string \<Rightarrow> nat) \<Rightarrow> tracker \<Rightarrow> string \<Rightarrow> cd_state option" where
  "find_state h m model =
     (case hm_find h m model of None \<Rightarrow> None | Some idx \<Rightarrow> Some (slot_val (hm_nodes m ! idx)))"

definition put_state :: "(string \<Rightarrow> nat) \<Rightarrow> tracker \<Rightarrow> string \<Rightarrow> cd_state \<Rightarrow> tracker_error + tracker" where
  "put_state h m model s = (case hm_put h cd_new m model s of None \<Rightarrow> Inl NoTable | Some m' \<Rightarrow> Inr m')"

definition is_in_cooldown :: "(string \<Rightarrow> nat) \<Rightarrow> int \<Rightarrow> tracker \<Rightarrow> string \<Rightarrow> bool" where
  "is_in_cooldown h now m model =
     (case find_state h m model of None \<Rightarrow> False | Some s \<Rightarrow> now < cooldown_until s)"

text \<open>The new entry of a failed model, from its old entry or a fresh one.\<close>

definition failed_state :: "int \<Rightarrow> provider_error_kind \<Rightarrow> int \<Rightarrow> cd_state \<Rightarrow> tracker_error + cd_state" where
  "failed_state now kind retry_after s =
     (let s = (if consecutive_failures s > 0 \<and> now - last_failure_at s > k_failure_window_decay
               then s\<lparr>consecutive_failures := 0\<rparr> else s);
          n = consecutive_failures s + 1;
          s = s\<lparr>consecutive_failures := n, last_error := kind, last_failure_at := now\<rparr>
      in if \<not> in_int n then Inl Overflow
         else if retry_after > 0 then Inr (s\<lparr>cooldown_until := now + retry_after * second\<rparr>)
         else bind_sum (compute_cooldown kind n) (\<lambda>c. Inr (s\<lparr>cooldown_until := now + c * second\<rparr>)))"

definition record_failure ::
  "(string \<Rightarrow> nat) \<Rightarrow> int \<Rightarrow> string \<Rightarrow> provider_error_kind \<Rightarrow> int \<Rightarrow> tracker \<Rightarrow> tracker_error + tracker" where
  "record_failure h now model kind retry_after m =
     bind_sum (failed_state now kind retry_after (case find_state h m model of None \<Rightarrow> cd_new | Some s \<Rightarrow> s)) (\<lambda>s.
     put_state h m model s)"

definition record_success :: "(string \<Rightarrow> nat) \<Rightarrow> string \<Rightarrow> tracker \<Rightarrow> tracker_error + tracker" where
  "record_success h model m =
     (case hm_find h m model of
        None \<Rightarrow> Inr m
      | Some idx \<Rightarrow> (case erase_iter h m idx of None \<Rightarrow> Inl NoTable | Some (m', it) \<Rightarrow> Inr m'))"

text \<open>\<open>duration_cast\<close> to seconds truncates towards zero.\<close>

definition cooldown_remaining :: "(string \<Rightarrow> nat) \<Rightarrow> int \<Rightarrow> tracker \<Rightarrow> string \<Rightarrow> int" where
  "cooldown_remaining h now m model =
     (case find_state h m model of
        None \<Rightarrow> 0
      | Some s \<Rightarrow>
          (let d = cooldown_until s - now; rem = (if d \<ge> 0 then d div second else - ((- d) div second))
           in if rem > 0 then rem else 0))"

definition failure_count :: "(string \<Rightarrow> nat) \<Rightarrow> tracker \<Rightarrow> string \<Rightarrow> int" where
  "failure_count h m model = (case find_state h m model of None \<Rightarrow> 0 | Some s \<Rightarrow> consecutive_failures s)"

definition try_probe :: "(string \<Rightarrow> nat) \<Rightarrow> int \<Rightarrow> string \<Rightarrow> tracker \<Rightarrow> tracker_error + bool \<times> tracker" where
  "try_probe h now model m =
     (case find_state h m model of
        None \<Rightarrow> Inr (True, m)
      | Some s \<Rightarrow>
          if now \<ge> cooldown_until s then Inr (True, m)
          else if now - last_probe_at s \<ge> k_probe_interval then
            bind_sum (put_state h m model (s\<lparr>last_probe_at := now\<rparr>)) (\<lambda>m. Inr (True, m))
          else Inr (False, m))"

definition tracker_reset :: "tracker \<Rightarrow> tracker" where
  "tracker_reset m = clear m"

subsection \<open>The tracker as a map\<close>

datatype cd_op =
    CFailure int string provider_error_kind int
  | CSuccess string
  | CProbe int string
  | CReset

fun cd_step :: "(string \<Rightarrow> nat) \<Rightarrow> cd_op \<Rightarrow> tracker \<Rightarrow> tracker_error + tracker" where
  "cd_step h (CFailure now model kind ra) m = record_failure h now model kind ra m"
| "cd_step h (CSuccess model) m = record_success h model m"
| "cd_step h (CProbe now model) m = map_sum id snd (try_probe h now model m)"
| "cd_step h CReset m = Inr (tracker_reset m)"

type_synonym cd_map = "string \<rightharpoonup> cd_state"

fun cd_spec :: "cd_op \<Rightarrow> cd_map \<Rightarrow> tracker_error + cd_map" where
  "cd_spec (CFailure now model kind ra) f =
     map_sum id (\<lambda>s. f(model \<mapsto> s)) (failed_state now kind ra (case f model of None \<Rightarrow> cd_new | Some s \<Rightarrow> s))"
| "cd_spec (CSuccess model) f = Inr (f(model := None))"
| "cd_spec (CProbe now model) f =
     Inr (case f model of
            None \<Rightarrow> f
          | Some s \<Rightarrow> if now < cooldown_until s \<and> now - last_probe_at s \<ge> k_probe_interval
                       then f(model \<mapsto> s\<lparr>last_probe_at := now\<rparr>) else f)"
| "cd_spec CReset f = Inr Map.empty"

definition cd_rep :: "(string \<Rightarrow> nat) \<Rightarrow> tracker \<Rightarrow> cd_map \<Rightarrow> bool" where
  "cd_rep h m f \<longleftrightarrow> hm_inv h m \<and> hm_map m = f"

lemma find_state_rep: "cd_rep h m f \<Longrightarrow> find_state h m model = f model"
  using hm_find_spec [of h m model] by (auto simp: cd_rep_def find_state_def split: option.splits)

lemma put_state_rep: "cd_rep h m f \<Longrightarrow> \<exists>m'. put_state h m model s = Inr m' \<and> cd_rep h m' (f(model \<mapsto> s))"
  using hm_put_spec [of h m cd_new model s] by (auto simp: cd_rep_def put_state_def)

lemma record_failure_rep:
  assumes "cd_rep h m f"
  shows "case failed_state now kind ra (case f model of None \<Rightarrow> cd_new | Some s \<Rightarrow> s) of
      Inl e \<Rightarrow> record_failure h now model kind ra m = Inl e
    | Inr s \<Rightarrow> \<exists>m'. record_failure h now model kind ra m = Inr m' \<and> cd_rep h m' (f(model \<mapsto> s))"
  using put_state_rep [OF assms, of model]
  by (simp add: record_failure_def find_state_rep [OF assms] split: sum.split)

lemma record_success_rep:
  assumes "cd_rep h m f"
  shows "\<exists>m'. record_success h model m = Inr m' \<and> cd_rep h m' (f(model := None))"
proof -
  have inv: "hm_inv h m" "hm_map m = f" using assms by (simp_all add: cd_rep_def)
  show ?thesis
  proof (cases "hm_find h m model")
    case None
    then have "f model = None" using hm_find_None [OF inv(1)] inv(2) by simp
    then show ?thesis using None inv by (simp add: record_success_def cd_rep_def fun_upd_idem)
  next
    case (Some idx)
    obtain m' where "erase h m model = Some (m', if hm_map m model = None then 0 else 1)" "hm_inv h m'"
        "hm_map m' = f(model := None)"
      using erase_spec [OF inv(1), of model] inv(2) by blast
    then have "erase_slot h m idx = Some m'" "cd_rep h m' (f(model := None))"
      using Some by (auto simp: erase_def cd_rep_def)
    then show ?thesis using Some by (simp add: record_success_def erase_iter_def)
  qed
qed

lemma try_probe_rep:
  assumes "cd_rep h m f"
  shows "\<exists>m'. try_probe h now model m =
      Inr (case f model of None \<Rightarrow> True
           | Some s \<Rightarrow> now \<ge> cooldown_until s \<or> now - last_probe_at s \<ge> k_probe_interval, m') \<and>
    cd_spec (CProbe now model) f = Inr (hm_map m') \<and> hm_inv h m'"
proof (cases "f model")
  case None
  then show ?thesis using assms by (simp add: try_probe_def find_state_rep [OF assms] cd_rep_def)
next
  case (Some s)
  then show ?thesis
    using assms put_state_rep [OF assms, of model "s\<lparr>last_probe_at := now\<rparr>"]
    by (auto simp: try_probe_def find_state_rep [OF assms] cd_rep_def)
qed

lemma tracker_reset_rep: "cd_rep h m f \<Longrightarrow> cd_rep h (tracker_reset m) Map.empty"
  by (simp add: cd_rep_def tracker_reset_def clear_def hm_inv_def hm_map_def)

lemma cd_step_refines:
  assumes "cd_rep h m f" and "True"
  shows "case cd_spec op f of Inl e \<Rightarrow> cd_step h op m = Inl e | Inr g \<Rightarrow> \<exists>m'. cd_step h op m = Inr m' \<and> cd_rep h m' g"
proof (cases op)
  case (CFailure now model kind ra)
  then show ?thesis using record_failure_rep [OF assms(1), of now model kind ra] by (auto split: sum.splits)
next
  case (CSuccess model)
  then show ?thesis using record_success_rep [OF assms(1)] by simp
next
  case (CProbe now model)
  then show ?thesis using try_probe_rep [OF assms(1), of now model] by (auto simp: cd_rep_def)
next
  case CReset
  then show ?thesis using tracker_reset_rep [OF assms(1)] by simp
qed

interpretation cd: simulation "cd_rep h" "\<lambda>op f. True" "cd_step h" cd_spec for h
  by unfold_locales (rule cd_step_refines)


subsection \<open>The length of a cooldown\<close>

lemma base_cooldown_bounds: "3 \<le> base_cooldown kind" "base_cooldown kind \<le> 300"
  by (cases kind; simp)+

text \<open>Up to 23 consecutive failures nothing overflows, whatever the kind.\<close>

lemma compute_cooldown_bounds:
  assumes "1 \<le> n" and "n \<le> 23"
  shows "compute_cooldown kind n = Inr (min (base_cooldown kind * 2 ^ nat (n - 1)) 300)"
proof -
  have "(2::int) ^ nat (n - 1) \<le> 2 ^ 22" using assms by (intro power_increasing) auto
  then have "base_cooldown kind * 2 ^ nat (n - 1) \<le> 300 * 2 ^ 22"
    using base_cooldown_bounds [of kind] by (intro mult_mono) auto
  moreover have "0 \<le> base_cooldown kind * 2 ^ nat (n - 1)" using base_cooldown_bounds [of kind] by simp
  ultimately have "in_int (base_cooldown kind * 2 ^ nat (n - 1))" by (simp add: in_int_def)
  then show ?thesis using assms by (simp add: compute_cooldown_def Let_def)
qed

text \<open>
  A failure with at most 22 failures of the model on record (none older than a day) starts a
  cooldown from now of the server's hint, and else of the kind's base time doubled with every earlier
  failure and capped at five minutes; during it, and only during it, the model is in cooldown, its
  failure count is one higher, and no other model is affected.
\<close>

theorem record_failure_window:
  assumes "cd_rep h m f" and "0 \<le> failure_count h m model" and "failure_count h m model \<le> 22"
    and "\<And>s. f model = Some s \<Longrightarrow> now - last_failure_at s \<le> k_failure_window_decay"
    and "d = (if ra > 0 then ra else min (base_cooldown kind * 2 ^ nat (failure_count h m model)) 300)"
  shows "\<exists>m'. record_failure h now model kind ra m = Inr m' \<and>
    (\<forall>t. is_in_cooldown h t m' model \<longleftrightarrow> t < now + d * second) \<and>
    0 < d \<and> (ra \<le> 0 \<longrightarrow> d \<le> 300) \<and> failure_count h m' model = failure_count h m model + 1 \<and>
    (\<forall>other t. other \<noteq> model \<longrightarrow> is_in_cooldown h t m' other = is_in_cooldown h t m other)"
proof -
  define s where "s = (case f model of None \<Rightarrow> cd_new | Some s \<Rightarrow> s)"
  have n: "failure_count h m model = consecutive_failures s"
    by (simp add: failure_count_def find_state_rep [OF assms(1)] s_def cd_new_def split: option.split)
  have fresh: "\<not> (consecutive_failures s > 0 \<and> now - last_failure_at s > k_failure_window_decay)"
    using assms(4) by (auto simp: s_def cd_new_def split: option.splits)
  have c: "compute_cooldown kind (consecutive_failures s + 1) = Inr (min (base_cooldown kind * 2 ^ nat (failure_count h m model)) 300)"
    using compute_cooldown_bounds [of "consecutive_failures s + 1" kind] assms(2,3) n by simp
  have "in_int (consecutive_failures s + 1)" using assms(2,3) n by (simp add: in_int_def)
  then have fs: "failed_state now kind ra s = Inr (s\<lparr>consecutive_failures := consecutive_failures s + 1, last_error := kind,
      last_failure_at := now, cooldown_until := now + d * second\<rparr>)"
    unfolding failed_state_def Let_def if_not_P [OF fresh] using c assms(5) by simp
  have d: "0 < d" "ra \<le> 0 \<longrightarrow> d \<le> 300" using assms(5) base_cooldown_bounds(1) [of kind] by auto
  obtain m' where m': "record_failure h now model kind ra m = Inr m'"
      "cd_rep h m' (f(model \<mapsto> s\<lparr>consecutive_failures := consecutive_failures s + 1, last_error := kind,
      last_failure_at := now, cooldown_until := now + d * second\<rparr>))"
    using record_failure_rep [OF assms(1), of now model kind ra] by (auto simp: fs simp flip: s_def)
  show ?thesis
    using m'(1) d n
    by (auto simp: is_in_cooldown_def failure_count_def find_state_rep [OF m'(2)] find_state_rep [OF assms(1)])
qed

theorem record_failure_window_witness:
  "\<exists>m'. record_failure (\<lambda>k. length k) 0 ''m'' RateLimit 0 Map0 = Inr m' \<and>
     is_in_cooldown (\<lambda>k. length k) (9 * second) m' ''m'' \<and> \<not> is_in_cooldown (\<lambda>k. length k) (10 * second) m' ''m''"
proof -
  have r: "cd_rep (\<lambda>k. length k) Map0 Map.empty" by (simp add: cd_rep_def hm_inv_Map0 hm_map_Map0)
  have "failure_count (\<lambda>k. length k) Map0 ''m'' = 0" by (simp add: failure_count_def find_state_rep [OF r])
  then show ?thesis
    using record_failure_window [OF r, of "''m''" 0 10 0 RateLimit] by (auto simp: second_def)
qed

text \<open>
  The 29th consecutive rate limit without a hint (each within a day of the one before) overflows:
  ten times two to the 28 is no \<open>int\<close>.
\<close>

lemma rate_limit_overflow:
  assumes "cd_rep h m f" and "f model = Some s" and "consecutive_failures s = 28"
    and "now - last_failure_at s \<le> k_failure_window_decay"
  shows "record_failure h now model RateLimit 0 m = Inl Overflow"
  using record_failure_rep [OF assms(1), of now model RateLimit 0] assms(2-4)
  by (simp add: failed_state_def Let_def in_int_def compute_cooldown_def)

text \<open>Two probes that are both allowed during one cooldown are at least the probe interval apart.\<close>

lemma probe_rate:
  assumes "cd_rep h m f" and "try_probe h t1 model m = Inr (True, m1)" and "is_in_cooldown h t1 m model"
    and "try_probe h t2 model m1 = Inr (True, m2)" and "is_in_cooldown h t2 m1 model"
  shows "t2 - t1 \<ge> k_probe_interval"
proof -
  from assms(3) obtain s where s: "f model = Some s" "t1 < cooldown_until s"
    by (auto simp: is_in_cooldown_def find_state_rep [OF assms(1)] split: option.splits)
  obtain m1' where m1': "try_probe h t1 model m = Inr (t1 \<ge> cooldown_until s \<or> t1 - last_probe_at s \<ge> k_probe_interval, m1')"
      "cd_spec (CProbe t1 model) f = Inr (hm_map m1')" "hm_inv h m1'"
    using try_probe_rep [OF assms(1), of t1 model] s(1) by auto
  then have p: "t1 - last_probe_at s \<ge> k_probe_interval" "m1' = m1" using assms(2) s(2) by auto
  then have r1: "cd_rep h m1 (f(model \<mapsto> s\<lparr>last_probe_at := t1\<rparr>))" using m1'(2,3) s by (simp add: cd_rep_def)
  then have "t2 < cooldown_until s" using assms(5) by (simp add: is_in_cooldown_def find_state_rep)
  then show ?thesis using try_probe_rep [OF r1, of t2 model] assms(4) by auto
qed

end
