(* ===== verification/LlmRetry.thy ===== *)
theory LlmRetry
  imports Cooldown
begin

text \<open>
  Retrying requests to a model provider (\<open>llm/retry.hpp\<close>). The request is a parameter \<open>f\<close>: what its \<open>n\<close>-th
  call does. A response type has a status and perhaps a \<open>Retry-After\<close> header (\<open>st\<close>, \<open>hdr\<close>) and a
  default-constructed value. Cancellation is what the token reports at its \<open>k\<close>-th check. A loop yields its
  outcome and the delays it has slept. Delays are computed on \<open>unsigned int\<close>, which wraps, and
  converted to \<open>int\<close>; a shift by 32 or more and an overflowing conversion of the header to milliseconds
  are undefined (\<open>None\<close>). Logging is left out.
\<close>

record retry_settings =
  max_attempts :: int
  initial_delay_ms :: u32
  max_delay_ms :: u32

definition retry_settings_new :: retry_settings where
  "retry_settings_new = \<lparr>max_attempts = 5, initial_delay_ms = 200, max_delay_ms = 3000\<rparr>"

definition is_retryable_status :: "int \<Rightarrow> bool" where
  "is_retryable_status status \<longleftrightarrow> status = 429 \<or> status \<ge> 500"

definition retry_delay_ms :: "retry_settings \<Rightarrow> int \<Rightarrow> int option" where
  "retry_delay_ms cfg attempt =
     (if 0 \<le> attempt - 1 \<and> attempt - 1 < 32 then
        (let delay = initial_delay_ms cfg * 2 ^ nat (attempt - 1);
             delay = (if delay > max_delay_ms cfg then max_delay_ms cfg else delay)
         in Some (sint delay))
      else None)"

subsection \<open>The Retry-After header\<close>

definition is_space :: "char \<Rightarrow> bool" where
  "is_space c \<longleftrightarrow> byte c = 32 \<or> 9 \<le> byte c \<and> byte c \<le> 13"

definition is_dec :: "char \<Rightarrow> bool" where
  "is_dec c \<longleftrightarrow> 48 \<le> byte c \<and> byte c \<le> 57"

definition dec_value :: "string \<Rightarrow> int" where
  "dec_value cs = foldl (\<lambda>n c. 10 * n + int (byte c - 48)) 0 cs"

text \<open>\<open>std::stoi\<close>: leading white space, an optional sign, digits; \<open>None\<close> is one of its two exceptions.\<close>

definition stoi :: "string \<Rightarrow> int option" where
  "stoi s =
     (let s = dropWhile is_space s;
          (neg, s) = (case s of c # cs \<Rightarrow> if byte c = 45 then (True, cs) else if byte c = 43 then (False, cs) else (False, s)
                      | [] \<Rightarrow> (False, s));
          ds = takeWhile is_dec s; v = (if neg then - dec_value ds else dec_value ds)
      in if ds = [] then None else if in_int v then Some v else None)"

definition parse_retry_after_ms :: "int \<Rightarrow> string option \<Rightarrow> int option" where
  "parse_retry_after_ms status header =
     (if status = 0 \<or> status \<noteq> 429 then Some 0
      else case header of
        None \<Rightarrow> Some 0
      | Some s \<Rightarrow>
          (case stoi s of
             None \<Rightarrow> Some 0
           | Some seconds \<Rightarrow>
               if seconds > 0 then (if in_int (seconds * 1000) then Some (seconds * 1000) else None) else Some 0))"

subsection \<open>The loops\<close>

datatype 'r attempt = Result 'r | Throws string | Cancels

datatype 'r retry_outcome =
    Returned 'r
  | Threw string
  | ThrewCancelled
  | Exhausted
  | Undefined

text \<open>The delay after a retryable response: the backoff, or the server's hint when that is longer.\<close>

definition response_delay :: "retry_settings \<Rightarrow> int \<Rightarrow> int \<Rightarrow> string option \<Rightarrow> int option" where
  "response_delay cfg attempt status header =
     (case retry_delay_ms cfg attempt of
        None \<Rightarrow> None
      | Some d \<Rightarrow>
          (case parse_retry_after_ms status header of
             None \<Rightarrow> None
           | Some ra \<Rightarrow> Some (if ra > 0 then max d ra else d)))"

definition log_delay :: "int \<Rightarrow> 'r retry_outcome \<times> int list \<Rightarrow> 'r retry_outcome \<times> int list" where
  "log_delay d p = (fst p, d # snd p)"

function retry_sync ::
  "('r \<Rightarrow> int) \<Rightarrow> ('r \<Rightarrow> string option) \<Rightarrow> retry_settings \<Rightarrow> (int \<Rightarrow> 'r attempt) \<Rightarrow> int \<Rightarrow> 'r retry_outcome \<times> int list" where
  "retry_sync st hdr cfg f attempt =
     (if attempt > max_attempts cfg then (Exhausted, [])
      else
        (let again = (\<lambda>d. if attempt < max_attempts cfg \<and> d > 0
                          then log_delay d (retry_sync st hdr cfg f (attempt + 1))
                          else retry_sync st hdr cfg f (attempt + 1))
         in case f attempt of
           Cancels \<Rightarrow> (ThrewCancelled, [])
         | Throws e \<Rightarrow>
             if attempt = max_attempts cfg then (Threw e, [])
             else (case retry_delay_ms cfg attempt of None \<Rightarrow> (Undefined, []) | Some d \<Rightarrow> again d)
         | Result r \<Rightarrow>
             if 200 \<le> st r \<and> st r < 300 then (Returned r, [])
             else if \<not> is_retryable_status (st r) \<or> attempt = max_attempts cfg then (Returned r, [])
             else (case response_delay cfg attempt (st r) (hdr r) of None \<Rightarrow> (Undefined, []) | Some d \<Rightarrow> again d)))"
  by auto
termination
  by (relation "measure (\<lambda>(st, hdr, cfg, f, a). nat (max_attempts cfg + 1 - a))") auto

declare retry_sync.simps [simp del]

definition with_retry ::
  "('r \<Rightarrow> int) \<Rightarrow> ('r \<Rightarrow> string option) \<Rightarrow> retry_settings \<Rightarrow> (int \<Rightarrow> 'r attempt) \<Rightarrow> 'r retry_outcome \<times> int list" where
  "with_retry st hdr cfg f = retry_sync st hdr cfg f 1"

text \<open>Sleeping in slices of 50 milliseconds, with a check of the token before each and one at the end.\<close>

function sleep_for_retry :: "(nat \<Rightarrow> bool) \<Rightarrow> nat \<Rightarrow> int \<Rightarrow> nat option" where
  "sleep_for_retry cancel k remaining =
     (if remaining > 0 then
        (if cancel k then None
         else sleep_for_retry cancel (k + 1) (remaining - (if remaining < 50 then remaining else 50)))
      else if cancel k then None else Some (k + 1))"
  by auto
termination by (relation "measure (\<lambda>(c, k, remaining). nat remaining)") auto

declare sleep_for_retry.simps [simp del]

text \<open>
  Both coroutine versions: \<open>g\<close> is applied to the response that is returned (the identity for
  \<open>with_retry_async\<close>), \<open>dflt\<close> is the default-constructed response, \<open>last\<close> what the function returns when the
  loop ends.
\<close>

function retry_async ::
  "('r \<Rightarrow> int) \<Rightarrow> ('r \<Rightarrow> string option) \<Rightarrow> 'r \<Rightarrow> ('r \<Rightarrow> 't) \<Rightarrow> 't \<Rightarrow> retry_settings \<Rightarrow> (int \<Rightarrow> 'r attempt) \<Rightarrow>
   (nat \<Rightarrow> bool) \<Rightarrow> nat \<Rightarrow> int \<Rightarrow> 't retry_outcome \<times> int list" where
  "retry_async st hdr dflt g fin cfg f cancel k attempt =
     (if attempt > max_attempts cfg then (Returned fin, [])
      else if cancel k then (ThrewCancelled, [])
      else
        (let again = (\<lambda>d. case sleep_for_retry cancel (k + 1) d of
               None \<Rightarrow> (ThrewCancelled, [d])
             | Some k' \<Rightarrow> log_delay d (retry_async st hdr dflt g fin cfg f cancel k' (attempt + 1)));
             finish = (\<lambda>r.
               if 200 \<le> st r \<and> st r < 300 then (Returned (g r), [])
               else if \<not> is_retryable_status (st r) \<or> attempt = max_attempts cfg then (Returned (g r), [])
               else (case response_delay cfg attempt (st r) (hdr r) of None \<Rightarrow> (Undefined, []) | Some d \<Rightarrow> again d))
         in case f attempt of
           Cancels \<Rightarrow> (ThrewCancelled, [])
         | Throws e \<Rightarrow>
             if attempt = max_attempts cfg then (Threw e, [])
             else (case retry_delay_ms cfg attempt of
                     None \<Rightarrow> (Undefined, [])
                   | Some d \<Rightarrow> if d > 0 then again d else finish dflt)
         | Result r \<Rightarrow> finish r))"
  by auto
termination
  by (relation "measure (\<lambda>(st, hdr, dflt, g, fin, cfg, f, c, k, a). nat (max_attempts cfg + 1 - a))") auto

declare retry_async.simps [simp del]

definition with_retry_async ::
  "('r \<Rightarrow> int) \<Rightarrow> ('r \<Rightarrow> string option) \<Rightarrow> 'r \<Rightarrow> retry_settings \<Rightarrow> (int \<Rightarrow> 'r attempt) \<Rightarrow> (nat \<Rightarrow> bool) \<Rightarrow>
   'r retry_outcome \<times> int list" where
  "with_retry_async st hdr dflt cfg f cancel = retry_async st hdr dflt (\<lambda>r. r) dflt cfg f cancel 0 1"

definition with_http_retry_async ::
  "('r \<Rightarrow> int) \<Rightarrow> ('r \<Rightarrow> string option) \<Rightarrow> 'r \<Rightarrow> ('r \<Rightarrow> 't) \<Rightarrow> 't \<Rightarrow> retry_settings \<Rightarrow> (int \<Rightarrow> 'r attempt) \<Rightarrow>
   (nat \<Rightarrow> bool) \<Rightarrow> 't retry_outcome \<times> int list" where
  "with_http_retry_async st hdr dflt g fin cfg f cancel = retry_async st hdr dflt g fin cfg f cancel 0 1"

subsection \<open>Delays\<close>

text \<open>As long as nothing wraps, the delay doubles from the initial one up to the maximum.\<close>

lemma retry_delay_bounds:
  assumes "1 \<le> a" and "a \<le> 32" and "unat (initial_delay_ms cfg) * 2 ^ nat (a - 1) < 2 ^ 31"
  shows "retry_delay_ms cfg a = Some (min (uint (initial_delay_ms cfg) * 2 ^ nat (a - 1)) (uint (max_delay_ms cfg)))"
proof -
  let ?w = "initial_delay_ms cfg * 2 ^ nat (a - 1)" and ?n = "unat (initial_delay_ms cfg) * 2 ^ nat (a - 1)"
  have w: "?w = of_nat ?n" by simp
  have u: "unat ?w = ?n" unfolding w unat_of_nat using assms(3) by (simp add: take_bit_nat_eq_self)
  have i: "uint ?w = uint (initial_delay_ms cfg) * 2 ^ nat (a - 1)"
    using arg_cong [OF u, of int] unfolding uint_nat of_nat_mult of_nat_power of_nat_numeral .
  have s: "sint v = uint v" if "v \<le> ?w" for v :: u32
  proof -
    have "unat v < 2 ^ 31" using that u assms(3) by (simp add: word_le_nat_alt)
    then have "int (unat v) < int (2 ^ 31)" unfolding of_nat_less_iff .
    then have "uint v < 2 ^ 31" unfolding uint_nat by simp
    moreover have "0 \<le> uint v" by simp
    ultimately have "signed_take_bit 31 (uint v) = uint v" by (intro signed_take_bit_int_eq_self) linarith+
    then show ?thesis by (simp add: sint_uint)
  qed
  show ?thesis
  proof (cases "?w > max_delay_ms cfg")
    case True
    then have "uint (max_delay_ms cfg) < uint ?w" by (simp add: word_less_def)
    then show ?thesis using True s [of "max_delay_ms cfg"] assms i by (simp add: retry_delay_ms_def Let_def)
  next
    case False
    then have "uint ?w \<le> uint (max_delay_ms cfg)" by (simp add: word_less_def not_less)
    then show ?thesis using False s [of ?w] assms i by (simp add: retry_delay_ms_def Let_def)
  qed
qed

definition delays_positive :: "retry_settings \<Rightarrow> bool" where
  "delays_positive cfg \<longleftrightarrow> (\<forall>a. 1 \<le> a \<and> a < max_attempts cfg \<longrightarrow> (\<exists>d. retry_delay_ms cfg a = Some d \<and> d > 0))"

lemma default_delays: "delays_positive retry_settings_new"
proof -
  have "\<exists>d. retry_delay_ms retry_settings_new a = Some d \<and> d > 0" if "1 \<le> a" "a < 5" for a
  proof -
    have "(2::nat) ^ nat (a - 1) \<le> 2 ^ 3" using that by (intro power_increasing) auto
    then have "unat (initial_delay_ms retry_settings_new) * 2 ^ nat (a - 1) < 2 ^ 31"
      by (simp add: retry_settings_new_def)
    from retry_delay_bounds [OF _ _ this] show ?thesis using that by (simp add: retry_settings_new_def)
  qed
  then show ?thesis by (simp add: delays_positive_def retry_settings_new_def)
qed

lemma response_delay_positive:
  assumes "retry_delay_ms cfg a = Some d" and "d > 0" and "response_delay cfg a status header = Some e"
  shows "e > 0"
  using assms by (auto simp: response_delay_def split: option.splits if_splits)

lemma sleep_never_cancelled: "\<exists>k'. sleep_for_retry (\<lambda>_. False) k d = Some k'"
proof (induction "\<lambda>_::nat. False" k d rule: sleep_for_retry.induct)
  case (1 k remaining)
  then show ?case by (cases "remaining > 0") (simp_all add: sleep_for_retry.simps [of _ k remaining])
qed

subsection \<open>The loops agree\<close>

lemma retry_async_eq_sync:
  assumes "delays_positive cfg" and "1 \<le> a" and "a \<le> max_attempts cfg"
  shows "retry_async st hdr dflt g fin cfg f (\<lambda>_. False) k a = map_prod (map_retry_outcome g) id (retry_sync st hdr cfg f a)"
  using assms(2,3)
proof (induction "nat (max_attempts cfg - a)" arbitrary: a k)
  case 0
  then have a: "a = max_attempts cfg" by simp
  show ?case
    unfolding retry_async.simps [of _ _ _ _ _ _ _ _ _ a] retry_sync.simps [of _ _ _ _ a]
    using a by (simp add: Let_def split: attempt.split)
next
  case (Suc n)
  then have less: "a < max_attempts cfg" by simp
  obtain d where d: "retry_delay_ms cfg a = Some d" "d > 0"
    using assms(1) Suc.prems less by (auto simp: delays_positive_def)
  have IH: "retry_async st hdr dflt g fin cfg f (\<lambda>_. False) k' (a + 1) = map_prod (map_retry_outcome g) id (retry_sync st hdr cfg f (a + 1))" for k'
    by (rule Suc.hyps(1)) (use Suc.hyps(2) Suc.prems less in auto)
  have again: "(case sleep_for_retry (\<lambda>_. False) (k + 1) e of None \<Rightarrow> (ThrewCancelled, [e])
      | Some k' \<Rightarrow> log_delay e (retry_async st hdr dflt g fin cfg f (\<lambda>_. False) k' (a + 1))) =
      map_prod (map_retry_outcome g) id (log_delay e (retry_sync st hdr cfg f (a + 1)))" for e
  proof -
    obtain k' where "sleep_for_retry (\<lambda>_. False) (k + 1) e = Some k'" using sleep_never_cancelled by blast
    then show ?thesis by (simp add: IH log_delay_def split_beta map_prod_def)
  qed
  have resp: "response_delay cfg a s h = Some e \<Longrightarrow> e > 0" for s h e
    using response_delay_positive [OF d] .
  show ?case
    unfolding retry_async.simps [of _ _ _ _ _ _ _ _ _ a] retry_sync.simps [of _ _ _ _ a] again Let_def
    using less d resp by (auto split: attempt.split option.split)
qed



text \<open>
  When the delay is zero, the coroutine version turns an exception of a request that should be
  retried into a default-constructed response with status 0, where the blocking version goes on to the
  next attempt.
\<close>

theorem retry_async_swallows:
  assumes "initial_delay_ms cfg = 0" and "2 \<le> max_attempts cfg" and "f 1 = Throws e" and "f 2 = Result r"
    and "200 \<le> st r" and "st r < 300" and "st dflt = 0" and "\<not> cancel 0"
  shows "with_retry_async st hdr dflt cfg f cancel = (Returned dflt, []) \<and>
    with_retry st hdr cfg f = (Returned r, [])"
proof
  have d: "retry_delay_ms cfg 1 = Some 0" using assms(1) by (simp add: retry_delay_ms_def)
  show "with_retry_async st hdr dflt cfg f cancel = (Returned dflt, [])"
    unfolding with_retry_async_def
    by (subst retry_async.simps) (use assms d in \<open>simp add: Let_def is_retryable_status_def\<close>)
  have "retry_sync st hdr cfg f 2 = (Returned r, [])"
    by (subst retry_sync.simps) (use assms in simp)
  then show "with_retry st hdr cfg f = (Returned r, [])"
    unfolding with_retry_def by (subst retry_sync.simps) (use assms d in simp)
qed

theorem retry_async_swallows_witness:
  "with_retry_async id (\<lambda>_. None) 0 \<lparr>max_attempts = 2, initial_delay_ms = 0, max_delay_ms = 0\<rparr>
     (\<lambda>n. if n = 1 then Throws ''e'' else Result 200) (\<lambda>_. False) = (Returned 0, [])"
  using retry_async_swallows [of "\<lparr>max_attempts = 2, initial_delay_ms = 0, max_delay_ms = 0\<rparr>"
      "\<lambda>n. if n = 1 then Throws ''e'' else Result 200" "''e''" 200 id 0 "\<lambda>_. False" "\<lambda>_. None"] by simp

text \<open>The blocking version calls the request at most \<open>max_attempts\<close> times and never falls off the end of its loop.\<close>

lemma with_retry_not_exhausted:
  assumes "1 \<le> max_attempts cfg"
  shows "fst (with_retry st hdr cfg f) \<noteq> Exhausted \<and> int (length (snd (with_retry st hdr cfg f))) < max_attempts cfg"
proof -
  have "fst (retry_sync st hdr cfg f a) \<noteq> Exhausted \<and> int (length (snd (retry_sync st hdr cfg f a))) + a \<le> max_attempts cfg"
    if "a \<le> max_attempts cfg" for a
    using that
  proof (induction "nat (max_attempts cfg - a)" arbitrary: a)
    case 0
    then have "a = max_attempts cfg" by simp
    then show ?case unfolding retry_sync.simps [of _ _ _ _ a] by (simp add: Let_def split: attempt.split)
  next
    case (Suc n)
    then have "a < max_attempts cfg" "fst (retry_sync st hdr cfg f (a + 1)) \<noteq> Exhausted"
        "int (length (snd (retry_sync st hdr cfg f (a + 1)))) + (a + 1) \<le> max_attempts cfg" by auto
    then show ?case
      unfolding retry_sync.simps [of _ _ _ _ a] by (auto simp: Let_def log_delay_def split: attempt.split option.split)
  qed
  from this [OF assms] show ?thesis by (simp add: with_retry_def)
qed

end
