(* ===== verification/StdMap.thy ===== *)
theory StdMap
  imports KvMap "HOL-Library.List_Lexorder" "HOL-Library.Char_ord"
begin

text \<open>
  \<open>std::map\<close> as the program uses it: the entries in the order of their keys, which is the order in
  which loops over the map see them. \<open>std::string\<close> keys compare as sequences of unsigned bytes, the
  order of \<^typ>\<open>string\<close> here. The map is an instance of the contract \<open>kv_store\<close>.
\<close>

fun sm_put :: "'k::linorder \<Rightarrow> 'v \<Rightarrow> ('k \<times> 'v) list \<Rightarrow> ('k \<times> 'v) list" where
  "sm_put k v [] = [(k, v)]"
| "sm_put k v ((k', v') # kvs) =
     (if k < k' then (k, v) # (k', v') # kvs
      else if k = k' then (k, v) # kvs
      else (k', v') # sm_put k v kvs)"

definition sm_del :: "'k \<Rightarrow> ('k \<times> 'v) list \<Rightarrow> ('k \<times> 'v) list" where
  "sm_del k kvs = filter (\<lambda>kv. fst kv \<noteq> k) kvs"

definition sm_inv :: "('k::linorder \<times> 'v) list \<Rightarrow> bool" where
  "sm_inv kvs \<longleftrightarrow> sorted_wrt (<) (map fst kvs)"

lemma map_of_sm_put [simp]: "map_of (sm_put k v kvs) = (map_of kvs)(k \<mapsto> v)"
  by (induction k v kvs rule: sm_put.induct) auto

lemma map_of_sm_del [simp]: "map_of (sm_del k kvs) = (map_of kvs)(k := None)"
  by (induction kvs) (auto simp: sm_del_def)

lemma set_keys_sm_put: "fst ` set (sm_put k v kvs) = insert k (fst ` set kvs)"
proof (induction kvs)
  case (Cons kv kvs)
  then show ?case by (cases kv) (auto simp: insert_commute)
qed simp

lemma sm_put_inv [bg_inv]: "sm_inv kvs \<Longrightarrow> sm_inv (sm_put k v kvs)"
proof (induction kvs)
  case (Cons kv kvs)
  obtain k' v' where kv: "kv = (k', v')" by (cases kv)
  have "\<forall>y \<in> insert k (fst ` set kvs). k' < y" if "k' < k"
    using Cons.prems that by (auto simp: kv sm_inv_def)
  with Cons show ?case
    using set_keys_sm_put [of k v kvs] by (auto simp: kv sm_inv_def)
qed (simp add: sm_inv_def)

lemma sm_del_inv [bg_inv]: "sm_inv kvs \<Longrightarrow> sm_inv (sm_del k kvs)"
  by (induction kvs) (auto simp: sm_inv_def sm_del_def)

lemma sm_inv_distinct: "sm_inv kvs \<Longrightarrow> distinct (map fst kvs)"
  by (simp add: sm_inv_def strict_sorted_iff)

interpretation std_map: kv_store sm_inv map_of "[]" "\<lambda>m k v. Some (sm_put k v m)" "\<lambda>m k. Some (sm_del k m)"
  by unfold_locales (simp_all add: sm_put_inv sm_del_inv, simp add: sm_inv_def)

text \<open>The entries are determined by the map that is represented: two loops over equal maps see the same sequence.\<close>

lemma sm_inv_unique:
  assumes "sm_inv a" "sm_inv b" "map_of a = map_of b"
  shows "a = b"
proof -
  have "set a = set b"
    using assms sm_inv_distinct
    by (metis dom_map_of_conv_image_fst graph_map_of_if_distinct_dom)
  moreover have "sorted (map fst a)" "sorted (map fst b)"
    using assms by (auto simp: sm_inv_def strict_sorted_iff)
  moreover have "inj_on fst (set a \<union> set b)"
    using \<open>set a = set b\<close> sm_inv_distinct [OF assms(1)] by (simp add: distinct_map)
  moreover have "distinct a" "distinct b"
    using assms sm_inv_distinct distinct_map by blast+
  ultimately show ?thesis
    by (metis map_sorted_distinct_set_unique sm_inv_distinct assms(1,2))
qed

end
