(* ===== verification/JsonAccess.thy ===== *)
theory JsonAccess
  imports JsonValue
begin

text \<open>
  The accessors of the class \<open>Json\<close> (\<open>base/json/json.hpp\<close>, \<open>base/json/json.cpp\<close>) that the layers above use: member lookup,
  typed values with a default, assignment to a member, and the construction from an initializer list.
  Every accessor is total; a missing member or a wrong type gives the default.
\<close>

fun json_find :: "'d json \<Rightarrow> string \<Rightarrow> 'd json option" where
  "json_find (JObject kvs) k = map_of kvs k"
| "json_find _ k = None"

text \<open>\<open>operator[](key) const\<close> and \<open>operator[](idx) const\<close>\<close>

definition json_get :: "'d json \<Rightarrow> string \<Rightarrow> 'd json" where
  "json_get v k = (case json_find v k of Some w \<Rightarrow> w | None \<Rightarrow> JNull)"

fun json_at :: "'d json \<Rightarrow> nat \<Rightarrow> 'd json" where
  "json_at (JArray vs) i = (if i < length vs then vs ! i else JNull)"
| "json_at _ i = JNull"

definition json_contains :: "'d json \<Rightarrow> string \<Rightarrow> bool" where
  "json_contains v k \<longleftrightarrow> json_find v k \<noteq> None"

fun is_string :: "'d json \<Rightarrow> bool" where
  "is_string (JString s) = True"
| "is_string _ = False"

fun is_array :: "'d json \<Rightarrow> bool" where
  "is_array (JArray vs) = True"
| "is_array _ = False"

fun is_object :: "'d json \<Rightarrow> bool" where
  "is_object (JObject kvs) = True"
| "is_object _ = False"

fun json_size :: "'d json \<Rightarrow> nat" where
  "json_size (JArray vs) = length vs"
| "json_size (JObject kvs) = length kvs"
| "json_size _ = 0"

fun json_empty :: "'d json \<Rightarrow> bool" where
  "json_empty JNull = True"
| "json_empty (JString s) = (s = [])"
| "json_empty (JArray vs) = (vs = [])"
| "json_empty (JObject kvs) = (kvs = [])"
| "json_empty _ = False"

text \<open>What a range-based \<open>for\<close> over a value visits.\<close>

fun json_elements :: "'d json \<Rightarrow> 'd json list" where
  "json_elements (JArray vs) = vs"
| "json_elements (JObject kvs) = map snd kvs"
| "json_elements _ = []"

definition value_str :: "'d json \<Rightarrow> string \<Rightarrow> string \<Rightarrow> string" where
  "value_str v k default_val = (case json_find v k of Some (JString s) \<Rightarrow> s | _ \<Rightarrow> default_val)"

definition value_bool :: "'d json \<Rightarrow> string \<Rightarrow> bool \<Rightarrow> bool" where
  "value_bool v k default_val = (case json_find v k of Some (JBool b) \<Rightarrow> b | _ \<Rightarrow> default_val)"

definition value_json :: "'d json \<Rightarrow> string \<Rightarrow> 'd json \<Rightarrow> 'd json" where
  "value_json v k default_val = (case json_find v k of Some w \<Rightarrow> w | None \<Rightarrow> default_val)"

text \<open>
  \<open>try_numeric<int>\<close>; the conversion of a double, which succeeds if it is in range, is the parameter \<open>d2i\<close>.
\<close>

fun is_number :: "'d json \<Rightarrow> bool" where
  "is_number (JInt i) = True"
| "is_number (JUint n) = True"
| "is_number (JDouble d) = True"
| "is_number _ = False"

fun try_int :: "('d \<Rightarrow> int option) \<Rightarrow> 'd json \<Rightarrow> int option" where
  "try_int d2i (JInt i) = (if in_int i then Some i else None)"
| "try_int d2i (JUint n) = (if int n < 2 ^ 31 then Some (int n) else None)"
| "try_int d2i (JDouble d) = d2i d"
| "try_int d2i _ = None"

definition value_int :: "('d \<Rightarrow> int option) \<Rightarrow> 'd json \<Rightarrow> string \<Rightarrow> int \<Rightarrow> int" where
  "value_int d2i v k default_val =
     (case json_find v k of None \<Rightarrow> default_val
      | Some w \<Rightarrow> (case try_int d2i w of Some i \<Rightarrow> i | None \<Rightarrow> default_val))"

text \<open>\<open>j[key] = val\<close>: a value that is no object becomes one first.\<close>

fun json_set :: "string \<Rightarrow> 'd json \<Rightarrow> 'd json \<Rightarrow> 'd json" where
  "json_set k x (JObject kvs) = JObject (obj_set k x kvs)"
| "json_set k x _ = JObject [(k, x)]"

fun json_push :: "'d json \<Rightarrow> 'd json \<Rightarrow> 'd json" where
  "json_push (JArray vs) x = JArray (vs @ [x])"
| "json_push _ x = JArray [x]"

text \<open>The initializer-list constructor: an object if every element is an array of a string and a value, else an array.\<close>

fun init_pair :: "'d json \<Rightarrow> (string \<times> 'd json) option" where
  "init_pair (JArray [JString k, v]) = Some (k, v)"
| "init_pair _ = None"

definition json_init :: "'d json list \<Rightarrow> 'd json" where
  "json_init init =
     (if init \<noteq> [] \<and> list_all (\<lambda>el. init_pair el \<noteq> None) init
      then foldl (\<lambda>j el. case init_pair el of Some (k, v) \<Rightarrow> json_set k v j | None \<Rightarrow> j) (JObject []) init
      else JArray init)"

subsection \<open>Laws\<close>

lemma json_find_set [simp]: "json_find (json_set k x v) k' = (if k' = k then Some x else if is_object v then json_find v k' else None)"
  by (cases v) (simp_all add: map_of_obj_set)

lemma is_object_set [simp]: "is_object (json_set k x v)"
  by (cases v) simp_all

lemma json_find_non_object [simp]: "\<not> is_object v \<Longrightarrow> json_find v k = None"
  by (cases v) simp_all

lemma json_set_fresh: "k \<notin> fst ` set kvs \<Longrightarrow> json_set k v (JObject kvs) = JObject (kvs @ [(k, v)])"
  by (simp add: obj_set_fresh)

lemma foldl_init:
  "distinct (map fst (acc @ kvs)) \<Longrightarrow>
   foldl (\<lambda>j el. case init_pair el of Some (k, v) \<Rightarrow> json_set k v j | None \<Rightarrow> j) (JObject acc)
     (map (\<lambda>(k, v). JArray [JString k, v]) kvs) = JObject (acc @ kvs)"
proof (induction kvs arbitrary: acc)
  case (Cons kv kvs)
  obtain k v where kv: "kv = (k, v)" by (cases kv)
  have "k \<notin> fst ` set acc" using Cons.prems by (auto simp: kv)
  then show ?case
    using Cons.IH [of "acc @ [(k, v)]"] Cons.prems by (simp add: kv json_set_fresh del: json_set.simps)
qed simp

text \<open>
  A braced list of key-value pairs with different keys is the object with these members, which is how
  the theories write it.
\<close>

lemma json_init_pairs:
  "kvs \<noteq> [] \<Longrightarrow> distinct (map fst kvs) \<Longrightarrow> json_init (map (\<lambda>(k, v). JArray [JString k, v]) kvs) = JObject kvs"
  using foldl_init [of "[]" kvs] by (auto simp: json_init_def list_all_iff)

end
