(* ===== verification/Utf8Text.thy ===== *)
theory Utf8Text
  imports BG_Prelude
begin

text \<open>
  The text helpers of \<open>base/utils/string_utils.hpp\<close>: trimming, lower case, the token estimate, and the two
  truncations that are meant not to split a UTF-8 character. Masks on a byte are written as division by
  powers of two.
\<close>

definition isspace :: "char \<Rightarrow> bool" where
  "isspace c \<longleftrightarrow> byte c = 32 \<or> 9 \<le> byte c \<and> byte c \<le> 13"

definition trim :: "string \<Rightarrow> string" where
  "trim s = rev (dropWhile isspace (rev (dropWhile isspace s)))"

definition tolower :: "char \<Rightarrow> char" where
  "tolower c = (if 65 \<le> byte c \<and> byte c \<le> 90 then char_of (byte c + 32) else c)"

definition to_lower :: "string \<Rightarrow> string" where
  "to_lower s = map tolower s"

text \<open>The counting loop: characters that a leading byte announces, and other bytes.\<close>

function count_chars :: "string \<Rightarrow> nat \<times> nat" where
  "count_chars [] = (0, 0)"
| "count_chars (c # cs) =
     (if byte c \<ge> 0xF0 then apfst Suc (count_chars (drop 3 cs))
      else if byte c \<ge> 0xE0 then apfst Suc (count_chars (drop 2 cs))
      else if byte c \<ge> 0xC0 then apfst Suc (count_chars (drop 1 cs))
      else apsnd Suc (count_chars cs))"
  by pat_completeness auto
termination by (relation "measure length") auto

definition estimate_text_tokens :: "string \<Rightarrow> nat" where
  "estimate_text_tokens text = (let (cjk, ascii) = count_chars text in cjk * 2 + max 1 (ascii div 4))"

definition utf8_step :: "char \<Rightarrow> nat" where
  "utf8_step c =
     (if byte c \<ge> 0x80
      then (if byte c div 32 = 6 then 2 else if byte c div 16 = 14 then 3 else if byte c div 8 = 30 then 4 else 1)
      else 1)"

lemma utf8_step_pos: "0 < utf8_step c"
  by (simp add: utf8_step_def)

text \<open>The loop of \<open>utf8_truncate\<close> over the bytes from position \<open>i\<close>, with \<open>n\<close> bytes left of the limit: the boundary, counted from \<open>i\<close>.\<close>

function truncate_loop :: "string \<Rightarrow> nat \<Rightarrow> nat" where
  "truncate_loop s n =
     (case s of
        [] \<Rightarrow> 0
      | c # cs \<Rightarrow>
          if 0 < n \<and> utf8_step c \<le> n then utf8_step c + truncate_loop (drop (utf8_step c) s) (n - utf8_step c)
          else 0)"
  by auto
termination
  by (relation "measure (\<lambda>(s, n). n)") (auto simp: utf8_step_pos)

declare truncate_loop.simps [simp del]

definition utf8_truncate :: "string \<Rightarrow> nat \<Rightarrow> string" where
  "utf8_truncate s max_bytes = (if length s \<le> max_bytes then s else take (truncate_loop s max_bytes) s)"

definition starts_char :: "char \<Rightarrow> bool" where
  "starts_char c \<longleftrightarrow> byte c < 0x80 \<or> byte c div 64 = 3"

definition utf8_truncate_tail :: "string \<Rightarrow> nat \<Rightarrow> string" where
  "utf8_truncate_tail s max_bytes =
     (if length s \<le> max_bytes then s
      else dropWhile (\<lambda>c. \<not> starts_char c) (drop (length s - max_bytes) s))"

subsection \<open>Whole characters\<close>

text \<open>A character: a byte that starts one, and the continuation bytes that it announces.\<close>

definition utf8_char :: "string \<Rightarrow> bool" where
  "utf8_char u \<longleftrightarrow> u \<noteq> [] \<and> starts_char (hd u) \<and> length u = utf8_step (hd u) \<and>
     list_all (\<lambda>c. \<not> starts_char c) (tl u)"

lemma utf8_char_Cons:
  "utf8_char u \<Longrightarrow> \<exists>c cs. u = c # cs \<and> starts_char c \<and> utf8_step c = Suc (length cs) \<and> list_all (\<lambda>c. \<not> starts_char c) cs"
  by (cases u) (auto simp: utf8_char_def)

lemma truncate_loop_chars:
  "list_all utf8_char us \<Longrightarrow>
   \<exists>ps qs. us = ps @ qs \<and> truncate_loop (concat us) n = length (concat ps) \<and> length (concat ps) \<le> n \<and>
     (qs \<noteq> [] \<longrightarrow> n < length (concat ps) + length (hd qs))"
proof (induction us arbitrary: n)
  case Nil
  then show ?case by (simp add: truncate_loop.simps)
next
  case (Cons u us)
  obtain c cs where u: "u = c # cs" "utf8_step c = Suc (length cs)"
    using utf8_char_Cons [of u] Cons.prems by auto
  show ?case
  proof (cases "length u \<le> n")
    case True
    obtain ps qs where "us = ps @ qs" "truncate_loop (concat us) (n - length u) = length (concat ps)"
      "length (concat ps) \<le> n - length u" "qs \<noteq> [] \<longrightarrow> n - length u < length (concat ps) + length (hd qs)"
      using Cons.IH [of "n - length u"] Cons.prems by (metis list.pred_inject(2))
    then show ?thesis
      using True u by (intro exI [of _ "u # ps"] exI [of _ qs]) (auto simp: truncate_loop.simps [of "c # _"])
  next
    case False
    then show ?thesis
      using u by (intro exI [of _ "[]"] exI [of _ "u # us"]) (auto simp: truncate_loop.simps [of "c # _"])
  qed
qed

lemma dropWhile_char:
  assumes "utf8_char u"
  shows "dropWhile (\<lambda>c. \<not> starts_char c) (drop s u @ r) =
    (if s = 0 then u @ r else dropWhile (\<lambda>c. \<not> starts_char c) r)"
proof -
  obtain c cs where u: "u = c # cs" "starts_char c" "list_all (\<lambda>c. \<not> starts_char c) cs"
    using utf8_char_Cons [OF assms] by auto
  have "\<forall>x \<in> set (drop k cs). \<not> starts_char x" for k
    using u(3) by (auto simp: list_all_iff dest: in_set_dropD)
  then show ?thesis
    using u by (cases s) (auto simp: dropWhile_append2)
qed

lemma truncate_tail_chars:
  "list_all utf8_char us \<Longrightarrow> s \<le> length (concat us) \<Longrightarrow>
   \<exists>ts vs. us = ts @ vs \<and> dropWhile (\<lambda>c. \<not> starts_char c) (drop s (concat us)) = concat vs \<and>
     s \<le> length (concat ts) \<and> (ts \<noteq> [] \<longrightarrow> length (concat ts) < s + length (last ts))"
proof (induction us arbitrary: s)
  case (Cons u us)
  have u: "utf8_char u" and us: "list_all utf8_char us" using Cons.prems(1) by auto
  have pos: "0 < length u" using u utf8_step_pos by (simp add: utf8_char_def)
  show ?case
  proof (cases "s = 0")
    case True
    then show ?thesis
      using dropWhile_char [OF u, of 0 "concat us"] by (intro exI [of _ "[]"] exI [of _ "u # us"]) simp
  next
    case False
    obtain ts vs where ih: "us = ts @ vs"
      "dropWhile (\<lambda>c. \<not> starts_char c) (drop (s - length u) (concat us)) = concat vs"
      "s - length u \<le> length (concat ts)"
      "ts \<noteq> [] \<longrightarrow> length (concat ts) < s - length u + length (last ts)"
    proof -
      have "s - length u \<le> length (concat us)" using Cons.prems(2) by simp
      from Cons.IH [OF us this] that show thesis by blast
    qed
    have "dropWhile (\<lambda>c. \<not> starts_char c) (drop s (concat (u # us))) = concat vs"
    proof (cases "s \<le> length u")
      case True
      then show ?thesis using dropWhile_char [OF u, of s "concat us"] ih(2) False by (simp add: drop_append)
    next
      case False
      then show ?thesis using ih(2) by (simp add: drop_append)
    qed
    moreover have "length (concat ts) + length u < s + length (last ts)" if "ts \<noteq> []"
    proof -
      have "length (last ts) \<le> length (concat ts)"
        using that by (induction ts rule: rev_induct) simp_all
      then show ?thesis using ih(4) that by linarith
    qed
    ultimately show ?thesis
      using ih pos False by (intro exI [of _ "u # ts"] exI [of _ vs]) auto
  qed
qed simp

lemma truncate_prefix:
  assumes "list_all utf8_char us"
  shows "\<exists>ps qs. us = ps @ qs \<and> utf8_truncate (concat us) n = concat ps \<and> length (concat ps) \<le> n \<and>
    (qs = [] \<or> n < length (concat ps) + length (hd qs))"
proof (cases "length (concat us) \<le> n")
  case True
  then show ?thesis by (intro exI [of _ us] exI [of _ "[]"]) (simp add: utf8_truncate_def)
next
  case False
  obtain ps qs where p: "us = ps @ qs" "truncate_loop (concat us) n = length (concat ps)" "length (concat ps) \<le> n"
    "qs \<noteq> [] \<longrightarrow> n < length (concat ps) + length (hd qs)"
    using truncate_loop_chars [OF assms] by blast
  moreover have "utf8_truncate (concat us) n = concat ps"
    using False p(1,2) by (simp add: utf8_truncate_def)
  ultimately show ?thesis by blast
qed

lemma truncate_suffix:
  assumes "list_all utf8_char us"
  shows "\<exists>ts vs. us = ts @ vs \<and> utf8_truncate_tail (concat us) n = concat vs \<and> length (concat vs) \<le> n \<and>
    (ts = [] \<or> n < length (concat vs) + length (last ts))"
proof (cases "length (concat us) \<le> n")
  case True
  then show ?thesis by (intro exI [of _ "[]"] exI [of _ us]) (simp add: utf8_truncate_tail_def)
next
  case False
  obtain ts vs where t: "us = ts @ vs"
    "dropWhile (\<lambda>c. \<not> starts_char c) (drop (length (concat us) - n) (concat us)) = concat vs"
    "length (concat us) - n \<le> length (concat ts)"
    "ts \<noteq> [] \<longrightarrow> length (concat ts) < length (concat us) - n + length (last ts)"
    using truncate_tail_chars [OF assms diff_le_self] by blast
  have "utf8_truncate_tail (concat us) n = concat vs"
    using False t(2) by (simp add: utf8_truncate_tail_def)
  moreover have "length (concat us) = length (concat ts) + length (concat vs)" by (simp add: t(1))
  then have "length (concat vs) \<le> n" "ts = [] \<or> n < length (concat vs) + length (last ts)"
    using t(3,4) False by auto
  ultimately show ?thesis using t(1) by blast
qed

text \<open>
  The truncations keep whole characters: on a text of UTF-8 characters, \<open>utf8_truncate\<close> returns the longest run
  of whole characters from the front, and \<open>utf8_truncate_tail\<close> the longest from the back, that fit the limit.
\<close>

theorem truncate_whole_chars:
  assumes "list_all utf8_char us"
  shows "(\<exists>ps qs. us = ps @ qs \<and> utf8_truncate (concat us) n = concat ps \<and> length (concat ps) \<le> n \<and>
      (qs = [] \<or> n < length (concat ps) + length (hd qs))) \<and>
    (\<exists>ts vs. us = ts @ vs \<and> utf8_truncate_tail (concat us) n = concat vs \<and> length (concat vs) \<le> n \<and>
      (ts = [] \<or> n < length (concat vs) + length (last ts)))"
  using truncate_prefix [OF assms] truncate_suffix [OF assms] by blast

definition euro :: string where
  "euro = map char_of [0xE2, 0x82, 0xAC :: nat]"

lemma euro_char: "utf8_char euro" "utf8_char ''a''"
  by (simp_all add: utf8_char_def euro_def starts_char_def utf8_step_def byte_char_of) (simp add: byte_def)+

theorem truncate_whole_chars_witness:
  "\<exists>ps qs. [''a'', euro] = ps @ qs \<and> utf8_truncate (concat [''a'', euro]) 3 = concat ps \<and> length (concat ps) \<le> 3"
proof -
  have "list_all utf8_char [''a'', euro]" using euro_char by simp
  from truncate_whole_chars [OF this, of 3] show ?thesis by blast
qed

end
