(* ===== verification/Permission.thy ===== *)
theory Permission
  imports StdMap JsonRoundtrip JsonAccess SsoString Utf8Text
begin

text \<open>
  The tool permission policy (\<open>capabilities/permission/policy_engine.cpp\<close>, \<open>types.hpp\<close>) and the tools that
  operate it (\<open>tool/permission_tools.hpp\<close>). Every tool call of the model is evaluated against the policy: it
  is allowed, denied, or it needs an approval, for which a request is kept under a fresh id until it
  is approved (once, or for the session) or denied. The file system is a parameter: \<open>weakly_canonical\<close>
  answers \<open>None\<close> where the C++ function reports an error (and then returns the empty path), and \<open>current_path\<close> is \<open>None\<close> where
  it throws. The text of a double is the parameter \<open>fmt\<close> of the serializer. The id counter is shared by all engines of the
  process. The mutex makes every operation atomic.
\<close>

record fs =
  weakly_canonical :: "string \<Rightarrow> string option"
  current_path :: "string option"

datatype perm_fault = DumpOverflow | NoCurrentPath

datatype policy_effect = Allow | Ask | Deny

record 'd decision =
  d_effect :: policy_effect
  d_policy_key :: string
  d_reason :: string
  d_permission_id :: string
  d_resource :: "'d json"

record 'd request =
  r_permission_id :: string
  r_policy_key :: string
  r_tool_name :: string
  r_reason :: string
  r_created_at :: string
  r_arguments :: "'d json"
  r_resource :: "'d json"

record 'd engine =
  project_path :: string
  session_allow :: "string set"
  approved_once :: "string set"
  pending :: "(string \<times> 'd request) list"
  counter :: u64

definition allowed :: "'d decision \<Rightarrow> bool" where
  "allowed d \<longleftrightarrow> d_effect d = Allow"

subsection \<open>JSON of decisions and requests\<close>

fun effect_str :: "policy_effect \<Rightarrow> string" where
  "effect_str Allow = ''allow''"
| "effect_str Ask = ''ask''"
| "effect_str Deny = ''deny''"

definition decision_to_json :: "'d decision \<Rightarrow> 'd json" where
  "decision_to_json d = JObject
     [(''success'', JBool False),
      (''error_type'', JString (if d_effect d = Ask then ''permission_required'' else ''permission_denied'')),
      (''policy_effect'', JString (effect_str (d_effect d))),
      (''policy_key'', JString (d_policy_key d)),
      (''permission_id'', JString (d_permission_id d)),
      (''message'', JString (d_reason d)),
      (''resource'', d_resource d)]"

definition request_to_json :: "'d request \<Rightarrow> 'd json" where
  "request_to_json r = JObject
     [(''permission_id'', JString (r_permission_id r)),
      (''policy_key'', JString (r_policy_key r)),
      (''tool_name'', JString (r_tool_name r)),
      (''reason'', JString (r_reason r)),
      (''created_at'', JString (r_created_at r)),
      (''arguments'', r_arguments r),
      (''resource'', r_resource r)]"

subsection \<open>Requests and approvals\<close>

definition engine_new :: "string \<Rightarrow> u64 \<Rightarrow> 'd engine" where
  "engine_new path c =
     \<lparr>project_path = path, session_allow = {}, approved_once = {}, pending = [], counter = c\<rparr>"

definition allow_for_session :: "string \<Rightarrow> 'd engine \<Rightarrow> 'd engine" where
  "allow_for_session key e = e\<lparr>session_allow := insert key (session_allow e)\<rparr>"

definition list_pending :: "'d engine \<Rightarrow> 'd json" where
  "list_pending e = JObject
     [(''success'', JBool True), (''permissions'', JArray (map (\<lambda>(k, r). request_to_json r) (pending e)))]"

text \<open>\<open>dump()\<close>; writing past the buffer of the serializer is a fault.\<close>

definition dump :: "('d \<Rightarrow> string) \<Rightarrow> 'd json \<Rightarrow> perm_fault + string" where
  "dump fmt v = (case serialize fmt v (-1) of None \<Rightarrow> Inl DumpOverflow | Some s \<Rightarrow> Inr s)"

definition permission_fingerprint :: "('d \<Rightarrow> string) \<Rightarrow> string \<Rightarrow> 'd json \<Rightarrow> perm_fault + string" where
  "permission_fingerprint fmt tool_name arguments =
     bind_sum (dump fmt arguments) (\<lambda>dumped. Inr (tool_name @ [CHR 0x0A] @ dumped))"

definition not_found_json :: "'d json" where
  "not_found_json = JObject
     [(''success'', JBool False), (''error_type'', JString ''permission_not_found''),
      (''message'', JString ''pending permission not found'')]"

definition approve ::
  "('d \<Rightarrow> string) \<Rightarrow> string \<Rightarrow> bool \<Rightarrow> 'd engine \<Rightarrow> perm_fault + ('d json \<times> 'd engine)" where
  "approve fmt pid allow_session e =
     (case map_of (pending e) pid of
        None \<Rightarrow> Inr (not_found_json, e)
      | Some request \<Rightarrow>
          let e1 = e\<lparr>pending := sm_del pid (pending e)\<rparr>;
              reply = JObject
                [(''success'', JBool True), (''permission_id'', JString (r_permission_id request)),
                 (''policy_key'', JString (r_policy_key request)), (''allow_session'', JBool allow_session)]
          in if allow_session
             then Inr (reply, e1\<lparr>session_allow := insert (r_policy_key request) (session_allow e1)\<rparr>)
             else bind_sum (permission_fingerprint fmt (r_tool_name request) (r_arguments request))
               (\<lambda>fp. Inr (reply, e1\<lparr>approved_once := insert fp (approved_once e1)\<rparr>)))"

definition deny_pending :: "string \<Rightarrow> 'd engine \<Rightarrow> 'd json \<times> 'd engine" where
  "deny_pending pid e =
     (case map_of (pending e) pid of
        None \<Rightarrow> (not_found_json, e)
      | Some request \<Rightarrow>
          (JObject
             [(''success'', JBool True), (''permission_id'', JString (r_permission_id request)),
              (''policy_key'', JString (r_policy_key request))],
           e\<lparr>pending := sm_del pid (pending e)\<rparr>))"

definition allow :: "string \<Rightarrow> string \<Rightarrow> 'd decision" where
  "allow key reason =
     \<lparr>d_effect = Allow, d_policy_key = key, d_reason = reason, d_permission_id = [], d_resource = JObject []\<rparr>"

definition deny :: "string \<Rightarrow> string \<Rightarrow> 'd json \<Rightarrow> 'd decision" where
  "deny key reason resource =
     \<lparr>d_effect = Deny, d_policy_key = key, d_reason = reason, d_permission_id = [], d_resource = resource\<rparr>"

text \<open>\<open>std::hex\<close> output.\<close>

fun hex_lower :: "nat \<Rightarrow> string" where
  "hex_lower n =
     (if n < 16 then [''0123456789abcdef'' ! n]
      else hex_lower (n div 16) @ [''0123456789abcdef'' ! (n mod 16)])"

declare hex_lower.simps [simp del]

definition make_permission_id :: "u64 \<Rightarrow> string \<times> u64" where
  "make_permission_id c = (''perm_'' @ hex_lower (unat c), c + 1)"

definition ask ::
  "('d \<Rightarrow> string) \<Rightarrow> string \<Rightarrow> string \<Rightarrow> string \<Rightarrow> string \<Rightarrow> 'd json \<Rightarrow> 'd json \<Rightarrow> 'd engine \<Rightarrow>
   perm_fault + ('d decision \<times> 'd engine)" where
  "ask fmt now key reason tool_name arguments resource e =
     bind_sum (permission_fingerprint fmt tool_name arguments) (\<lambda>fingerprint.
       if key \<in> session_allow e then
         Inr (\<lparr>d_effect = Allow, d_policy_key = key, d_reason = reason, d_permission_id = [],
               d_resource = resource\<rparr>, e)
       else if fingerprint \<in> approved_once e then
         Inr (\<lparr>d_effect = Allow, d_policy_key = key, d_reason = reason, d_permission_id = [],
               d_resource = resource\<rparr>, e\<lparr>approved_once := approved_once e - {fingerprint}\<rparr>)
       else
         let (pid, c) = make_permission_id (counter e);
             request = \<lparr>r_permission_id = pid, r_policy_key = key, r_tool_name = tool_name,
               r_reason = reason, r_created_at = now, r_arguments = arguments, r_resource = resource\<rparr>
         in Inr (\<lparr>d_effect = Ask, d_policy_key = key, d_reason = reason, d_permission_id = pid,
                  d_resource = resource\<rparr>,
                 e\<lparr>pending := sm_put pid request (pending e), counter := c\<rparr>))"

subsection \<open>Paths and shell commands\<close>

definition project_root :: "fs \<Rightarrow> 'd engine \<Rightarrow> perm_fault + string" where
  "project_root w e =
     (if project_path e \<noteq> [] then Inr (project_path e)
      else case current_path w of None \<Rightarrow> Inl NoCurrentPath | Some p \<Rightarrow> Inr p)"

definition sep :: char where
  "sep = CHR ''/''"

definition is_absolute :: "string \<Rightarrow> bool" where
  "is_absolute p \<longleftrightarrow> (case p of [] \<Rightarrow> False | c # cs \<Rightarrow> c = sep)"

text \<open>\<open>root / p\<close> for a path \<open>p\<close> that is not absolute: a separator unless the left side is empty or ends with one.\<close>

definition path_append :: "string \<Rightarrow> string \<Rightarrow> string" where
  "path_append root p = (if root = [] \<or> last root = sep then root @ p else root @ [sep] @ p)"

text \<open>
  The answer and the out-parameter \<open>normalized\<close> (empty at every call). After an error \<open>target\<close> is the empty path, so
  that its parent path and its file name, of which the code builds the second attempt, are empty.
\<close>

definition path_inside_workspace :: "fs \<Rightarrow> 'd engine \<Rightarrow> string \<Rightarrow> perm_fault + (bool \<times> string)" where
  "path_inside_workspace w e input =
     (if input = [] then Inr (True, [])
      else bind_sum (project_root w e) (\<lambda>pr.
        case weakly_canonical w pr of
          None \<Rightarrow> Inr (False, [])
        | Some root \<Rightarrow>
            let target = (case weakly_canonical w (if is_absolute input then input else path_append root input) of
                  Some t \<Rightarrow> t
                | None \<Rightarrow> path_append (case weakly_canonical w [] of Some t \<Rightarrow> t | None \<Rightarrow> []) [])
            in Inr (target = root \<or> take (length root + 1) target = root @ [sep], target)))"

definition lower_copy :: "string \<Rightarrow> string" where
  "lower_copy s = map tolower s"

definition dangerous_patterns :: "string list" where
  "dangerous_patterns =
     [''rm -rf /'', ''sudo '', ''mkfs'', ''dd if='', ''chmod -r 777'', ''chown -r'', '':(){ :|:& };:'']"

definition dangerous_shell_command :: "string \<Rightarrow> bool" where
  "dangerous_shell_command command \<longleftrightarrow>
     list_ex (\<lambda>p. search p (lower_copy command) \<noteq> None) dangerous_patterns"

subsection \<open>Evaluation\<close>

definition read_only_tools :: "string list" where
  "read_only_tools =
     [''preview_diff'', ''list_changes'', ''read_change'', ''list_checkpoints'', ''read_checkpoint'',
      ''inspect_test_commands'', ''list_pending_permissions'', ''repo_map_overview'', ''repo_map_find_files'',
      ''repo_map_find_symbols'', ''repo_map_explain_path'', ''diagnostic_repair_context'',
      ''diagnostic_repair_plan'', ''diagnostic_repair_patch_preview'', ''code_intel_document_symbols'',
      ''code_intel_workspace_symbols'', ''code_intel_definition'', ''code_intel_references'',
      ''git_status'', ''git_diff'', ''git_log'', ''read_file'', ''list_directory'', ''file_info'',
      ''search_files'', ''grep_content'', ''http_get'', ''get_skill'', ''list_skills'', ''read_memory'',
      ''recall'', ''read_soul'', ''read_rules'']"

definition read_only_call :: "string \<Rightarrow> 'd json \<Rightarrow> bool" where
  "read_only_call name arguments \<longleftrightarrow>
     name \<in> set read_only_tools \<or>
     name \<in> {''git_branch'', ''git_worktree''} \<and> value_str arguments ''action'' ''list'' = ''list''"

text \<open>The denial of a path that is not inside the workspace; \<open>field\<close> is its name in the resource of the decision.\<close>

definition deny_outside ::
  "fs \<Rightarrow> 'd engine \<Rightarrow> string \<Rightarrow> string \<Rightarrow> string \<Rightarrow> perm_fault + 'd decision option" where
  "deny_outside w e reason field path =
     bind_sum (path_inside_workspace w e path) (\<lambda>(inside, normalized).
       Inr (if inside then None
            else Some (deny ''path.outside_workspace'' reason
                   (JObject [(field, JString path), (''normalized'', JString normalized)]))))"

fun check_paths :: "fs \<Rightarrow> 'd engine \<Rightarrow> 'd json list \<Rightarrow> perm_fault + 'd decision option" where
  "check_paths w e [] = Inr None"
| "check_paths w e (item # items) =
     (case item of
        JString path \<Rightarrow>
          bind_sum (deny_outside w e ''tool path escapes workspace'' ''path'' path) (\<lambda>d.
            if d \<noteq> None then Inr d else check_paths w e items)
      | _ \<Rightarrow> check_paths w e items)"

definition check_arguments :: "fs \<Rightarrow> 'd engine \<Rightarrow> 'd json \<Rightarrow> perm_fault + 'd decision option" where
  "check_arguments w e arguments =
     bind_sum (case json_find arguments ''path'' of
         Some (JString path) \<Rightarrow> deny_outside w e ''tool path escapes workspace'' ''path'' path
       | _ \<Rightarrow> Inr None) (\<lambda>d. if d \<noteq> None then Inr d else
     bind_sum (case json_find arguments ''paths'' of
         Some (JArray items) \<Rightarrow> check_paths w e items
       | _ \<Rightarrow> Inr None) (\<lambda>d. if d \<noteq> None then Inr d else
     (case json_find arguments ''location'' of
         Some (JString path) \<Rightarrow> deny_outside w e ''tool location escapes workspace'' ''location'' path
       | _ \<Rightarrow> Inr None)))"

text \<open>The tools whose branch is \<open>return ask(key, reason, name, arguments, resource)\<close>.\<close>

definition ask_rule :: "string \<Rightarrow> 'd json \<Rightarrow> (string \<times> string \<times> 'd json) option" where
  "ask_rule name arguments =
     (if name = ''apply_patch'' then
        Some (''patch.apply'', ''applying a patch modifies workspace files'', JObject [])
      else if name = ''revert_patch'' then
        Some (''patch.revert'', ''reverting a patch modifies workspace files'', JObject [])
      else if name = ''create_checkpoint'' then
        Some (''checkpoint.create'', ''creating a checkpoint reads workspace file contents'',
              JObject [(''paths'', value_json arguments ''paths'' (JArray []))])
      else if name = ''restore_checkpoint'' then
        Some (''checkpoint.restore'', ''restoring a checkpoint modifies workspace files'',
              JObject [(''checkpoint_id'', JString (value_str arguments ''checkpoint_id'' []))])
      else if name = ''delete_checkpoint'' then
        Some (''checkpoint.delete'', ''deleting a checkpoint removes recovery data'',
              JObject [(''checkpoint_id'', JString (value_str arguments ''checkpoint_id'' []))])
      else if name = ''git_restore'' then
        Some (''git.restore'', ''git restore modifies workspace files'', JObject [])
      else if name = ''git_branch'' then
        Some (''git.branch'', ''git branch mutation requires approval'',
              JObject [(''action'', JString (value_str arguments ''action'' ''list''))])
      else if name = ''git_commit'' then
        Some (''git.commit'', ''git commit modifies repository history'',
              JObject [(''message'', JString (value_str arguments ''message'' [])),
                       (''paths'', value_json arguments ''paths'' (JArray [])),
                       (''all'', JBool (value_bool arguments ''all'' False)),
                       (''amend'', JBool (value_bool arguments ''amend'' False))])
      else if name = ''git_worktree'' then
        Some (''git.worktree'', ''git worktree mutation requires approval'',
              JObject [(''action'', JString (value_str arguments ''action'' ''list''))])
      else if name \<in> {''write_file'', ''delete_file'', ''rename_file'', ''copy_file'', ''mkdir''} then
        Some (''file.write'', ''file mutation requires approval'', JObject [(''tool'', JString name)])
      else None)"

definition evaluate_command ::
  "('d \<Rightarrow> string) \<Rightarrow> string \<Rightarrow> string \<Rightarrow> string \<Rightarrow> string \<Rightarrow> string \<Rightarrow> 'd json \<Rightarrow> 'd engine \<Rightarrow>
   perm_fault + ('d decision \<times> 'd engine)" where
  "evaluate_command fmt now blocked key reason name arguments e =
     (let command = value_str arguments ''command'' [];
          resource = JObject [(''command'', JString command)]
      in if dangerous_shell_command command then Inr (deny ''shell.dangerous'' blocked resource, e)
         else ask fmt now key reason name arguments resource e)"

definition evaluate_tool_permission ::
  "fs \<Rightarrow> ('d \<Rightarrow> string) \<Rightarrow> string \<Rightarrow> string \<Rightarrow> 'd json \<Rightarrow> 'd engine \<Rightarrow> perm_fault + ('d decision \<times> 'd engine)" where
  "evaluate_tool_permission w fmt now name arguments e =
     (if read_only_call name arguments then Inr (allow name ''read-only tool'', e)
      else bind_sum (check_arguments w e arguments) (\<lambda>denied.
        case denied of Some d \<Rightarrow> Inr (d, e) | None \<Rightarrow>
        if name = ''approve_permission'' then Inr (allow ''permission.approve'' ''permission approval control tool'', e)
        else if name = ''deny_permission'' then Inr (allow ''permission.deny'' ''permission denial control tool'', e)
        else if name = ''execute_command'' then
          evaluate_command fmt now ''dangerous shell command blocked'' ''shell.default''
            ''shell command requires approval'' name arguments e
        else if name = ''run_tests'' then
          evaluate_command fmt now ''dangerous test command blocked'' ''test.run''
            ''running tests executes a workspace command'' name arguments e
        else case ask_rule name arguments of
            Some (key, reason, resource) \<Rightarrow> ask fmt now key reason name arguments resource e
          | None \<Rightarrow> Inr (allow name ''no restrictive policy matched'', e)))"

subsection \<open>The permission tools\<close>

definition list_pending_tool :: "('d \<Rightarrow> string) \<Rightarrow> 'd json \<Rightarrow> 'd engine \<Rightarrow> perm_fault + (string \<times> 'd engine)" where
  "list_pending_tool fmt args e = bind_sum (dump fmt (list_pending e)) (\<lambda>out. Inr (out, e))"

definition approve_permission_tool ::
  "('d \<Rightarrow> string) \<Rightarrow> 'd json \<Rightarrow> 'd engine \<Rightarrow> perm_fault + (string \<times> 'd engine)" where
  "approve_permission_tool fmt args e =
     bind_sum (approve fmt (value_str args ''permission_id'' []) (value_bool args ''allow_session'' False) e)
       (\<lambda>(reply, e1). bind_sum (dump fmt reply) (\<lambda>out. Inr (out, e1)))"

definition deny_permission_tool ::
  "('d \<Rightarrow> string) \<Rightarrow> 'd json \<Rightarrow> 'd engine \<Rightarrow> perm_fault + (string \<times> 'd engine)" where
  "deny_permission_tool fmt args e =
     (let (reply, e1) = deny_pending (value_str args ''permission_id'' []) e
      in bind_sum (dump fmt reply) (\<lambda>out. Inr (out, e1)))"

subsection \<open>Sequences of operations\<close>

text \<open>
  What happens to an engine between its construction and some later moment. \<open>OpOtherId\<close> is another engine of the
  process that takes an id from the shared counter. The trace keeps every operation with the engine before it and the
  decision it returned.
\<close>

datatype 'd perm_op =
    OpEvaluate string string "'d json"
  | OpAllowSession string
  | OpApprove string bool
  | OpDeny string
  | OpOtherId

fun perm_step ::
  "fs \<Rightarrow> ('d \<Rightarrow> string) \<Rightarrow> 'd perm_op \<Rightarrow> 'd engine \<Rightarrow> perm_fault + ('d decision option \<times> 'd engine)" where
  "perm_step w fmt (OpEvaluate now name arguments) e =
     bind_sum (evaluate_tool_permission w fmt now name arguments e) (\<lambda>(d, e'). Inr (Some d, e'))"
| "perm_step w fmt (OpAllowSession key) e = Inr (None, allow_for_session key e)"
| "perm_step w fmt (OpApprove pid session) e =
     bind_sum (approve fmt pid session e) (\<lambda>(reply, e'). Inr (None, e'))"
| "perm_step w fmt (OpDeny pid) e = Inr (None, snd (deny_pending pid e))"
| "perm_step w fmt OpOtherId e = Inr (None, e\<lparr>counter := counter e + 1\<rparr>)"

type_synonym 'd perm_trace = "('d perm_op \<times> 'd engine \<times> 'd decision option) list"

fun perm_run ::
  "fs \<Rightarrow> ('d \<Rightarrow> string) \<Rightarrow> 'd perm_op list \<Rightarrow> 'd engine \<Rightarrow> perm_fault + ('d perm_trace \<times> 'd engine)" where
  "perm_run w fmt [] e = Inr ([], e)"
| "perm_run w fmt (a # as) e =
     bind_sum (perm_step w fmt a e) (\<lambda>(d, e1).
     bind_sum (perm_run w fmt as e1) (\<lambda>(tr, e2). Inr ((a, e, d) # tr, e2)))"

subsection \<open>Paths stay inside the workspace\<close>

fun string_items :: "'d json list \<Rightarrow> string list" where
  "string_items [] = []"
| "string_items (v # vs) = (case v of JString p \<Rightarrow> [p] | _ \<Rightarrow> []) @ string_items vs"

text \<open>The paths that the arguments of a call name, as far as the policy looks at them.\<close>

definition checked_paths :: "'d json \<Rightarrow> string list" where
  "checked_paths arguments =
     (case json_find arguments ''path'' of Some (JString p) \<Rightarrow> [p] | _ \<Rightarrow> []) @
     (case json_find arguments ''paths'' of Some (JArray items) \<Rightarrow> string_items items | _ \<Rightarrow> []) @
     (case json_find arguments ''location'' of Some (JString p) \<Rightarrow> [p] | _ \<Rightarrow> [])"

text \<open>
  What the standard says of \<open>weakly_canonical\<close> and \<open>current_path\<close>: the empty path stays empty, no other path becomes empty.
\<close>

definition fs_ok :: "fs \<Rightarrow> bool" where
  "fs_ok w \<longleftrightarrow> weakly_canonical w [] = Some [] \<and> (\<forall>p. p \<noteq> [] \<longrightarrow> weakly_canonical w p \<noteq> Some []) \<and>
     current_path w \<noteq> Some []"

text \<open>The canonical form of the path is the canonical root of the workspace or lies below it.\<close>

definition lies_inside :: "fs \<Rightarrow> 'd engine \<Rightarrow> string \<Rightarrow> bool" where
  "lies_inside w e p \<longleftrightarrow>
     (\<exists>pr root t. project_root w e = Inr pr \<and> weakly_canonical w pr = Some root \<and>
        weakly_canonical w (if is_absolute p then p else path_append root p) = Some t \<and>
        (t = root \<or> (\<exists>below. t = root @ [sep] @ below)))"

lemma project_root_nonempty: "fs_ok w \<Longrightarrow> project_root w e = Inr pr \<Longrightarrow> pr \<noteq> []"
  by (auto simp: project_root_def fs_ok_def split: if_splits option.splits)

lemma take_prefix_iff: "take (length a) t = a \<longleftrightarrow> (\<exists>b. t = a @ b)"
  by (metis append_eq_conv_conj append_take_drop_id)

lemma path_inside_workspace_iff:
  assumes "fs_ok w" "p \<noteq> []"
  shows "(\<exists>n. path_inside_workspace w e p = Inr (True, n)) \<longleftrightarrow> lies_inside w e p"
proof (cases "project_root w e")
  case (Inl f)
  then show ?thesis using assms(2) by (simp add: path_inside_workspace_def lies_inside_def)
next
  case (Inr pr)
  show ?thesis
  proof (cases "weakly_canonical w pr")
    case None
    with Inr show ?thesis using assms(2) by (simp add: path_inside_workspace_def lies_inside_def)
  next
    case (Some root)
    then have root: "root \<noteq> []"
      using project_root_nonempty [OF assms(1) Inr] assms(1) by (auto simp: fs_ok_def)
    have empty: "weakly_canonical w [] = Some []" using assms(1) by (simp add: fs_ok_def)
    show ?thesis
      using Inr Some assms(2) root empty take_prefix_iff [of "root @ [sep]"]
      by (cases "weakly_canonical w (if is_absolute p then p else path_append root p)")
        (simp_all add: path_inside_workspace_def lies_inside_def path_append_def)
  qed
qed

lemma deny_outside_None:
  "deny_outside w e reason field p = Inr None \<longleftrightarrow> (\<exists>n. path_inside_workspace w e p = Inr (True, n))"
  by (auto simp: deny_outside_def bind_sum_Inr split: if_splits)

lemma deny_outside_Some: "deny_outside w e reason field p = Inr (Some d) \<Longrightarrow> d_effect d = Deny"
  by (auto simp: deny_outside_def bind_sum_Inr deny_def split: if_splits)

lemma bind_first_denial:
  "bind_sum x (\<lambda>d. if d \<noteq> None then Inr d else y) = Inr None \<longleftrightarrow> x = Inr None \<and> y = Inr None"
proof (cases x)
  case (Inr d)
  then show ?thesis by (cases d) auto
qed simp

lemma check_paths_None:
  "check_paths w e items = Inr None \<longleftrightarrow>
   (\<forall>p \<in> set (string_items items). \<exists>n. path_inside_workspace w e p = Inr (True, n))"
proof (induction items)
  case (Cons item items)
  then show ?case by (cases item) (simp_all only: check_paths.simps string_items.simps json.case
      bind_first_denial deny_outside_None, simp_all)
qed simp

lemma check_paths_Some: "check_paths w e items = Inr (Some d) \<Longrightarrow> d_effect d = Deny"
  by (induction items)
    (auto simp: bind_sum_Inr split: json.splits if_splits dest: deny_outside_Some)

lemma check_arguments_None:
  "check_arguments w e arguments = Inr None \<longleftrightarrow>
   (\<forall>p \<in> set (checked_paths arguments). \<exists>n. path_inside_workspace w e p = Inr (True, n))"
proof -
  let ?P = "\<lambda>p. \<exists>n. path_inside_workspace w e p = Inr (True, n)"
  have 1: "(case json_find arguments k of
        Some (JString path) \<Rightarrow> deny_outside w e reason field path | _ \<Rightarrow> Inr None) = Inr None \<longleftrightarrow>
      (\<forall>p \<in> set (case json_find arguments k of Some (JString p) \<Rightarrow> [p] | _ \<Rightarrow> []). ?P p)"
    for k reason field
    by (simp add: deny_outside_None split: option.split json.split)
  have 2: "(case json_find arguments ''paths'' of
        Some (JArray items) \<Rightarrow> check_paths w e items | _ \<Rightarrow> Inr None) = Inr None \<longleftrightarrow>
      (\<forall>p \<in> set (case json_find arguments ''paths'' of
        Some (JArray items) \<Rightarrow> string_items items | _ \<Rightarrow> []). ?P p)"
    by (auto simp: check_paths_None split: option.split json.split)
  show ?thesis
    unfolding check_arguments_def checked_paths_def set_append ball_Un bind_first_denial 1 2 ..
qed

lemma check_arguments_Some: "check_arguments w e arguments = Inr (Some d) \<Longrightarrow> d_effect d = Deny"
  by (auto simp: check_arguments_def bind_sum_Inr split: option.splits json.splits if_splits
      dest: deny_outside_Some check_paths_Some)

subsection \<open>Calls that need an approval\<close>

text \<open>The policy key, reason and resource with which a call that is not read-only needs an approval.\<close>

definition guarded_rule :: "string \<Rightarrow> 'd json \<Rightarrow> (string \<times> string \<times> 'd json) option" where
  "guarded_rule name arguments =
     (let command = JObject [(''command'', JString (value_str arguments ''command'' []))]
      in if read_only_call name arguments then None
         else if name = ''execute_command'' then
           Some (''shell.default'', ''shell command requires approval'', command)
         else if name = ''run_tests'' then
           Some (''test.run'', ''running tests executes a workspace command'', command)
         else ask_rule name arguments)"

definition runs_command :: "string \<Rightarrow> bool" where
  "runs_command name \<longleftrightarrow> name = ''execute_command'' \<or> name = ''run_tests''"

definition is_dangerous :: "string \<Rightarrow> 'd json \<Rightarrow> bool" where
  "is_dangerous name arguments \<longleftrightarrow>
     runs_command name \<and> dangerous_shell_command (value_str arguments ''command'' [])"

definition blocked :: "string \<Rightarrow> string" where
  "blocked name =
     (if name = ''execute_command'' then ''dangerous shell command blocked'' else ''dangerous test command blocked'')"

lemma guarded_names:
  "guarded_rule name arguments = Some rule \<Longrightarrow>
   name \<in> {''execute_command'', ''run_tests'', ''apply_patch'', ''revert_patch'', ''create_checkpoint'',
     ''restore_checkpoint'', ''delete_checkpoint'', ''git_restore'', ''git_branch'', ''git_commit'',
     ''git_worktree'', ''write_file'', ''delete_file'', ''rename_file'', ''copy_file'', ''mkdir''}"
  by (simp add: guarded_rule_def ask_rule_def Let_def split: if_splits)

lemma evaluate_guarded:
  assumes "guarded_rule name arguments = Some (key, reason, resource)"
  shows "evaluate_tool_permission w fmt now name arguments e =
    bind_sum (check_arguments w e arguments) (\<lambda>denied.
      case denied of Some d \<Rightarrow> Inr (d, e)
      | None \<Rightarrow>
          if is_dangerous name arguments then Inr (deny ''shell.dangerous'' (blocked name) resource, e)
          else ask fmt now key reason name arguments resource e)"
proof -
  have ro: "\<not> read_only_call name arguments"
    using assms by (auto simp: guarded_rule_def)
  consider (shell) "name = ''execute_command''" | (tests) "name = ''run_tests''"
    | (other) "\<not> runs_command name" by (auto simp: runs_command_def)
  then show ?thesis
  proof cases
    case shell
    with assms ro show ?thesis
      by (simp add: evaluate_tool_permission_def evaluate_command_def guarded_rule_def is_dangerous_def
          runs_command_def blocked_def Let_def cong: option.case_cong)
  next
    case tests
    with assms ro show ?thesis
      by (simp add: evaluate_tool_permission_def evaluate_command_def guarded_rule_def is_dangerous_def
          runs_command_def blocked_def Let_def cong: option.case_cong)
  next
    case other
    have "name \<noteq> ''approve_permission''" "name \<noteq> ''deny_permission''"
      using guarded_names [OF assms] by auto
    moreover have "ask_rule name arguments = Some (key, reason, resource)"
      using assms ro other by (simp add: guarded_rule_def runs_command_def)
    ultimately show ?thesis
      using ro other
      by (simp add: evaluate_tool_permission_def is_dangerous_def runs_command_def cong: option.case_cong)
  qed
qed

lemma ask_allowed:
  assumes "ask fmt now key reason name arguments resource e = Inr (d, e')" "allowed d"
  shows "d_policy_key d = key"
    and "key \<in> session_allow e \<and> e' = e \<or>
      key \<notin> session_allow e \<and> (\<exists>fp. permission_fingerprint fmt name arguments = Inr fp \<and>
        fp \<in> approved_once e \<and> e' = e\<lparr>approved_once := approved_once e - {fp}\<rparr>)"
  using assms
  by (auto simp: ask_def bind_sum_Inr allowed_def Let_def split: if_splits prod.splits)

lemma allowed_not_deny: "allowed d \<Longrightarrow> d_effect d \<noteq> Deny"
  by (simp add: allowed_def)

lemma guarded_not_denied:
  assumes "guarded_rule name arguments = Some (key, reason, resource)"
    and "evaluate_tool_permission w fmt now name arguments e = Inr (d, e')" "d_effect d \<noteq> Deny"
  shows "check_arguments w e arguments = Inr None" and "\<not> is_dangerous name arguments"
    and "ask fmt now key reason name arguments resource e = Inr (d, e')"
proof -
  note ev = evaluate_guarded [OF assms(1)]
  obtain denied where denied: "check_arguments w e arguments = Inr denied"
    using assms(2) by (auto simp: ev bind_sum_Inr)
  have none: "denied = None"
    using assms(2,3) denied check_arguments_Some [of w e arguments]
    by (cases denied) (auto simp: ev)
  show "check_arguments w e arguments = Inr None" using denied none by simp
  show safe: "\<not> is_dangerous name arguments"
    using assms(2,3) denied none by (auto simp: ev deny_def)
  show "ask fmt now key reason name arguments resource e = Inr (d, e')"
    using assms(2) denied none safe by (simp add: ev)
qed


text \<open>A file system in which every path is its own canonical form.\<close>

definition plain_fs :: fs where
  "plain_fs = \<lparr>weakly_canonical = Some, current_path = Some ''/w''\<rparr>"

lemma fs_ok_plain: "fs_ok plain_fs"
  by (simp add: fs_ok_def plain_fs_def)

definition no_fmt :: "unit \<Rightarrow> string" where
  "no_fmt d = ''0''"

definition mkdir_args :: "unit json" where
  "mkdir_args = JObject [(''path'', JString ''d'')]"

definition mkdir_fp :: string where
  "mkdir_fp = ''mkdir'' @ [CHR 0x0A] @ json_write no_fmt (-1) 0 mkdir_args"

lemma fingerprint_write:
  "no_int64_min v \<Longrightarrow> permission_fingerprint fmt name v = Inr (name @ [CHR 0x0A] @ json_write fmt (-1) 0 v)"
  using write_length_le [of v fmt "-1" 0] by (simp add: permission_fingerprint_def dump_def serialize_def)

lemma mkdir_fingerprint: "permission_fingerprint no_fmt ''mkdir'' mkdir_args = Inr mkdir_fp"
  by (simp add: fingerprint_write mkdir_args_def mkdir_fp_def)

lemma mkdir_guarded:
  "guarded_rule ''mkdir'' (mkdir_args :: unit json) =
     Some (''file.write'', ''file mutation requires approval'', JObject [(''tool'', JString ''mkdir'')])"
  by (simp add: guarded_rule_def read_only_call_def read_only_tools_def ask_rule_def)

lemma mkdir_checked:
  "project_path e = ''/w'' \<Longrightarrow> check_arguments plain_fs e mkdir_args = Inr None"
  by (simp add: check_arguments_None checked_paths_def mkdir_args_def path_inside_workspace_def
      project_root_def plain_fs_def is_absolute_def path_append_def sep_def)

lemma mkdir_evaluate:
  "project_path e = ''/w'' \<Longrightarrow>
   evaluate_tool_permission plain_fs no_fmt now ''mkdir'' mkdir_args e =
   ask no_fmt now ''file.write'' ''file mutation requires approval'' ''mkdir'' mkdir_args
     (JObject [(''tool'', JString ''mkdir'')]) e"
  by (simp add: evaluate_guarded [OF mkdir_guarded] mkdir_checked is_dangerous_def runs_command_def)


subsection \<open>One approval, one call\<close>

text \<open>A trace entry that used up a one-time approval, and one that gave it.\<close>

definition grants_once :: "('d \<Rightarrow> string) \<Rightarrow> string \<Rightarrow> 'd perm_op \<times> 'd engine \<times> 'd decision option \<Rightarrow> bool" where
  "grants_once fmt fp entry \<longleftrightarrow>
     (case entry of
        (OpEvaluate now name arguments, e, Some d) \<Rightarrow>
          allowed d \<and> guarded_rule name arguments \<noteq> None \<and> d_policy_key d \<notin> session_allow e \<and>
          permission_fingerprint fmt name arguments = Inr fp
      | _ \<Rightarrow> False)"

definition approves_once :: "('d \<Rightarrow> string) \<Rightarrow> string \<Rightarrow> 'd perm_op \<times> 'd engine \<times> 'd decision option \<Rightarrow> bool" where
  "approves_once fmt fp entry \<longleftrightarrow>
     (case entry of
        (OpApprove pid False, e, d) \<Rightarrow>
          (case map_of (pending e) pid of
             Some r \<Rightarrow> permission_fingerprint fmt (r_tool_name r) (r_arguments r) = Inr fp
           | None \<Rightarrow> False)
      | _ \<Rightarrow> False)"

text \<open>Every evaluation leaves the engine alone or is the \<open>ask\<close> of a guarded call.\<close>

lemma evaluate_cases:
  assumes "evaluate_tool_permission w fmt now name arguments e = Inr (d, e')"
  shows "e' = e \<or> (\<exists>key reason resource. guarded_rule name arguments = Some (key, reason, resource) \<and>
    ask fmt now key reason name arguments resource e = Inr (d, e'))"
proof (cases "guarded_rule name arguments")
  case None
  then have "e' = e"
    using assms
    by (auto simp: evaluate_tool_permission_def guarded_rule_def bind_sum_Inr Let_def
        split: if_splits option.splits)
  then show ?thesis ..
next
  case (Some rule)
  obtain key reason resource where rule: "rule = (key, reason, resource)" by (cases rule)
  show ?thesis
    using assms Some
    by (auto simp: rule evaluate_guarded [OF Some [unfolded rule]] bind_sum_Inr split: option.splits if_splits)
qed

lemma ask_cases:
  assumes "ask fmt now key reason name arguments resource e = Inr (d, e')"
  obtains (session) "allowed d" "key \<in> session_allow e" "e' = e"
  | (once) fp where "allowed d" "d_policy_key d = key" "key \<notin> session_allow e"
      "permission_fingerprint fmt name arguments = Inr fp" "fp \<in> approved_once e"
      "e' = e\<lparr>approved_once := approved_once e - {fp}\<rparr>"
  | (asked) pid c r where "d_effect d = Ask" "d_permission_id d = pid" "make_permission_id (counter e) = (pid, c)"
      "r_permission_id r = pid" "r_tool_name r = name" "r_arguments r = arguments" "r_policy_key r = key"
      "e' = e\<lparr>pending := sm_put pid r (pending e), counter := c\<rparr>"
proof -
  obtain fp where fp: "permission_fingerprint fmt name arguments = Inr fp"
    using assms by (auto simp: ask_def bind_sum_Inr)
  show ?thesis
  proof (cases "key \<in> session_allow e")
    case True
    with assms fp have "allowed d" "e' = e" by (auto simp: ask_def allowed_def)
    with True show ?thesis using session by blast
  next
    case new: False
    show ?thesis
    proof (cases "fp \<in> approved_once e")
      case True
      with assms fp new have "allowed d" "d_policy_key d = key"
        "e' = e\<lparr>approved_once := approved_once e - {fp}\<rparr>" by (auto simp: ask_def allowed_def)
      then show ?thesis using once fp new True by blast
    next
      case False
      obtain pid c where "make_permission_id (counter e) = (pid, c)" by fastforce
      with assms fp new False show ?thesis
        by (intro asked [of pid c "\<lparr>r_permission_id = pid, r_policy_key = key, r_tool_name = name,
          r_reason = reason, r_created_at = now, r_arguments = arguments, r_resource = resource\<rparr>"])
          (auto simp: ask_def)
    qed
  qed
qed

lemma approve_cases:
  assumes "approve fmt pid allow_session e = Inr (reply, e')"
  obtains (unknown) "map_of (pending e) pid = None" "e' = e"
  | (session) r where "map_of (pending e) pid = Some r" "allow_session"
      "e' = e\<lparr>pending := sm_del pid (pending e), session_allow := insert (r_policy_key r) (session_allow e)\<rparr>"
  | (once) r fp where "map_of (pending e) pid = Some r" "\<not> allow_session"
      "permission_fingerprint fmt (r_tool_name r) (r_arguments r) = Inr fp"
      "e' = e\<lparr>pending := sm_del pid (pending e), approved_once := insert fp (approved_once e)\<rparr>"
proof (cases "map_of (pending e) pid")
  case None
  with assms have "e' = e" by (simp add: approve_def)
  with None show ?thesis by (rule unknown)
next
  case (Some r)
  show ?thesis
  proof (cases allow_session)
    case True
    with assms Some have
      "e' = e\<lparr>pending := sm_del pid (pending e), session_allow := insert (r_policy_key r) (session_allow e)\<rparr>"
      by (simp add: approve_def)
    with Some True show ?thesis by (rule session)
  next
    case False
    then obtain fp where "permission_fingerprint fmt (r_tool_name r) (r_arguments r) = Inr fp"
      using assms Some by (auto simp: approve_def Let_def bind_sum_Inr)
    moreover from this assms Some False have
      "e' = e\<lparr>pending := sm_del pid (pending e), approved_once := insert fp (approved_once e)\<rparr>"
      by (simp add: approve_def)
    ultimately show ?thesis using Some False once by blast
  qed
qed

lemma length_filter_Cons: "length (filter P (x # xs)) = of_bool (P x) + length (filter P xs)"
  by simp

lemma step_balance:
  assumes "perm_step w fmt a e = Inr (d, e')"
  shows "of_bool (fp \<in> approved_once e') + of_bool (grants_once fmt fp (a, e, d)) \<le>
    (of_bool (fp \<in> approved_once e) + of_bool (approves_once fmt fp (a, e, d)) :: nat)"
proof (cases a)
  case (OpEvaluate now name arguments)
  then obtain d1 where ev: "evaluate_tool_permission w fmt now name arguments e = Inr (d1, e')"
    and d: "d = Some d1"
    using assms by (auto simp: bind_sum_Inr)
  show ?thesis
  proof (cases "grants_once fmt fp (a, e, d)")
    case True
    then obtain key reason resource where rule: "guarded_rule name arguments = Some (key, reason, resource)"
      by (auto simp: grants_once_def OpEvaluate d)
    have "allowed d1" using True by (simp add: grants_once_def OpEvaluate d)
    from ask_allowed [OF guarded_not_denied(3) [OF rule ev allowed_not_deny [OF this]] this] True
    have "fp \<in> approved_once e" "e' = e\<lparr>approved_once := approved_once e - {fp}\<rparr>"
      by (auto simp: grants_once_def OpEvaluate d)
    then show ?thesis by simp
  next
    case False
    have "approved_once e' \<subseteq> approved_once e"
      using evaluate_cases [OF ev] by (auto elim!: ask_cases)
    with False show ?thesis by auto
  qed
next
  case (OpApprove pid session)
  then obtain reply where "approve fmt pid session e = Inr (reply, e')"
    using assms by (auto simp: bind_sum_Inr)
  then show ?thesis
    by (cases rule: approve_cases) (auto simp: grants_once_def approves_once_def OpApprove)
next
  case (OpDeny pid)
  then show ?thesis
    using assms by (auto simp: grants_once_def deny_pending_def split: option.splits)
qed (use assms in \<open>auto simp: grants_once_def allow_for_session_def\<close>)

lemma run_balance:
  "perm_run w fmt as e = Inr (tr, e') \<Longrightarrow>
   of_bool (fp \<in> approved_once e') + length (filter (grants_once fmt fp) tr) \<le>
   of_bool (fp \<in> approved_once e) + length (filter (approves_once fmt fp) tr)"
proof (induction as arbitrary: e tr)
  case (Cons a as)
  then obtain d e1 tr1 where step: "perm_step w fmt a e = Inr (d, e1)"
    and run: "perm_run w fmt as e1 = Inr (tr1, e')" and tr: "tr = (a, e, d) # tr1"
    by (auto simp: bind_sum_Inr)
  show ?case
    using Cons.IH [OF run] step_balance [OF step, of fp] unfolding tr length_filter_Cons by linarith
qed simp

text \<open>
  C14: an approval is good for one call: in every history of an engine, and for every tool with its arguments, the
  calls that were let through without a session permission, together with the approval that may still be
  unused, are at most as many as the one-time approvals that were given.
\<close>

theorem one_approval_one_call:
  assumes "perm_run w fmt as (engine_new path c) = Inr (tr, e)"
  shows "length (filter (grants_once fmt fp) tr) + (if fp \<in> approved_once e then 1 else 0) \<le>
    length (filter (approves_once fmt fp) tr)"
  using run_balance [OF assms, of fp] by (simp add: engine_new_def of_bool_def)

text \<open>The history: the call is refused with an id, the request is approved, the call is let through, and refused again.\<close>

definition mkdir_history :: "unit perm_op list" where
  "mkdir_history = [OpEvaluate ''t'' ''mkdir'' mkdir_args, OpApprove ''perm_1'' False,
     OpEvaluate ''t'' ''mkdir'' mkdir_args, OpEvaluate ''t'' ''mkdir'' mkdir_args]"

lemma hex_lower_small: "n < 16 \<Longrightarrow> hex_lower n = [''0123456789abcdef'' ! n]"
  by (simp add: hex_lower.simps)

lemma mkdir_history_run:
  "\<exists>tr e. perm_run plain_fs no_fmt mkdir_history (engine_new ''/w'' 1) = Inr (tr, e) \<and>
     length (filter (grants_once no_fmt mkdir_fp) tr) = 1 \<and> map (map_option d_effect \<circ> snd \<circ> snd) tr =
     [Some Ask, None, Some Allow, Some Ask]"
  by (simp add: mkdir_history_def mkdir_evaluate engine_new_def ask_def mkdir_fingerprint make_permission_id_def
      hex_lower_small approve_def grants_once_def mkdir_guarded allowed_def sm_del_def)

theorem one_approval_one_call_witness:
  "\<exists>tr e. perm_run plain_fs no_fmt mkdir_history (engine_new ''/w'' 1) = Inr (tr, e) \<and>
     1 \<le> length (filter (approves_once no_fmt mkdir_fp) tr)"
proof -
  obtain tr e where run: "perm_run plain_fs no_fmt mkdir_history (engine_new ''/w'' 1) = Inr (tr, e)"
    and "length (filter (grants_once no_fmt mkdir_fp) tr) = 1"
    using mkdir_history_run by blast
  with one_approval_one_call [OF run, of mkdir_fp] show ?thesis by fastforce
qed

subsection \<open>Request ids\<close>

lemma hex_lower_nonempty: "hex_lower n \<noteq> []"
  by (simp add: hex_lower.simps [of n])

lemma hex_digit_inject:
  "m < 16 \<Longrightarrow> n < 16 \<Longrightarrow> ''0123456789abcdef'' ! m = ''0123456789abcdef'' ! n \<longleftrightarrow> m = n"
  by (simp add: nth_eq_iff_index_eq)

lemma hex_lower_inject: "hex_lower m = hex_lower n \<longleftrightarrow> m = n"
proof (induction m arbitrary: n rule: less_induct)
  case (less m)
  show ?case
  proof (cases "m < 16 \<or> n < 16")
    case True
    then show ?thesis
      using hex_digit_inject [of m n] hex_lower_nonempty [of "m div 16"] hex_lower_nonempty [of "n div 16"]
      by (auto simp: hex_lower.simps [of m] hex_lower.simps [of n] append_eq_Cons_conv Cons_eq_append_conv)
  next
    case False
    then have "hex_lower m = hex_lower n \<longleftrightarrow> m div 16 = n div 16 \<and> m mod 16 = n mod 16"
      using less.IH [of "m div 16" "n div 16"] hex_digit_inject [of "m mod 16" "n mod 16"]
      by (simp add: hex_lower.simps [of m] hex_lower.simps [of n])
    then show ?thesis by (metis div_mult_mod_eq)
  qed
qed

definition perm_id :: "u64 \<Rightarrow> string" where
  "perm_id c = fst (make_permission_id c)"

lemma make_permission_id_eq: "make_permission_id c = (perm_id c, c + 1)"
  by (simp add: perm_id_def make_permission_id_def)

lemma perm_id_inject [simp]: "perm_id a = perm_id b \<longleftrightarrow> a = b"
  by (simp add: perm_id_def make_permission_id_def hex_lower_inject unsigned_word_eqI word_unat_eq_iff)

text \<open>
  After \<open>n\<close> ids were drawn from a counter that stood at \<open>c\<close>: the pending requests are filed under their own ids, which
  are among those \<open>n\<close>.
\<close>

definition ids_inv :: "u64 \<Rightarrow> nat \<Rightarrow> 'd engine \<Rightarrow> bool" where
  "ids_inv c n e \<longleftrightarrow> counter e = c + of_nat n \<and> sm_inv (pending e) \<and>
     (\<forall>k r. map_of (pending e) k = Some r \<longrightarrow>
        r_permission_id r = k \<and> (\<exists>i<n. k = perm_id (c + of_nat i)))"

lemma ids_inv_fresh:
  assumes "ids_inv c n e" "n < 2 ^ 64"
  shows "map_of (pending e) (perm_id (counter e)) = None"
proof (rule ccontr)
  assume "map_of (pending e) (perm_id (counter e)) \<noteq> None"
  then obtain r where "map_of (pending e) (perm_id (counter e)) = Some r" by blast
  then obtain i where "i < n" "perm_id (counter e) = perm_id (c + of_nat i)"
    using assms(1) unfolding ids_inv_def by blast
  then have i: "i < n" "(of_nat n :: u64) = of_nat i"
    using assms(1) by (simp_all add: ids_inv_def)
  then have "unat (of_nat n :: u64) = unat (of_nat i :: u64)" by simp
  then have "n mod 2 ^ 64 = i mod 2 ^ 64" by (simp add: unat_of_nat)
  with i(1) assms(2) show False by simp
qed

lemma ids_inv_mono: "ids_inv c n e \<Longrightarrow> ids_inv c (Suc n) (e\<lparr>counter := counter e + 1\<rparr>)"
  by (auto simp: ids_inv_def algebra_simps) (metis less_SucI)

lemma ids_inv_del: "ids_inv c n e \<Longrightarrow> pending e' = sm_del k (pending e) \<Longrightarrow> counter e' = counter e \<Longrightarrow> ids_inv c n e'"
  by (auto simp: ids_inv_def bg_inv)

lemma ids_inv_put:
  assumes "ids_inv c n e" "r_permission_id r = perm_id (counter e)"
  shows "ids_inv c (Suc n) (e\<lparr>pending := sm_put (perm_id (counter e)) r (pending e), counter := counter e + 1\<rparr>)"
  using assms by (auto simp: ids_inv_def bg_inv algebra_simps) (metis less_SucI)

lemma ids_inv_same: "ids_inv c n e \<Longrightarrow> \<exists>m \<le> Suc n. ids_inv c m e"
  by (rule exI [of _ n]) simp

lemma step_ids_inv:
  assumes "ids_inv c n e" "perm_step w fmt a e = Inr (d, e')"
  shows "\<exists>m \<le> Suc n. ids_inv c m e'"
proof (cases a)
  case (OpEvaluate now name arguments)
  then obtain d1 where "evaluate_tool_permission w fmt now name arguments e = Inr (d1, e')"
    using assms(2) by (auto simp: bind_sum_Inr)
  from evaluate_cases [OF this] show ?thesis
  proof
    assume "\<exists>key reason resource. guarded_rule name arguments = Some (key, reason, resource) \<and>
      ask fmt now key reason name arguments resource e = Inr (d1, e')"
    then obtain key reason resource where "ask fmt now key reason name arguments resource e = Inr (d1, e')"
      by blast
    then show ?thesis
    proof (cases rule: ask_cases)
      case (once fp)
      then have "ids_inv c n e'" using assms(1) by (simp add: ids_inv_def)
      then show ?thesis by (rule ids_inv_same)
    next
      case (asked pid c' r)
      then show ?thesis using ids_inv_put [OF assms(1), of r] by (auto simp: make_permission_id_eq)
    qed (use assms(1) ids_inv_same in auto)
  qed (use assms(1) ids_inv_same in auto)
next
  case (OpApprove pid session)
  then obtain reply where "approve fmt pid session e = Inr (reply, e')"
    using assms(2) by (auto simp: bind_sum_Inr)
  then have "ids_inv c n e'"
    using assms(1) by (cases rule: approve_cases) (auto intro: ids_inv_del)
  then show ?thesis by (rule ids_inv_same)
next
  case (OpDeny pid)
  then have "ids_inv c n e'"
    using assms by (auto simp: deny_pending_def intro: ids_inv_del split: option.splits)
  then show ?thesis by (rule ids_inv_same)
next
  case (OpAllowSession key)
  then have "ids_inv c n e'"
    using assms by (auto simp: allow_for_session_def ids_inv_def)
  then show ?thesis by (rule ids_inv_same)
next
  case OpOtherId
  then show ?thesis using assms ids_inv_mono by auto
qed

lemma run_ids_inv:
  "ids_inv c n e \<Longrightarrow> perm_run w fmt as e = Inr (tr, e') \<Longrightarrow> \<exists>m \<le> n + length as. ids_inv c m e'"
proof (induction as arbitrary: e tr n)
  case (Cons a as)
  then obtain d e1 tr1 where step: "perm_step w fmt a e = Inr (d, e1)"
    and run: "perm_run w fmt as e1 = Inr (tr1, e')"
    by (auto simp: bind_sum_Inr)
  obtain m where "m \<le> Suc n" "ids_inv c m e1"
    using step_ids_inv [OF Cons.prems(1) step] by blast
  moreover from Cons.IH [OF this(2) run] obtain m' where "m' \<le> m + length as" "ids_inv c m' e'" by blast
  ultimately show ?case by (intro exI [of _ m']) simp
qed auto

text \<open>
  Pending requests are not lost: until \<open>2 ^ 64\<close> ids were drawn, every request is filed under its own id, an
  approval or a denial removes exactly the request it names, and no other operation removes or replaces any.
\<close>

theorem pending_kept:
  assumes "perm_run w fmt as (engine_new path c) = Inr (tr, e)" "length as < 2 ^ 64"
    and "map_of (pending e) pid = Some r" "perm_step w fmt a e = Inr (d, e')"
  shows "r_permission_id r = pid \<and>
    map_of (pending e') pid = (if a = OpDeny pid \<or> (\<exists>s. a = OpApprove pid s) then None else Some r)"
proof -
  have "ids_inv c 0 (engine_new path c :: 'a engine)"
    by (simp add: ids_inv_def engine_new_def sm_inv_def)
  from run_ids_inv [OF this assms(1)] obtain n where n: "n \<le> length as" and inv: "ids_inv c n e" by auto
  have fresh: "pid \<noteq> perm_id (counter e)"
    using ids_inv_fresh [OF inv] n assms(2,3) by auto
  have "map_of (pending e') pid = (if a = OpDeny pid \<or> (\<exists>s. a = OpApprove pid s) then None else Some r)"
  proof (cases a)
    case (OpEvaluate now name arguments)
    then obtain d1 where "evaluate_tool_permission w fmt now name arguments e = Inr (d1, e')"
      using assms(4) by (auto simp: bind_sum_Inr)
    from evaluate_cases [OF this] show ?thesis
      using assms(3) fresh OpEvaluate by (auto elim!: ask_cases simp: make_permission_id_eq)
  next
    case (OpApprove k session)
    then obtain reply where "approve fmt k session e = Inr (reply, e')"
      using assms(4) by (auto simp: bind_sum_Inr)
    then show ?thesis
      using assms(3) OpApprove by (cases rule: approve_cases) auto
  next
    case (OpDeny k)
    then show ?thesis using assms(3,4) by (auto simp: deny_pending_def split: option.splits)
  qed (use assms(3,4) in \<open>auto simp: allow_for_session_def\<close>)
  then show ?thesis using inv assms(3) by (simp add: ids_inv_def)
qed

theorem pending_kept_witness:
  "\<exists>tr e r. perm_run plain_fs no_fmt [OpEvaluate ''t'' ''mkdir'' mkdir_args] (engine_new ''/w'' 1) = Inr (tr, e) \<and>
     map_of (pending e) ''perm_1'' = Some r \<and> r_permission_id r = ''perm_1'' \<and>
     map_of (pending (e\<lparr>counter := counter e + 1\<rparr>)) ''perm_1'' = Some r"
proof -
  obtain tr e r where run: "perm_run plain_fs no_fmt [OpEvaluate ''t'' ''mkdir'' mkdir_args] (engine_new ''/w'' 1) =
      Inr (tr, e)" and r: "map_of (pending e) ''perm_1'' = Some r"
    by (simp add: mkdir_evaluate engine_new_def ask_def mkdir_fingerprint make_permission_id_def hex_lower_small)
  have "perm_step plain_fs no_fmt OpOtherId e = Inr (None, e\<lparr>counter := counter e + 1\<rparr>)" by simp
  from pending_kept [OF run _ r this] show ?thesis using run r by simp
qed

subsection \<open>Fingerprints\<close>

lemma newline_split:
  "nl \<notin> set xs \<Longrightarrow> nl \<notin> set ys \<Longrightarrow> xs @ nl # us = ys @ nl # vs \<longleftrightarrow> xs = ys \<and> us = vs"
proof (induction xs arbitrary: ys)
  case Nil
  then show ?case by (cases ys) auto
next
  case (Cons x xs)
  then show ?case by (cases ys) auto
qed

lemma guarded_name_no_newline: "guarded_rule name arguments = Some rule \<Longrightarrow> CHR 0x0A \<notin> set name"
  using guarded_names [of name arguments rule] by auto

lemma write_inject:
  assumes "plain v" "plain u" "json_write fmt i 0 v = json_write fmt i 0 u"
  shows "reparsed v = (reparsed u :: 'd json)"
proof -
  let ?n = "length (json_write fmt i 0 v)"
  have "parse_value (\<lambda>s. None) ?n (json_write fmt i 0 v @ []) = Done (reparsed v) []"
    by (rule write_parse [OF assms(1)]) (simp_all add: ends_number_def)
  moreover have "parse_value (\<lambda>s. None) ?n (json_write fmt i 0 u @ []) = Done (reparsed u) []"
    by (rule write_parse [OF assms(2)]) (simp_all add: ends_number_def assms(3))
  ultimately show ?thesis by (simp add: assms(3))
qed

text \<open>
  An approval covers one call only: two guarded calls with the same fingerprint are calls of the same
  tool, and their arguments are the same document once the text in the fingerprint is read back (integers
  by value, invalid UTF-8 replaced).
\<close>

theorem fingerprint_identifies_call:
  assumes "guarded_rule name1 args1 = Some rule1" "guarded_rule name2 args2 = Some rule2"
    and "plain args1" "plain args2"
    and "permission_fingerprint fmt name1 args1 = permission_fingerprint fmt name2 args2"
  shows "name1 = name2 \<and> reparsed args1 = reparsed args2"
proof -
  have "name1 @ CHR 0x0A # json_write fmt (-1) 0 args1 = name2 @ CHR 0x0A # json_write fmt (-1) 0 args2"
    using assms(5) by (simp add: fingerprint_write plain_no_int64_min assms(3,4))
  then have "name1 = name2" "json_write fmt (-1) 0 args1 = json_write fmt (-1) 0 args2"
    using newline_split [OF guarded_name_no_newline [OF assms(1)] guarded_name_no_newline [OF assms(2)]] by auto
  then show ?thesis using write_inject [OF assms(3,4)] by blast
qed

theorem fingerprint_identifies_call_witness:
  "reparsed (mkdir_args :: unit json) = reparsed mkdir_args \<and>
   permission_fingerprint no_fmt ''mkdir'' mkdir_args = Inr mkdir_fp"
proof -
  have "plain (mkdir_args :: unit json)" by (simp add: mkdir_args_def)
  with fingerprint_identifies_call [OF mkdir_guarded mkdir_guarded, of no_fmt] mkdir_fingerprint
  show ?thesis by simp
qed

subsection \<open>What the policy lets through\<close>

text \<open>Read-only tools are allowed before the paths are looked at.\<close>

lemma read_file_any_path:
  "evaluate_tool_permission w fmt now ''read_file'' arguments e = Inr (allow ''read_file'' ''read-only tool'', e)"
  by (simp add: evaluate_tool_permission_def read_only_call_def read_only_tools_def)

text \<open>The tools \<open>rename_file\<close> and \<open>copy_file\<close> take their paths as \<open>src\<close> and \<open>dst\<close>, which are not among the checked ones.\<close>

lemma src_dst_unchecked: "checked_paths (JObject [(''src'', a), (''dst'', b)]) = []"
  by (simp add: checked_paths_def)

text \<open>A workspace at the root of the file system contains no path but itself, because the prefix looked for is \<open>//\<close>.\<close>

lemma root_workspace_denies:
  assumes "project_path e = ''/''" "weakly_canonical w ''/'' = Some ''/''"
    and "weakly_canonical w p = Some (''/'' @ c # cs)" "c \<noteq> sep" "is_absolute p"
  shows "path_inside_workspace w e p = Inr (False, ''/'' @ c # cs)"
  using assms by (auto simp: path_inside_workspace_def project_root_def is_absolute_def sep_def split: list.splits)

text \<open>The control call that names a pending request, as the model can make it.\<close>

definition approve_args :: "string \<Rightarrow> 'd json" where
  "approve_args pid = JObject [(''permission_id'', JString pid)]"

lemma approve_args_values [simp]:
  "value_str (approve_args pid) ''permission_id'' dv = pid"
  "value_bool (approve_args pid) ''allow_session'' False = False"
  "value_str (approve_args pid) ''action'' ''list'' = ''list''"
  "checked_paths (approve_args pid) = []"
  by (simp_all add: approve_args_def value_str_def value_bool_def checked_paths_def)

lemma approve_call_allowed:
  "evaluate_tool_permission w fmt now ''approve_permission'' (approve_args pid) e =
   Inr (allow ''permission.approve'' ''permission approval control tool'', e)"
  using check_arguments_None [of w e "approve_args pid"]
  by (simp add: evaluate_tool_permission_def read_only_call_def read_only_tools_def)

lemma dump_fits: "no_int64_min v \<Longrightarrow> dump fmt v = Inr (json_write fmt (-1) 0 v)"
  using write_length_le [of v fmt "-1" 0] by (simp add: dump_def serialize_def)

text \<open>
  C33: the model can approve its own requests: when a call of a guarded tool was answered with a request
  id, the call of \<open>approve_permission\<close> with that id is allowed by the policy, succeeds, and after it the guarded call is let through. No
  step of it involves the user.
\<close>

theorem self_approval:
  assumes "guarded_rule name arguments = Some rule"
    and "evaluate_tool_permission w fmt now name arguments e = Inr (d, e1)" "d_effect d = Ask"
  shows "\<exists>d2 out e2 d3 e3.
    evaluate_tool_permission w fmt now ''approve_permission'' (approve_args (d_permission_id d)) e1 = Inr (d2, e1) \<and>
    allowed d2 \<and> approve_permission_tool fmt (approve_args (d_permission_id d)) e1 = Inr (out, e2) \<and>
    evaluate_tool_permission w fmt now name arguments e2 = Inr (d3, e3) \<and> allowed d3"
proof -
  obtain key reason resource where rule: "guarded_rule name arguments = Some (key, reason, resource)"
    using assms(1) by (cases rule) auto
  note ev = evaluate_guarded [OF rule]
  have nd: "d_effect d \<noteq> Deny" using assms(3) by simp
  note checked = guarded_not_denied(1) [OF rule assms(2) nd]
    and safe = guarded_not_denied(2) [OF rule assms(2) nd] and asked = guarded_not_denied(3) [OF rule assms(2) nd]
  obtain fp where fp: "permission_fingerprint fmt name arguments = Inr fp"
    using asked by (auto simp: ask_def bind_sum_Inr)
  from asked obtain pid c r where pid: "d_permission_id d = pid" and r: "r_tool_name r = name" "r_arguments r = arguments"
    and e1: "e1 = e\<lparr>pending := sm_put pid r (pending e), counter := c\<rparr>"
    using assms(3) by (cases rule: ask_cases) (auto simp: allowed_def)
  define e2 where "e2 = e1\<lparr>pending := sm_del pid (pending e1), approved_once := insert fp (approved_once e1)\<rparr>"
  have "\<exists>out. approve_permission_tool fmt (approve_args pid) e1 = Inr (out, e2)"
    by (simp add: approve_permission_tool_def approve_def e1 r fp dump_fits e2_def)
  moreover have "check_arguments w e2 arguments = Inr None"
  proof -
    have "path_inside_workspace w e2 p = path_inside_workspace w e p" for p
      by (simp add: path_inside_workspace_def project_root_def e2_def e1)
    then show ?thesis using checked by (simp add: check_arguments_None)
  qed
  then have "\<exists>d3 e3. evaluate_tool_permission w fmt now name arguments e2 = Inr (d3, e3) \<and> allowed d3"
    by (simp add: ev safe ask_def fp allowed_def e2_def)
  ultimately show ?thesis
    by (auto simp: pid approve_call_allowed allow_def allowed_def)
qed

theorem self_approval_witness:
  "\<exists>d e1 out e2 d3 e3.
    evaluate_tool_permission plain_fs no_fmt ''t'' ''mkdir'' mkdir_args (engine_new ''/w'' 1) = Inr (d, e1) \<and>
    approve_permission_tool no_fmt (approve_args (d_permission_id d)) e1 = Inr (out, e2) \<and>
    evaluate_tool_permission plain_fs no_fmt ''t'' ''mkdir'' mkdir_args e2 = Inr (d3, e3) \<and> d_effect d3 = Allow"
proof -
  obtain d e1 where ev: "evaluate_tool_permission plain_fs no_fmt ''t'' ''mkdir'' mkdir_args (engine_new ''/w'' 1) =
      Inr (d, e1)" and d: "d_effect d = Ask"
    by (simp add: mkdir_evaluate engine_new_def ask_def mkdir_fingerprint make_permission_id_def)
  from self_approval [OF mkdir_guarded ev d] ev show ?thesis
    by (auto simp: allowed_def)
qed

text \<open>An integer argument with the smallest \<open>int64_t\<close> makes the fingerprint overrun the serializer's buffer.\<close>

lemma fingerprint_overflow: "permission_fingerprint fmt name (JInt (- (2 ^ 63))) = Inl DumpOverflow"
proof -
  have "length (decimal 9223372036854775808) = 19"
    by (simp add: decimal_digits, simp add: digits_loop.simps)
  then show ?thesis
    by (simp add: permission_fingerprint_def dump_def serialize_def int64_to_size_def neg_int64_def
        digits_loop.simps write_int64_def)
qed

end
