(* ===== verification/Acp.thy ===== *)
theory Acp
  imports JsonAccess
begin

text \<open>
  Messages of the agent protocol (\<open>tool/acp/core\<close>): roles, content blocks and messages, the tool calls and
  results they carry (\<open>tool/types.hpp\<close>), and their JSON form. A content block is a variant of four cases; a thinking block is
  a text with a mark.
\<close>

datatype role = User | Assistant | System | Tool

datatype content_type = TText | TImage | TAudio | TVideo | TToolUse | TToolResult | TThinking

datatype source_type = Base64 | Url | File

record source =
  src_type :: source_type
  src_media_type :: string
  src_data :: string

record 'd tool_call =
  tc_id :: string
  tc_name :: string
  tc_arguments :: "'d json"

record tool_result =
  tr_id :: string
  tr_name :: string
  tr_output :: string
  tr_success :: bool

datatype 'd block =
    Text string bool
  | Media content_type source
  | ToolUse "'d tool_call"
  | ToolResult tool_result

record 'd message =
  m_role :: role
  m_content :: "'d block list"

definition msg_new :: "'d message" where
  "msg_new = \<lparr>m_role = User, m_content = []\<rparr>"

subsection \<open>Names\<close>

fun role_to_string :: "role \<Rightarrow> string" where
  "role_to_string User = ''user''"
| "role_to_string Assistant = ''assistant''"
| "role_to_string System = ''system''"
| "role_to_string Tool = ''tool''"

definition string_to_role :: "string \<Rightarrow> role" where
  "string_to_role str =
     (if str = ''assistant'' then Assistant
      else if str = ''system'' then System
      else if str = ''tool'' then Tool
      else User)"

fun content_type_to_string :: "content_type \<Rightarrow> string" where
  "content_type_to_string TText = ''text''"
| "content_type_to_string TImage = ''image''"
| "content_type_to_string TAudio = ''audio''"
| "content_type_to_string TVideo = ''video''"
| "content_type_to_string TToolUse = ''tool_use''"
| "content_type_to_string TToolResult = ''tool_result''"
| "content_type_to_string TThinking = ''thinking''"

definition string_to_content_type :: "string \<Rightarrow> content_type" where
  "string_to_content_type str =
     (if str = ''image'' then TImage
      else if str = ''audio'' then TAudio
      else if str = ''video'' then TVideo
      else if str = ''tool_use'' then TToolUse
      else if str = ''tool_result'' then TToolResult
      else if str = ''thinking'' then TThinking
      else TText)"

subsection \<open>Blocks and messages\<close>

fun block_type :: "'d block \<Rightarrow> content_type" where
  "block_type (Text t thinking) = (if thinking then TThinking else TText)"
| "block_type (Media ct s) = ct"
| "block_type (ToolUse c) = TToolUse"
| "block_type (ToolResult r) = TToolResult"

fun is_text :: "'d block \<Rightarrow> bool" where
  "is_text (Text t thinking) = True"
| "is_text _ = False"

fun is_thinking :: "'d block \<Rightarrow> bool" where
  "is_thinking (Text t thinking) = thinking"
| "is_thinking _ = False"

fun is_tool_use :: "'d block \<Rightarrow> bool" where
  "is_tool_use (ToolUse c) = True"
| "is_tool_use _ = False"

fun is_tool_result :: "'d block \<Rightarrow> bool" where
  "is_tool_result (ToolResult r) = True"
| "is_tool_result _ = False"

definition text_message :: "role \<Rightarrow> string \<Rightarrow> 'd message" where
  "text_message r t = \<lparr>m_role = r, m_content = [Text t False]\<rparr>"

definition tool_result_message :: "tool_result \<Rightarrow> 'd message" where
  "tool_result_message r = \<lparr>m_role = Tool, m_content = [ToolResult r]\<rparr>"

fun append_text :: "string \<Rightarrow> 'd block list \<Rightarrow> string" where
  "append_text result [] = result"
| "append_text result (b # bs) =
     (case b of
        Text t thinking \<Rightarrow> append_text ((if result \<noteq> [] then result @ [CHR 0x0A] else result) @ t) bs
      | _ \<Rightarrow> append_text result bs)"

definition get_all_text :: "'d message \<Rightarrow> string" where
  "get_all_text m = append_text [] (m_content m)"

fun block_calls :: "'d block list \<Rightarrow> 'd tool_call list" where
  "block_calls [] = []"
| "block_calls (b # bs) = (case b of ToolUse c \<Rightarrow> c # block_calls bs | _ \<Rightarrow> block_calls bs)"

fun block_results :: "'d block list \<Rightarrow> tool_result list" where
  "block_results [] = []"
| "block_results (b # bs) = (case b of ToolResult r \<Rightarrow> r # block_results bs | _ \<Rightarrow> block_results bs)"

definition get_tool_calls :: "'d message \<Rightarrow> 'd tool_call list" where
  "get_tool_calls m = block_calls (m_content m)"

definition has_tool_calls :: "'d message \<Rightarrow> bool" where
  "has_tool_calls m \<longleftrightarrow> list_ex is_tool_use (m_content m)"

definition get_tool_results :: "'d message \<Rightarrow> tool_result list" where
  "get_tool_results m = block_results (m_content m)"

lemma has_tool_calls_iff: "has_tool_calls m \<longleftrightarrow> get_tool_calls m \<noteq> []"
proof -
  have "list_ex is_tool_use bs \<longleftrightarrow> block_calls bs \<noteq> []" for bs :: "'a block list"
  proof (induction bs)
    case (Cons b bs)
    then show ?case by (cases b) simp_all
  qed simp
  then show ?thesis by (simp add: has_tool_calls_def get_tool_calls_def)
qed

subsection \<open>JSON\<close>

text \<open>\<open>String(s.c_str())\<close> ends at the first zero byte.\<close>

definition c_str :: "string \<Rightarrow> string" where
  "c_str s = takeWhile (\<lambda>c. c \<noteq> CHR 0x00) s"

definition source_to_json :: "source \<Rightarrow> 'd json" where
  "source_to_json s =
     json_set ''data'' (JString (src_data s))
     (json_set ''media_type'' (JString (src_media_type s))
     (json_set ''type'' (JString (if src_type s = Base64 then ''base64'' else ''url'')) JNull))"

definition source_from_json :: "'d json \<Rightarrow> source" where
  "source_from_json j =
     \<lparr>src_type = (if value_str j ''type'' ''base64'' = ''url'' then Url else Base64),
      src_media_type = c_str (value_str j ''media_type'' []), src_data = c_str (value_str j ''data'' [])\<rparr>"

fun block_to_json :: "'d block \<Rightarrow> 'd json" where
  "block_to_json (Text t thinking) =
     (if thinking then json_set ''thinking'' (JString t) (json_set ''type'' (JString ''thinking'') JNull)
      else json_set ''text'' (JString t) (json_set ''type'' (JString ''text'') JNull))"
| "block_to_json (Media ct s) =
     json_set ''source'' (source_to_json s)
       (json_set ''type'' (JString (case ct of TImage \<Rightarrow> ''image'' | TAudio \<Rightarrow> ''audio'' | TVideo \<Rightarrow> ''video''
          | _ \<Rightarrow> ''unknown'')) JNull)"
| "block_to_json (ToolUse c) =
     json_set ''input'' (tc_arguments c) (json_set ''name'' (JString (tc_name c))
       (json_set ''id'' (JString (tc_id c)) (json_set ''type'' (JString ''tool_use'') JNull)))"
| "block_to_json (ToolResult r) =
     json_set ''content'' (JString (tr_output r)) (json_set ''tool_use_id'' (JString (tr_id r))
       (json_set ''type'' (JString ''tool_result'') JNull))"

definition block_from_json :: "'d json \<Rightarrow> 'd block" where
  "block_from_json j =
     (let type_str = value_str j ''type'' ''text'' in
      if type_str = ''text'' then Text (value_str j ''text'' []) False
      else if type_str = ''thinking'' then Text (value_str j ''thinking'' []) True
      else if type_str = ''image'' then Media TImage (source_from_json (json_get j ''source''))
      else if type_str = ''audio'' then Media TAudio (source_from_json (json_get j ''source''))
      else if type_str = ''video'' then Media TVideo (source_from_json (json_get j ''source''))
      else if type_str = ''tool_use'' then
        ToolUse \<lparr>tc_id = value_str j ''id'' [], tc_name = value_str j ''name'' [],
                 tc_arguments = value_json j ''input'' (JObject [])\<rparr>
      else if type_str = ''tool_result'' then
        ToolResult \<lparr>tr_id = value_str j ''tool_use_id'' [], tr_name = [], tr_output = value_str j ''content'' [],
                    tr_success = True\<rparr>
      else Text [] False)"

definition message_to_json :: "'d message \<Rightarrow> 'd json" where
  "message_to_json m =
     json_set ''content'' (foldl (\<lambda>a b. json_push a (block_to_json b)) (JArray []) (m_content m))
       (json_set ''role'' (JString (role_to_string (m_role m))) (json_set ''type'' (JString ''message'') JNull))"

definition message_from_json :: "'d json \<Rightarrow> 'd message" where
  "message_from_json j =
     \<lparr>m_role = string_to_role (value_str j ''role'' ''user''),
      m_content = (if json_contains j ''content'' \<and> is_array (json_get j ''content'')
                   then map block_from_json (json_elements (json_get j ''content'')) else [])\<rparr>"

subsection \<open>Round trip\<close>

lemma role_roundtrip [simp]: "string_to_role (role_to_string r) = r"
  by (cases r) (simp_all add: string_to_role_def)

lemma content_type_roundtrip: "string_to_content_type (content_type_to_string t) = t"
  by (cases t) (simp_all add: string_to_content_type_def)

lemma c_str_id: "CHR 0x00 \<notin> set s \<Longrightarrow> c_str s = s"
  by (auto simp: c_str_def takeWhile_eq_all_conv)

text \<open>What the JSON form keeps of a block: not the name and the success of a tool result, and of a source only base64 or not.\<close>

definition source_kept :: "source \<Rightarrow> source" where
  "source_kept s = s\<lparr>src_type := (if src_type s = Base64 then Base64 else Url),
     src_media_type := c_str (src_media_type s), src_data := c_str (src_data s)\<rparr>"

fun block_kept :: "'d block \<Rightarrow> 'd block" where
  "block_kept (Media ct s) = (if ct \<in> {TImage, TAudio, TVideo} then Media ct (source_kept s) else Text [] False)"
| "block_kept (ToolResult r) = ToolResult (r\<lparr>tr_name := [], tr_success := True\<rparr>)"
| "block_kept b = b"

lemma source_roundtrip: "source_from_json (source_to_json s) = source_kept s"
  by (simp add: source_from_json_def source_to_json_def source_kept_def value_str_def del: json_set.simps)

lemma block_roundtrip: "block_from_json (block_to_json b) = block_kept b"
proof (cases b)
  case (Media ct s)
  have "json_get (block_to_json b) ''source'' = source_to_json s"
    by (simp add: Media json_get_def del: json_set.simps)
  then show ?thesis
    by (cases ct) (simp_all add: Media block_from_json_def value_str_def source_roundtrip del: json_set.simps)
qed (simp_all add: block_from_json_def value_str_def value_json_def Let_def del: json_set.simps)

lemma foldl_json_push: "foldl (\<lambda>a b. json_push a (f b)) (JArray vs) bs = JArray (vs @ map f bs)"
  by (induction bs arbitrary: vs) simp_all

text \<open>
  Storing a message as JSON and reading it back keeps the role, the number and order of the blocks, all texts and
  all tool calls with their arguments; a tool result comes back as a success without its tool's name, whatever
  it was.
\<close>

theorem message_roundtrip:
  "message_from_json (message_to_json m) = m\<lparr>m_content := map block_kept (m_content m)\<rparr>"
proof -
  have "json_get (message_to_json m) ''content'' = JArray (map block_to_json (m_content m))"
    "json_contains (message_to_json m) ''content''"
    by (simp_all add: message_to_json_def json_get_def json_contains_def foldl_json_push del: json_set.simps)
  moreover have "value_str (message_to_json m) ''role'' ''user'' = role_to_string (m_role m)"
    by (simp add: message_to_json_def value_str_def del: json_set.simps)
  ultimately show ?thesis
    by (simp add: message_from_json_def block_roundtrip comp_def)
qed

end
