(* ===== verification/ContextPruner.thy ===== *)
theory ContextPruner
  imports Acp Utf8Text JsonSerializer
begin

text \<open>
  The context pruner (\<open>memory/context_pruner.cpp\<close>), which shortens old tool results before a conversation is sent
  to the model. Assistant messages are numbered from the end (their depth). The calls and results of the most recent
  ones are kept, those of older ones shortened, and those beyond \<open>hard_prune_after\<close> removed. \<open>int\<close> values are
  integers; the limits on lines and characters are non-negative. The text of a call's arguments is the
  output of \<open>dump\<close> (theory \<open>JsonSerializer\<close>, with the formatting \<open>fmt\<close> of doubles as parameter).
\<close>

record prune_opts =
  protect_recent :: int
  soft_prune_lines :: nat
  hard_prune_after :: int
  max_tool_result_chars :: nat

definition prune_opts_new :: prune_opts where
  "prune_opts_new = \<lparr>protect_recent = 3, soft_prune_lines = 5, hard_prune_after = 10, max_tool_result_chars = 2000\<rparr>"

record 'd prune_result =
  pr_messages :: "'d message list"
  pr_hard_pruned :: nat
  pr_soft_pruned :: nat
  pr_stripped_msgs :: nat
  pr_stripped_uses :: nat

subsection \<open>Depths\<close>

definition count_assistants :: "'d message list \<Rightarrow> int" where
  "count_assistants h = int (length (filter (\<lambda>m. m_role m = Assistant) h))"

fun fill_depths :: "int \<Rightarrow> 'd message list \<Rightarrow> int list" where
  "fill_depths current [] = []"
| "fill_depths current (m # ms) =
     (if m_role m = Assistant then current # fill_depths (current - 1) ms else (-1) # fill_depths current ms)"

definition compute_depths :: "'d message list \<Rightarrow> int list" where
  "compute_depths history = fill_depths (count_assistants history) history"

text \<open>The depth of the last assistant message before a position, or -1.\<close>

fun nearest_depth :: "'d message list \<Rightarrow> int list \<Rightarrow> nat \<Rightarrow> int" where
  "nearest_depth history depths 0 = -1"
| "nearest_depth history depths (Suc j) =
     (if m_role (history ! j) = Assistant then depths ! j else nearest_depth history depths j)"

subsection \<open>Shortening a tool result\<close>

fun split_loop :: "string \<Rightarrow> string \<Rightarrow> string list" where
  "split_loop line [] = (if line \<noteq> [] then [line] else [])"
| "split_loop line (c # cs) = (if c = CHR 0x0A then line # split_loop [] cs else split_loop (line @ [c]) cs)"

definition split_lines :: "string \<Rightarrow> string list" where
  "split_lines sv = split_loop [] sv"

definition nl_join :: "string list \<Rightarrow> string" where
  "nl_join ls = join [CHR 0x0A] ls"

definition omitted :: "nat \<Rightarrow> string \<Rightarrow> string" where
  "omitted n what = CHR 0x0A # ''... ('' @ decimal n @ what @ '' omitted) ...'' @ [CHR 0x0A]"

definition soft_prune :: "string \<Rightarrow> nat \<Rightarrow> string" where
  "soft_prune content keep_lines =
     (let lines = split_lines content in
      if length lines > keep_lines * 2 then
        nl_join (take keep_lines lines) @ omitted (length lines - keep_lines * 2) '' lines'' @
        nl_join (drop (length lines - keep_lines) lines)
      else if length content > keep_lines * 160 then
        (let keep_chars = keep_lines * 80 in
         utf8_truncate content keep_chars @ omitted (length content - keep_chars * 2) '' chars'' @
         utf8_truncate_tail content keep_chars)
      else content)"

text \<open>A block of a message in the soft zone, and whether it was shortened.\<close>

fun soft_block :: "prune_opts \<Rightarrow> 'd block \<Rightarrow> 'd block \<times> nat" where
  "soft_block opts (ToolResult tr) =
     (if length (tr_output tr) > max_tool_result_chars opts
      then (ToolResult \<lparr>tr_id = tr_id tr, tr_name = [], tr_output = soft_prune (tr_output tr) (soft_prune_lines opts),
                        tr_success = tr_success tr\<rparr>, 1)
      else (ToolResult tr, 0))"
| "soft_block opts b = (b, 0)"

definition soft_message :: "prune_opts \<Rightarrow> 'd message \<Rightarrow> 'd message \<times> nat" where
  "soft_message opts msg =
     (let bs = map (soft_block opts) (m_content msg)
      in (\<lparr>m_role = m_role msg, m_content = map fst bs\<rparr>, sum_list (map snd bs)))"

subsection \<open>Stripping a message\<close>

definition ellipsis :: string where
  "ellipsis = map char_of [0xE2, 0x80, 0xA6 :: nat]"

definition call_summary :: "('d \<Rightarrow> string) \<Rightarrow> 'd tool_call \<Rightarrow> string" where
  "call_summary fmt c =
     (let args = json_write fmt (-1) 0 (tc_arguments c) in
      c_str (tc_name c @
        (if args \<noteq> [] \<and> args \<noteq> ''{}''
         then ''('' @ (if length args > 160 then take 160 args @ ellipsis else args) @ '')'' else [])))"

definition tools_summary :: "string list \<Rightarrow> string" where
  "tools_summary tool_summaries =
     (let shown = min (length tool_summaries) 12 in
      ''[used tools: '' @ join '', '' (take shown tool_summaries) @
      (if length tool_summaries > shown
       then '', ... +'' @ decimal (length tool_summaries - shown) @ '' more'' else []) @ '']'')"

text \<open>The texts of an assistant message without its calls, or a summary of the calls; an empty message is dropped.\<close>

definition strip_message :: "('d \<Rightarrow> string) \<Rightarrow> 'd message \<Rightarrow> 'd message option \<times> nat" where
  "strip_message fmt msg =
     (let texts = filter (\<lambda>b. is_text b \<and> \<not> is_thinking b) (m_content msg);
          tool_summaries = map (call_summary fmt) (block_calls (m_content msg));
          content = (if texts = [] \<and> tool_summaries \<noteq> [] then [Text (c_str (tools_summary tool_summaries)) False]
                     else texts)
      in (if content \<noteq> [] then Some \<lparr>m_role = m_role msg, m_content = content\<rparr> else None, length tool_summaries))"

subsection \<open>The history\<close>

text \<open>One message: what is kept of it, and the counts of shortened results, dropped result messages and stripped calls.\<close>

definition prune_one ::
  "('d \<Rightarrow> string) \<Rightarrow> prune_opts \<Rightarrow> 'd message list \<Rightarrow> int list \<Rightarrow> nat \<Rightarrow> 'd message option \<times> nat \<times> nat \<times> nat" where
  "prune_one fmt opts history depths idx =
     (let msg = history ! idx in
      if m_role msg = Tool then
        (let nd = nearest_depth history depths idx in
         if nd > 0 \<and> nd \<le> protect_recent opts then (Some msg, 0, 0, 0)
         else if nd > 0 \<and> nd > hard_prune_after opts then (None, 0, 1, 0)
         else let (m, n) = soft_message opts msg in (Some m, n, 0, 0))
      else if m_role msg = Assistant then
        (let depth = depths ! idx in
         if depth > 0 \<and> depth \<le> protect_recent opts then (Some msg, 0, 0, 0)
         else if depth > hard_prune_after opts then
           (let (m, n) = strip_message fmt msg in (m, 0, 0, n))
         else let (m, n) = soft_message opts msg in (Some m, n, 0, 0))
      else (Some msg, 0, 0, 0))"

fun prune_add :: "'d prune_result \<Rightarrow> 'd message option \<times> nat \<times> nat \<times> nat \<Rightarrow> 'd prune_result" where
  "prune_add r (m, soft, msgs, uses) =
     r\<lparr>pr_messages := pr_messages r @ (case m of Some x \<Rightarrow> [x] | None \<Rightarrow> []),
       pr_soft_pruned := pr_soft_pruned r + soft, pr_stripped_msgs := pr_stripped_msgs r + msgs,
       pr_stripped_uses := pr_stripped_uses r + uses\<rparr>"

definition prune_range_with_depths ::
  "('d \<Rightarrow> string) \<Rightarrow> 'd message list \<Rightarrow> nat \<Rightarrow> int list \<Rightarrow> prune_opts \<Rightarrow> 'd prune_result" where
  "prune_range_with_depths fmt history start depths opts =
     foldl (\<lambda>r idx. prune_add r (prune_one fmt opts history depths idx))
       \<lparr>pr_messages = [], pr_hard_pruned = 0, pr_soft_pruned = 0, pr_stripped_msgs = 0, pr_stripped_uses = 0\<rparr>
       [start..<length history]"

definition prune :: "('d \<Rightarrow> string) \<Rightarrow> 'd message list \<Rightarrow> prune_opts \<Rightarrow> 'd prune_result" where
  "prune fmt history opts =
     (if history = []
      then \<lparr>pr_messages = history, pr_hard_pruned = 0, pr_soft_pruned = 0, pr_stripped_msgs = 0, pr_stripped_uses = 0\<rparr>
      else prune_range_with_depths fmt history 0 (compute_depths history) opts)"

subsection \<open>Estimates\<close>

definition pruner_text_tokens :: "string \<Rightarrow> nat" where
  "pruner_text_tokens text = (let (cjk, ascii) = count_chars text in cjk + max 1 (ascii div 4))"

fun block_tokens :: "('d \<Rightarrow> string) \<Rightarrow> 'd block \<Rightarrow> nat" where
  "block_tokens fmt (Text t thinking) = pruner_text_tokens t"
| "block_tokens fmt (ToolResult tr) = pruner_text_tokens (tr_output tr)"
| "block_tokens fmt (ToolUse tu) =
     pruner_text_tokens (tc_name tu) + pruner_text_tokens (json_write fmt (-1) 0 (tc_arguments tu))"
| "block_tokens fmt (Media ct s) = 0"

definition estimate_tokens :: "('d \<Rightarrow> string) \<Rightarrow> 'd message \<Rightarrow> nat" where
  "estimate_tokens fmt msg = foldl (\<lambda>count b. count + block_tokens fmt b) 0 (m_content msg)"

definition estimate_all_tokens :: "('d \<Rightarrow> string) \<Rightarrow> 'd message list \<Rightarrow> nat" where
  "estimate_all_tokens fmt msgs = foldl (\<lambda>total m. total + estimate_tokens fmt m) 0 msgs"

subsection \<open>The pruner as a pass over the list\<close>

text \<open>The two cases of \<open>prune_one\<close> by depth.\<close>

definition prune_tool :: "prune_opts \<Rightarrow> int \<Rightarrow> 'd message \<Rightarrow> 'd message list" where
  "prune_tool opts nd msg =
     (if nd > 0 \<and> nd \<le> protect_recent opts then [msg]
      else if nd > 0 \<and> nd > hard_prune_after opts then []
      else [fst (soft_message opts msg)])"

definition prune_assistant :: "('d \<Rightarrow> string) \<Rightarrow> prune_opts \<Rightarrow> int \<Rightarrow> 'd message \<Rightarrow> 'd message list" where
  "prune_assistant fmt opts depth msg =
     (if depth > 0 \<and> depth \<le> protect_recent opts then [msg]
      else if depth > hard_prune_after opts then (case fst (strip_message fmt msg) of Some m \<Rightarrow> [m] | None \<Rightarrow> [])
      else [fst (soft_message opts msg)])"

text \<open>\<open>nd\<close> is the depth of the assistant message before, \<open>current\<close> that of the next one.\<close>

fun prune_list :: "('d \<Rightarrow> string) \<Rightarrow> prune_opts \<Rightarrow> int \<Rightarrow> int \<Rightarrow> 'd message list \<Rightarrow> 'd message list" where
  "prune_list fmt opts nd current [] = []"
| "prune_list fmt opts nd current (m # ms) =
     (if m_role m = Tool then prune_tool opts nd m @ prune_list fmt opts nd current ms
      else if m_role m = Assistant then
        prune_assistant fmt opts current m @ prune_list fmt opts current (current - 1) ms
      else m # prune_list fmt opts nd current ms)"

lemma count_assistants_simps [simp]:
  "count_assistants [] = 0"
  "count_assistants (m # ms) = (if m_role m = Assistant then 1 else 0) + count_assistants ms"
  "count_assistants (xs @ ys) = count_assistants xs + count_assistants ys"
  by (simp_all add: count_assistants_def)

lemma count_assistants_nonneg [simp]: "0 \<le> count_assistants ms"
  by (simp add: count_assistants_def)

lemma count_assistants_pos [simp]: "0 < 1 + count_assistants ms"
  using count_assistants_nonneg [of ms] by linarith

lemma length_fill_depths [simp]: "length (fill_depths c ms) = length ms"
  by (induction c ms rule: fill_depths.induct) simp_all

lemma fill_depths_nth:
  "i < length ms \<Longrightarrow>
   fill_depths c ms ! i = (if m_role (ms ! i) = Assistant then c - count_assistants (take i ms) else -1)"
proof (induction c ms arbitrary: i rule: fill_depths.induct)
  case (2 c m ms)
  then show ?case by (cases i) auto
qed simp

text \<open>The depth of an assistant message is the number of assistant messages from it to the end.\<close>

lemma compute_depths_nth:
  assumes "i < length h"
  shows "compute_depths h ! i = (if m_role (h ! i) = Assistant then count_assistants (drop i h) else -1)"
proof -
  have "count_assistants h = count_assistants (take i h) + count_assistants (drop i h)"
    using count_assistants_simps(3) [of "take i h" "drop i h"] by simp
  then show ?thesis using assms by (simp add: compute_depths_def fill_depths_nth)
qed

lemma prune_one_eq:
  "(case fst (prune_one fmt opts h ds i) of Some x \<Rightarrow> [x] | None \<Rightarrow> []) =
   (if m_role (h ! i) = Tool then prune_tool opts (nearest_depth h ds i) (h ! i)
    else if m_role (h ! i) = Assistant then prune_assistant fmt opts (ds ! i) (h ! i)
    else [h ! i])"
  by (simp add: prune_one_def prune_tool_def prune_assistant_def Let_def split_beta)

lemma foldl_prune_add:
  "pr_messages (foldl (\<lambda>r i. prune_add r (f i)) r is) =
   pr_messages r @ concat (map (\<lambda>i. case fst (f i) of Some x \<Rightarrow> [x] | None \<Rightarrow> []) is)"
proof (induction "is" arbitrary: r)
  case (Cons i "is")
  obtain m a b c where "f i = (m, a, b, c)" by (cases "f i")
  with Cons show ?case by simp
qed simp

lemma prune_range_list:
  assumes "start \<le> length h"
  shows "pr_messages (prune_range_with_depths fmt h start (compute_depths h) opts) =
    prune_list fmt opts (nearest_depth h (compute_depths h) start) (count_assistants (drop start h)) (drop start h)"
proof -
  let ?ds = "compute_depths h"
  let ?f = "\<lambda>i. case fst (prune_one fmt opts h ?ds i) of Some x \<Rightarrow> [x] | None \<Rightarrow> []"
  have "concat (map ?f [start..<length h]) =
    prune_list fmt opts (nearest_depth h ?ds start) (count_assistants (drop start h)) (drop start h)"
    using assms
  proof (induction start rule: inc_induct)
    case (step i)
    have "drop i h = h ! i # drop (Suc i) h" using step.hyps by (simp add: Cons_nth_drop_Suc)
    moreover have "[i..<length h] = i # [Suc i..<length h]" using step.hyps by (simp add: upt_conv_Cons)
    ultimately show ?case
      using step.IH step.hyps prune_one_eq [of fmt opts h ?ds i] compute_depths_nth [of i h] by simp
  qed simp
  then show ?thesis by (simp add: prune_range_with_depths_def foldl_prune_add)
qed

lemma prune_list_eq: "pr_messages (prune fmt h opts) = prune_list fmt opts (-1) (count_assistants h) h"
  using prune_range_list [of 0 h fmt opts] by (simp add: prune_def)

subsection \<open>Calls and results stay together\<close>

definition call_ids :: "'d message \<Rightarrow> string list" where
  "call_ids m = map tc_id (get_tool_calls m)"

definition result_ids :: "'d message \<Rightarrow> string list" where
  "result_ids m = map tr_id (get_tool_results m)"

text \<open>
  The turns of a conversation: for every assistant message the ids of its calls and those of the results that come
  with it and after it, up to the next one; and the ids of results before the first.
\<close>

fun turns :: "'d message list \<Rightarrow> string list \<times> (string list \<times> string list) list" where
  "turns [] = ([], [])"
| "turns (m # ms) =
     (let (lead, ts) = turns ms in
      if m_role m = Tool then (result_ids m @ lead, ts)
      else if m_role m = Assistant then ([], (call_ids m, result_ids m @ lead) # ts)
      else (lead, ts))"

lemma length_turns: "int (length (snd (turns ms))) = count_assistants ms"
  by (induction ms) (auto simp: Let_def split_beta)

lemma soft_block_ids:
  "block_calls (map fst (map (soft_block opts) bs)) = block_calls bs"
  "map tr_id (block_results (map fst (map (soft_block opts) bs))) = map tr_id (block_results bs)"
proof (induction bs)
  case (Cons b bs)
  { case 1 show ?case using Cons by (cases b) simp_all }
  { case 2 show ?case using Cons by (cases b) simp_all }
qed simp_all

lemma soft_message_ids [simp]:
  "m_role (fst (soft_message opts m)) = m_role m"
  "call_ids (fst (soft_message opts m)) = call_ids m"
  "result_ids (fst (soft_message opts m)) = result_ids m"
  using soft_block_ids [of opts "m_content m"]
  by (simp_all add: soft_message_def Let_def call_ids_def result_ids_def get_tool_calls_def get_tool_results_def)

lemma filter_text_ids:
  "block_calls (filter (\<lambda>b. is_text b \<and> \<not> is_thinking b) bs) = []"
  "block_results (filter (\<lambda>b. is_text b \<and> \<not> is_thinking b) bs) = []"
proof (induction bs)
  case (Cons b bs)
  { case 1 show ?case using Cons by (cases b) simp_all }
  { case 2 show ?case using Cons by (cases b) simp_all }
qed simp_all

lemma strip_message_ids:
  "fst (strip_message fmt m) = Some m' \<Longrightarrow> m_role m' = m_role m \<and> call_ids m' = [] \<and> result_ids m' = []"
  using filter_text_ids [of "m_content m"]
  by (auto simp: strip_message_def Let_def call_ids_def result_ids_def get_tool_calls_def get_tool_results_def
      split: if_splits)

text \<open>The depth from which on calls and results are removed.\<close>

definition stripped :: "prune_opts \<Rightarrow> int \<Rightarrow> bool" where
  "stripped opts nd \<longleftrightarrow> nd > 0 \<and> nd > protect_recent opts \<and> nd > hard_prune_after opts"

definition kept_turns :: "prune_opts \<Rightarrow> nat" where
  "kept_turns opts = nat (max (protect_recent opts) (hard_prune_after opts))"

lemma stripped_iff: "stripped opts (int n) \<longleftrightarrow> kept_turns opts < n"
  by (auto simp: stripped_def kept_turns_def)

lemma prune_tool_cases:
  "stripped opts nd \<Longrightarrow> prune_tool opts nd m = []"
  "\<not> stripped opts nd \<Longrightarrow> \<exists>m'. prune_tool opts nd m = [m'] \<and> m_role m' = m_role m \<and> result_ids m' = result_ids m"
  by (auto simp: prune_tool_def stripped_def)

lemma prune_assistant_cases:
  assumes "0 < d"
  shows "stripped opts d \<Longrightarrow> prune_assistant fmt opts d m = [] \<or>
      (\<exists>m'. prune_assistant fmt opts d m = [m'] \<and> m_role m' = m_role m \<and> call_ids m' = [] \<and> result_ids m' = [])"
    and "\<not> stripped opts d \<Longrightarrow> \<exists>m'. prune_assistant fmt opts d m = [m'] \<and> m_role m' = m_role m \<and>
      call_ids m' = call_ids m \<and> result_ids m' = result_ids m"
proof -
  assume "stripped opts d"
  then have "prune_assistant fmt opts d m = (case fst (strip_message fmt m) of Some m \<Rightarrow> [m] | None \<Rightarrow> [])"
    by (simp add: prune_assistant_def stripped_def)
  then show "prune_assistant fmt opts d m = [] \<or>
      (\<exists>m'. prune_assistant fmt opts d m = [m'] \<and> m_role m' = m_role m \<and> call_ids m' = [] \<and> result_ids m' = [])"
    using strip_message_ids [of fmt m] by (cases "fst (strip_message fmt m)") auto
next
  assume "\<not> stripped opts d"
  then have "prune_assistant fmt opts d m = [m] \<or> prune_assistant fmt opts d m = [fst (soft_message opts m)]"
    using assms by (auto simp: prune_assistant_def stripped_def)
  then show "\<exists>m'. prune_assistant fmt opts d m = [m'] \<and> m_role m' = m_role m \<and>
      call_ids m' = call_ids m \<and> result_ids m' = result_ids m"
    by auto
qed

lemma turns_prune_list:
  "\<exists>j \<le> length (snd (turns ms)) - kept_turns opts.
     turns (prune_list fmt opts nd (count_assistants ms) ms) =
       (if stripped opts nd then [] else fst (turns ms),
        replicate j ([], []) @ drop (length (snd (turns ms)) - kept_turns opts) (snd (turns ms)))"
proof (induction ms arbitrary: nd)
  case Nil
  then show ?case by simp
next
  case (Cons m ms)
  let ?k = "kept_turns opts" and ?n = "length (snd (turns ms))"
  show ?case
  proof (cases "m_role m")
    case Tool
    obtain j where "j \<le> ?n - ?k" "turns (prune_list fmt opts nd (count_assistants ms) ms) =
       (if stripped opts nd then [] else fst (turns ms), replicate j ([], []) @ drop (?n - ?k) (snd (turns ms)))"
      using Cons.IH [of nd] by blast
    then show ?thesis
      using Tool prune_tool_cases [of opts nd m]
      by (intro exI [of _ j]) (auto simp: Let_def split_beta)
  next
    case Assistant
    let ?d = "1 + count_assistants ms"
    have d: "?d = int (Suc ?n)" by (simp add: length_turns)
    obtain j where j: "j \<le> ?n - ?k" "turns (prune_list fmt opts ?d (count_assistants ms) ms) =
       (if stripped opts ?d then [] else fst (turns ms), replicate j ([], []) @ drop (?n - ?k) (snd (turns ms)))"
      using Cons.IH [of ?d] by blast
    show ?thesis
    proof (cases "stripped opts ?d")
      case True
      then have k: "?k < Suc ?n" using stripped_iff [of opts "Suc ?n"] unfolding d by blast
      have pos: "0 < ?d" using count_assistants_nonneg [of ms] by linarith
      from prune_assistant_cases(1) [OF pos True, of fmt m] show ?thesis
      proof
        assume "prune_assistant fmt opts ?d m = []"
        then show ?thesis
          using Assistant True j k by (intro exI [of _ j]) (auto simp: Let_def split_beta Suc_diff_le)
      next
        assume "\<exists>m'. prune_assistant fmt opts ?d m = [m'] \<and> m_role m' = m_role m \<and> call_ids m' = [] \<and> result_ids m' = []"
        then show ?thesis
          using Assistant True j k by (intro exI [of _ "Suc j"]) (auto simp: Let_def split_beta Suc_diff_le)
      qed
    next
      case False
      then have k: "\<not> ?k < Suc ?n" using stripped_iff [of opts "Suc ?n"] unfolding d by blast
      have pos: "0 < ?d" using count_assistants_nonneg [of ms] by linarith
      from prune_assistant_cases(2) [OF pos False, of fmt m] show ?thesis
        using Assistant False j k by (intro exI [of _ 0]) (auto simp: Let_def split_beta)
    qed
  next
    case User
    then show ?thesis using Cons.IH [of nd] by (auto simp: Let_def split_beta)
  next
    case System
    then show ?thesis using Cons.IH [of nd] by (auto simp: Let_def split_beta)
  qed
qed

text \<open>
  C34: pruning keeps calls and results together: with \<open>k\<close> the larger of \<open>protect_recent\<close> and \<open>hard_prune_after\<close>, the last \<open>k\<close> turns
  keep the ids of all their calls and results in order, and of the turns before them neither a call nor a
  result is left. No result is ever left without its call, or the other way round.
\<close>

theorem prune_keeps_turns:
  "fst (turns (pr_messages (prune fmt h opts))) = fst (turns h) \<and>
   (\<exists>j \<le> length (snd (turns h)) - kept_turns opts.
      snd (turns (pr_messages (prune fmt h opts))) =
        replicate j ([], []) @ drop (length (snd (turns h)) - kept_turns opts) (snd (turns h)))"
  using turns_prune_list [of h opts fmt "-1"] by (auto simp: prune_list_eq stripped_def)

subsection \<open>Shortening keeps characters whole\<close>

definition is_utf8 :: "string \<Rightarrow> bool" where
  "is_utf8 s \<longleftrightarrow> (\<exists>us. list_all utf8_char us \<and> s = concat us)"

lemma is_utf8_nil [simp]: "is_utf8 []"
  unfolding is_utf8_def by (rule exI [of _ "[]"]) simp

lemma is_utf8_append: "is_utf8 a \<Longrightarrow> is_utf8 b \<Longrightarrow> is_utf8 (a @ b)"
  unfolding is_utf8_def by (metis concat_append list_all_append)

lemma is_utf8_char: "utf8_char u \<Longrightarrow> is_utf8 u"
  unfolding is_utf8_def by (rule exI [of _ "[u]"]) simp

lemma utf8_char_ascii: "byte c < 0x80 \<Longrightarrow> utf8_char [c]"
  by (simp add: utf8_char_def starts_char_def utf8_step_def)

lemma is_utf8_ascii: "list_all (\<lambda>c. byte c < 0x80) s \<Longrightarrow> is_utf8 s"
proof (induction s)
  case (Cons c s)
  then show ?case using is_utf8_append [OF is_utf8_char [OF utf8_char_ascii], of c s] by simp
qed simp

lemma is_utf8_join: "list_all is_utf8 ls \<Longrightarrow> is_utf8 sep \<Longrightarrow> is_utf8 (join sep ls)"
  by (induction sep ls rule: join.induct) (auto intro!: is_utf8_append)

lemma decimal_ascii: "list_all (\<lambda>c. byte c < 0x80) (decimal n)"
proof (induction n rule: decimal.induct)
  case (1 n)
  then show ?case by (cases "n < 10") (simp_all add: decimal.simps [of n] byte_char_of)
qed

lemma omitted_utf8: "list_all (\<lambda>c. byte c < 0x80) what \<Longrightarrow> is_utf8 (omitted n what)"
  using decimal_ascii [of n] by (intro is_utf8_ascii) (simp add: omitted_def, simp add: byte_def)

text \<open>A line break is a character of its own, so a text is split between characters.\<close>

lemma split_loop_char:
  assumes "utf8_char u"
  shows "split_loop line (u @ r) = (if u = [CHR 0x0A] then line # split_loop [] r else split_loop (line @ u) r)"
proof -
  obtain c cs where u: "u = c # cs" "utf8_step c = Suc (length cs)" "list_all (\<lambda>c. \<not> starts_char c) cs"
    using utf8_char_Cons [OF assms] by auto
  have nl: "starts_char (CHR 0x0A)" "utf8_step (CHR 0x0A) = 1"
    by (simp_all add: starts_char_def utf8_step_def byte_def)
  have "split_loop l (cs @ r) = split_loop (l @ cs) r" for l
    using u(3)
  proof (induction cs arbitrary: l)
    case (Cons x xs)
    then show ?case using nl(1) by auto
  qed simp
  then show ?thesis using u nl(2) by auto
qed

lemma split_loop_utf8:
  "list_all utf8_char us \<Longrightarrow> is_utf8 line \<Longrightarrow> list_all is_utf8 (split_loop line (concat us))"
proof (induction us arbitrary: line)
  case (Cons u us)
  then show ?case
    using split_loop_char [of u line "concat us"] is_utf8_append [OF _ is_utf8_char, of line u] by simp
qed simp

text \<open>
  Shortening a tool result never damages a character: the result of \<open>soft_prune\<close> on UTF-8 text is UTF-8 text again,
  whether it is shortened by lines or by characters.
\<close>

theorem soft_prune_utf8:
  assumes "list_all utf8_char us"
  shows "\<exists>vs. list_all utf8_char vs \<and> soft_prune (concat us) keep_lines = concat vs"
proof -
  let ?ls = "split_lines (concat us)"
  have lines: "list_all is_utf8 (take n ?ls)" "list_all is_utf8 (drop n ?ls)" for n
    using split_loop_utf8 [OF assms, of "[]"]
    by (auto simp: split_lines_def list_all_iff dest: in_set_takeD in_set_dropD)
  have nl: "is_utf8 [CHR 0x0A]" by (rule is_utf8_ascii) (simp add: byte_def)
  have "is_utf8 (omitted n '' lines'')" "is_utf8 (omitted n '' chars'')" for n
    by (rule omitted_utf8, simp add: byte_def)+
  moreover have "is_utf8 (nl_join (take n ?ls))" "is_utf8 (nl_join (drop n ?ls))" for n
    using is_utf8_join lines nl by (simp_all add: nl_join_def)
  moreover have "is_utf8 (concat us)" using assms by (auto simp: is_utf8_def)
  moreover have "is_utf8 (utf8_truncate (concat us) n)" "is_utf8 (utf8_truncate_tail (concat us) n)" for n
    using truncate_prefix [OF assms] truncate_suffix [OF assms] by (metis assms is_utf8_def list_all_append)+
  ultimately have "is_utf8 (soft_prune (concat us) keep_lines)"
    by (simp add: soft_prune_def Let_def is_utf8_append)
  then show ?thesis by (auto simp: is_utf8_def)
qed

theorem soft_prune_utf8_witness:
  "\<exists>vs. list_all utf8_char vs \<and> soft_prune (concat [euro, ''a'']) 0 = concat vs"
  by (rule soft_prune_utf8) (simp add: euro_char)

end
