(* ===== verification/History.thy ===== *)
theory History
  imports ContextPruner
begin

text \<open>
  The conversation history (\<open>workspace/conversation_history.hpp\<close>, \<open>.cpp\<close>): the messages, the pruned list that is sent to
  the model and is brought up to date incrementally, the token estimates and the converted messages, all of which are
  cached. The conversions to the providers' formats are parameters \<open>co\<close> and \<open>ca\<close>. A read past the end of the
  cached list is \<open>None\<close>. The mutex makes every operation atomic.
\<close>

record prune_settings = prune_opts +
  ps_enabled :: bool

record 'd history =
  h_messages :: "'d message list"
  h_session_id :: string
  prune_config :: prune_settings
  h_pruned :: "'d message list"
  prune_dirty :: bool
  cached_openai_msgs :: "'d json list"
  cached_anthropic_msgs :: "'d json list"
  openai_cached_count :: nat
  anthropic_cached_count :: nat
  last_pruned_msg_count :: nat
  cached_original_tokens :: int
  cached_pruned_tokens :: int

definition prune_settings_new :: prune_settings where
  "prune_settings_new = \<lparr>protect_recent = 3, soft_prune_lines = 5, hard_prune_after = 10, max_tool_result_chars = 2000,
     ps_enabled = True\<rparr>"

definition hist_new :: "string \<Rightarrow> 'd history" where
  "hist_new sid = \<lparr>h_messages = [], h_session_id = sid, prune_config = prune_settings_new, h_pruned = [],
     prune_dirty = True, cached_openai_msgs = [], cached_anthropic_msgs = [], openai_cached_count = 0,
     anthropic_cached_count = 0, last_pruned_msg_count = 0, cached_original_tokens = -1, cached_pruned_tokens = -1\<rparr>"

subsection \<open>Changing the history\<close>

definition invalidate_caches :: "'d history \<Rightarrow> 'd history" where
  "invalidate_caches h = h\<lparr>cached_openai_msgs := [], cached_anthropic_msgs := [], openai_cached_count := 0,
     anthropic_cached_count := 0, prune_dirty := True, cached_pruned_tokens := -1\<rparr>"

definition invalidate_all_cache :: "'d history \<Rightarrow> 'd history" where
  "invalidate_all_cache h = (invalidate_caches h)\<lparr>cached_original_tokens := -1, last_pruned_msg_count := 0\<rparr>"

definition add_message :: "('d \<Rightarrow> string) \<Rightarrow> 'd message \<Rightarrow> 'd history \<Rightarrow> 'd history" where
  "add_message fmt m h =
     (let h1 = h\<lparr>h_messages := h_messages h @ [m]\<rparr>;
          h2 = (if cached_original_tokens h1 \<ge> 0
                then h1\<lparr>cached_original_tokens := cached_original_tokens h1 + int (estimate_tokens fmt m)\<rparr> else h1)
      in invalidate_caches h2)"

definition hist_add_text :: "('d \<Rightarrow> string) \<Rightarrow> role \<Rightarrow> string \<Rightarrow> 'd history \<Rightarrow> 'd history" where
  "hist_add_text fmt r content h = add_message fmt (text_message r content) h"

definition hist_add_tool_result :: "('d \<Rightarrow> string) \<Rightarrow> string \<Rightarrow> string \<Rightarrow> string \<Rightarrow> 'd history \<Rightarrow> 'd history" where
  "hist_add_tool_result fmt tool_call_id tool_name result h =
     add_message fmt (tool_result_message
       \<lparr>tr_id = tool_call_id, tr_name = [], tr_output = result, tr_success = True\<rparr>) h"

text \<open>The loop of \<open>set_system_prompt\<close>: the first system message is replaced, others are erased.\<close>

fun system_loop :: "string \<Rightarrow> bool \<Rightarrow> 'd message list \<Rightarrow> 'd message list \<times> bool \<times> bool" where
  "system_loop nxt found [] = ([], found, False)"
| "system_loop nxt found (m # ms) =
     (if m_role m \<noteq> System then
        (let (ms', f, c) = system_loop nxt found ms in (m # ms', f, c))
      else if \<not> found then
        (let (ms', f, c) = system_loop nxt True ms in
         if get_all_text m \<noteq> nxt then (text_message System nxt # ms', f, True) else (m # ms', f, c))
      else (let (ms', f, c) = system_loop nxt found ms in (ms', f, True)))"

definition set_system_prompt :: "string \<Rightarrow> 'd history \<Rightarrow> bool \<times> 'd history" where
  "set_system_prompt content h =
     (let (ms, found, changed) = system_loop content False (h_messages h);
          (ms, changed) = (if \<not> found then (text_message System content # ms, True) else (ms, changed));
          h1 = h\<lparr>h_messages := ms\<rparr>
      in (changed, if changed then invalidate_all_cache h1 else h1))"

definition hist_clear :: "'d history \<Rightarrow> 'd history" where
  "hist_clear h = invalidate_all_cache (h\<lparr>h_messages := []\<rparr>)"

definition set_prune_config :: "prune_settings \<Rightarrow> 'd history \<Rightarrow> 'd history" where
  "set_prune_config cfg h = invalidate_caches (h\<lparr>prune_config := cfg, prune_dirty := True\<rparr>)"

definition hist_swap :: "'d history \<Rightarrow> 'd history \<Rightarrow> 'd history \<times> 'd history" where
  "hist_swap h other =
     (invalidate_all_cache (h\<lparr>h_messages := h_messages other, h_session_id := h_session_id other,
        cached_openai_msgs := cached_openai_msgs other, cached_anthropic_msgs := cached_anthropic_msgs other,
        openai_cached_count := openai_cached_count other, anthropic_cached_count := anthropic_cached_count other\<rparr>),
      other\<lparr>h_messages := h_messages h, h_session_id := h_session_id h,
        openai_cached_count := openai_cached_count h, anthropic_cached_count := anthropic_cached_count h\<rparr>)"

subsection \<open>Token estimates and pruning\<close>

definition original_tokens :: "('d \<Rightarrow> string) \<Rightarrow> 'd history \<Rightarrow> int \<times> 'd history" where
  "original_tokens fmt h =
     (let h1 = (if cached_original_tokens h < 0
                then h\<lparr>cached_original_tokens := int (estimate_all_tokens fmt (h_messages h))\<rparr> else h)
      in (cached_original_tokens h1, h1))"

text \<open>The full pruning; the log message at its end evaluates both token estimates.\<close>

definition prune_full :: "('d \<Rightarrow> string) \<Rightarrow> 'd history \<Rightarrow> 'd history" where
  "prune_full fmt h =
     (let h1 = h\<lparr>h_pruned := pr_messages (prune fmt (h_messages h) (prune_opts.truncate (prune_config h))),
                 prune_dirty := False, last_pruned_msg_count := length (h_messages h)\<rparr>;
          h2 = snd (original_tokens fmt h1)
      in h2\<lparr>cached_pruned_tokens := int (estimate_all_tokens fmt (h_pruned h2))\<rparr>)"

definition freeze_end :: "int \<Rightarrow> int list \<Rightarrow> nat \<Rightarrow> nat" where
  "freeze_end threshold depths prev_count =
     length (takeWhile (\<lambda>d. \<not> (d > 0 \<and> d \<le> threshold)) (take prev_count depths))"

definition freeze_stripped :: "int \<Rightarrow> 'd message list \<Rightarrow> int list \<Rightarrow> nat \<Rightarrow> nat" where
  "freeze_stripped hard messages depths fe =
     length (filter (\<lambda>i. m_role (messages ! i) = Tool \<and> nearest_depth messages depths i > 0 \<and>
       nearest_depth messages depths i > hard) [0..<fe])"

definition pruned_messages :: "('d \<Rightarrow> string) \<Rightarrow> 'd history \<Rightarrow> ('d message list \<times> 'd history) option" where
  "pruned_messages fmt h =
     (if \<not> prune_dirty h then Some (h_pruned h, h)
      else if \<not> ps_enabled (prune_config h) then
        (let h1 = h\<lparr>h_pruned := h_messages h, prune_dirty := False, last_pruned_msg_count := length (h_messages h),
                    cached_pruned_tokens := cached_original_tokens h\<rparr>
         in Some (h_pruned h1, h1))
      else if h_messages h = [] then
        (let h1 = h\<lparr>h_pruned := [], prune_dirty := False, last_pruned_msg_count := 0, cached_pruned_tokens := 0\<rparr>
         in Some (h_pruned h1, h1))
      else
        (let opts = prune_opts.truncate (prune_config h);
             total = length (h_messages h);
             prev_count = last_pruned_msg_count h;
             new_asst = count_assistants (drop prev_count (h_messages h));
             depths = compute_depths (h_messages h);
             fe = freeze_end (hard_prune_after opts + new_asst) depths prev_count;
             full = (let h1 = prune_full fmt h in Some (h_pruned h1, h1))
         in if prev_count > 0 \<and> prev_count \<le> total \<and> h_pruned h \<noteq> [] \<and> fe > 0 then
              (let n = fe - freeze_stripped (hard_prune_after opts) (h_messages h) depths fe
               in if n > length (h_pruned h) then None
                  else let h1 = h\<lparr>h_pruned := take n (h_pruned h) @
                             pr_messages (prune_range_with_depths fmt (h_messages h) fe depths opts),
                           prune_dirty := False, last_pruned_msg_count := total, cached_pruned_tokens := -1\<rparr>
                       in Some (h_pruned h1, h1))
            else full))"

definition pruned_tokens :: "('d \<Rightarrow> string) \<Rightarrow> 'd history \<Rightarrow> (int \<times> 'd history) option" where
  "pruned_tokens fmt h =
     (if cached_pruned_tokens h < 0 then
        Option.bind (pruned_messages fmt h) (\<lambda>(msgs, h1).
          let h2 = h1\<lparr>cached_pruned_tokens := int (estimate_all_tokens fmt msgs)\<rparr>
          in Some (cached_pruned_tokens h2, h2))
      else Some (cached_pruned_tokens h, h))"

subsection \<open>Conversion\<close>

definition to_openai_messages ::
  "('d \<Rightarrow> string) \<Rightarrow> ('d message \<Rightarrow> 'd json) \<Rightarrow> 'd history \<Rightarrow> ('d json \<times> 'd history) option" where
  "to_openai_messages fmt co h =
     Option.bind (pruned_messages fmt h) (\<lambda>(msgs, h1).
       if openai_cached_count h1 = length msgs then Some (JArray (cached_openai_msgs h1), h1)
       else let h2 = h1\<lparr>cached_openai_msgs := cached_openai_msgs h1 @ map co (drop (openai_cached_count h1) msgs),
                        openai_cached_count := length msgs\<rparr>
            in Some (JArray (cached_openai_msgs h2), h2))"

definition to_anthropic_messages ::
  "('d \<Rightarrow> string) \<Rightarrow> ('d message \<Rightarrow> 'd json) \<Rightarrow> 'd history \<Rightarrow> ('d json \<times> 'd history) option" where
  "to_anthropic_messages fmt ca h =
     Option.bind (pruned_messages fmt h) (\<lambda>(msgs, h1).
       if anthropic_cached_count h1 = length msgs then Some (JArray (cached_anthropic_msgs h1), h1)
       else let h2 = h1\<lparr>cached_anthropic_msgs := cached_anthropic_msgs h1 @
                          map ca (filter (\<lambda>m. m_role m \<noteq> System) (drop (anthropic_cached_count h1) msgs)),
                        anthropic_cached_count := length msgs\<rparr>
            in Some (JArray (cached_anthropic_msgs h2), h2))"

definition get_system_prompt :: "'d history \<Rightarrow> string" where
  "get_system_prompt h =
     (case find (\<lambda>m. m_role m = System) (h_messages h) of Some m \<Rightarrow> get_all_text m | None \<Rightarrow> [])"

subsection \<open>The frozen part\<close>

text \<open>A message that is still there after its calls were stripped.\<close>

definition shown :: "'d message \<Rightarrow> bool" where
  "shown m \<longleftrightarrow> list_ex (\<lambda>b. is_text b \<and> \<not> is_thinking b \<or> is_tool_use b) (m_content m)"

lemma strip_message_shown: "shown m \<Longrightarrow> fst (strip_message fmt m) \<noteq> None"
proof -
  assume "shown m"
  then have "filter (\<lambda>b. is_text b \<and> \<not> is_thinking b) (m_content m) \<noteq> [] \<or> block_calls (m_content m) \<noteq> []"
    using has_tool_calls_iff [of m]
    by (auto simp: shown_def list_ex_iff has_tool_calls_def get_tool_calls_def filter_empty_conv)
  then show ?thesis by (simp add: strip_message_def Let_def)
qed

text \<open>What is left of a message beyond the limit; \<open>seen\<close> tells whether an assistant message came before.\<close>

definition strip_one :: "('d \<Rightarrow> string) \<Rightarrow> prune_opts \<Rightarrow> bool \<Rightarrow> 'd message \<Rightarrow> 'd message list" where
  "strip_one fmt opts seen m =
     (if m_role m = Tool then (if seen then [] else [fst (soft_message opts m)])
      else if m_role m = Assistant then (case fst (strip_message fmt m) of Some x \<Rightarrow> [x] | None \<Rightarrow> [])
      else [m])"

fun strip_list :: "('d \<Rightarrow> string) \<Rightarrow> prune_opts \<Rightarrow> bool \<Rightarrow> 'd message list \<Rightarrow> 'd message list" where
  "strip_list fmt opts seen [] = []"
| "strip_list fmt opts seen (m # ms) =
     strip_one fmt opts seen m @ strip_list fmt opts (seen \<or> m_role m = Assistant) ms"

lemma strip_list_snoc:
  "strip_list fmt opts seen (p @ [m]) =
   strip_list fmt opts seen p @ strip_one fmt opts (seen \<or> 0 < count_assistants p) m"
proof (induction p arbitrary: seen)
  case (Cons x p)
  have "0 < 1 + count_assistants p" using count_assistants_nonneg [of p] by linarith
  with Cons show ?case by simp
qed simp

lemma prune_list_frozen:
  assumes "protect_recent opts \<le> hard_prune_after opts"
  shows "nd > 0 \<longrightarrow> nd > hard_prune_after opts \<Longrightarrow> nd \<noteq> 0 \<Longrightarrow>
    0 \<le> c - count_assistants p \<Longrightarrow> (0 < count_assistants p \<longrightarrow> hard_prune_after opts \<le> c - count_assistants p) \<Longrightarrow>
    prune_list fmt opts nd c p = strip_list fmt opts (nd > 0) p"
proof (induction p arbitrary: nd c)
  case (Cons m p)
  have c: "0 \<le> count_assistants p" by simp
  show ?case
  proof (cases "m_role m = Assistant")
    case True
    then have "1 + count_assistants p \<le> c" "hard_prune_after opts \<le> c - (1 + count_assistants p)"
      using Cons.prems(3,4) c by (simp_all add: add_pos_nonneg)
    then have "c > 0" "c > hard_prune_after opts" using c by linarith+
    moreover from this have "prune_list fmt opts c (c - 1) p = strip_list fmt opts (c > 0) p"
      using Cons.prems True c by (intro Cons.IH) auto
    ultimately show ?thesis
      using True assms by (auto simp: strip_one_def prune_assistant_def)
  next
    case False
    then show ?thesis
      using Cons.IH [of nd c] Cons.prems assms by (auto simp: strip_one_def prune_tool_def)
  qed
qed simp

lemma prune_list_append:
  "prune_list fmt opts nd c (p @ q) =
   prune_list fmt opts nd c p @
   prune_list fmt opts (if 0 < count_assistants p then c - count_assistants p + 1 else nd) (c - count_assistants p) q"
proof (induction p arbitrary: nd c)
  case (Cons m p)
  show ?case
  proof (cases "m_role m = Assistant")
    case True
    consider "0 < count_assistants p" | "count_assistants p = 0"
      using count_assistants_nonneg [of p] by linarith
    then show ?thesis
      using Cons [of c "c - 1"] True by cases (simp_all add: diff_diff_eq)
  qed (use Cons [of nd c] in simp)
qed simp

lemma count_take_Suc:
  "i < length h \<Longrightarrow> count_assistants (take (Suc i) h) =
   count_assistants (take i h) + (if m_role (h ! i) = Assistant then 1 else 0)"
  by (simp add: take_Suc_snoc)

lemma count_take_drop: "count_assistants (take i h) + count_assistants (drop i h) = count_assistants h"
  using count_assistants_simps(3) [of "take i h" "drop i h"] by simp

lemma count_take_mono: "i \<le> j \<Longrightarrow> count_assistants (take i h) \<le> count_assistants (take j h)"
proof -
  assume "i \<le> j"
  then have "count_assistants (take i (take j h)) = count_assistants (take i h)" by (simp add: min_def)
  then show ?thesis
    using count_take_drop [of i "take j h"] count_assistants_nonneg [of "drop i (take j h)"] by linarith
qed

lemma nearest_depth_eq:
  "i \<le> length h \<Longrightarrow>
   nearest_depth h (compute_depths h) i =
   (if 0 < count_assistants (take i h) then count_assistants h - count_assistants (take i h) + 1 else -1)"
proof (induction i)
  case (Suc i)
  have "0 \<le> count_assistants (take i h)" by simp
  then show ?case
    using Suc count_take_Suc [of i h] compute_depths_nth [of i h] count_take_drop [of i h] by auto
qed simp

text \<open>The whole list is the pruned prefix with what \<open>prune_range_with_depths\<close> returns for the rest.\<close>

lemma prune_list_range:
  assumes "i \<le> length h"
  shows "prune_list fmt opts (-1) (count_assistants h) h =
    prune_list fmt opts (-1) (count_assistants h) (take i h) @
    pr_messages (prune_range_with_depths fmt h i (compute_depths h) opts)"
proof -
  have "count_assistants (drop i h) = count_assistants h - count_assistants (take i h)"
    using count_take_drop [of i h] by linarith
  then show ?thesis
    using prune_list_append [of fmt opts "-1" "count_assistants h" "take i h" "drop i h"] assms
    by (simp add: prune_range_list nearest_depth_eq)
qed

lemma strip_list_length:
  "\<forall>m \<in> set p. m_role m = Assistant \<longrightarrow> shown m \<Longrightarrow>
   length (strip_list fmt opts False p) +
   length (filter (\<lambda>i. m_role (p ! i) = Tool \<and> 0 < count_assistants (take i p)) [0..<length p]) = length p"
proof (induction p rule: rev_induct)
  case (snoc m p)
  have "filter (\<lambda>i. m_role ((p @ [m]) ! i) = Tool \<and> 0 < count_assistants (take i (p @ [m]))) [0..<length p] =
      filter (\<lambda>i. m_role (p ! i) = Tool \<and> 0 < count_assistants (take i p)) [0..<length p]"
    by (rule filter_cong) (auto simp: nth_append)
  then have "length (filter (\<lambda>i. m_role ((p @ [m]) ! i) = Tool \<and> 0 < count_assistants (take i (p @ [m])))
        [0..<length (p @ [m])]) =
      length (filter (\<lambda>i. m_role (p ! i) = Tool \<and> 0 < count_assistants (take i p)) [0..<length p]) +
      (if m_role m = Tool \<and> 0 < count_assistants p then 1 else 0)"
    by simp
  moreover have "length (strip_one fmt opts (0 < count_assistants p) m) +
      (if m_role m = Tool \<and> 0 < count_assistants p then 1 else 0) = 1"
    using snoc.prems strip_message_shown [of m fmt] by (auto simp: strip_one_def split: option.split)
  ultimately show ?case
    using snoc.IH snoc.prems unfolding strip_list_snoc length_append by simp
qed simp

text \<open>The last assistant message of a prefix is the one with the smallest depth there.\<close>

lemma last_assistant_depth:
  assumes "0 < count_assistants (take n h)"
  shows "\<exists>i < n. i < length h \<and> m_role (h ! i) = Assistant \<and>
    compute_depths h ! i = count_assistants h - count_assistants (take n h) + 1"
  using assms
proof (induction n)
  case (Suc n)
  show ?case
  proof (cases "n < length h \<and> m_role (h ! n) = Assistant")
    case True
    then show ?thesis
      using compute_depths_nth [of n h] count_take_drop [of n h] count_take_Suc [of n h] by (intro exI [of _ n]) simp
  next
    case False
    then have "count_assistants (take (Suc n) h) = count_assistants (take n h)"
      by (cases "n < length h") (simp_all add: count_take_Suc)
    then show ?thesis using Suc by (metis less_SucI)
  qed
qed simp

text \<open>Within a prefix whose assistant messages are beyond the limit, the stripped tool messages are those after the first of them.\<close>

lemma stripped_count:
  assumes "fe \<le> length h"
    and "0 < count_assistants (take fe h) \<longrightarrow> hard \<le> count_assistants h - count_assistants (take fe h)"
  shows "freeze_stripped hard h (compute_depths h) fe =
    length (filter (\<lambda>i. m_role (take fe h ! i) = Tool \<and> 0 < count_assistants (take i (take fe h)))
      [0..<length (take fe h)])"
proof -
  have "(nearest_depth h (compute_depths h) i > 0 \<and> nearest_depth h (compute_depths h) i > hard) \<longleftrightarrow>
      0 < count_assistants (take i h)" if "i < fe" for i
  proof -
    have "count_assistants (take i h) \<le> count_assistants (take fe h)"
      using that by (intro count_take_mono) simp
    moreover have "count_assistants (take fe h) \<le> count_assistants h"
      using count_take_drop [of fe h] count_assistants_nonneg [of "drop fe h"] by linarith
    ultimately show ?thesis using that assms by (auto simp: nearest_depth_eq)
  qed
  then have "filter (\<lambda>i. m_role (h ! i) = Tool \<and> nearest_depth h (compute_depths h) i > 0 \<and>
        nearest_depth h (compute_depths h) i > hard) [0..<fe] =
      filter (\<lambda>i. m_role (take fe h ! i) = Tool \<and> 0 < count_assistants (take i (take fe h))) [0..<fe]"
    by (intro filter_cong) (auto simp: min_def)
  then show ?thesis using assms(1) by (simp add: freeze_stripped_def)
qed

text \<open>All assistant messages of the frozen part are beyond the limit, and were so when the list was pruned last.\<close>

lemma frozen_prefix:
  assumes "prev \<le> length h"
    and fe: "fe = freeze_end (hard + count_assistants (drop prev h)) (compute_depths h) prev"
  shows "fe \<le> prev"
    and "0 < count_assistants (take fe h) \<Longrightarrow>
      hard + count_assistants (drop prev h) \<le> count_assistants h - count_assistants (take fe h)"
proof -
  let ?ds = "compute_depths h" and ?new = "count_assistants (drop prev h)"
  let ?P = "\<lambda>d. \<not> (d > 0 \<and> d \<le> hard + ?new)"
  show fe_prev: "fe \<le> prev"
    unfolding fe freeze_end_def by (rule le_trans [OF length_takeWhile_le]) simp
  assume "0 < count_assistants (take fe h)"
  from last_assistant_depth [OF this] obtain i where i: "i < fe" "i < length h" "m_role (h ! i) = Assistant"
    "?ds ! i = count_assistants h - count_assistants (take fe h) + 1" by blast
  have "i < length (takeWhile ?P (take prev ?ds))" using i(1) by (simp add: fe freeze_end_def)
  from set_takeWhileD [OF nth_mem [OF this]] have "?P (?ds ! i)"
    unfolding takeWhile_nth [OF \<open>i < length (takeWhile ?P (take prev ?ds))\<close>] using i(1) fe_prev by simp
  moreover have "0 < ?ds ! i"
    using i(2,3) compute_depths_nth [of i h] by (simp add: Cons_nth_drop_Suc [OF i(2), symmetric])
  ultimately show "hard + ?new \<le> count_assistants h - count_assistants (take fe h)"
    using i(4) by linarith
qed

text \<open>
  The incremental step: the cached list of the first \<open>prev\<close> messages, cut off where the frozen part ends, with the rest
  pruned anew, is the pruned list of all messages.
\<close>

lemma incremental_step:
  assumes cfg: "protect_recent opts \<le> hard_prune_after opts"
    and shown: "\<forall>m \<in> set h. m_role m = Assistant \<longrightarrow> shown m"
    and prev: "prev \<le> length h"
    and fe: "fe = freeze_end (hard_prune_after opts + count_assistants (drop prev h)) (compute_depths h) prev"
  shows "fe - freeze_stripped (hard_prune_after opts) h (compute_depths h) fe \<le>
      length (pr_messages (prune fmt (take prev h) opts))"
    and "take (fe - freeze_stripped (hard_prune_after opts) h (compute_depths h) fe)
        (pr_messages (prune fmt (take prev h) opts)) @
      pr_messages (prune_range_with_depths fmt h fe (compute_depths h) opts) = pr_messages (prune fmt h opts)"
proof -
  let ?hard = "hard_prune_after opts" and ?ds = "compute_depths h" and ?p = "take fe h"
  let ?old = "take prev h"
  note frozen = frozen_prefix [OF prev fe]
  have fe_len: "fe \<le> length h" using frozen(1) prev by simp
  have new: "0 \<le> count_assistants (drop prev h)" by simp
  have split: "count_assistants h = count_assistants ?old + count_assistants (drop prev h)"
    using count_take_drop [of prev h] by simp
  have pq: "?p @ drop fe ?old = ?old" using frozen(1) by (metis append_take_drop_id min.absorb1 take_take)
  have cold: "count_assistants ?p \<le> count_assistants ?old"
    using frozen(1) by (rule count_take_mono)
  have lim: "0 < count_assistants ?p \<longrightarrow> ?hard \<le> count_assistants ?old - count_assistants ?p"
    "0 < count_assistants ?p \<longrightarrow> ?hard \<le> count_assistants h - count_assistants ?p"
    using frozen(2) split new by linarith+
  have a: "prune_list fmt opts (-1) c ?p = strip_list fmt opts False ?p"
    if "0 \<le> c - count_assistants ?p" "0 < count_assistants ?p \<longrightarrow> ?hard \<le> c - count_assistants ?p" for c
    using prune_list_frozen [OF cfg _ _ that, of "-1" fmt] by simp
  have old: "pr_messages (prune fmt ?old opts) = strip_list fmt opts False ?p @
      prune_list fmt opts (if 0 < count_assistants ?p then count_assistants ?old - count_assistants ?p + 1 else -1)
        (count_assistants ?old - count_assistants ?p) (drop fe ?old)"
    unfolding prune_list_eq
    using prune_list_append [of fmt opts "-1" "count_assistants ?old" ?p "drop fe ?old"] a [OF _ lim(1)] cold
    unfolding pq by simp
  have "\<forall>m \<in> set ?p. m_role m = Assistant \<longrightarrow> shown m" using shown by (auto dest: in_set_takeD)
  then have n: "fe - freeze_stripped ?hard h ?ds fe = length (strip_list fmt opts False ?p)"
    using strip_list_length [of ?p fmt opts] stripped_count [OF fe_len lim(2)] fe_len by simp
  show "fe - freeze_stripped ?hard h ?ds fe \<le> length (pr_messages (prune fmt ?old opts))"
    by (simp add: n old)
  have "0 \<le> count_assistants h - count_assistants ?p" using cold split new by linarith
  from prune_list_range [OF fe_len, of fmt opts] a [OF this lim(2)]
  show "take (fe - freeze_stripped ?hard h ?ds fe) (pr_messages (prune fmt ?old opts)) @
      pr_messages (prune_range_with_depths fmt h fe ?ds opts) = pr_messages (prune fmt h opts)"
    unfolding n old prune_list_eq [of fmt h opts] by simp
qed

subsection \<open>The caches are right\<close>

definition hist_opts :: "'d history \<Rightarrow> prune_opts" where
  "hist_opts h = prune_opts.truncate (prune_config h)"

text \<open>The messages that the model is meant to get.\<close>

definition hist_view :: "('d \<Rightarrow> string) \<Rightarrow> prune_settings \<Rightarrow> 'd message list \<Rightarrow> 'd message list" where
  "hist_view fmt cfg ms = (if ps_enabled cfg then pr_messages (prune fmt ms (prune_opts.truncate cfg)) else ms)"

text \<open>
  The preconditions: the protected zone is not larger than the one before stripping starts, and an assistant message
  says or calls something.
\<close>

definition config_ok :: "prune_settings \<Rightarrow> bool" where
  "config_ok cfg \<longleftrightarrow> protect_recent cfg \<le> hard_prune_after cfg"

definition message_ok :: "'d message \<Rightarrow> bool" where
  "message_ok m \<longleftrightarrow> (m_role m = Assistant \<longrightarrow> shown m)"

definition hist_inv :: "('d \<Rightarrow> string) \<Rightarrow> ('d message \<Rightarrow> 'd json) \<Rightarrow> ('d message \<Rightarrow> 'd json) \<Rightarrow> 'd history \<Rightarrow> bool" where
  "hist_inv fmt co ca h \<longleftrightarrow>
     config_ok (prune_config h) \<and> list_all message_ok (h_messages h) \<and>
     last_pruned_msg_count h \<le> length (h_messages h) \<and>
     (0 < last_pruned_msg_count h \<longrightarrow>
        h_pruned h = hist_view fmt (prune_config h) (take (last_pruned_msg_count h) (h_messages h))) \<and>
     (\<not> prune_dirty h \<longrightarrow> h_pruned h = hist_view fmt (prune_config h) (h_messages h)) \<and>
     openai_cached_count h \<le> length (h_pruned h) \<and>
     cached_openai_msgs h = map co (take (openai_cached_count h) (h_pruned h)) \<and>
     anthropic_cached_count h \<le> length (h_pruned h) \<and>
     cached_anthropic_msgs h = map ca (filter (\<lambda>m. m_role m \<noteq> System) (take (anthropic_cached_count h) (h_pruned h))) \<and>
     (prune_dirty h \<longrightarrow> openai_cached_count h = 0 \<and> anthropic_cached_count h = 0 \<and> cached_pruned_tokens h < 0) \<and>
     (0 \<le> cached_original_tokens h \<longrightarrow> cached_original_tokens h = int (estimate_all_tokens fmt (h_messages h))) \<and>
     (0 \<le> cached_pruned_tokens h \<longrightarrow> cached_pruned_tokens h = int (estimate_all_tokens fmt (h_pruned h)))"

lemma estimate_all_append: "estimate_all_tokens fmt (ms @ [m]) = estimate_all_tokens fmt ms + estimate_tokens fmt m"
  by (simp add: estimate_all_tokens_def)

lemma hist_view_nil [simp]: "hist_view fmt cfg [] = []"
  by (simp add: hist_view_def prune_def)

lemma hist_inv_new: "config_ok (prune_config (hist_new sid)) \<Longrightarrow> hist_inv fmt co ca (hist_new sid)"
  by (simp add: hist_inv_def hist_new_def)

lemma hist_inv_invalidate_all:
  "config_ok (prune_config h) \<Longrightarrow> list_all message_ok (h_messages h) \<Longrightarrow> hist_inv fmt co ca (invalidate_all_cache h)"
  by (simp add: hist_inv_def invalidate_all_cache_def invalidate_caches_def)

lemma hist_inv_add:
  "hist_inv fmt co ca h \<Longrightarrow> message_ok m \<Longrightarrow> hist_inv fmt co ca (add_message fmt m h)"
  by (simp add: hist_inv_def add_message_def invalidate_caches_def Let_def estimate_all_append)

lemma hist_inv_config:
  "hist_inv fmt co ca h \<Longrightarrow> config_ok cfg \<Longrightarrow> cfg = prune_config h \<or> last_pruned_msg_count h = 0 \<Longrightarrow>
   hist_inv fmt co ca (set_prune_config cfg h)"
  by (auto simp: hist_inv_def set_prune_config_def invalidate_caches_def)

lemma system_loop_ok:
  "list_all message_ok ms \<Longrightarrow> system_loop t found ms = (ms', f, c) \<Longrightarrow> list_all message_ok ms'"
proof (induction t found ms arbitrary: ms' f c rule: system_loop.induct)
  case (2 nxt found m ms)
  then show ?case
    by (auto simp: Let_def message_ok_def text_message_def split: if_splits prod.splits)
qed simp

lemma system_loop_unchanged: "system_loop t found ms = (ms', f, False) \<Longrightarrow> ms' = ms"
proof (induction t found ms arbitrary: ms' f rule: system_loop.induct)
  case (2 nxt found m ms)
  then show ?case by (auto simp: Let_def split: if_splits prod.splits)
qed simp

lemma hist_inv_system:
  assumes "hist_inv fmt co ca h"
  shows "hist_inv fmt co ca (snd (set_system_prompt t h))"
proof -
  obtain ms f c where loop: "system_loop t False (h_messages h) = (ms, f, c)" by (cases "system_loop t False (h_messages h)")
  have ok: "list_all message_ok ms" "config_ok (prune_config h)"
    using system_loop_ok [OF _ loop] assms by (auto simp: hist_inv_def)
  have sys: "message_ok (text_message System t :: 'a message)" by (simp add: message_ok_def text_message_def)
  consider "f \<and> \<not> c" | "f \<and> c" | "\<not> f" by blast
  then show ?thesis
  proof cases
    case 1
    then have "ms = h_messages h" using loop system_loop_unchanged [of t False "h_messages h" ms f] by simp
    then show ?thesis using 1 assms loop by (simp add: set_system_prompt_def)
  qed (use ok sys loop in \<open>auto simp: set_system_prompt_def intro: hist_inv_invalidate_all\<close>)
qed

lemma hist_inv_original_tokens:
  "hist_inv fmt co ca h \<Longrightarrow> hist_inv fmt co ca (snd (original_tokens fmt h))"
  by (simp add: hist_inv_def original_tokens_def Let_def)

lemma pruned_messages_correct:
  assumes "hist_inv fmt co ca h"
  shows "\<exists>h'. pruned_messages fmt h = Some (hist_view fmt (prune_config h) (h_messages h), h') \<and>
    hist_inv fmt co ca h' \<and> \<not> prune_dirty h' \<and> h_pruned h' = hist_view fmt (prune_config h) (h_messages h) \<and>
    h_messages h' = h_messages h \<and> prune_config h' = prune_config h"
proof -
  let ?v = "hist_view fmt (prune_config h) (h_messages h)"
  let ?opts = "prune_opts.truncate (prune_config h)"
  let ?fe = "freeze_end (hard_prune_after ?opts + count_assistants (drop (last_pruned_msg_count h) (h_messages h)))
    (compute_depths (h_messages h)) (last_pruned_msg_count h)"
  consider (clean) "\<not> prune_dirty h" | (off) "prune_dirty h" "\<not> ps_enabled (prune_config h)"
    | (empty) "prune_dirty h" "ps_enabled (prune_config h)" "h_messages h = []"
    | (inc) "prune_dirty h" "ps_enabled (prune_config h)" "h_messages h \<noteq> []"
        "last_pruned_msg_count h > 0 \<and> last_pruned_msg_count h \<le> length (h_messages h) \<and> h_pruned h \<noteq> [] \<and> ?fe > 0"
    | (full) "prune_dirty h" "ps_enabled (prune_config h)" "h_messages h \<noteq> []"
        "\<not> (last_pruned_msg_count h > 0 \<and> last_pruned_msg_count h \<le> length (h_messages h) \<and> h_pruned h \<noteq> [] \<and> ?fe > 0)"
    by blast
  then show ?thesis
  proof cases
    case clean
    then show ?thesis using assms by (auto simp: pruned_messages_def hist_inv_def)
  next
    case off
    then show ?thesis using assms by (auto simp: pruned_messages_def hist_inv_def hist_view_def)
  next
    case empty
    then show ?thesis
      using assms by (auto simp: pruned_messages_def hist_inv_def estimate_all_tokens_def)
  next
    case inc
    have cfg: "protect_recent ?opts \<le> hard_prune_after ?opts"
      using assms by (simp add: hist_inv_def config_ok_def prune_opts.truncate_def)
    have shown: "\<forall>m \<in> set (h_messages h). m_role m = Assistant \<longrightarrow> shown m"
      using assms by (auto simp: hist_inv_def list_all_iff message_ok_def)
    have prev: "last_pruned_msg_count h \<le> length (h_messages h)"
      and old: "h_pruned h = pr_messages (prune fmt (take (last_pruned_msg_count h) (h_messages h)) ?opts)"
      using assms inc by (auto simp: hist_inv_def hist_view_def)
    note step = incremental_step [OF cfg shown prev refl, of fmt, folded old]
    show ?thesis
      using assms inc step
      by (auto simp: pruned_messages_def Let_def hist_inv_def hist_view_def)
  next
    case full
    then show ?thesis
      using assms
      by (auto simp: pruned_messages_def prune_full_def original_tokens_def Let_def hist_inv_def hist_view_def)
  qed
qed

lemma to_openai_correct:
  assumes "hist_inv fmt co ca h"
  shows "\<exists>h'. to_openai_messages fmt co h = Some (JArray (map co (hist_view fmt (prune_config h) (h_messages h))), h') \<and>
    hist_inv fmt co ca h'"
proof -
  obtain h1 where "pruned_messages fmt h = Some (hist_view fmt (prune_config h) (h_messages h), h1)"
    "hist_inv fmt co ca h1" "\<not> prune_dirty h1" "h_pruned h1 = hist_view fmt (prune_config h) (h_messages h)"
    using pruned_messages_correct [OF assms] by blast
  then show ?thesis
    by (auto simp: to_openai_messages_def hist_inv_def map_append [symmetric] simp del: map_append)
qed

lemma to_anthropic_correct:
  assumes "hist_inv fmt co ca h"
  shows "\<exists>h'. to_anthropic_messages fmt ca h =
      Some (JArray (map ca (filter (\<lambda>m. m_role m \<noteq> System) (hist_view fmt (prune_config h) (h_messages h)))), h') \<and>
    hist_inv fmt co ca h'"
proof -
  obtain h1 where "pruned_messages fmt h = Some (hist_view fmt (prune_config h) (h_messages h), h1)"
    "hist_inv fmt co ca h1" "\<not> prune_dirty h1" "h_pruned h1 = hist_view fmt (prune_config h) (h_messages h)"
    using pruned_messages_correct [OF assms] by blast
  then show ?thesis
    by (auto simp: to_anthropic_messages_def hist_inv_def map_append [symmetric] filter_append [symmetric]
        simp del: map_append filter_append)
qed

lemma pruned_tokens_correct:
  assumes "hist_inv fmt co ca h"
  shows "\<exists>h'. pruned_tokens fmt h =
      Some (int (estimate_all_tokens fmt (hist_view fmt (prune_config h) (h_messages h))), h') \<and> hist_inv fmt co ca h'"
proof (cases "cached_pruned_tokens h < 0")
  case True
  obtain h1 where h1: "pruned_messages fmt h = Some (hist_view fmt (prune_config h) (h_messages h), h1)"
    "hist_inv fmt co ca h1" "\<not> prune_dirty h1" "h_pruned h1 = hist_view fmt (prune_config h) (h_messages h)"
    using pruned_messages_correct [OF assms] by blast
  have "hist_inv fmt co ca (h1\<lparr>cached_pruned_tokens := int (estimate_all_tokens fmt (h_pruned h1))\<rparr>)"
    using h1(2,3) by (auto simp: hist_inv_def)
  with True h1 show ?thesis by (simp add: pruned_tokens_def)
next
  case False
  then show ?thesis using assms by (auto simp: pruned_tokens_def hist_inv_def)
qed

datatype 'd hist_op =
    HAdd "'d message"
  | HSystem string
  | HClear
  | HConfig prune_settings
  | HSwap "'d history"
  | HPruned
  | HPrunedTokens
  | HOriginalTokens
  | HOpenai
  | HAnthropic

fun hist_step ::
  "('d \<Rightarrow> string) \<Rightarrow> ('d message \<Rightarrow> 'd json) \<Rightarrow> ('d message \<Rightarrow> 'd json) \<Rightarrow> 'd hist_op \<Rightarrow> 'd history \<Rightarrow> 'd history option" where
  "hist_step fmt co ca (HAdd m) h = Some (add_message fmt m h)"
| "hist_step fmt co ca (HSystem t) h = Some (snd (set_system_prompt t h))"
| "hist_step fmt co ca HClear h = Some (hist_clear h)"
| "hist_step fmt co ca (HConfig cfg) h = Some (set_prune_config cfg h)"
| "hist_step fmt co ca (HSwap other) h = Some (fst (hist_swap h other))"
| "hist_step fmt co ca HPruned h = map_option snd (pruned_messages fmt h)"
| "hist_step fmt co ca HPrunedTokens h = map_option snd (pruned_tokens fmt h)"
| "hist_step fmt co ca HOriginalTokens h = Some (snd (original_tokens fmt h))"
| "hist_step fmt co ca HOpenai h = map_option snd (to_openai_messages fmt co h)"
| "hist_step fmt co ca HAnthropic h = map_option snd (to_anthropic_messages fmt ca h)"

text \<open>What the callers have to respect; the configuration is set before the history is used, as the header asks.\<close>

fun hist_allowed :: "'d hist_op \<Rightarrow> 'd history \<Rightarrow> bool" where
  "hist_allowed (HAdd m) h \<longleftrightarrow> message_ok m"
| "hist_allowed (HConfig cfg) h \<longleftrightarrow> config_ok cfg \<and> (cfg = prune_config h \<or> last_pruned_msg_count h = 0)"
| "hist_allowed (HSwap other) h \<longleftrightarrow> list_all message_ok (h_messages other)"
| "hist_allowed _ h \<longleftrightarrow> True"

inductive hist_reach ::
  "('d \<Rightarrow> string) \<Rightarrow> ('d message \<Rightarrow> 'd json) \<Rightarrow> ('d message \<Rightarrow> 'd json) \<Rightarrow> 'd history \<Rightarrow> bool"
  for fmt co ca where
  new: "hist_reach fmt co ca (hist_new sid)"
| step: "hist_reach fmt co ca h \<Longrightarrow> hist_allowed a h \<Longrightarrow> hist_step fmt co ca a h = Some h' \<Longrightarrow> hist_reach fmt co ca h'"

lemma hist_step_inv:
  assumes "hist_inv fmt co ca h" "hist_allowed a h"
  shows "\<exists>h'. hist_step fmt co ca a h = Some h' \<and> hist_inv fmt co ca h'"
proof (cases a)
  case (HSwap other)
  then show ?thesis
    using assms by (auto simp: hist_swap_def hist_inv_def intro!: hist_inv_invalidate_all [unfolded hist_inv_def])
next
  case (HConfig cfg)
  then show ?thesis using assms hist_inv_config [of fmt co ca h cfg] by simp
next
  case HClear
  then show ?thesis
    using assms hist_inv_invalidate_all [of "h\<lparr>h_messages := []\<rparr>"] by (auto simp: hist_clear_def hist_inv_def)
next
  case HPruned
  then show ?thesis using pruned_messages_correct [OF assms(1)] by auto
next
  case HPrunedTokens
  then show ?thesis using pruned_tokens_correct [OF assms(1)] by auto
next
  case HOpenai
  then show ?thesis using to_openai_correct [OF assms(1)] by auto
next
  case HAnthropic
  then show ?thesis using to_anthropic_correct [OF assms(1)] by auto
qed (use assms hist_inv_add hist_inv_system hist_inv_config hist_inv_original_tokens in auto)

lemma hist_reach_inv: "hist_reach fmt co ca h \<Longrightarrow> hist_inv fmt co ca h"
proof (induction rule: hist_reach.induct)
  case (new sid)
  show ?case by (rule hist_inv_new) (simp add: hist_new_def prune_settings_new_def config_ok_def)
next
  case (step h a h')
  then show ?case using hist_step_inv [of fmt co ca h a] by auto
qed


text \<open>A short conversation.\<close>

definition talk_history :: "unit history" where
  "talk_history = add_message (\<lambda>d. []) (text_message Assistant ''b'') (add_message (\<lambda>d. []) (text_message User ''a'') (hist_new []))"

lemma text_message_ok: "message_ok (text_message r t)"
  by (simp add: message_ok_def shown_def text_message_def)


subsection \<open>Where the incremental pruning goes wrong\<close>

text \<open>
  The preconditions are needed. An assistant message with nothing but thoughts disappears when it is
  stripped, but the code that finds the end of the frozen part in the cached list counts only the tool messages as removed.
\<close>

definition lean :: prune_settings where
  "lean = prune_settings_new\<lparr>protect_recent := 0, hard_prune_after := 1\<rparr>"

definition thoughts :: "unit message" where
  "thoughts = \<lparr>m_role = Assistant, m_content = [Text ''hm'' True]\<rparr>"

definition thoughtful_history :: "unit history" where
  "thoughtful_history =
     foldl (\<lambda>h m. add_message (\<lambda>d. []) m h) (set_prune_config lean (hist_new []))
       [thoughts, text_message User ''a'', text_message Assistant ''b'', text_message User ''c'',
        text_message Assistant ''d'']"

definition view_texts :: "unit history \<Rightarrow> string list option" where
  "view_texts h = map_option (\<lambda>(ms, h'). map get_all_text ms) (pruned_messages (\<lambda>d. []) h)"

text \<open>\<open>pruned_messages()\<close> and then one more operation.\<close>

definition after_pruning :: "unit hist_op \<Rightarrow> unit history \<Rightarrow> unit history" where
  "after_pruning a h =
     (case Option.bind (hist_step (\<lambda>d. []) (\<lambda>m. JNull) (\<lambda>m. JNull) HPruned h) (hist_step (\<lambda>d. []) (\<lambda>m. JNull) (\<lambda>m. JNull) a) of
        Some h' \<Rightarrow> h' | None \<Rightarrow> h)"

text \<open>
  With an assistant message that holds only thoughts, the incremental pruning sends a message twice: after five
  messages were pruned and a sixth was added, the list has the fourth answer two times, where pruning from
  scratch has it once.
\<close>

theorem incremental_prune_duplicates:
  "view_texts (after_pruning (HAdd (text_message User ''e'')) thoughtful_history) =
     Some [''a'', ''b'', ''c'', ''d'', ''d'', ''e''] \<and>
   map get_all_text (hist_view (\<lambda>d. []) lean
     (h_messages (after_pruning (HAdd (text_message User ''e'')) thoughtful_history))) =
     [''a'', ''b'', ''c'', ''d'', ''e'']"
  by code_simp

text \<open>
  Switching pruning on after the list was used without it: \<open>set_prune_config\<close> leaves the count of pruned messages, so that the
  unpruned list is taken for the pruned one.
\<close>

definition unpruned_history :: "unit history" where
  "unpruned_history =
     foldl (\<lambda>h m. add_message (\<lambda>d. []) m h) (set_prune_config (lean\<lparr>ps_enabled := False\<rparr>) (hist_new []))
       [\<lparr>m_role = Assistant, m_content = [Text ''a'' False, ToolUse \<lparr>tc_id = ''1'', tc_name = ''t'', tc_arguments = JNull\<rparr>]\<rparr>,
        tool_result_message \<lparr>tr_id = ''1'', tr_name = [], tr_output = ''r'', tr_success = True\<rparr>,
        text_message User ''b'', text_message Assistant ''c'', text_message User ''d'', text_message Assistant ''e'']"

text \<open>The next list then lacks the user's last message and keeps a tool call that pruning from scratch would have removed.\<close>

lemma config_change_loses_message:
  "view_texts (after_pruning (HConfig lean) unpruned_history) = Some [''a'', [], ''b'', ''c'', ''e'']"
  "map get_all_text (hist_view (\<lambda>d. []) lean (h_messages (after_pruning (HConfig lean) unpruned_history))) =
     [''a'', ''b'', ''c'', ''d'', ''e'']"
  by code_simp+

text \<open>
  The settings that the recovery from a context overflow (\<open>Session::force_compact\<close>, level L3) leaves behind: nothing beyond the limit
  is kept, but three turns are protected.
\<close>

definition level3 :: prune_settings where
  "level3 = prune_settings_new\<lparr>hard_prune_after := 0, max_tool_result_chars := 400, soft_prune_lines := 3\<rparr>"

definition recovered_history :: "unit history" where
  "recovered_history =
     foldl (\<lambda>h m. add_message (\<lambda>d. []) m h) (invalidate_all_cache (set_prune_config level3 (hist_new [])))
       [text_message User ''a'',
        \<lparr>m_role = Assistant, m_content = [Text ''b'' False, ToolUse \<lparr>tc_id = ''1'', tc_name = ''t'', tc_arguments = JNull\<rparr>]\<rparr>,
        tool_result_message \<lparr>tr_id = ''1'', tr_name = [], tr_output = ''r'', tr_success = True\<rparr>,
        text_message Assistant ''c'', text_message User ''d'']"

text \<open>
  After the recovery from a context overflow the conversation loses messages: with the settings of level L3 the protected turns are
  larger than the limit for stripping, the code takes protected tool results for stripped ones, and when the model's
  next answer is added the list that is sent lacks the user's message before it.
\<close>

theorem recovery_level_loses_message:
  "view_texts (after_pruning (HAdd (text_message Assistant ''e'')) recovered_history) =
     Some [''a'', ''b'', [], ''c'', ''e''] \<and>
   map get_all_text (hist_view (\<lambda>d. []) level3
     (h_messages (after_pruning (HAdd (text_message Assistant ''e'')) recovered_history))) =
     [''a'', ''b'', [], ''c'', ''d'', ''e'']"
  by code_simp

end
