(* ===== verification/Compactor.thy ===== *)
theory Compactor
  imports History SsoString
begin

text \<open>
  The compactor (\<open>memory/compactor.cpp\<close>) and the recovery from a context overflow that drives it (\<open>Session::force_compact\<close> in
  \<open>workspace/session.cpp\<close>). Compaction replaces old rounds of a conversation by summaries that the language model writes and
  keeps the recent rounds. The limits that the code computes with doubles are given as integers. The model is the
  parameter \<open>chat\<close>, a function of the number of earlier requests and the prompt, with \<open>None\<close> for an exception; the
  fixed instruction at the head of the prompt is \<open>instr\<close>. The cache of summaries is only written, to a file, and is left out.
\<close>

record compact_config =
  hard_threshold :: int
  soft_threshold :: int
  keep_budget :: int
  keep_recent :: nat

definition should_compact :: "compact_config \<Rightarrow> int \<Rightarrow> int \<Rightarrow> bool" where
  "should_compact cfg last_round_count prompt_tokens \<longleftrightarrow>
     (if prompt_tokens > hard_threshold cfg then True
      else if prompt_tokens > soft_threshold cfg \<and> last_round_count > 0 then True
      else False)"

definition should_compact_local :: "('d \<Rightarrow> string) \<Rightarrow> compact_config \<Rightarrow> int \<Rightarrow> 'd history \<Rightarrow> (bool \<times> 'd history) option" where
  "should_compact_local fmt cfg last_round_count h =
     map_option (\<lambda>(tokens, h'). (should_compact cfg last_round_count tokens, h')) (pruned_tokens fmt h)"

subsection \<open>Rounds\<close>

record 'd round =
  user_msg :: "'d message"
  execution :: "'d message list"

text \<open>\<open>current\<close> points to the last round, if there is one.\<close>

fun add_execution :: "'d round list \<Rightarrow> 'd message \<Rightarrow> 'd round list" where
  "add_execution [] m = []"
| "add_execution [r] m = [r\<lparr>execution := execution r @ [m]\<rparr>]"
| "add_execution (r # r' # rs) m = r # add_execution (r' # rs) m"

fun split_step :: "'d round list \<Rightarrow> 'd message \<Rightarrow> 'd round list" where
  "split_step rounds m =
     (if m_role m = System then rounds
      else if m_role m = User then rounds @ [\<lparr>user_msg = m, execution = []\<rparr>]
      else add_execution rounds m)"

definition split_rounds :: "'d history \<Rightarrow> 'd round list" where
  "split_rounds h = foldl split_step [] (h_messages h)"

text \<open>\<open>ContextBuilder::estimate_text_tokens\<close>: characters, and groups of four other bytes, rounded up.\<close>

definition context_tokens :: "string \<Rightarrow> nat" where
  "context_tokens text = (let (chars, ascii) = count_chars text in chars + ascii div 4 + (if ascii mod 4 > 0 then 1 else 0))"

definition round_tokens :: "'d round \<Rightarrow> nat" where
  "round_tokens r = foldl (\<lambda>n m. n + context_tokens (get_all_text m)) (context_tokens (get_all_text (user_msg r))) (execution r)"

text \<open>The loop over the rounds, the last first.\<close>

fun keep_loop :: "compact_config \<Rightarrow> int \<Rightarrow> nat \<Rightarrow> 'd round list \<Rightarrow> nat" where
  "keep_loop cfg used keep [] = keep"
| "keep_loop cfg used keep (r # rs) =
     (if used + int (round_tokens r) > keep_budget cfg then keep
      else if keep + 1 \<ge> keep_recent cfg then keep + 1
      else keep_loop cfg (used + int (round_tokens r)) (keep + 1) rs)"

definition determine_keep_rounds :: "compact_config \<Rightarrow> 'd round list \<Rightarrow> nat" where
  "determine_keep_rounds cfg rounds = max (keep_loop cfg 0 0 (rev rounds)) 1"

subsection \<open>Summaries\<close>

definition line :: "string \<Rightarrow> string \<Rightarrow> string" where
  "line label text = label @ text @ [CHR 0x0A]"

definition dots :: "nat \<Rightarrow> string \<Rightarrow> string" where
  "dots n text = (if length text > n then take n text @ ''...'' else text)"

fun execution_text :: "'d message list \<Rightarrow> string" where
  "execution_text [] = []"
| "execution_text (m # ms) =
     (if m_role m = Assistant then line ''Assistant: '' (get_all_text m)
      else if m_role m = Tool then line ''Tool: '' (dots 200 (get_all_text m))
      else []) @ execution_text ms"

definition round_text :: "'d round \<Rightarrow> string" where
  "round_text r = line ''User: '' (get_all_text (user_msg r)) @ execution_text (execution r)"

text \<open>
  The first loop: short rounds are their own summary, the others become candidates. The map from \<open>int\<close> to
  summaries is a function.
\<close>

type_synonym summaries = "nat \<rightharpoonup> string"

fun collect :: "nat \<Rightarrow> 'd round list \<Rightarrow> summaries \<times> (nat \<times> string) list \<Rightarrow> summaries \<times> (nat \<times> string) list" where
  "collect i [] (sums, cands) = (sums, cands)"
| "collect i (r # rs) (sums, cands) =
     (let text = round_text r in
      if length text < 100 then collect (i + 1) rs (sums(i \<mapsto> c_str text), cands)
      else collect (i + 1) rs (sums, cands @ [(i, dots 4000 text)]))"

definition open_tag :: "nat \<Rightarrow> string" where
  "open_tag j = ''<round_'' @ decimal j @ ''>''"

definition close_tag :: "nat \<Rightarrow> string" where
  "close_tag j = ''</round_'' @ decimal j @ ''>''"

fun prompt_rounds :: "nat \<Rightarrow> string list \<Rightarrow> string" where
  "prompt_rounds j [] = []"
| "prompt_rounds j (t # ts) =
     open_tag j @ [CHR 0x0A] @ take 4000 t @ [CHR 0x0A] @ close_tag j @ [CHR 0x0A, CHR 0x0A] @ prompt_rounds (j + 1) ts"

definition trim_summary :: "string \<Rightarrow> string" where
  "trim_summary s =
     (let sp = (\<lambda>c. c = CHR 0x0A \<or> c = CHR '' '') in rev (dropWhile sp (rev (dropWhile sp s))))"

text \<open>The part of the reply for the \<open>j\<close>-th round of the batch, or the beginning of the round's own text.\<close>

definition extract_summary :: "string \<Rightarrow> nat \<Rightarrow> string \<Rightarrow> string" where
  "extract_summary response j text =
     (case search (open_tag j) response of
        None \<Rightarrow> c_str (take 500 text)
      | Some p \<Rightarrow>
          let rest = drop (p + length (open_tag j)) response
          in c_str (trim_summary (case search (close_tag j) rest of Some q \<Rightarrow> take q rest | None \<Rightarrow> take 200 rest)))"

text \<open>
  \<open>flush_batch\<close>: the summary of the batch's \<open>j\<close>-th candidate is filed under \<open>batch_indices[j]\<close>, the position of the candidate in the list of
  candidates.
\<close>

fun store_replies :: "string \<Rightarrow> nat \<Rightarrow> (nat \<times> string) list \<Rightarrow> nat list \<Rightarrow> summaries \<Rightarrow> summaries" where
  "store_replies response j cands [] sums = sums"
| "store_replies response j cands (b # bs) sums =
     store_replies response (j + 1) cands bs (sums(b \<mapsto> extract_summary response j (snd (cands ! b))))"

fun store_fallbacks :: "(nat \<times> string) list \<Rightarrow> nat list \<Rightarrow> summaries \<Rightarrow> summaries" where
  "store_fallbacks cands [] sums = sums"
| "store_fallbacks cands (b # bs) sums =
     store_fallbacks cands bs (sums(b \<mapsto> c_str (take 500 (snd (cands ! b)))))"

definition flush_batch ::
  "string \<Rightarrow> (nat \<Rightarrow> string \<Rightarrow> string option) \<Rightarrow> (nat \<times> string) list \<Rightarrow> nat list \<Rightarrow> nat \<times> summaries \<Rightarrow> nat \<times> summaries" where
  "flush_batch instr chat cands batch st =
     (let (calls, sums) = st in
      if batch = [] then (calls, sums)
      else case chat calls (instr @ prompt_rounds 0 (map (\<lambda>b. snd (cands ! b)) batch)) of
             Some response \<Rightarrow> (calls + 1, store_replies response 0 cands batch sums)
           | None \<Rightarrow> (calls + 1, store_fallbacks cands batch sums))"

text \<open>The second loop: \<open>filled\<close> is the length of \<open>batch_text\<close>, which is empty exactly when the batch is.\<close>

fun batch_loop ::
  "string \<Rightarrow> (nat \<Rightarrow> string \<Rightarrow> string option) \<Rightarrow> (nat \<times> string) list \<Rightarrow> nat list \<Rightarrow> nat \<Rightarrow> nat list \<Rightarrow>
   nat \<times> summaries \<Rightarrow> nat \<times> summaries" where
  "batch_loop instr chat cands [] filled batch st = flush_batch instr chat cands batch st"
| "batch_loop instr chat cands (i # js) filled batch st =
     (let len = length (snd (cands ! i)) in
      if filled + len > 12000
      then batch_loop instr chat cands js (len + 2) [i] (flush_batch instr chat cands batch st)
      else batch_loop instr chat cands js (filled + len + 2) (batch @ [i]) st)"

definition batch_summarize ::
  "string \<Rightarrow> (nat \<Rightarrow> string \<Rightarrow> string option) \<Rightarrow> nat \<Rightarrow> 'd round list \<Rightarrow> nat \<times> summaries" where
  "batch_summarize instr chat calls old_rounds =
     (let (sums, cands) = collect 0 old_rounds (Map.empty, [])
      in if cands = [] then (calls, sums)
         else batch_loop instr chat cands [0..<length cands] 0 [] (calls, sums))"

subsection \<open>Compaction\<close>

definition user_digest :: "'d round \<Rightarrow> string" where
  "user_digest r =
     (let text = get_all_text (user_msg r)
      in c_str (if length text > 100 then utf8_truncate text 100 @ ''...'' else text))"

fun summary_messages :: "summaries \<Rightarrow> nat \<Rightarrow> 'd round list \<Rightarrow> 'd message list" where
  "summary_messages sums i [] = []"
| "summary_messages sums i (r # rs) =
     (case sums i of
        Some s \<Rightarrow> [text_message User (user_digest r), text_message Assistant s]
      | None \<Rightarrow> []) @ summary_messages sums (i + 1) rs"

definition round_messages :: "'d round \<Rightarrow> 'd message list" where
  "round_messages r = user_msg r # execution r"

definition first_system :: "'d message list \<Rightarrow> 'd message list" where
  "first_system ms = (case find (\<lambda>m. m_role m = System) ms of Some m \<Rightarrow> [m] | None \<Rightarrow> [])"

definition compact ::
  "('d \<Rightarrow> string) \<Rightarrow> string \<Rightarrow> (nat \<Rightarrow> string \<Rightarrow> string option) \<Rightarrow> compact_config \<Rightarrow> nat \<Rightarrow> nat \<Rightarrow> 'd history \<Rightarrow>
   nat \<times> 'd history" where
  "compact fmt instr chat cfg keep_recent_override calls h =
     (let rounds = split_rounds h in
      if length rounds \<le> 1 then (calls, h)
      else
        let keep = (if keep_recent_override > 0 then min keep_recent_override (length rounds)
                    else determine_keep_rounds cfg rounds);
            old_rounds = take (length rounds - keep) rounds;
            recent_rounds = drop (length rounds - keep) rounds
        in if old_rounds = [] then (calls, h)
           else let (calls, sums) = batch_summarize instr chat calls old_rounds;
                    new_messages = first_system (h_messages h) @ summary_messages sums 0 old_rounds @
                      concat (map round_messages recent_rounds);
                    new_history = foldl (\<lambda>h m. add_message fmt m h) (hist_new []) new_messages
                in (calls, fst (hist_swap h new_history)))"

subsection \<open>Recovery from a context overflow\<close>

record recovery_level =
  lv_hard_prune_after :: int
  lv_max_tool_result_chars :: nat
  lv_soft_prune_lines :: nat
  lv_keep_recent :: nat

definition recovery_levels :: "recovery_level list" where
  "recovery_levels = map (\<lambda>(a, b, c, d). \<lparr>lv_hard_prune_after = a, lv_max_tool_result_chars = b,
       lv_soft_prune_lines = c, lv_keep_recent = d\<rparr>)
     [(10, 2000, 5, 0), (5, 1000, 4, 0), (3, 600, 3, 0), (0, 400, 3, 3), (0, 200, 2, 1)]"

definition level_config :: "recovery_level \<Rightarrow> prune_settings \<Rightarrow> prune_settings" where
  "level_config lvl cfg = cfg\<lparr>hard_prune_after := lv_hard_prune_after lvl,
     max_tool_result_chars := lv_max_tool_result_chars lvl, soft_prune_lines := lv_soft_prune_lines lvl\<rparr>"

definition level_keep :: "compact_config \<Rightarrow> nat \<Rightarrow> recovery_level \<Rightarrow> nat" where
  "level_keep cfg i lvl =
     (if lv_keep_recent lvl = 0 \<and> i = 1 then max (keep_recent cfg div 2) 3 else lv_keep_recent lvl)"

text \<open>
  The loop over the levels: whether it succeeded, the number of compactions and the history; \<open>None\<close> is a read outside the cached list.
\<close>

fun force_loop ::
  "('d \<Rightarrow> string) \<Rightarrow> string \<Rightarrow> (nat \<Rightarrow> string \<Rightarrow> string option) \<Rightarrow> compact_config \<Rightarrow> int \<Rightarrow> nat \<Rightarrow> nat \<Rightarrow>
   recovery_level list \<Rightarrow> nat \<Rightarrow> nat \<Rightarrow> 'd history \<Rightarrow> (bool \<times> nat \<times> 'd history) option" where
  "force_loop fmt instr chat cfg safe max_calls i [] compactions calls h = Some (False, compactions, h)"
| "force_loop fmt instr chat cfg safe max_calls i (lvl # lvls) compactions calls h =
     Option.bind (pruned_tokens fmt (invalidate_all_cache (set_prune_config (level_config lvl (prune_config h)) h)))
       (\<lambda>(estimated, h1).
         if estimated < safe then Some (True, compactions, h1)
         else if compactions \<ge> max_calls
         then force_loop fmt instr chat cfg safe max_calls (i + 1) lvls compactions calls h1
         else let (calls, h2) = compact fmt instr chat cfg (level_keep cfg i lvl) calls h1 in
           Option.bind (pruned_tokens fmt (invalidate_all_cache h2)) (\<lambda>(estimated, h3).
             if estimated < safe then Some (True, compactions + 1, h3)
             else force_loop fmt instr chat cfg safe max_calls (i + 1) lvls (compactions + 1) calls h3))"

definition force_compact ::
  "('d \<Rightarrow> string) \<Rightarrow> string \<Rightarrow> (nat \<Rightarrow> string \<Rightarrow> string option) \<Rightarrow> compact_config \<Rightarrow> int \<Rightarrow> nat \<Rightarrow> 'd history \<Rightarrow>
   (bool \<times> nat \<times> 'd history) option" where
  "force_compact fmt instr chat cfg safe max_compact_calls h =
     force_loop fmt instr chat cfg safe max_compact_calls 0 recovery_levels 0 0 h"

subsection \<open>Which rounds get a summary\<close>

definition short :: "'d round \<Rightarrow> bool" where
  "short r \<longleftrightarrow> length (round_text r) < 100"

lemma dom_if_Some: "dom (\<lambda>a. if a = i then Some v else f a) = insert i (dom f)"
  by (auto simp: dom_def)

lemma collect_result:
  "collect i rs (sums, cands) = (sums', cands') \<Longrightarrow>
   dom sums' = dom sums \<union> {x. \<exists>k<length rs. x = i + k \<and> short (rs ! k)} \<and>
   length cands' = length cands + length (filter (\<lambda>r. \<not> short r) rs)"
proof (induction rs arbitrary: i sums cands)
  case (Cons r rs)
  have split: "{x. \<exists>k<length (r # rs). x = i + k \<and> short ((r # rs) ! k)} =
      (if short r then {i} else {}) \<union> {x. \<exists>k<length rs. x = i + 1 + k \<and> short (rs ! k)}"
    by (simp add: Ex_less_Suc2) auto
  show ?case
  proof (cases "short r")
    case True
    then have "collect (i + 1) rs (sums(i \<mapsto> c_str (round_text r)), cands) = (sums', cands')"
      using Cons.prems by (simp add: short_def)
    from Cons.IH [OF this] True show ?thesis unfolding split by (simp add: dom_if_Some)
  next
    case False
    then have "collect (i + 1) rs (sums, cands @ [(i, dots 4000 (round_text r))]) = (sums', cands')"
      using Cons.prems by (simp add: short_def)
    from Cons.IH [OF this] False show ?thesis unfolding split by auto
  qed
qed simp

lemma dom_store_replies: "dom (store_replies response j cands bs sums) = dom sums \<union> set bs"
  by (induction bs arbitrary: j sums) simp_all

lemma dom_store_fallbacks: "dom (store_fallbacks cands bs sums) = dom sums \<union> set bs"
  by (induction bs arbitrary: sums) simp_all

lemma dom_flush_batch: "dom (snd (flush_batch instr chat cands bs st)) = dom (snd st) \<union> set bs"
  by (simp add: flush_batch_def split_beta dom_store_replies dom_store_fallbacks split: option.split)

lemma dom_batch_loop:
  "dom (snd (batch_loop instr chat cands js filled batch st)) = dom (snd st) \<union> set batch \<union> set js"
  by (induction instr chat cands js filled batch st rule: batch_loop.induct) (auto simp: dom_flush_batch Let_def)

lemma summaries_dom:
  "dom (snd (batch_summarize instr chat calls rs)) =
   {k. k < length rs \<and> short (rs ! k)} \<union> {0..<length (filter (\<lambda>r. \<not> short r) rs)}"
proof -
  obtain sums cands where c: "collect 0 rs (Map.empty, []) = (sums, cands)"
    by (cases "collect 0 rs (Map.empty, [])")
  have "dom sums = {k. k < length rs \<and> short (rs ! k)}" "length cands = length (filter (\<lambda>r. \<not> short r) rs)"
    using collect_result [OF c] by simp_all
  moreover from this(2) have "cands = [] \<longleftrightarrow> length (filter (\<lambda>r. \<not> short r) rs) = 0" by auto
  ultimately show ?thesis
    by (auto simp: batch_summarize_def c dom_batch_loop)
qed

text \<open>
  Which old rounds survive as a summary: the short ones, and as many of the first rounds as there are long
  ones. All rounds do if all are long or all are short; but if any round is short, a long round at the end gets
  none, because the summaries are filed under the positions of the candidates and not of the rounds.
\<close>

theorem summarized_rounds:
  assumes "i < length rs"
  shows "snd (batch_summarize instr chat calls rs) i \<noteq> None \<longleftrightarrow>
    short (rs ! i) \<or> i < length (filter (\<lambda>r. \<not> short r) rs)"
  using summaries_dom [of instr chat calls rs] assms by (auto simp: dom_def set_eq_iff)

definition talk_round :: "string \<Rightarrow> unit round" where
  "talk_round t = \<lparr>user_msg = text_message User t, execution = []\<rparr>"

lemma talk_round_text: "round_text (talk_round t) = ''User: '' @ t @ [CHR 0x0A]"
  by (simp add: talk_round_def round_text_def line_def get_all_text_def text_message_def)

theorem summarized_rounds_witness:
  "snd (batch_summarize [] (\<lambda>n p. None) 0 [talk_round ''hi'', talk_round (replicate 100 (CHR ''x''))]) 1 = None \<and>
   snd (batch_summarize [] (\<lambda>n p. None) 0 [talk_round ''hi'', talk_round (replicate 100 (CHR ''x''))]) 0 \<noteq> None"
proof -
  let ?rs = "[talk_round ''hi'', talk_round (replicate 100 (CHR ''x''))]"
  have "short (talk_round ''hi'')" "\<not> short (talk_round (replicate 100 (CHR ''x'')))"
    by (simp_all add: short_def talk_round_text)
  then show ?thesis
    using summarized_rounds [of 1 ?rs "[]" "\<lambda>n p. None" 0] summarized_rounds [of 0 ?rs "[]" "\<lambda>n p. None" 0] by simp
qed

subsection \<open>What compaction keeps\<close>

lemma round_messages_snoc:
  "rounds \<noteq> [] \<Longrightarrow> concat (map round_messages (add_execution rounds m)) = concat (map round_messages rounds) @ [m]"
  by (induction rounds m rule: add_execution.induct) (simp_all add: round_messages_def)

lemma split_rounds_messages:
  "concat (map round_messages (foldl split_step rounds ms)) =
   concat (map round_messages rounds) @
   (let rest = filter (\<lambda>m. m_role m \<noteq> System) ms
    in if rounds = [] then dropWhile (\<lambda>m. m_role m \<noteq> User) rest else rest)"
proof (induction ms arbitrary: rounds)
  case (Cons m ms)
  have ne: "add_execution rounds m \<noteq> []" if "rounds \<noteq> []"
    using that by (induction rounds m rule: add_execution.induct) simp_all
  show ?case
  proof (cases "m_role m = System \<or> m_role m = User")
    case True
    then show ?thesis using Cons by (auto simp: Let_def round_messages_def)
  next
    case False
    then show ?thesis
      using Cons [of "add_execution rounds m"] ne round_messages_snoc [of rounds m]
      by (cases "rounds = []") (simp_all add: Let_def)
  qed
qed simp

lemma foldl_add_message [simp]:
  "h_messages (foldl (\<lambda>h m. add_message fmt m h) h ms) = h_messages h @ ms"
  by (induction ms arbitrary: h) (simp_all add: add_message_def invalidate_caches_def Let_def)

lemma swap_messages [simp]:
  "h_messages (fst (hist_swap h other)) = h_messages other"
  "prune_config (fst (hist_swap h other)) = prune_config h"
  by (simp_all add: hist_swap_def invalidate_all_cache_def invalidate_caches_def)

text \<open>
  C18: compaction keeps the recent part of the conversation: either the history is left as it is, or it becomes the
  first system message, the summaries of the old rounds, and, message for message, the recent rounds, of which
  there is at least one. Old and recent rounds together are all messages from the first user message on,
  apart from system messages.
\<close>

theorem compact_keeps_recent:
  assumes "compact fmt instr chat cfg keep calls h = (calls', h')"
  shows "h' = h \<or>
    (\<exists>old recent. recent \<noteq> [] \<and>
      concat (map round_messages (old @ recent)) =
        dropWhile (\<lambda>m. m_role m \<noteq> User) (filter (\<lambda>m. m_role m \<noteq> System) (h_messages h)) \<and>
      h_messages h' = first_system (h_messages h) @
        summary_messages (snd (batch_summarize instr chat calls old)) 0 old @ concat (map round_messages recent) \<and>
      prune_config h' = prune_config h)"
proof (cases "h' = h")
  case False
  let ?rounds = "split_rounds h"
  define n where "n = length ?rounds - (if keep > 0 then min keep (length ?rounds) else determine_keep_rounds cfg ?rounds)"
  let ?old = "take n ?rounds" and ?recent = "drop n ?rounds"
  have eq: "compact fmt instr chat cfg keep calls h =
      (if length ?rounds \<le> 1 \<or> ?old = [] then (calls, h)
       else (fst (batch_summarize instr chat calls ?old),
             fst (hist_swap h (foldl (\<lambda>h m. add_message fmt m h) (hist_new []) (first_system (h_messages h) @
               summary_messages (snd (batch_summarize instr chat calls ?old)) 0 ?old @ concat (map round_messages ?recent))))))"
    unfolding compact_def Let_def n_def [symmetric] by (simp only: split_beta if_distrib split: if_split) simp
  have len: "\<not> length ?rounds \<le> 1" "?old \<noteq> []"
    using False assms unfolding eq by (auto split: if_splits)
  have k: "0 < (if keep > 0 then min keep (length ?rounds) else determine_keep_rounds cfg ?rounds)"
    using len(1) by (auto simp: determine_keep_rounds_def max_def)
  then have "n < length ?rounds" unfolding n_def using len(1) by linarith
  then have "?recent \<noteq> []" by simp
  moreover have "concat (map round_messages (?old @ ?recent)) =
      dropWhile (\<lambda>m. m_role m \<noteq> User) (filter (\<lambda>m. m_role m \<noteq> System) (h_messages h))"
    using split_rounds_messages [of "[]" "h_messages h"] by (simp add: split_rounds_def Let_def)
  moreover have "h_messages h' = first_system (h_messages h) @
      summary_messages (snd (batch_summarize instr chat calls ?old)) 0 ?old @ concat (map round_messages ?recent)"
    "prune_config h' = prune_config h"
    using assms len unfolding eq by (auto simp: hist_new_def)
  ultimately show ?thesis by blast
qed simp

definition three_rounds :: "unit history" where
  "three_rounds = foldl (\<lambda>h m. add_message (\<lambda>d. []) m h) (hist_new [])
     [text_message System ''s'', text_message User ''a'', text_message Assistant ''b'', text_message User ''c'',
      text_message Assistant ''d'']"

theorem compact_keeps_recent_witness:
  "\<exists>h'. compact (\<lambda>d. []) [] (\<lambda>n p. None) \<lparr>hard_threshold = 10, soft_threshold = 8, keep_budget = 100, keep_recent = 5\<rparr> 1 0
      three_rounds = (0, h') \<and> h' \<noteq> three_rounds \<and> first_system (h_messages three_rounds) = take 1 (h_messages h')"
proof -
  let ?cfg = "\<lparr>hard_threshold = 10, soft_threshold = 8, keep_budget = 100, keep_recent = 5\<rparr>"
  obtain c h' where r: "compact (\<lambda>d. []) [] (\<lambda>n p. None) ?cfg 1 0 three_rounds = (c, h')" by fastforce
  have "fst (compact (\<lambda>d. []) [] (\<lambda>n p. None) ?cfg 1 0 three_rounds) = 0"
    "map get_all_text (h_messages (snd (compact (\<lambda>d. []) [] (\<lambda>n p. None) ?cfg 1 0 three_rounds))) \<noteq>
     map get_all_text (h_messages three_rounds)"
    "length (first_system (h_messages three_rounds)) = 1"
    by code_simp+
  with r have c: "c = 0" and ne: "h' \<noteq> three_rounds" and one: "length (first_system (h_messages three_rounds)) = 1"
    by auto
  from compact_keeps_recent [OF r] ne obtain rest where "h_messages h' = first_system (h_messages three_rounds) @ rest"
    by blast
  with one have "first_system (h_messages three_rounds) = take 1 (h_messages h')" by simp
  with r c ne show ?thesis by blast
qed

text \<open>What a tool printed is no text of its message, so that summaries and the budget of the recent rounds ignore it.\<close>

lemma tool_output_ignored: "get_all_text (tool_result_message r) = []"
  by (simp add: get_all_text_def tool_result_message_def)

subsection \<open>The recovery ends\<close>

lemma fresh_tokens:
  "\<exists>h'. pruned_tokens fmt (invalidate_all_cache h) =
      Some (int (estimate_all_tokens fmt (hist_view fmt (prune_config h) (h_messages h))), h') \<and>
    h_messages h' = h_messages h \<and> prune_config h' = prune_config h"
  by (auto simp: pruned_tokens_def pruned_messages_def prune_full_def original_tokens_def invalidate_all_cache_def
      invalidate_caches_def hist_view_def Let_def prune_def)

lemma force_loop_result:
  "compactions \<le> max_calls \<Longrightarrow>
   \<exists>ok n h'. force_loop fmt instr chat cfg safe max_calls i lvls compactions calls h = Some (ok, n, h') \<and>
     n \<le> max_calls \<and> n \<le> compactions + length lvls \<and>
     (ok \<longrightarrow> int (estimate_all_tokens fmt (hist_view fmt (prune_config h') (h_messages h'))) < safe)"
proof (induction lvls arbitrary: i compactions calls h)
  case (Cons lvl lvls)
  obtain h1 where h1: "pruned_tokens fmt (invalidate_all_cache (set_prune_config (level_config lvl (prune_config h)) h)) =
      Some (int (estimate_all_tokens fmt (hist_view fmt (prune_config h1) (h_messages h1))), h1)"
    using fresh_tokens [of fmt "set_prune_config (level_config lvl (prune_config h)) h"] by auto
  obtain calls2 h2 where h2: "compact fmt instr chat cfg (level_keep cfg i lvl) calls h1 = (calls2, h2)" by fastforce
  obtain h3 where h3: "pruned_tokens fmt (invalidate_all_cache h2) =
      Some (int (estimate_all_tokens fmt (hist_view fmt (prune_config h3) (h_messages h3))), h3)"
    using fresh_tokens [of fmt h2] by auto
  show ?case
    using Cons.IH [of compactions "i + 1" calls h1] Cons.IH [of "compactions + 1" "i + 1" calls2 h3] Cons.prems
    by (auto simp: h1 h2 h3 Let_def not_le)
qed auto

text \<open>
  C35: the recovery from a context overflow ends, after at most five levels and at most the allowed number of
  compactions, without a read outside a cached list whatever the settings are; and if it reports success, the
  conversation that is sent is estimated below the safe limit.
\<close>

theorem force_compact_ends:
  "\<exists>ok n h'. force_compact fmt instr chat cfg safe max_calls h = Some (ok, n, h') \<and> n \<le> max_calls \<and> n \<le> 5 \<and>
     (ok \<longrightarrow> int (estimate_all_tokens fmt (hist_view fmt (prune_config h') (h_messages h'))) < safe)"
proof -
  have "length recovery_levels = 5" by (simp add: recovery_levels_def)
  then show ?thesis
    using force_loop_result [of 0 max_calls fmt instr chat cfg safe 0 recovery_levels 0 h]
    by (simp add: force_compact_def del: force_loop.simps)
qed

theorem force_compact_ends_witness:
  "\<exists>n h'. force_compact (\<lambda>d. []) [] (\<lambda>n p. None)
      \<lparr>hard_threshold = 10, soft_threshold = 8, keep_budget = 100, keep_recent = 5\<rparr> 100 1 three_rounds = Some (True, n, h') \<and>
    int (estimate_all_tokens (\<lambda>d. []) (hist_view (\<lambda>d. []) (prune_config h') (h_messages h'))) < 100"
proof -
  let ?cfg = "\<lparr>hard_threshold = 10, soft_threshold = 8, keep_budget = 100, keep_recent = 5\<rparr>"
  have "map_option fst (force_compact (\<lambda>d. []) [] (\<lambda>n p. None) ?cfg 100 1 three_rounds) = Some True"
    by code_simp
  with force_compact_ends [of "\<lambda>d. []" "[]" "\<lambda>n p. None" ?cfg 100 1 three_rounds] show ?thesis
    by (elim exE conjE) simp
qed

end
