(* ===== verification/Sse.thy ===== *)
theory Sse
  imports BG_Prelude
begin

text \<open>
  Server-sent events (\<open>llm/internal/sse.hpp\<close>): \<open>SseBuffer\<close> receives a response in chunks of any size, keeps the
  unfinished line between them and hands over every event that an empty line completes. The callback is modelled by the list
  of events it is called with. The main result is that the division into chunks is invisible.
\<close>

abbreviation LF :: char where
  "LF \<equiv> CHR 0x0A"

abbreviation CR :: char where
  "CR \<equiv> CHR 0x0D"

record sse_event =
  ev_event :: string
  ev_data :: string

record sse_buffer =
  sse_buf :: string
  current_event :: string
  current_data :: string

definition sse_new :: sse_buffer where
  "sse_new = \<lparr>sse_buf = [], current_event = [], current_data = []\<rparr>"

definition flush_event :: "sse_buffer \<Rightarrow> sse_event list \<times> sse_buffer" where
  "flush_event b =
     (if current_event b \<noteq> [] \<or> current_data b \<noteq> []
      then ([\<lparr>ev_event = current_event b, ev_data = current_data b\<rparr>], b\<lparr>current_event := [], current_data := []\<rparr>)
      else ([], b))"

definition strip_cr :: "string \<Rightarrow> string" where
  "strip_cr line = (if line \<noteq> [] \<and> last line = CR then butlast line else line)"

text \<open>The value of a field whose name has \<open>n\<close> characters, without one leading space.\<close>

definition field_value :: "nat \<Rightarrow> string \<Rightarrow> string" where
  "field_value n line =
     (let value = drop n line in if value \<noteq> [] \<and> hd value = CHR '' '' then tl value else value)"

definition add_data :: "string \<Rightarrow> sse_buffer \<Rightarrow> sse_buffer" where
  "add_data value b =
     b\<lparr>current_data := (if current_data b \<noteq> [] then current_data b @ [LF] else current_data b) @ value\<rparr>"

definition sse_line :: "string \<Rightarrow> sse_buffer \<Rightarrow> sse_event list \<times> sse_buffer" where
  "sse_line raw b =
     (let line = strip_cr raw in
      if line = [] then flush_event b
      else if length line > 6 \<and> take 6 line = ''event:'' then ([], b\<lparr>current_event := field_value 6 line\<rparr>)
      else if length line > 5 \<and> take 5 line = ''data:'' then ([], add_data (field_value 5 line) b)
      else ([], b))"

text \<open>The loop of \<open>feed\<close>: \<open>rest\<close> is the buffer from \<open>pos\<close> on; what is left of it stays in the buffer.\<close>

function feed_loop :: "string \<Rightarrow> sse_buffer \<Rightarrow> sse_event list \<times> sse_buffer" where
  "feed_loop rest b =
     (let nl = length (takeWhile (\<lambda>c. c \<noteq> LF) rest) in
      if nl = length rest then ([], b\<lparr>sse_buf := rest\<rparr>)
      else let (evs, b1) = sse_line (take nl rest) b;
               (evs', b2) = feed_loop (drop (nl + 1) rest) b1
           in (evs @ evs', b2))"
  by pat_completeness auto
termination
proof (relation "measure (\<lambda>(rest, b). length rest)", goal_cases)
  case (2 rest b nl ev1 evs b1)
  then show ?case using length_takeWhile_le [of "\<lambda>c. c \<noteq> LF" rest] by simp
qed simp

declare feed_loop.simps [simp del]

definition feed :: "string \<Rightarrow> sse_buffer \<Rightarrow> sse_event list \<times> sse_buffer" where
  "feed chunk b = feed_loop (sse_buf b @ chunk) b"

definition sse_finish :: "sse_buffer \<Rightarrow> sse_event list \<times> sse_buffer" where
  "sse_finish b =
     (if sse_buf b \<noteq> []
      then let line = strip_cr (sse_buf b);
               b1 = (if line \<noteq> [] \<and> length line > 5 \<and> take 5 line = ''data:''
                     then add_data (field_value 5 line) b else b)
           in flush_event (b1\<lparr>sse_buf := []\<rparr>)
      else flush_event b)"

fun feed_all :: "string list \<Rightarrow> sse_buffer \<Rightarrow> sse_event list \<times> sse_buffer" where
  "feed_all [] b = ([], b)"
| "feed_all (c # cs) b = (let (evs, b1) = feed c b; (evs', b2) = feed_all cs b1 in (evs @ evs', b2))"

subsection \<open>Chunks\<close>

text \<open>The loop never reads the stored buffer.\<close>

lemma sse_line_buf: "sse_line raw (b\<lparr>sse_buf := s\<rparr>) = apsnd (\<lambda>b'. b'\<lparr>sse_buf := s\<rparr>) (sse_line raw b)"
  by (simp add: sse_line_def flush_event_def add_data_def Let_def)

lemma feed_loop_buf: "feed_loop rest (b\<lparr>sse_buf := s\<rparr>) = feed_loop rest b"
proof (induction "length rest" arbitrary: rest b rule: less_induct)
  case less
  obtain evs b1 where l: "sse_line (takeWhile (\<lambda>c. c \<noteq> LF) rest) b = (evs, b1)" by fastforce
  have t: "take (length (takeWhile (\<lambda>c. c \<noteq> LF) rest)) rest = takeWhile (\<lambda>c. c \<noteq> LF) rest"
    by (metis takeWhile_eq_take)
  show ?case
  proof (cases "length (takeWhile (\<lambda>c. c \<noteq> LF) rest) = length rest")
    case False
    then have "length (drop (Suc (length (takeWhile (\<lambda>c. c \<noteq> LF) rest))) rest) < length rest"
      using length_takeWhile_le [of "\<lambda>c. c \<noteq> LF" rest] by simp
    with less [of _ b1] False l t show ?thesis
      by (subst (1 2) feed_loop.simps) (simp add: Let_def sse_line_buf)
  qed (subst (1 2) feed_loop.simps, simp add: Let_def)
qed

text \<open>One line, and a rest without the end of a line.\<close>

lemma feed_loop_line:
  assumes "LF \<notin> set line"
  shows "feed_loop (line @ LF # rest) b =
    (let (evs, b1) = sse_line line b; (evs', b2) = feed_loop rest b1 in (evs @ evs', b2))"
proof -
  have "takeWhile (\<lambda>c. c \<noteq> LF) (line @ LF # rest) = line"
    using assms by (subst takeWhile_append2) auto
  then show ?thesis by (subst feed_loop.simps) (simp add: Let_def)
qed

lemma feed_loop_rest:
  assumes "LF \<notin> set rest"
  shows "feed_loop rest b = ([], b\<lparr>sse_buf := rest\<rparr>)"
proof -
  have "length (takeWhile (\<lambda>c. c \<noteq> LF) rest) = length rest"
    using assms by (subst takeWhile_eq_all_conv [THEN iffD2]) auto
  then show ?thesis by (simp only: feed_loop.simps [of rest b] Let_def if_True refl)
qed

lemma split_LF:
  obtains "LF \<notin> set s" | line rest where "LF \<notin> set line" "s = line @ LF # rest"
  by (metis split_list_first)

lemma feed_loop_append:
  "feed_loop (s @ t) b = (let (evs, b1) = feed_loop s b; (evs', b2) = feed_loop (sse_buf b1 @ t) b1 in (evs @ evs', b2))"
proof (induction "length s" arbitrary: s b rule: less_induct)
  case less
  show ?case
  proof (cases rule: split_LF [of s])
    case 1
    then show ?thesis by (simp add: feed_loop_rest feed_loop_buf split: prod.split)
  next
    case (2 line rest)
    obtain evs b1 where l: "sse_line line b = (evs, b1)" by fastforce
    have "feed_loop (rest @ t) b1 =
        (let (evs, b1) = feed_loop rest b1; (evs', b2) = feed_loop (sse_buf b1 @ t) b1 in (evs @ evs', b2))"
      by (rule less) (simp add: 2)
    then show ?thesis by (simp add: 2 feed_loop_line l split: prod.split)
  qed
qed

lemma feed_append: "feed (s @ t) b = (let (evs, b1) = feed s b; (evs', b2) = feed t b1 in (evs @ evs', b2))"
  using feed_loop_append [of "sse_buf b @ s" t b] by (simp add: feed_def)

lemma feed_nothing: "LF \<notin> set (sse_buf b) \<Longrightarrow> feed [] b = ([], b)"
  by (simp add: feed_def feed_loop_rest)

lemma feed_keeps_rest: "LF \<notin> set (sse_buf (snd (feed_loop s b)))"
proof (induction "length s" arbitrary: s b rule: less_induct)
  case less
  show ?case
  proof (cases rule: split_LF [of s])
    case (2 line rest)
    obtain evs b1 where l: "sse_line line b = (evs, b1)" by fastforce
    from 2 have "LF \<notin> set (sse_buf (snd (feed_loop rest b1)))" by (intro less) simp
    then show ?thesis by (simp add: 2 feed_loop_line l case_prod_beta)
  qed (simp add: feed_loop_rest)
qed

lemma feed_all_concat:
  "LF \<notin> set (sse_buf b) \<Longrightarrow> feed_all chunks b = feed (concat chunks) b"
proof (induction chunks arbitrary: b)
  case (Cons c cs)
  obtain evs b1 where f: "feed c b = (evs, b1)" by fastforce
  then have "LF \<notin> set (sse_buf b1)" using feed_keeps_rest [of "sse_buf b @ c" b] by (simp add: feed_def)
  then show ?case by (simp add: feed_append f Cons.IH)
qed (simp add: feed_nothing)

lemma feed_all_new: "feed_all chunks sse_new = feed (concat chunks) sse_new"
  by (rule feed_all_concat) (simp add: sse_new_def)

subsection \<open>A sender\<close>

text \<open>How a server sends an event with one line of data.\<close>

definition sse_data_event :: "string \<Rightarrow> string" where
  "sse_data_event d = ''data: '' @ d @ [LF, LF]"

lemma feed_data_event:
  assumes "LF \<notin> set d" "d \<noteq> []" "last d \<noteq> CR" "current_event b = []" "current_data b = []" "sse_buf b = []"
  shows "feed (sse_data_event d @ rest) b =
    (let (evs, b') = feed rest b in (\<lparr>ev_event = [], ev_data = d\<rparr> # evs, b'))"
proof -
  have "sse_line (''data: '' @ d) b = ([], b\<lparr>current_data := d\<rparr>)"
    using assms by (simp add: sse_line_def strip_cr_def field_value_def add_data_def Let_def)
  moreover have "sse_line [] (b\<lparr>current_data := d\<rparr>) = ([\<lparr>ev_event = [], ev_data = d\<rparr>], b)"
    using assms by (simp add: sse_line_def strip_cr_def flush_event_def)
  moreover have "LF \<notin> set (''data: '' @ d)" using assms(1) by simp
  ultimately show ?thesis
    using feed_loop_line [of "''data: '' @ d" "LF # rest" b] feed_loop_line [of "[]" rest "b\<lparr>current_data := d\<rparr>"]
    by (simp add: feed_def sse_data_event_def assms split: prod.split)
qed

end
