(* ===== verification/StreamParser.thy ===== *)
theory StreamParser
  imports Sse JsonAccess JsonRoundtrip "HOL-Library.Sublist"
begin

text \<open>
  The streaming parsers of the language-model clients (\<open>llm/internal/openai_parser.hpp\<close>, \<open>llm/internal/anthropic_parser.hpp\<close>, with
  \<open>llm/stream.hpp\<close>, \<open>llm/usage.hpp\<close> and \<open>llm/usage_helpers.hpp\<close>) and the loops of \<open>llm/openai_client.hpp\<close> and \<open>llm/anthropic_client.hpp\<close> that feed them. The callbacks are a log of calls;
  which of them the caller has set is a record of flags. An exception of a JSON accessor and the overflow of a sum of token
  counts are faults. Cancellation is left out.
\<close>

record token_usage =
  prompt_tokens :: int
  completion_tokens :: int
  total_tokens :: int
  cached_tokens :: int

definition usage_new :: token_usage where
  "usage_new = \<lparr>prompt_tokens = 0, completion_tokens = 0, total_tokens = 0, cached_tokens = 0\<rparr>"

definition usage_empty :: "token_usage \<Rightarrow> bool" where
  "usage_empty u \<longleftrightarrow> total_tokens u = 0 \<and> completion_tokens u = 0"

record tool_delta =
  td_index :: int
  td_id :: string
  td_name :: string
  td_arguments :: string

definition delta_new :: tool_delta where
  "delta_new = \<lparr>td_index = 0, td_id = [], td_name = [], td_arguments = []\<rparr>"

datatype stream_call = TokenCall string | ThinkingCall string | ToolDeltaCall tool_delta | StopCall string

datatype stop_reason = NotStopped | StopDone | FinishStop | FinishTools | StopError

record stream_handlers =
  on_token :: bool
  on_thinking :: bool
  on_tool_call :: bool
  on_stop :: bool

record stream_parser =
  sp_sse :: sse_buffer
  sp_stop :: stop_reason
  sp_usage :: token_usage
  sp_calls :: "stream_call list"

datatype stream_fault = NumberRange | UsageOverflow

definition parser_new :: stream_parser where
  "parser_new = \<lparr>sp_sse = sse_new, sp_stop = NotStopped, sp_usage = usage_new, sp_calls = []\<rparr>"

definition stopped :: "stream_parser \<Rightarrow> bool" where
  "stopped p \<longleftrightarrow> sp_stop p \<noteq> NotStopped"

definition emit :: "bool \<Rightarrow> stream_call \<Rightarrow> stream_parser \<Rightarrow> stream_parser" where
  "emit is_set c p = (if is_set then p\<lparr>sp_calls := sp_calls p @ [c]\<rparr> else p)"

text \<open>\<open>parse_json(text, error)\<close> where the caller gives up on an error.\<close>

definition parse_json :: "(string \<Rightarrow> 'd option) \<Rightarrow> string \<Rightarrow> 'd json option" where
  "parse_json strtod s = (case parse strtod s of Some (v, None) \<Rightarrow> Some v | _ \<Rightarrow> None)"

definition member :: "'d json \<Rightarrow> string \<Rightarrow> bool" where
  "member v k \<longleftrightarrow> json_contains v k \<and> json_get v k \<noteq> JNull"

subsection \<open>Token usage\<close>

definition extract_openai_usage :: "('d \<Rightarrow> int option) \<Rightarrow> 'd json \<Rightarrow> token_usage" where
  "extract_openai_usage d2i response =
     (if \<not> json_contains response ''usage'' \<or> \<not> is_object (json_get response ''usage'') then usage_new
      else let u = json_get response ''usage'';
               usage = usage_new\<lparr>prompt_tokens := value_int d2i u ''prompt_tokens'' 0,
                 completion_tokens := value_int d2i u ''completion_tokens'' 0,
                 total_tokens := value_int d2i u ''total_tokens'' 0\<rparr>
           in if json_contains u ''prompt_tokens_details'' \<and> is_object (json_get u ''prompt_tokens_details'')
              then usage\<lparr>cached_tokens := value_int d2i (json_get u ''prompt_tokens_details'') ''cached_tokens'' 0\<rparr>
              else usage)"

definition add_tokens :: "int \<Rightarrow> int \<Rightarrow> stream_fault + int" where
  "add_tokens a b = (if in_int (a + b) then Inr (a + b) else Inl UsageOverflow)"

definition extract_anthropic_usage :: "('d \<Rightarrow> int option) \<Rightarrow> 'd json \<Rightarrow> stream_fault + token_usage" where
  "extract_anthropic_usage d2i response =
     (if \<not> json_contains response ''usage'' \<or> \<not> is_object (json_get response ''usage'') then Inr usage_new
      else let u = json_get response ''usage'';
               prompt = value_int d2i u ''input_tokens'' 0;
               completion = value_int d2i u ''output_tokens'' 0
           in bind_sum (add_tokens prompt completion) (\<lambda>total.
                Inr \<lparr>prompt_tokens = prompt, completion_tokens = completion, total_tokens = total,
                     cached_tokens = value_int d2i u ''cache_read_input_tokens'' 0\<rparr>))"

subsection \<open>OpenAI events\<close>

definition openai_finish :: "stream_handlers \<Rightarrow> 'd json \<Rightarrow> stream_parser \<Rightarrow> stream_parser" where
  "openai_finish h choice p =
     (case json_find choice ''finish_reason'' of
        Some (JString reason) \<Rightarrow>
          if reason = ''tool_calls'' then (emit (on_stop h) (StopCall reason) p)\<lparr>sp_stop := FinishTools\<rparr>
          else if reason = ''stop'' then (emit (on_stop h) (StopCall reason) p)\<lparr>sp_stop := FinishStop\<rparr>
          else p
      | _ \<Rightarrow> p)"

definition string_member :: "'d json \<Rightarrow> string \<Rightarrow> string \<Rightarrow> string" where
  "string_member v k default_val = (case json_find v k of Some (JString s) \<Rightarrow> s | _ \<Rightarrow> default_val)"

definition openai_delta :: "('d \<Rightarrow> int option) \<Rightarrow> 'd json \<Rightarrow> tool_delta" where
  "openai_delta d2i tc =
     (let d = delta_new\<lparr>td_index := value_int d2i tc ''index'' 0, td_id := string_member tc ''id'' []\<rparr>
      in if json_contains tc ''function'' \<and> is_object (json_get tc ''function'')
         then let fn = json_get tc ''function''
              in d\<lparr>td_name := string_member fn ''name'' [], td_arguments := string_member fn ''arguments'' []\<rparr>
         else d)"

definition openai_tool_calls ::
  "('d \<Rightarrow> int option) \<Rightarrow> stream_handlers \<Rightarrow> 'd json \<Rightarrow> stream_parser \<Rightarrow> stream_parser" where
  "openai_tool_calls d2i h delta p =
     (case json_find delta ''tool_calls'' of
        Some (JArray tcs) \<Rightarrow> foldl (\<lambda>p tc. emit (on_tool_call h) (ToolDeltaCall (openai_delta d2i tc)) p) p tcs
      | _ \<Rightarrow> p)"

definition openai_text :: "stream_handlers \<Rightarrow> 'd json \<Rightarrow> stream_parser \<Rightarrow> stream_parser" where
  "openai_text h delta p =
     (if member delta ''reasoning_content'' then
        (case json_get delta ''reasoning_content'' of JString s \<Rightarrow> emit (on_thinking h) (ThinkingCall s) p | _ \<Rightarrow> p)
      else if member delta ''content'' then
        (case json_get delta ''content'' of JString s \<Rightarrow> emit (on_token h) (TokenCall s) p | _ \<Rightarrow> p)
      else p)"

definition openai_root ::
  "('d \<Rightarrow> int option) \<Rightarrow> stream_handlers \<Rightarrow> 'd json \<Rightarrow> stream_parser \<Rightarrow> stream_parser" where
  "openai_root d2i h root p =
     (let p1 = (if json_contains root ''usage'' \<and> is_object (json_get root ''usage'')
                then let extracted = extract_openai_usage d2i root
                     in if \<not> usage_empty extracted then p\<lparr>sp_usage := extracted\<rparr> else p
                else p)
      in case json_find root ''choices'' of
           Some (JArray (first_choice # rest)) \<Rightarrow>
             let p2 = openai_finish h first_choice p1
             in if \<not> json_contains first_choice ''delta'' \<or> \<not> is_object (json_get first_choice ''delta'') then p2
                else let delta = json_get first_choice ''delta''
                     in openai_text h delta (openai_tool_calls d2i h delta p2)
         | _ \<Rightarrow> p1)"

definition openai_event ::
  "(string \<Rightarrow> 'd option) \<Rightarrow> ('d \<Rightarrow> int option) \<Rightarrow> stream_handlers \<Rightarrow> sse_event \<Rightarrow> stream_parser \<Rightarrow>
   stream_fault + stream_parser" where
  "openai_event strtod d2i h ev p =
     Inr (if ev_data ev = ''[DONE]'' then (emit (on_stop h) (StopCall ''stop'') p)\<lparr>sp_stop := StopDone\<rparr>
          else if ev_data ev = [] then p
          else case parse_json strtod (ev_data ev) of None \<Rightarrow> p | Some root \<Rightarrow> openai_root d2i h root p)"

subsection \<open>Anthropic events\<close>

definition extract_string :: "'d json \<Rightarrow> string \<Rightarrow> string option" where
  "extract_string v k = (case json_find v k of Some (JString s) \<Rightarrow> Some s | _ \<Rightarrow> None)"

definition event_index :: "('d \<Rightarrow> int option) \<Rightarrow> 'd json \<Rightarrow> stream_fault + int" where
  "event_index d2i root =
     (case json_find root ''index'' of
        Some v \<Rightarrow> if is_number v then (case try_int d2i v of Some i \<Rightarrow> Inr i | None \<Rightarrow> Inl NumberRange) else Inr 0
      | None \<Rightarrow> Inr 0)"

definition message_start :: "('d \<Rightarrow> int option) \<Rightarrow> 'd json \<Rightarrow> stream_parser \<Rightarrow> stream_fault + stream_parser" where
  "message_start d2i root p =
     (if json_contains root ''message'' \<and> is_object (json_get root ''message'') then
        let msg = json_get root ''message''
        in if json_contains msg ''usage'' \<and> is_object (json_get msg ''usage'') then
             bind_sum (extract_anthropic_usage d2i msg) (\<lambda>extracted.
             bind_sum (add_tokens (prompt_tokens extracted) (completion_tokens (sp_usage p))) (\<lambda>total.
               Inr (p\<lparr>sp_usage := (sp_usage p)\<lparr>prompt_tokens := prompt_tokens extracted, total_tokens := total,
                      cached_tokens := cached_tokens extracted\<rparr>\<rparr>)))
           else Inr p
      else Inr p)"

definition handle_content_block_start ::
  "('d \<Rightarrow> int option) \<Rightarrow> stream_handlers \<Rightarrow> 'd json \<Rightarrow> stream_parser \<Rightarrow> stream_fault + stream_parser" where
  "handle_content_block_start d2i h root p =
     (if \<not> json_contains root ''content_block'' \<or> \<not> is_object (json_get root ''content_block'') then Inr p
      else let cb = json_get root ''content_block''
           in if extract_string cb ''type'' = Some ''tool_use'' \<and> on_tool_call h
              then bind_sum (event_index d2i root) (\<lambda>i.
                Inr (emit True (ToolDeltaCall (delta_new\<lparr>td_index := i, td_id := string_member cb ''id'' [],
                       td_name := string_member cb ''name'' []\<rparr>)) p))
              else Inr p)"

definition emit_opt :: "bool \<Rightarrow> (string \<Rightarrow> stream_call) \<Rightarrow> string option \<Rightarrow> stream_parser \<Rightarrow> stream_parser" where
  "emit_opt is_set c s p = (case s of Some x \<Rightarrow> emit is_set (c x) p | None \<Rightarrow> p)"

definition handle_content_block_delta ::
  "('d \<Rightarrow> int option) \<Rightarrow> stream_handlers \<Rightarrow> 'd json \<Rightarrow> stream_parser \<Rightarrow> stream_fault + stream_parser" where
  "handle_content_block_delta d2i h root p =
     (if \<not> json_contains root ''delta'' \<or> \<not> is_object (json_get root ''delta'') then Inr p
      else let delta = json_get root ''delta''
           in case extract_string delta ''type'' of
                None \<Rightarrow>
                  let thinking = (case extract_string delta ''thinking'' of
                          Some s \<Rightarrow> Some s | None \<Rightarrow> extract_string delta ''thinking_delta'')
                  in Inr (emit_opt (on_token h) TokenCall (extract_string delta ''text'')
                            (emit_opt (on_thinking h) ThinkingCall thinking p))
              | Some type \<Rightarrow>
                  if type = ''thinking_delta''
                  then Inr (emit_opt (on_thinking h) ThinkingCall (extract_string delta ''thinking'') p)
                  else if type = ''text_delta''
                  then Inr (emit_opt (on_token h) TokenCall (extract_string delta ''text'') p)
                  else if type = ''input_json_delta'' \<and> on_tool_call h
                  then bind_sum (event_index d2i root) (\<lambda>i.
                    Inr (emit True (ToolDeltaCall (delta_new\<lparr>td_index := i,
                           td_arguments := string_member delta ''partial_json'' []\<rparr>)) p))
                  else Inr p)"

definition update_usage :: "('d \<Rightarrow> int option) \<Rightarrow> 'd json \<Rightarrow> stream_parser \<Rightarrow> stream_fault + stream_parser" where
  "update_usage d2i root p =
     (if json_contains root ''usage'' \<and> is_object (json_get root ''usage'') then
        bind_sum (extract_anthropic_usage d2i root) (\<lambda>extracted.
          let prompt = (if prompt_tokens extracted > 0 then prompt_tokens extracted else prompt_tokens (sp_usage p));
              completion = (if completion_tokens extracted > 0 then completion_tokens extracted
                            else completion_tokens (sp_usage p))
          in bind_sum (add_tokens prompt completion) (\<lambda>total.
               Inr (p\<lparr>sp_usage := \<lparr>prompt_tokens = prompt, completion_tokens = completion, total_tokens = total,
                      cached_tokens = cached_tokens extracted\<rparr>\<rparr>)))
      else Inr p)"

definition handle_message_delta ::
  "('d \<Rightarrow> int option) \<Rightarrow> stream_handlers \<Rightarrow> 'd json \<Rightarrow> stream_parser \<Rightarrow> stream_fault + stream_parser" where
  "handle_message_delta d2i h root p =
     bind_sum (update_usage d2i root p) (\<lambda>p1.
       Inr (if \<not> json_contains root ''delta'' \<or> \<not> is_object (json_get root ''delta'') then p1
            else case extract_string (json_get root ''delta'') ''stop_reason'' of
                Some reason \<Rightarrow>
                  if on_stop h
                  then (emit True (StopCall reason) p1)\<lparr>sp_stop := (if reason = ''tool_use'' then FinishTools else FinishStop)\<rparr>
                  else p1
              | None \<Rightarrow> p1))"

definition anthropic_root ::
  "('d \<Rightarrow> int option) \<Rightarrow> stream_handlers \<Rightarrow> string \<Rightarrow> 'd json \<Rightarrow> stream_parser \<Rightarrow> stream_fault + stream_parser" where
  "anthropic_root d2i h event root p =
     bind_sum (if event = ''message_start'' \<or> value_str root ''type'' [] = ''message_start''
               then message_start d2i root p else Inr p) (\<lambda>p.
     bind_sum (if event = ''content_block_start'' \<or> event = [] then handle_content_block_start d2i h root p else Inr p) (\<lambda>p.
     bind_sum (if event = ''content_block_delta'' \<or> event = [] then handle_content_block_delta d2i h root p else Inr p) (\<lambda>p.
     if event = ''message_delta'' \<or> value_str root ''type'' [] = ''message_delta''
     then handle_message_delta d2i h root p else Inr p)))"

definition anthropic_event ::
  "(string \<Rightarrow> 'd option) \<Rightarrow> ('d \<Rightarrow> int option) \<Rightarrow> stream_handlers \<Rightarrow> sse_event \<Rightarrow> stream_parser \<Rightarrow>
   stream_fault + stream_parser" where
  "anthropic_event strtod d2i h ev p =
     (if ev_event ev \<noteq> [] \<and> ev_event ev \<notin> {''content_block_start'', ''content_block_delta'', ''message_delta'',
           ''message_start'', ''message_stop''} then Inr p
      else if ev_data ev = [] then Inr p
      else case parse_json strtod (ev_data ev) of
             None \<Rightarrow> Inr p
           | Some root \<Rightarrow> anthropic_root d2i h (ev_event ev) root p)"

subsection \<open>Parsing a response\<close>

type_synonym handler = "sse_event \<Rightarrow> stream_parser \<Rightarrow> stream_fault + stream_parser"

fun run_events :: "handler \<Rightarrow> sse_event list \<Rightarrow> stream_parser \<Rightarrow> stream_fault + stream_parser" where
  "run_events step [] p = Inr p"
| "run_events step (ev # evs) p = bind_sum (step ev p) (run_events step evs)"

text \<open>\<open>parse\<close> and \<open>finish\<close>: the handler runs inside the loop of the buffer, which it does not touch.\<close>

definition stream_parse :: "handler \<Rightarrow> string \<Rightarrow> stream_parser \<Rightarrow> stream_fault + stream_parser" where
  "stream_parse step payload p =
     (let (evs, b) = feed payload (sp_sse p) in run_events step evs (p\<lparr>sp_sse := b\<rparr>))"

definition stream_finish :: "handler \<Rightarrow> stream_parser \<Rightarrow> stream_fault + stream_parser" where
  "stream_finish step p =
     (let (evs, b) = sse_finish (sp_sse p) in run_events step evs (p\<lparr>sp_sse := b\<rparr>))"

fun parse_chunks :: "handler \<Rightarrow> string list \<Rightarrow> stream_parser \<Rightarrow> stream_fault + stream_parser" where
  "parse_chunks step [] p = Inr p"
| "parse_chunks step (c # cs) p = bind_sum (stream_parse step c p) (parse_chunks step cs)"

text \<open>The chunk callback of the clients, which ignores every chunk after the parser has stopped.\<close>

fun client_chunks :: "handler \<Rightarrow> string list \<Rightarrow> stream_parser \<Rightarrow> stream_fault + stream_parser" where
  "client_chunks step [] p = Inr p"
| "client_chunks step (c # cs) p =
     bind_sum (if stopped p then Inr p else stream_parse step c p) (client_chunks step cs)"

definition chat_stream :: "handler \<Rightarrow> string list \<Rightarrow> stream_fault + stream_parser" where
  "chat_stream step chunks = bind_sum (client_chunks step chunks parser_new) (stream_finish step)"

subsection \<open>The division into chunks\<close>

text \<open>
  What the buffer needs of an event handler: that it neither reads nor changes the buffer.
\<close>

locale event_handler =
  fixes step :: handler
  assumes step_sse: "step ev (p\<lparr>sp_sse := b\<rparr>) = map_sum id (\<lambda>q. q\<lparr>sp_sse := b\<rparr>) (step ev p)"
begin

lemma step_keeps_sse:
  assumes "step ev p = Inr q"
  shows "sp_sse q = sp_sse p"
proof -
  have "q = q\<lparr>sp_sse := sp_sse p\<rparr>" using step_sse [of ev "sp_sse p" p] assms by simp
  then show ?thesis by (metis stream_parser.select_convs(1) stream_parser.surjective stream_parser.update_convs(1))
qed

lemma run_events_sse: "run_events step evs (p\<lparr>sp_sse := b\<rparr>) = map_sum id (\<lambda>q. q\<lparr>sp_sse := b\<rparr>) (run_events step evs p)"
proof (induction evs arbitrary: p)
  case (Cons ev evs)
  then show ?case by (cases "step ev p") (simp_all add: step_sse)
qed simp

lemma run_events_append: "run_events step (evs @ evs') p = bind_sum (run_events step evs p) (run_events step evs')"
proof (induction evs arbitrary: p)
  case (Cons ev evs)
  then show ?case by (cases "step ev p") simp_all
qed simp

lemma run_events_keeps_sse: "run_events step evs p = Inr q \<Longrightarrow> sp_sse q = sp_sse p"
proof (induction evs arbitrary: p)
  case (Cons ev evs)
  then show ?case using step_keeps_sse by (auto simp: bind_sum_Inr)
qed simp

lemma stream_parse_append: "stream_parse step (s @ t) p = bind_sum (stream_parse step s p) (stream_parse step t)"
proof -
  obtain evs b where s: "feed s (sp_sse p) = (evs, b)" by fastforce
  obtain evs' b' where t: "feed t b = (evs', b')" by fastforce
  have r: "run_events step evs (p\<lparr>sp_sse := x\<rparr>) = map_sum id (\<lambda>q. q\<lparr>sp_sse := x\<rparr>) (run_events step evs p)" for x
    by (rule run_events_sse)
  show ?thesis
    by (cases "run_events step evs p") (simp_all add: stream_parse_def feed_append s t run_events_append r)
qed

lemma stream_parse_sse: "stream_parse step c p = Inr q \<Longrightarrow> LF \<notin> set (sse_buf (sp_sse q))"
proof -
  assume q: "stream_parse step c p = Inr q"
  obtain evs b where f: "feed c (sp_sse p) = (evs, b)" by fastforce
  then have "LF \<notin> set (sse_buf b)" using feed_keeps_rest [of "sse_buf (sp_sse p) @ c" "sp_sse p"] by (simp add: feed_def)
  moreover have "sp_sse q = b" using q run_events_keeps_sse [of evs "p\<lparr>sp_sse := b\<rparr>" q] by (simp add: stream_parse_def f)
  ultimately show ?thesis by simp
qed

lemma stream_parse_nothing: "LF \<notin> set (sse_buf (sp_sse p)) \<Longrightarrow> stream_parse step [] p = Inr p"
  by (simp add: stream_parse_def feed_nothing)

lemma parse_chunks_concat:
  "LF \<notin> set (sse_buf (sp_sse p)) \<Longrightarrow> parse_chunks step cs p = stream_parse step (concat cs) p"
proof (induction cs arbitrary: p)
  case (Cons c cs)
  then show ?case
    using stream_parse_sse [of c p] by (cases "stream_parse step c p") (auto simp: stream_parse_append)
qed (simp add: stream_parse_nothing)

text \<open>
  The clients skip chunks once the parser has stopped; nothing is lost if the parser cannot stop before its last
  byte.
\<close>

lemma client_chunks_nothing:
  "LF \<notin> set (sse_buf (sp_sse p)) \<Longrightarrow> concat cs = [] \<Longrightarrow> client_chunks step cs p = Inr p"
  by (induction cs) (simp_all add: stream_parse_nothing)

lemma client_chunks_concat:
  "LF \<notin> set (sse_buf (sp_sse p)) \<Longrightarrow>
   (\<And>s q. strict_prefix s (concat cs) \<Longrightarrow> stream_parse step s p = Inr q \<Longrightarrow> \<not> stopped q) \<Longrightarrow>
   client_chunks step cs p = stream_parse step (concat cs) p"
proof (induction cs arbitrary: p)
  case (Cons c cs)
  show ?case
  proof (cases "concat (c # cs) = []")
    case True
    show ?thesis
      unfolding True client_chunks_nothing [OF Cons.prems(1) True] stream_parse_nothing [OF Cons.prems(1)] ..
  next
    case False
    then have "strict_prefix [] (concat (c # cs))" unfolding strict_prefix_def by (metis Nil_prefix)
    then have ns: "\<not> stopped p" using Cons.prems(2) stream_parse_nothing [OF Cons.prems(1)] by blast
    show ?thesis
    proof (cases "stream_parse step c p")
      case (Inr q)
      note lf = stream_parse_sse [OF Inr]
      have "client_chunks step cs q = stream_parse step (concat cs) q"
      proof (rule Cons.IH [OF lf])
        fix s r
        assume s: "strict_prefix s (concat cs)" "stream_parse step s q = Inr r"
        then have "strict_prefix (c @ s) (concat (c # cs))" by (auto simp: strict_prefix_def)
        moreover have "stream_parse step (c @ s) p = Inr r" using s Inr by (simp add: stream_parse_append)
        ultimately show "\<not> stopped r" using Cons.prems(2) by blast
      qed
      then show ?thesis using ns Inr by (simp add: stream_parse_append)
    qed (use ns in \<open>simp add: stream_parse_append\<close>)
  qed
qed (simp add: stream_parse_nothing)

end

subsection \<open>The two providers\<close>

lemma emit_sse [simp]: "emit c x (p\<lparr>sp_sse := b\<rparr>) = (emit c x p)\<lparr>sp_sse := b\<rparr>"
  by (simp add: emit_def)

lemma emit_opt_sse [simp]: "emit_opt c f s (p\<lparr>sp_sse := b\<rparr>) = (emit_opt c f s p)\<lparr>sp_sse := b\<rparr>"
  by (simp add: emit_opt_def split: option.split)

lemma emit_fields [simp]:
  "sp_stop (emit c x p) = sp_stop p" "sp_usage (emit c x p) = sp_usage p" "sp_sse (emit c x p) = sp_sse p"
  by (simp_all add: emit_def)

lemma foldl_emit_sse [simp]:
  "foldl (\<lambda>p x. emit c (f x) p) (p\<lparr>sp_sse := b\<rparr>) xs = (foldl (\<lambda>p x. emit c (f x) p) p xs)\<lparr>sp_sse := b\<rparr>"
  by (induction xs arbitrary: p) simp_all

lemma openai_finish_sse [simp]: "openai_finish h c (p\<lparr>sp_sse := b\<rparr>) = (openai_finish h c p)\<lparr>sp_sse := b\<rparr>"
  by (simp add: openai_finish_def split: option.split json.split)

lemma openai_text_sse [simp]: "openai_text h d (p\<lparr>sp_sse := b\<rparr>) = (openai_text h d p)\<lparr>sp_sse := b\<rparr>"
  by (simp add: openai_text_def split: json.split)

lemma openai_tool_calls_sse [simp]:
  "openai_tool_calls d2i h d (p\<lparr>sp_sse := b\<rparr>) = (openai_tool_calls d2i h d p)\<lparr>sp_sse := b\<rparr>"
  by (simp add: openai_tool_calls_def split: option.split json.split)

text \<open>The two steps of \<open>openai_root\<close>: the usage and the first choice.\<close>

definition openai_usage :: "('d \<Rightarrow> int option) \<Rightarrow> 'd json \<Rightarrow> stream_parser \<Rightarrow> stream_parser" where
  "openai_usage d2i root p =
     (if json_contains root ''usage'' \<and> is_object (json_get root ''usage'')
      then let extracted = extract_openai_usage d2i root
           in if \<not> usage_empty extracted then p\<lparr>sp_usage := extracted\<rparr> else p
      else p)"

lemma openai_usage_sse [simp]: "openai_usage d2i root (p\<lparr>sp_sse := b\<rparr>) = (openai_usage d2i root p)\<lparr>sp_sse := b\<rparr>"
  by (simp add: openai_usage_def Let_def)

lemma openai_root_alt:
  "openai_root d2i h root p =
     (case json_find root ''choices'' of
        Some (JArray (c # rest)) \<Rightarrow>
          if \<not> json_contains c ''delta'' \<or> \<not> is_object (json_get c ''delta'') then openai_finish h c (openai_usage d2i root p)
          else openai_text h (json_get c ''delta'')
            (openai_tool_calls d2i h (json_get c ''delta'') (openai_finish h c (openai_usage d2i root p)))
      | _ \<Rightarrow> openai_usage d2i root p)"
  by (simp only: openai_root_def openai_usage_def Let_def)

lemma openai_root_sse: "openai_root d2i h root (p\<lparr>sp_sse := b\<rparr>) = (openai_root d2i h root p)\<lparr>sp_sse := b\<rparr>"
  by (simp add: openai_root_alt split: option.split json.split list.split)

interpretation openai: event_handler "openai_event strtod d2i h" for strtod d2i h
  by unfold_locales (simp add: openai_event_def openai_root_sse split: option.split)

lemma map_bind_sum: "map_sum id f (bind_sum x g) = bind_sum x (\<lambda>a. map_sum id f (g a))"
  by (cases x) simp_all

lemma bind_map_sum: "bind_sum (map_sum id f x) g = bind_sum x (\<lambda>a. g (f a))"
  by (cases x) simp_all

lemma message_start_sse:
  "message_start d2i root (p\<lparr>sp_sse := b\<rparr>) = map_sum id (\<lambda>q. q\<lparr>sp_sse := b\<rparr>) (message_start d2i root p)"
  by (cases "extract_anthropic_usage d2i (json_get root ''message'')")
    (auto simp: message_start_def Let_def map_bind_sum bind_sum_def split: sum.split)

lemma block_start_sse:
  "handle_content_block_start d2i h root (p\<lparr>sp_sse := b\<rparr>) =
   map_sum id (\<lambda>q. q\<lparr>sp_sse := b\<rparr>) (handle_content_block_start d2i h root p)"
  by (simp add: handle_content_block_start_def Let_def map_bind_sum)

lemma block_delta_sse:
  "handle_content_block_delta d2i h root (p\<lparr>sp_sse := b\<rparr>) =
   map_sum id (\<lambda>q. q\<lparr>sp_sse := b\<rparr>) (handle_content_block_delta d2i h root p)"
  by (simp add: handle_content_block_delta_def Let_def map_bind_sum split: option.split)

lemma update_usage_sse:
  "update_usage d2i root (p\<lparr>sp_sse := b\<rparr>) = map_sum id (\<lambda>q. q\<lparr>sp_sse := b\<rparr>) (update_usage d2i root p)"
  by (cases "extract_anthropic_usage d2i root")
    (auto simp: update_usage_def Let_def map_bind_sum bind_sum_def split: sum.split)

lemma message_delta_sse:
  "handle_message_delta d2i h root (p\<lparr>sp_sse := b\<rparr>) =
   map_sum id (\<lambda>q. q\<lparr>sp_sse := b\<rparr>) (handle_message_delta d2i h root p)"
  by (cases "update_usage d2i root p")
    (simp_all add: handle_message_delta_def update_usage_sse split: option.split)

lemma if_sse:
  "(if c then map_sum id (\<lambda>q. q\<lparr>sp_sse := b\<rparr>) x else Inr (p\<lparr>sp_sse := b\<rparr>)) =
   map_sum id (\<lambda>q. q\<lparr>sp_sse := b\<rparr>) (if c then x else Inr p)"
  by simp

lemma anthropic_root_sse:
  "anthropic_root d2i h event root (p\<lparr>sp_sse := b\<rparr>) = map_sum id (\<lambda>q. q\<lparr>sp_sse := b\<rparr>) (anthropic_root d2i h event root p)"
  by (simp only: anthropic_root_def message_start_sse block_start_sse block_delta_sse message_delta_sse if_sse
      bind_map_sum map_bind_sum)

interpretation anthropic: event_handler "anthropic_event strtod d2i h" for strtod d2i h
  by unfold_locales (simp add: anthropic_event_def anthropic_root_sse split: option.split)

text \<open>
  C16: however the network cuts a response, both parsers make the same calls in the same order, count
  the same tokens and end with the same stop reason, or fail alike.
\<close>

theorem stream_chunking:
  "parse_chunks (openai_event strtod d2i h) chunks parser_new = stream_parse (openai_event strtod d2i h) (concat chunks) parser_new \<and>
   parse_chunks (anthropic_event strtod d2i h) chunks parser_new =
   stream_parse (anthropic_event strtod d2i h) (concat chunks) parser_new"
  by (simp_all add: openai.parse_chunks_concat anthropic.parse_chunks_concat parser_new_def sse_new_def)

subsection \<open>A whole response\<close>

text \<open>A chunk of text as the OpenAI interface sends it, and what the parser makes of it.\<close>

definition token_chunk :: "string \<Rightarrow> 'd json" where
  "token_chunk t = JObject [(''choices'', JArray [JObject [(''delta'', JObject [(''content'', JString t)])]])]"

definition data_event :: "string \<Rightarrow> sse_event" where
  "data_event d = \<lparr>ev_event = [], ev_data = d\<rparr>"

lemma openai_root_token: "openai_root d2i h (token_chunk t) p = emit (on_token h) (TokenCall t) p"
  by (simp add: openai_root_def token_chunk_def openai_finish_def openai_text_def openai_tool_calls_def member_def
      json_contains_def json_get_def Let_def)

lemma parse_json_done: "parse_json strtod ''[DONE]'' = None"
  by (simp add: parse_json_def parse_def eval_nat_numeral parse_array_def is_ws_def match_def Let_def is_digit_def
      byte_def of_result_def parse_literal_def array_loop.simps)

lemma openai_event_token:
  assumes "parse_json strtod d = Some (token_chunk t)" "d \<noteq> []"
  shows "openai_event strtod d2i h (data_event d) p = Inr (emit (on_token h) (TokenCall t) p)"
  using assms parse_json_done [of strtod] by (auto simp: openai_event_def data_event_def openai_root_token)

lemma run_tokens:
  "list_all2 (\<lambda>d t. parse_json strtod d = Some (token_chunk t) \<and> d \<noteq> []) ds ts \<Longrightarrow> on_token h \<Longrightarrow>
   run_events (openai_event strtod d2i h) (map data_event ds) p = Inr (p\<lparr>sp_calls := sp_calls p @ map TokenCall ts\<rparr>)"
  by (induction ds ts arbitrary: p rule: list_all2_induct) (simp_all add: openai_event_token emit_def)

lemma foldl_emit_stop [simp]: "sp_stop (foldl (\<lambda>p x. emit c (f x) p) p xs) = sp_stop p"
  by (induction xs arbitrary: p) simp_all

lemma openai_text_stop [simp]: "sp_stop (openai_text h d p) = sp_stop p"
  by (simp add: openai_text_def split: json.split)

lemma openai_tool_calls_stop [simp]: "sp_stop (openai_tool_calls d2i h d p) = sp_stop p"
  by (simp add: openai_tool_calls_def split: option.split json.split)

lemma openai_usage_stop [simp]: "sp_stop (openai_usage d2i r p) = sp_stop p"
  by (simp add: openai_usage_def Let_def)

lemma openai_finish_stop: "sp_stop p \<noteq> NotStopped \<Longrightarrow> sp_stop (openai_finish h c p) \<noteq> NotStopped"
  by (simp add: openai_finish_def split: option.split json.split)

lemma openai_sticky: "openai_event strtod d2i h ev p = Inr q \<Longrightarrow> stopped p \<Longrightarrow> stopped q"
  by (auto simp: openai_event_def openai_root_alt stopped_def openai_finish_stop
      split: if_splits option.splits json.splits list.splits)

lemma openai_run_sticky:
  "run_events (openai_event strtod d2i h) evs p = Inr q \<Longrightarrow> stopped p \<Longrightarrow> stopped q"
  by (induction evs arbitrary: p) (auto simp: bind_sum_Inr dest: openai_sticky)

lemma openai_parse_sticky:
  "stream_parse (openai_event strtod d2i h) s p = Inr q \<Longrightarrow> stopped p \<Longrightarrow> stopped q"
  by (cases "feed s (sp_sse p)") (auto simp: stream_parse_def stopped_def dest!: openai_run_sticky)

definition one_line :: "string \<Rightarrow> bool" where
  "one_line d \<longleftrightarrow> d \<noteq> [] \<and> LF \<notin> set d \<and> last d \<noteq> CR"

lemma feed_data_events:
  "list_all one_line ds \<Longrightarrow>
   feed (concat (map sse_data_event ds) @ rest) sse_new = (let (evs, b) = feed rest sse_new in (map data_event ds @ evs, b))"
proof (induction ds)
  case (Cons d ds)
  then show ?case
    using feed_data_event [of d sse_new "concat (map sse_data_event ds) @ rest"]
    by (simp add: one_line_def data_event_def sse_new_def case_prod_beta Let_def)
qed simp

text \<open>
  C17: a streamed answer of the OpenAI interface arrives whole: if the server sends the texts \<open>ts\<close>, each in an event of
  one line, and then \<open>[DONE]\<close>, then for every way the network may cut the response the client hands exactly these texts,
  in this order, to the token handler, then reports the stop once, and ends without a fault.
\<close>

theorem stream_tokens_delivered:
  assumes "list_all2 (\<lambda>d t. parse_json strtod d = Some (token_chunk t)) ds ts" "list_all one_line ds"
    and "concat chunks = concat (map sse_data_event ds) @ sse_data_event ''[DONE]''"
    and "on_token h" "on_stop h"
  shows "\<exists>p. chat_stream (openai_event strtod d2i h) chunks = Inr p \<and>
    sp_calls p = map TokenCall ts @ [StopCall ''stop''] \<and> sp_stop p = StopDone"
proof -
  let ?step = "openai_event strtod d2i h"
  let ?data = "concat (map sse_data_event ds)"
  let ?tokens = "parser_new\<lparr>sp_calls := map TokenCall ts\<rparr>"
  have ok: "list_all2 (\<lambda>d t. parse_json strtod d = Some (token_chunk t) \<and> d \<noteq> []) ds ts"
    using assms(1,2) by (auto simp: list_all2_conv_all_nth list_all_length one_line_def)
  have tokens: "run_events ?step (map data_event ds) p = Inr (p\<lparr>sp_calls := sp_calls p @ map TokenCall ts\<rparr>)" for p
    using run_tokens [OF ok assms(4)] .
  have "fst (feed (''data: [DONE]'' @ [LF]) sse_new) = []" by code_simp
  then obtain b where "feed (''data: [DONE]'' @ [LF]) sse_new = ([], b)" by (metis prod.collapse)
  then have almost: "stream_parse ?step (?data @ ''data: [DONE]'' @ [LF]) parser_new = Inr (?tokens\<lparr>sp_sse := b\<rparr>)"
    using tokens feed_data_events [OF assms(2)] by (simp add: stream_parse_def parser_new_def)
  have fin: "feed (sse_data_event ''[DONE]'') sse_new = ([data_event ''[DONE]''], sse_new)"
    by code_simp
  have whole: "stream_parse ?step (concat chunks) parser_new =
      Inr (?tokens\<lparr>sp_calls := map TokenCall ts @ [StopCall ''stop''], sp_stop := StopDone\<rparr>)"
    unfolding assms(3) using tokens feed_data_events [OF assms(2)] fin assms(5)
    by (simp add: stream_parse_def parser_new_def openai.run_events_append openai_event_def data_event_def emit_def)
  have "\<not> stopped q" if s: "strict_prefix s (concat chunks)" and q: "stream_parse ?step s parser_new = Inr q" for s q
  proof
    assume "stopped q"
    have "concat chunks = (?data @ ''data: [DONE]'' @ [LF]) @ [LF]" by (simp add: assms(3) sse_data_event_def)
    with s have "prefix s (?data @ ''data: [DONE]'' @ [LF])" by (simp only: strict_prefix_def prefix_snoc) blast
    then obtain t where "?data @ ''data: [DONE]'' @ [LF] = s @ t" by (auto simp: prefix_def)
    then have "stream_parse ?step (s @ t) parser_new = Inr (?tokens\<lparr>sp_sse := b\<rparr>)" using almost by (simp only:)
    then have "stream_parse ?step t q = Inr (?tokens\<lparr>sp_sse := b\<rparr>)" by (simp only: openai.stream_parse_append q bind_sum_simps)
    from openai_parse_sticky [OF this \<open>stopped q\<close>] show False by (simp add: stopped_def parser_new_def)
  qed
  then have "client_chunks ?step chunks parser_new = stream_parse ?step (concat chunks) parser_new"
    by (intro openai.client_chunks_concat) (simp_all add: parser_new_def sse_new_def)
  then have "chat_stream ?step chunks =
      stream_finish ?step (?tokens\<lparr>sp_calls := map TokenCall ts @ [StopCall ''stop''], sp_stop := StopDone\<rparr>)"
    by (simp add: chat_stream_def whole)
  then show ?thesis
    by (simp add: stream_finish_def sse_finish_def flush_event_def sse_new_def parser_new_def)
qed

definition hi_chunk :: string where
  "hi_chunk = (let q = [CHR 0x22] in
     ''{'' @ q @ ''choices'' @ q @ '':[{'' @ q @ ''delta'' @ q @ '':{'' @ q @ ''content'' @ q @ '':'' @ q @ ''Hi'' @ q @ ''}}]}'')"

definition hi_response :: string where
  "hi_response = sse_data_event hi_chunk @ sse_data_event ''[DONE]''"

theorem stream_tokens_delivered_witness:
  "\<exists>p. chat_stream (openai_event (\<lambda>s. None :: unit option) (\<lambda>d. None)
        \<lparr>on_token = True, on_thinking = False, on_tool_call = False, on_stop = True\<rparr>)
      [take 20 hi_response, drop 20 hi_response] = Inr p \<and> sp_calls p = [TokenCall ''Hi'', StopCall ''stop'']"
proof -
  have "parse_json (\<lambda>s. None :: unit option) hi_chunk = Some (token_chunk ''Hi'')" "one_line hi_chunk" by code_simp+
  moreover have "concat [take 20 hi_response, drop 20 hi_response] =
      concat (map sse_data_event [hi_chunk]) @ sse_data_event ''[DONE]''"
    by (simp only: concat.simps append_Nil2 append_take_drop_id list.map hi_response_def)
  ultimately show ?thesis
    using stream_tokens_delivered [of "\<lambda>s. None :: unit option" "[hi_chunk]" "[''Hi'']"
        "[take 20 hi_response, drop 20 hi_response]"
        "\<lparr>on_token = True, on_thinking = False, on_tool_call = False, on_stop = True\<rparr>" "\<lambda>d. None"]
    by auto
qed

text \<open>What the serializer writes, the parsers read.\<close>

lemma parse_json_write:
  assumes "plain v"
  shows "parse_json strtod (json_write fmt i 0 v) = Some (reparsed v)"
  using write_parse [OF assms, of "[]" fmt i 0 "Suc (length (json_write fmt i 0 v))" strtod]
  by (simp add: parse_json_def parse_def ends_number_def del: parse_value.simps)

definition finish_value :: "unit json" where
  "finish_value = JObject [(''choices'', JArray [JObject [(''finish_reason'', JString ''stop'')]])]"

definition usage_value :: "unit json" where
  "usage_value = JObject [(''choices'', JArray []), (''usage'', JObject [(''total_tokens'', JUint 7)])]"

definition finish_chunk :: string where
  "finish_chunk = json_write (\<lambda>d. []) (-1) 0 finish_value"

definition usage_chunk :: string where
  "usage_chunk = json_write (\<lambda>d. []) (-1) 0 usage_value"

abbreviation all_handlers :: stream_handlers where
  "all_handlers \<equiv> \<lparr>on_token = True, on_thinking = True, on_tool_call = True, on_stop = True\<rparr>"

lemma example_chunks:
  "one_line finish_chunk" "one_line usage_chunk" "one_line ''[DONE]''" "finish_chunk \<noteq> ''[DONE]''" "usage_chunk \<noteq> ''[DONE]''"
  "finish_chunk \<noteq> []" "usage_chunk \<noteq> []"
  by code_simp+

lemma example_parsed: "parse_json strtod finish_chunk = Some finish_value" "parse_json strtod usage_chunk = Some usage_value"
proof -
  have "reparsed finish_value = finish_value" "reparsed usage_value = usage_value" by code_simp+
  moreover have "plain finish_value" "plain usage_value" by (simp_all add: finish_value_def usage_value_def)
  ultimately show "parse_json strtod finish_chunk = Some finish_value" "parse_json strtod usage_chunk = Some usage_value"
    by (simp_all add: finish_chunk_def usage_chunk_def parse_json_write)
qed

lemma example_roots:
  "openai_root d2i h finish_value p =
     (emit (on_stop h) (StopCall ''stop'') p)\<lparr>sp_stop := FinishStop\<rparr>"
  "openai_root d2i h usage_value p =
     p\<lparr>sp_usage := usage_new\<lparr>total_tokens := 7\<rparr>\<rparr>"
  by (simp_all add: openai_root_def openai_finish_def json_contains_def json_get_def extract_openai_usage_def value_int_def
      usage_empty_def usage_new_def Let_def finish_value_def usage_value_def)

lemma example_steps:
  "openai_event (strtod :: string \<Rightarrow> unit option) d2i h (data_event finish_chunk) p =
     Inr ((emit (on_stop h) (StopCall ''stop'') p)\<lparr>sp_stop := FinishStop\<rparr>)"
  "openai_event (strtod :: string \<Rightarrow> unit option) d2i h (data_event usage_chunk) p = Inr (p\<lparr>sp_usage := usage_new\<lparr>total_tokens := 7\<rparr>\<rparr>)"
  by (simp_all add: openai_event_def data_event_def example_chunks example_parsed example_roots)

lemma feed_data_events_only: "list_all one_line ds \<Longrightarrow> feed (concat (map sse_data_event ds)) sse_new = (map data_event ds, sse_new)"
  using feed_data_events [of ds "[]"] feed_nothing [of sse_new] by (simp add: sse_new_def)

text \<open>
  The token counts of a streamed answer depend on how the network cuts it: the client asks for the
  usage, which the server sends after the event with the finish reason, and stops at that event. If both arrive in one
  chunk, the usage is recorded; if the usage comes in the next one, it is lost.
\<close>

theorem stream_usage_lost:
  "map_sum id (\<lambda>p. total_tokens (sp_usage p)) (chat_stream (openai_event (\<lambda>s. None :: unit option) (\<lambda>d. None) all_handlers)
      [sse_data_event finish_chunk @ sse_data_event usage_chunk, sse_data_event ''[DONE]'']) = Inr 7 \<and>
   map_sum id (\<lambda>p. total_tokens (sp_usage p)) (chat_stream (openai_event (\<lambda>s. None :: unit option) (\<lambda>d. None) all_handlers)
      [sse_data_event finish_chunk, sse_data_event usage_chunk @ sse_data_event ''[DONE]'']) = Inr 0"
  using feed_data_events_only [of "[finish_chunk, usage_chunk]"] feed_data_events_only [of "[finish_chunk]"] example_chunks
  by (simp add: chat_stream_def stream_parse_def example_steps parser_new_def stopped_def stream_finish_def sse_finish_def
      flush_event_def usage_new_def)
     (simp add: sse_new_def)

end
