(* ===== verification/Adapter.thy ===== *)
theory Adapter
  imports Acp StreamParser SsoString
begin

text \<open>
  The translation between the agent's messages and the formats of the two providers (\<open>llm/adapter.cpp\<close>), and of tool definitions,
  tool calls and tool results (\<open>tool/types.cpp\<close>, \<open>tool/types.hpp\<close>). \<open>get<String>()\<close> on a value that is no string throws, which is \<open>Inl\<close>. The text of a call's
  arguments is what the serializer writes (\<open>json_write\<close>, theory \<open>JsonSerializer\<close>).
\<close>

subsection \<open>Tool calls\<close>

text \<open>\<open>Json::parse\<close> without an error argument does not throw: the value parsed so far is returned.\<close>

definition json_parse :: "(string \<Rightarrow> 'd option) \<Rightarrow> string \<Rightarrow> 'd json" where
  "json_parse strtod s = (case parse strtod s of Some (v, e) \<Rightarrow> v | None \<Rightarrow> JNull)"

definition error_text :: "string \<times> nat \<Rightarrow> string" where
  "error_text e = fst e @ '' at position '' @ decimal (snd e)"

definition dump_text :: "('d \<Rightarrow> string) \<Rightarrow> 'd json \<Rightarrow> string" where
  "dump_text fmt v = json_write fmt (-1) 0 v"

lemma search_bound: "search ys xs = Some i \<Longrightarrow> i < length xs"
  by (induction xs arbitrary: i) (auto split: if_splits)

text \<open>Erasing, or replacing by \<open>new\<close>, every occurrence of \<open>pat\<close>, from left to right.\<close>

function replace_all :: "string \<Rightarrow> string \<Rightarrow> string \<Rightarrow> string" where
  "replace_all pat new s =
     (if pat = [] then s
      else case search pat s of None \<Rightarrow> s
           | Some p \<Rightarrow> take p s @ new @ replace_all pat new (drop (p + length pat) s))"
  by pat_completeness auto
termination
proof (relation "measure (\<lambda>(pat, new, s). length s)", goal_cases)
  case (2 pat new s p)
  then show ?case using search_bound [of pat s p] by (cases pat) auto
qed simp

declare replace_all.simps [simp del]

definition fullwidth_pipe :: string where
  "fullwidth_pipe = map char_of [0xEF, 0xBD, 0x9C :: nat]"

definition leak_patterns :: "string list" where
  "leak_patterns =
     [''</'' @ fullwidth_pipe @ ''DSML'' @ fullwidth_pipe @ ''parameter>'',
      ''</'' @ fullwidth_pipe @ ''dsml'' @ fullwidth_pipe @ ''parameter>'',
      ''</|DSML|parameter>'', ''</|dsml|parameter>'',
      ''</'' @ fullwidth_pipe @ ''parameter'' @ fullwidth_pipe @ ''>'', ''</|parameter|>'']"

definition sanitize_model_tokens :: "string \<Rightarrow> string" where
  "sanitize_model_tokens json_str =
     replace_all fullwidth_pipe ''|'' (foldl (\<lambda>s pat. replace_all pat [] s) json_str leak_patterns)"

definition from_openai :: "(string \<Rightarrow> 'd option) \<Rightarrow> 'd json \<Rightarrow> 'd tool_call" where
  "from_openai strtod j =
     (let fn = json_get j ''function'';
          args_str = sanitize_model_tokens (value_str fn ''arguments'' ''{}'')
      in \<lparr>tc_id = value_str j ''id'' [], tc_name = value_str fn ''name'' [],
          tc_arguments = (case parse strtod args_str of
            Some (v, None) \<Rightarrow> v
          | Some (v, Some e) \<Rightarrow>
              JObject [(''_parse_error'', JString (error_text e)), (''_raw_arguments'', JString args_str)]
          | None \<Rightarrow> JNull)\<rparr>)"

definition from_anthropic :: "'d json \<Rightarrow> 'd tool_call" where
  "from_anthropic j =
     \<lparr>tc_id = value_str j ''id'' [], tc_name = value_str j ''name'' [],
      tc_arguments = value_json j ''input'' (JObject [])\<rparr>"

definition to_openai_tool_message :: "'d tool_call \<Rightarrow> string \<Rightarrow> 'd json" where
  "to_openai_tool_message c result =
     JObject [(''role'', JString ''tool''), (''tool_call_id'', JString (tc_id c)), (''content'', JString result)]"

definition to_anthropic_tool_message :: "'d tool_call \<Rightarrow> string \<Rightarrow> 'd json" where
  "to_anthropic_tool_message c result =
     JObject [(''role'', JString ''user''),
       (''content'', JArray [JObject [(''type'', JString ''tool_result''), (''tool_use_id'', JString (tc_id c)),
                                      (''content'', JString result)]])]"

subsection \<open>Tool definitions\<close>

record tool_schema =
  ts_type :: string
  ts_description :: string
  ts_enum_values :: "string list"
  ts_required :: bool

record tool_definition =
  td_tool_name :: string
  td_description :: string
  td_parameters :: "(string \<times> tool_schema) list"
  td_read_only :: bool

definition schema_json :: "tool_schema \<Rightarrow> 'd json" where
  "schema_json s = JObject
     ([(''type'', JString (ts_type s)), (''description'', JString (ts_description s))] @
      (if ts_enum_values s \<noteq> [] then [(''enum'', JArray (map JString (ts_enum_values s)))] else []))"

definition params_json :: "(string \<times> tool_schema) list \<Rightarrow> 'd json" where
  "params_json ps = JObject
     [(''type'', JString ''object''),
      (''properties'', foldl (\<lambda>j (n, s). json_set n (schema_json s) j) (JObject []) ps),
      (''required'', JArray (map (\<lambda>(n, s). JString n) (filter (\<lambda>(n, s). ts_required s) ps)))]"

definition openai_tool :: "tool_definition \<Rightarrow> 'd json" where
  "openai_tool d = JObject
     [(''type'', JString ''function''),
      (''function'', JObject [(''name'', JString (td_tool_name d)), (''description'', JString (td_description d)),
                              (''parameters'', params_json (td_parameters d))])]"

definition anthropic_tool :: "tool_definition \<Rightarrow> 'd json" where
  "anthropic_tool d = JObject
     [(''name'', JString (td_tool_name d)), (''description'', JString (td_description d)),
      (''input_schema'', params_json (td_parameters d))]"

datatype tool_choice = ChoiceAuto | ChoiceNone | ChoiceRequired | ChoiceSpecific

text \<open>\<open>*tool_name\<close> of an empty optional is undefined, \<open>None\<close> here.\<close>

fun openai_choice :: "tool_choice \<Rightarrow> string option \<Rightarrow> 'd json option" where
  "openai_choice ChoiceAuto n = Some (JString ''auto'')"
| "openai_choice ChoiceNone n = Some (JString ''none'')"
| "openai_choice ChoiceRequired n = Some (JString ''required'')"
| "openai_choice ChoiceSpecific n =
     map_option (\<lambda>x. JObject [(''type'', JString ''function''), (''function'', JObject [(''name'', JString x)])]) n"

fun anthropic_choice :: "tool_choice \<Rightarrow> string option \<Rightarrow> 'd json option" where
  "anthropic_choice ChoiceAuto n = Some (JObject [(''type'', JString ''auto'')])"
| "anthropic_choice ChoiceNone n = Some (JObject [(''type'', JString ''any'')])"
| "anthropic_choice ChoiceRequired n = Some (JObject [(''type'', JString ''any'')])"
| "anthropic_choice ChoiceSpecific n =
     map_option (\<lambda>x. JObject [(''type'', JString ''tool''), (''name'', JString x)]) n"

subsection \<open>The OpenAI format\<close>

datatype json_error = NotAString

fun role_to_openai :: "role \<Rightarrow> string" where
  "role_to_openai System = ''system''"
| "role_to_openai User = ''user''"
| "role_to_openai Assistant = ''assistant''"
| "role_to_openai Tool = ''tool''"

definition role_from_openai :: "string \<Rightarrow> role" where
  "role_from_openai r =
     (if r = ''system'' then System else if r = ''user'' then User else if r = ''assistant'' then Assistant
      else if r = ''tool'' then Tool else User)"

definition openai_call :: "('d \<Rightarrow> string) \<Rightarrow> 'd tool_call \<Rightarrow> 'd json" where
  "openai_call fmt c = JObject
     [(''id'', JString (tc_id c)), (''type'', JString ''function''),
      (''function'', JObject [(''name'', JString (tc_name c)), (''arguments'', JString (dump_text fmt (tc_arguments c)))])]"

definition to_openai_format :: "('d \<Rightarrow> string) \<Rightarrow> 'd message \<Rightarrow> 'd json" where
  "to_openai_format fmt msg =
     (let role = (''role'', JString (role_to_openai (m_role msg))) in
      if m_role msg = Tool then
        (case get_tool_results msg of
           r # rs \<Rightarrow> JObject [role, (''tool_call_id'', JString (tr_id r)), (''content'', JString (tr_output r))]
         | [] \<Rightarrow> JObject [role, (''content'', JString [])])
      else case m_content msg of
          [] \<Rightarrow> JObject [role, (''content'', JString [])]
        | [Text t thinking] \<Rightarrow> JObject [role, (''content'', JString t)]
        | _ \<Rightarrow> JObject ([role, (''content'', JString (get_all_text msg))] @
                 (if has_tool_calls msg
                  then [(''tool_calls'', JArray (map (openai_call fmt) (get_tool_calls msg)))] else [])))"

definition get_string :: "'d json \<Rightarrow> json_error + string" where
  "get_string v = (case v of JString s \<Rightarrow> Inr s | _ \<Rightarrow> Inl NotAString)"

definition call_from_openai :: "(string \<Rightarrow> 'd option) \<Rightarrow> 'd json \<Rightarrow> json_error + 'd tool_call" where
  "call_from_openai strtod tool_call =
     (let id = value_str tool_call ''id'' [] in
      if json_contains tool_call ''function'' then
        let func = json_get tool_call ''function'';
            name = value_str func ''name'' []
        in if json_contains func ''arguments''
           then bind_sum (get_string (json_get func ''arguments'')) (\<lambda>args_str.
             Inr \<lparr>tc_id = id, tc_name = name, tc_arguments = json_parse strtod args_str\<rparr>)
           else Inr \<lparr>tc_id = id, tc_name = name, tc_arguments = JObject []\<rparr>
      else Inr \<lparr>tc_id = id, tc_name = [], tc_arguments = JObject []\<rparr>)"

fun calls_from_openai :: "(string \<Rightarrow> 'd option) \<Rightarrow> 'd json list \<Rightarrow> json_error + 'd Acp.block list" where
  "calls_from_openai strtod [] = Inr []"
| "calls_from_openai strtod (j # js) =
     bind_sum (call_from_openai strtod j) (\<lambda>c. bind_sum (calls_from_openai strtod js) (\<lambda>bs. Inr (ToolUse c # bs)))"

definition from_openai_format :: "(string \<Rightarrow> 'd option) \<Rightarrow> 'd json \<Rightarrow> json_error + 'd message" where
  "from_openai_format strtod j =
     (let r = role_from_openai (value_str j ''role'' ''user'') in
      if r = Tool then
        Inr \<lparr>m_role = r, m_content =
          (if json_contains j ''tool_call_id'' \<and> json_contains j ''content''
           then [ToolResult \<lparr>tr_id = value_str j ''tool_call_id'' [], tr_name = [], tr_output = value_str j ''content'' [],
                            tr_success = True\<rparr>] else [])\<rparr>
      else
        bind_sum (if json_contains j ''content'' \<and> json_get j ''content'' \<noteq> JNull
                  then map_sum id (\<lambda>t. [Text t False]) (get_string (json_get j ''content'')) else Inr []) (\<lambda>texts.
        bind_sum (case json_find j ''tool_calls'' of Some (JArray js) \<Rightarrow> calls_from_openai strtod js | _ \<Rightarrow> Inr []) (\<lambda>calls.
          Inr \<lparr>m_role = r, m_content = texts @ calls\<rparr>)))"

text \<open>The batch conversion sends every result of a tool message on its own.\<close>

definition openai_wire :: "('d \<Rightarrow> string) \<Rightarrow> 'd message \<Rightarrow> 'd json list" where
  "openai_wire fmt msg =
     (if m_role msg = Tool then
        (case get_tool_results msg of
           [] \<Rightarrow> [JObject [(''role'', JString ''tool''), (''content'', JString [])]]
         | rs \<Rightarrow> map (\<lambda>r. JObject [(''role'', JString ''tool''), (''tool_call_id'', JString (tr_id r)),
                                  (''content'', JString (tr_output r))]) rs)
      else [to_openai_format fmt msg])"

definition adapter_openai_messages :: "('d \<Rightarrow> string) \<Rightarrow> 'd message list \<Rightarrow> 'd json" where
  "adapter_openai_messages fmt msgs = JArray (concat (map (openai_wire fmt) msgs))"

subsection \<open>The Anthropic format\<close>

fun role_to_anthropic :: "role \<Rightarrow> string" where
  "role_to_anthropic System = ''system''"
| "role_to_anthropic User = ''user''"
| "role_to_anthropic Assistant = ''assistant''"
| "role_to_anthropic Tool = ''user''"

definition role_from_anthropic :: "string \<Rightarrow> role" where
  "role_from_anthropic r =
     (if r = ''system'' then System else if r = ''user'' then User else if r = ''assistant'' then Assistant else User)"

fun anthropic_block :: "'d Acp.block \<Rightarrow> 'd json list" where
  "anthropic_block (Text t thinking) = [JObject [(''type'', JString ''text''), (''text'', JString t)]]"
| "anthropic_block (ToolUse c) =
     [JObject [(''type'', JString ''tool_use''), (''id'', JString (tc_id c)), (''name'', JString (tc_name c)),
               (''input'', tc_arguments c)]]"
| "anthropic_block (ToolResult r) =
     [JObject [(''type'', JString ''tool_result''), (''tool_use_id'', JString (tr_id r)), (''content'', JString (tr_output r))]]"
| "anthropic_block (Media ct s) = []"

definition to_anthropic_format :: "'d message \<Rightarrow> 'd json" where
  "to_anthropic_format msg = JObject
     [(''role'', JString (role_to_anthropic (m_role msg))), (''content'', JArray (concat (map anthropic_block (m_content msg))))]"

definition block_from_anthropic :: "'d json \<Rightarrow> 'd Acp.block list" where
  "block_from_anthropic b =
     (let type = value_str b ''type'' ''text'' in
      if type = ''text'' then [Text (value_str b ''text'' []) False]
      else if type = ''tool_use'' then [ToolUse (from_anthropic b)]
      else if type = ''tool_result'' then
        [ToolResult \<lparr>tr_id = value_str b ''tool_use_id'' [], tr_name = [], tr_output = value_str b ''content'' [],
                     tr_success = True\<rparr>]
      else [])"

definition from_anthropic_format :: "'d json \<Rightarrow> 'd message" where
  "from_anthropic_format j = \<lparr>m_role = role_from_anthropic (value_str j ''role'' ''user''),
     m_content = (case json_find j ''content'' of
        Some (JString s) \<Rightarrow> [Text s False]
      | Some (JArray bs) \<Rightarrow> concat (map block_from_anthropic bs)
      | _ \<Rightarrow> [])\<rparr>"

definition adapter_anthropic_messages :: "'d message list \<Rightarrow> 'd json" where
  "adapter_anthropic_messages msgs = JArray (map to_anthropic_format (filter (\<lambda>m. m_role m \<noteq> System) msgs))"

definition extract_system_prompt :: "'d message list \<Rightarrow> string" where
  "extract_system_prompt msgs =
     (case find (\<lambda>m. m_role m = System) msgs of Some m \<Rightarrow> get_all_text m | None \<Rightarrow> [])"

subsection \<open>Round trips\<close>

lemma parse_write:
  assumes "plain v"
  shows "parse strtod (dump_text fmt v) = Some (reparsed v, None)"
  using write_parse [OF assms, of "[]" fmt "-1" 0 "Suc (length (json_write fmt (-1) 0 v))" strtod]
  by (simp add: dump_text_def parse_def ends_number_def del: parse_value.simps)

text \<open>A call comes back with its arguments as they are parsed again, if their text has none of the leaked tokens.\<close>

definition reparsed_call :: "'d tool_call \<Rightarrow> 'd tool_call" where
  "reparsed_call c = c\<lparr>tc_arguments := reparsed (tc_arguments c)\<rparr>"

lemma from_openai_call:
  assumes "plain (tc_arguments c)" "sanitize_model_tokens (dump_text fmt (tc_arguments c)) = dump_text fmt (tc_arguments c)"
  shows "from_openai strtod (openai_call fmt c) = reparsed_call c"
  using assms
  by (simp add: from_openai_def openai_call_def value_str_def json_get_def parse_write reparsed_call_def Let_def)

lemma call_from_openai_call:
  "plain (tc_arguments c) \<Longrightarrow> call_from_openai strtod (openai_call fmt c) = Inr (reparsed_call c)"
  by (simp add: call_from_openai_def openai_call_def value_str_def json_get_def json_contains_def get_string_def json_parse_def
      parse_write reparsed_call_def Let_def)

lemma calls_from_openai_calls:
  "list_all (\<lambda>c. plain (tc_arguments c)) cs \<Longrightarrow>
   calls_from_openai strtod (map (openai_call fmt) cs) = Inr (map (\<lambda>c. ToolUse (reparsed_call c)) cs)"
  by (induction cs) (simp_all add: call_from_openai_call)

text \<open>The messages the agent builds: a text, an assistant's text with calls, and a tool's result.\<close>

datatype 'd agent_message = AText role string | ACalls string "'d tool_call list" | AResult string string

fun agent_msg :: "'d agent_message \<Rightarrow> 'd message" where
  "agent_msg (AText r t) = text_message r t"
| "agent_msg (ACalls t cs) = \<lparr>m_role = Assistant, m_content = Text t False # map ToolUse cs\<rparr>"
| "agent_msg (AResult cid out) = tool_result_message \<lparr>tr_id = cid, tr_name = [], tr_output = out, tr_success = True\<rparr>"

fun sendable :: "'d agent_message \<Rightarrow> bool" where
  "sendable (AText r t) \<longleftrightarrow> r \<noteq> Tool"
| "sendable (ACalls t cs) \<longleftrightarrow> list_all (\<lambda>c. plain (tc_arguments c)) cs"
| "sendable (AResult cid out) \<longleftrightarrow> True"

fun received :: "'d agent_message \<Rightarrow> 'd agent_message" where
  "received (ACalls t cs) = ACalls t (map reparsed_call cs)"
| "received m = m"

lemma block_calls_map [simp]: "block_calls (map ToolUse cs) = cs"
  by (induction cs) simp_all

lemma append_text_calls [simp]: "append_text acc (map ToolUse cs) = acc"
  by (induction cs) simp_all

lemma list_ex_map_tool_use [simp]: "list_ex is_tool_use (map ToolUse cs) \<longleftrightarrow> cs \<noteq> []"
  by (cases cs) simp_all

lemma to_openai_calls:
  "to_openai_format fmt (agent_msg (ACalls t cs)) =
   JObject ([(''role'', JString ''assistant''), (''content'', JString t)] @
     (if cs \<noteq> [] then [(''tool_calls'', JArray (map (openai_call fmt) cs))] else []))"
  by (cases cs) (simp_all add: to_openai_format_def get_all_text_def has_tool_calls_def get_tool_calls_def)



text \<open>The Anthropic format keeps texts, calls and results; media are dropped and the role \<open>Tool\<close> becomes \<open>User\<close>.\<close>

fun anthropic_kept :: "'d Acp.block \<Rightarrow> 'd Acp.block list" where
  "anthropic_kept (Text t thinking) = [Text t False]"
| "anthropic_kept (ToolUse c) = [ToolUse c]"
| "anthropic_kept (ToolResult r) = [ToolResult (r\<lparr>tr_name := [], tr_success := True\<rparr>)]"
| "anthropic_kept (Media ct s) = []"

lemma anthropic_message_roundtrip:
  "from_anthropic_format (to_anthropic_format m) =
   \<lparr>m_role = (if m_role m = Tool then User else m_role m), m_content = concat (map anthropic_kept (m_content m))\<rparr>"
proof -
  have "concat (map block_from_anthropic (anthropic_block b)) = anthropic_kept b" for b :: "'a Acp.block"
    by (cases b) (simp_all add: block_from_anthropic_def from_anthropic_def value_str_def value_json_def)
  then have "concat (map block_from_anthropic (concat (map anthropic_block bs))) = concat (map anthropic_kept bs)"
    for bs :: "'a Acp.block list" by (induction bs) simp_all
  then show ?thesis
    by (cases "m_role m")
      (simp_all add: from_anthropic_format_def to_anthropic_format_def value_str_def role_from_anthropic_def)
qed

text \<open>The clean-up of leaked tokens also changes the arguments it should not touch: a full-width bar in a text becomes an ASCII bar.\<close>

lemma sanitize_changes_text: "sanitize_model_tokens (''a'' @ fullwidth_pipe @ ''b'') = ''a|b''"
  by code_simp

end
