(* ===== verification/Tools.thy ===== *)
theory Tools
  imports Adapter Permission LlmRetry
begin

text \<open>
  The tool registry and the tool manager (\<open>tool/registry.cpp\<close>, \<open>tool/manager.cpp\<close>) with the permission check that the shared resources put before
  every call (\<open>agent/shared_resources.hpp\<close>). A tool is a function on its arguments, on the permission engine (which the permission tools
  operate) and on the state \<open>'w\<close> of the world outside; it returns a text or throws. The registry is listed in the traversal order of its table. Whether the thread pool accepts a task, and whether it is done in
  time, is decided by the parameter \<open>env_run\<close>; a task that is too late still changes the world. Pipelines that run before a
  tool (checkpoints) are the parameter \<open>env_before\<close>. \<open>tm_ran\<close> records which tools were started.
\<close>

datatype exec_outcome = ExecReturned string | ExecThrew string | ExecThrewUnknown

record ('d, 'w) tool_entry =
  te_definition :: tool_definition
  te_executor :: "'d json \<Rightarrow> 'd engine \<times> 'w \<Rightarrow> exec_outcome \<times> 'd engine \<times> 'w"

type_synonym ('d, 'w) registry = "(string \<times> ('d, 'w) tool_entry) list"

datatype pool_run = SubmitFails string | RunsLate | RunsInTime

record ('d, 'w) tool_env =
  env_fmt :: "'d \<Rightarrow> string"
  env_strtod :: "string \<Rightarrow> 'd option"
  env_fs :: fs
  env_now :: "nat \<Rightarrow> string"
  env_before :: "string \<Rightarrow> 'd json \<Rightarrow> 'w \<Rightarrow> 'd json \<times> 'w"
  env_run :: "nat \<Rightarrow> pool_run"

record ('d, 'w) tool_state =
  tm_engine :: "'d engine"
  tm_world :: 'w
  tm_calls :: nat
  tm_ran :: "(string \<times> 'd json) list"

subsection \<open>The registry\<close>

definition register_tool ::
  "string \<Rightarrow> string \<Rightarrow> (string \<times> tool_schema) list \<Rightarrow> ('d json \<Rightarrow> 'd engine \<times> 'w \<Rightarrow> exec_outcome \<times> 'd engine \<times> 'w) \<Rightarrow>
   bool \<Rightarrow> ('d, 'w) registry \<Rightarrow> ('d, 'w) registry" where
  "register_tool name description parameters executor read_only reg =
     obj_set name \<lparr>te_definition = \<lparr>td_tool_name = name, td_description = description, td_parameters = parameters,
       td_read_only = read_only\<rparr>, te_executor = executor\<rparr> reg"

definition reg_find :: "('d, 'w) registry \<Rightarrow> string \<Rightarrow> ('d, 'w) tool_entry option" where
  "reg_find reg name = map_of reg name"

definition has_tool :: "('d, 'w) registry \<Rightarrow> string \<Rightarrow> bool" where
  "has_tool reg name \<longleftrightarrow> reg_find reg name \<noteq> None"

definition is_read_only :: "('d, 'w) registry \<Rightarrow> string \<Rightarrow> bool" where
  "is_read_only reg name \<longleftrightarrow>
     (case reg_find reg name of Some entry \<Rightarrow> td_read_only (te_definition entry) | None \<Rightarrow> False)"

definition set_read_only :: "string \<Rightarrow> bool \<Rightarrow> ('d, 'w) registry \<Rightarrow> ('d, 'w) registry" where
  "set_read_only name ro reg =
     (case reg_find reg name of
        Some entry \<Rightarrow> obj_set name (entry\<lparr>te_definition := (te_definition entry)\<lparr>td_read_only := ro\<rparr>\<rparr>) reg
      | None \<Rightarrow> reg)"

definition unregister_tool :: "string \<Rightarrow> ('d, 'w) registry \<Rightarrow> bool \<times> ('d, 'w) registry" where
  "unregister_tool name reg = (has_tool reg name, filter (\<lambda>(n, e). n \<noteq> name) reg)"

definition to_openai_tools :: "('d, 'w) registry \<Rightarrow> 'd json" where
  "to_openai_tools reg = JArray (map (\<lambda>(n, e). openai_tool (te_definition e)) reg)"

definition to_anthropic_tools :: "('d, 'w) registry \<Rightarrow> 'd json" where
  "to_anthropic_tools reg = JArray (map (\<lambda>(n, e). anthropic_tool (te_definition e)) reg)"

definition reg_names :: "('d, 'w) registry \<Rightarrow> string list" where
  "reg_names reg = map (\<lambda>(n, e). c_str n) reg"

text \<open>\<open>coerce_argument_types\<close>: the new value of one member. \<open>std::stod\<close> is \<open>env_strtod\<close>.\<close>

definition coerce_value :: "('d, 'w) tool_env \<Rightarrow> string \<Rightarrow> 'd json \<Rightarrow> 'd json" where
  "coerce_value env type val =
     (if type = ''string'' then
        (case val of
           JBool b \<Rightarrow> JString (if b then ''true'' else ''false'')
         | JInt i \<Rightarrow> JString (dump_text (env_fmt env) val)
         | JUint n \<Rightarrow> JString (dump_text (env_fmt env) val)
         | JDouble d \<Rightarrow> JString (dump_text (env_fmt env) val)
         | _ \<Rightarrow> val)
      else case val of
          JString s \<Rightarrow>
            if type = ''number'' then (case env_strtod env s of Some d \<Rightarrow> JDouble d | None \<Rightarrow> val)
            else if type = ''boolean'' then
              (if s = ''true'' \<or> s = ''1'' then JBool True
               else if s = ''false'' \<or> s = ''0'' then JBool False else val)
            else if type = ''integer'' then (case stoi s of Some i \<Rightarrow> JInt i | None \<Rightarrow> val)
            else if type = ''array'' \<or> type = ''object'' then json_parse (env_strtod env) s
            else val
        | _ \<Rightarrow> val)"

definition coerce_argument_types :: "('d, 'w) tool_env \<Rightarrow> 'd json \<Rightarrow> tool_definition \<Rightarrow> 'd json" where
  "coerce_argument_types env args def =
     (if \<not> is_object args then args
      else foldl (\<lambda>result (key, schema).
             case json_find result key of
               None \<Rightarrow> result
             | Some val \<Rightarrow> json_set key (coerce_value env (ts_type schema) val) result)
           args (td_parameters def))"

definition format_tool_error :: "('d, 'w) tool_env \<Rightarrow> string \<Rightarrow> 'd json \<Rightarrow> tool_definition \<Rightarrow> string" where
  "format_tool_error env msg arguments def =
     ''Tool error: '' @ msg @ [LF, LF] @ ''Expected parameters:'' @ [LF] @
     concat (map (\<lambda>(n, s). ''- '' @ n @ '' ('' @ ts_type s @ ''): '' @ ts_description s @ [LF]) (td_parameters def)) @
     [LF] @ ''Received arguments:'' @ [LF] @ json_write (env_fmt env) 2 0 arguments"

record exec_result =
  ex_success :: bool
  ex_output :: string
  ex_error :: string

definition tool_not_found :: "('d, 'w) registry \<Rightarrow> string \<Rightarrow> exec_result" where
  "tool_not_found reg name = \<lparr>ex_success = False, ex_output = [],
     ex_error = c_str (''Tool '' @ [CHR 0x27] @ name @ [CHR 0x27] @ '' does not exist. Available tools: '' @
       join '', '' (reg_names reg))\<rparr>"

definition reg_execute ::
  "('d, 'w) tool_env \<Rightarrow> ('d, 'w) registry \<Rightarrow> string \<Rightarrow> 'd json \<Rightarrow> 'd engine \<times> 'w \<Rightarrow>
   exec_result \<times> 'd engine \<times> 'w" where
  "reg_execute env reg name arguments w =
     (case reg_find reg name of
        None \<Rightarrow> (tool_not_found reg name, w)
      | Some entry \<Rightarrow>
          let quote = (\<lambda>what. ''tool '' @ [CHR 0x27] @ name @ [CHR 0x27] @ '' failed: '' @ what) in
          (case te_executor entry (coerce_argument_types env arguments (te_definition entry)) w of
             (ExecReturned result, w') \<Rightarrow> (\<lparr>ex_success = True, ex_output = result, ex_error = []\<rparr>, w')
           | (ExecThrew e, w') \<Rightarrow>
               (\<lparr>ex_success = False, ex_output = [],
                 ex_error = quote (format_tool_error env e arguments (te_definition entry))\<rparr>, w')
           | (ExecThrewUnknown, w') \<Rightarrow> (\<lparr>ex_success = False, ex_output = [], ex_error = quote ''unknown exception''\<rparr>, w')))"

record 'd plan_filter =
  pf_allowed :: "'d tool_call list"
  pf_blocked_calls :: "'d tool_call list"
  pf_blocked_results :: "tool_result list"

definition blocked_result :: "'d tool_call \<Rightarrow> tool_result" where
  "blocked_result c = \<lparr>tr_id = tc_id c, tr_name = tc_name c,
     tr_output = ''plan mode: read-only, tool blocked. Use /plan off to enable write operations.'', tr_success = False\<rparr>"

fun filter_plan_mode_tools :: "('d, 'w) registry \<Rightarrow> 'd tool_call list \<Rightarrow> 'd plan_filter" where
  "filter_plan_mode_tools reg [] = \<lparr>pf_allowed = [], pf_blocked_calls = [], pf_blocked_results = []\<rparr>"
| "filter_plan_mode_tools reg (c # cs) =
     (let f = filter_plan_mode_tools reg cs in
      if is_read_only reg (tc_name c) then f\<lparr>pf_allowed := c # pf_allowed f\<rparr>
      else f\<lparr>pf_blocked_calls := c # pf_blocked_calls f, pf_blocked_results := blocked_result c # pf_blocked_results f\<rparr>)"

subsection \<open>Permission before a call\<close>

definition tool_uses_command_pipeline :: "string \<Rightarrow> bool" where
  "tool_uses_command_pipeline name \<longleftrightarrow>
     name \<in> {''apply_patch'', ''revert_patch'', ''run_tests'', ''restore_checkpoint'', ''delete_checkpoint'',
       ''git_restore'', ''git_commit'', ''git_branch'', ''git_worktree''}"

definition provider_permission ::
  "('d, 'w) tool_env \<Rightarrow> string \<Rightarrow> 'd json \<Rightarrow> ('d, 'w) tool_state \<Rightarrow> perm_fault + ('d decision \<times> ('d, 'w) tool_state)" where
  "provider_permission env name arguments st =
     (if tool_uses_command_pipeline name
      then Inr (allow ''command.pipeline'' ''governed by application command pipeline'', st)
      else bind_sum (evaluate_tool_permission (env_fs env) (env_fmt env) (env_now env (tm_calls st)) name arguments (tm_engine st))
             (\<lambda>(d, e). Inr (d, st\<lparr>tm_engine := e\<rparr>)))"

subsection \<open>The manager\<close>

definition make_tool_error :: "'d tool_call \<Rightarrow> string \<Rightarrow> tool_result" where
  "make_tool_error c message = \<lparr>tr_id = tc_id c, tr_name = tc_name c, tr_output = ''Error: '' @ message, tr_success = False\<rparr>"

definition make_tool_json_error :: "('d, 'w) tool_env \<Rightarrow> 'd tool_call \<Rightarrow> 'd json \<Rightarrow> perm_fault + tool_result" where
  "make_tool_json_error env c error =
     bind_sum (dump (env_fmt env) error) (\<lambda>out.
       Inr \<lparr>tr_id = tc_id c, tr_name = tc_name c, tr_output = out, tr_success = False\<rparr>)"

definition k_max_tool_output :: nat where
  "k_max_tool_output = 200000"

definition truncate_tool_output :: "tool_result \<Rightarrow> tool_result" where
  "truncate_tool_output r =
     (if length (tr_output r) \<le> k_max_tool_output then r
      else r\<lparr>tr_output := take k_max_tool_output (tr_output r) @ [LF] @ ''...[truncated, original_size='' @
             decimal (length (tr_output r)) @ '']''\<rparr>)"

definition output_is_structured_failure :: "('d, 'w) tool_env \<Rightarrow> string \<Rightarrow> bool" where
  "output_is_structured_failure env output \<longleftrightarrow>
     (let j = json_parse (env_strtod env) output
      in is_object j \<and> json_contains j ''success'' \<and> \<not> value_bool j ''success'' True)"

definition run_tool ::
  "('d, 'w) tool_env \<Rightarrow> ('d, 'w) registry \<Rightarrow> 'd tool_call \<Rightarrow> ('d, 'w) tool_state \<Rightarrow> tool_result \<times> ('d, 'w) tool_state" where
  "run_tool env reg c st =
     (let (ex, e, w) = reg_execute env reg (tc_name c) (tc_arguments c) (tm_engine st, tm_world st)
      in (\<lparr>tr_id = tc_id c, tr_name = tc_name c,
           tr_output = (if ex_success ex then ex_output ex else ''Error: '' @ ex_error ex),
           tr_success = ex_success ex \<and> \<not> output_is_structured_failure env (ex_output ex)\<rparr>,
          st\<lparr>tm_engine := e, tm_world := w, tm_ran := tm_ran st @ [(tc_name c, tc_arguments c)]\<rparr>))"

definition timeout_result :: "'d tool_call \<Rightarrow> tool_result" where
  "timeout_result c = \<lparr>tr_id = tc_id c, tr_name = tc_name c, tr_output = ''Error: Tool execution timeout'', tr_success = False\<rparr>"

definition execute_tool ::
  "('d, 'w) tool_env \<Rightarrow> ('d, 'w) registry \<Rightarrow> 'd tool_call \<Rightarrow> ('d, 'w) tool_state \<Rightarrow>
   perm_fault + (tool_result \<times> ('d, 'w) tool_state)" where
  "execute_tool env reg c st0 =
     (let st = st0\<lparr>tm_calls := tm_calls st0 + 1\<rparr> in
      bind_sum (provider_permission env (tc_name c) (tc_arguments c) st) (\<lambda>(d, st1).
        if \<not> allowed d then
          bind_sum (make_tool_json_error env c (decision_to_json d)) (\<lambda>r. Inr (r, st1))
        else
          let (before, w) = env_before env (tc_name c) (tc_arguments c) (tm_world st1);
              st2 = st1\<lparr>tm_world := w\<rparr>
          in if \<not> value_bool before ''success'' True then
               bind_sum (make_tool_json_error env c before) (\<lambda>r. Inr (r, st2))
             else case env_run env (tm_calls st0) of
                 SubmitFails e \<Rightarrow> Inr (make_tool_error c e, st2)
               | RunsLate \<Rightarrow> Inr (timeout_result c, snd (run_tool env reg c st2))
               | RunsInTime \<Rightarrow> (let (r, st3) = run_tool env reg c st2 in Inr (truncate_tool_output r, st3))))"

fun execute_tools ::
  "('d, 'w) tool_env \<Rightarrow> ('d, 'w) registry \<Rightarrow> 'd tool_call list \<Rightarrow> ('d, 'w) tool_state \<Rightarrow>
   perm_fault + (tool_result list \<times> ('d, 'w) tool_state)" where
  "execute_tools env reg [] st = Inr ([], st)"
| "execute_tools env reg (c # cs) st =
     bind_sum (execute_tool env reg c st) (\<lambda>(r, st1).
     bind_sum (execute_tools env reg cs st1) (\<lambda>(rs, st2). Inr (r # rs, st2)))"

subsection \<open>Calls in a response\<close>

definition extract_openai_tool_calls :: "(string \<Rightarrow> 'd option) \<Rightarrow> 'd json \<Rightarrow> 'd tool_call list" where
  "extract_openai_tool_calls strtod response =
     (case json_find response ''choices'' of
        Some (JArray choices) \<Rightarrow>
          concat (map (\<lambda>choice. map (from_openai strtod) (json_elements (json_get (json_get choice ''message'') ''tool_calls'')))
            choices)
      | _ \<Rightarrow> [])"

definition extract_anthropic_tool_calls :: "'d json \<Rightarrow> 'd tool_call list" where
  "extract_anthropic_tool_calls response =
     (case json_find response ''content'' of
        Some (JArray blocks) \<Rightarrow> map from_anthropic (filter (\<lambda>b. value_str b ''type'' [] = ''tool_use'') blocks)
      | _ \<Rightarrow> [])"

definition build_openai_tool_results :: "tool_result list \<Rightarrow> 'd json" where
  "build_openai_tool_results rs = JArray (map (\<lambda>r. JObject [(''role'', JString ''tool''),
     (''tool_call_id'', JString (tr_id r)), (''content'', JString (tr_output r))]) rs)"

definition build_anthropic_tool_results :: "tool_result list \<Rightarrow> 'd json" where
  "build_anthropic_tool_results rs = JObject [(''role'', JString ''user''),
     (''content'', JArray (map (\<lambda>r. JObject [(''type'', JString ''tool_result''),
        (''tool_use_id'', JString (tr_id r)), (''content'', JString (tr_output r))]) rs))]"

datatype provider = OpenAI | Anthropic

fun response_has_tool_calls :: "'d json \<Rightarrow> provider \<Rightarrow> bool" where
  "response_has_tool_calls response OpenAI =
     (case json_find response ''choices'' of
        Some (JArray choices) \<Rightarrow>
          list_ex (\<lambda>choice. json_contains choice ''message'' \<and> json_contains (json_get choice ''message'') ''tool_calls'' \<and>
            \<not> json_empty (json_get (json_get choice ''message'') ''tool_calls'')) choices
      | _ \<Rightarrow> False)"
| "response_has_tool_calls response Anthropic =
     (case json_find response ''content'' of
        Some (JArray blocks) \<Rightarrow> list_ex (\<lambda>b. value_str b ''type'' [] = ''tool_use'') blocks
      | _ \<Rightarrow> False)"

subsection \<open>Properties\<close>

lemma run_tool_result:
  "tr_id (fst (run_tool env reg c st)) = tc_id c" "tr_name (fst (run_tool env reg c st)) = tc_name c"
  "tm_ran (snd (run_tool env reg c st)) = tm_ran st @ [(tc_name c, tc_arguments c)]"
  "tm_calls (snd (run_tool env reg c st)) = tm_calls st"
  by (simp_all add: run_tool_def split: prod.split)

lemma truncate_tool_output_fields [simp]:
  "tr_id (truncate_tool_output r) = tr_id r" "tr_name (truncate_tool_output r) = tr_name r"
  "tr_success (truncate_tool_output r) = tr_success r"
  by (simp_all add: truncate_tool_output_def)

lemma json_error_fields:
  assumes "make_tool_json_error env c j = Inr r"
  shows "tr_id r = tc_id c" "tr_name r = tc_name c" "\<not> tr_success r"
  using assms by (auto simp: make_tool_json_error_def bind_sum_Inr)

lemma provider_permission_keeps:
  assumes "provider_permission env name args st = Inr (d, st')"
  shows "tm_world st' = tm_world st" "tm_ran st' = tm_ran st" "tm_calls st' = tm_calls st"
  using assms by (auto simp: provider_permission_def bind_sum_Inr split: if_splits)

lemma filter_plan_mode_tools_eq:
  "filter_plan_mode_tools reg cs = \<lparr>pf_allowed = filter (\<lambda>c. is_read_only reg (tc_name c)) cs,
     pf_blocked_calls = filter (\<lambda>c. \<not> is_read_only reg (tc_name c)) cs,
     pf_blocked_results = map blocked_result (filter (\<lambda>c. \<not> is_read_only reg (tc_name c)) cs)\<rparr>"
  by (induction cs) (simp_all add: Let_def)

text \<open>What one execution does: it is refused, or it is permitted and the tool is started at most once.\<close>

lemma execute_tool_cases:
  assumes "execute_tool env reg c st = Inr (r, st')"
  obtains (refused) d where
      "provider_permission env (tc_name c) (tc_arguments c) (st\<lparr>tm_calls := tm_calls st + 1\<rparr>) = Inr (d, st')" "\<not> allowed d"
      "make_tool_json_error env c (decision_to_json d) = Inr r"
    | (permitted) d st1 where
      "provider_permission env (tc_name c) (tc_arguments c) (st\<lparr>tm_calls := tm_calls st + 1\<rparr>) = Inr (d, st1)" "allowed d"
      "tr_id r = tc_id c" "tr_name r = tc_name c" "tm_calls st' = tm_calls st1"
      "tm_ran st' = tm_ran st1 \<and> \<not> tr_success r \<or> tm_ran st' = tm_ran st1 @ [(tc_name c, tc_arguments c)]"
proof -
  obtain d st1 where p: "provider_permission env (tc_name c) (tc_arguments c) (st\<lparr>tm_calls := tm_calls st + 1\<rparr>) = Inr (d, st1)"
    using assms by (auto simp: execute_tool_def Let_def bind_sum_Inr)
  show thesis
  proof (cases "allowed d")
    case False
    then have "make_tool_json_error env c (decision_to_json d) = Inr r" "st' = st1"
      using assms p by (auto simp: execute_tool_def Let_def bind_sum_Inr)
    then show thesis using refused p False by blast
  next
    case True
    obtain before w where b: "env_before env (tc_name c) (tc_arguments c) (tm_world st1) = (before, w)" by fastforce
    let ?st2 = "st1\<lparr>tm_world := w\<rparr>"
    show thesis
    proof (cases "value_bool before ''success'' True")
      case False
      then have "make_tool_json_error env c before = Inr r" "st' = ?st2"
        using assms p True b by (auto simp: execute_tool_def Let_def bind_sum_Inr)
      then show thesis using permitted [OF p True] json_error_fields by fastforce
    next
      case before: True
      have run: "(case env_run env (tm_calls st) of
          SubmitFails e \<Rightarrow> Inr (make_tool_error c e, ?st2)
        | RunsLate \<Rightarrow> Inr (timeout_result c, snd (run_tool env reg c ?st2))
        | RunsInTime \<Rightarrow> (let (r, st3) = run_tool env reg c ?st2 in Inr (truncate_tool_output r, st3))) = (Inr (r, st') :: perm_fault + _)"
        using assms p True b before by (simp add: execute_tool_def Let_def)
      then show thesis
        using permitted [OF p True] run_tool_result [of env reg c ?st2]
        by (cases "env_run env (tm_calls st)")
          (auto simp: make_tool_error_def timeout_result_def Let_def split: prod.splits)
    qed
  qed
qed

lemma execute_tool_result:
  assumes "execute_tool env reg c st = Inr (r, st')"
  shows "tr_id r = tc_id c" and "tr_name r = tc_name c" and "tm_calls st' = tm_calls st + 1"
    and "tm_ran st' = tm_ran st \<or> tm_ran st' = tm_ran st @ [(tc_name c, tc_arguments c)]"
  using assms
  by (cases rule: execute_tool_cases; auto dest: provider_permission_keeps json_error_fields)+

lemma execute_tools_result:
  "execute_tools env reg cs st = Inr (rs, st') \<Longrightarrow> map tr_id rs = map tc_id cs \<and> map tr_name rs = map tc_name cs"
proof (induction cs arbitrary: st rs)
  case (Cons c cs)
  then obtain r st1 rs1 where "execute_tool env reg c st = Inr (r, st1)"
    and "execute_tools env reg cs st1 = Inr (rs1, st')" "rs = r # rs1"
    by (auto simp: bind_sum_Inr)
  then show ?case using Cons.IH execute_tool_result(1,2) by auto
qed simp


definition demo_entry :: "(unit, unit) tool_entry" where
  "demo_entry = \<lparr>te_definition = \<lparr>td_tool_name = ''mkdir'', td_description = [], td_parameters = [], td_read_only = False\<rparr>,
     te_executor = (\<lambda>args w. (ExecReturned ''created'', w))\<rparr>"

definition demo_env :: "(unit, unit) tool_env" where
  "demo_env = \<lparr>env_fmt = no_fmt, env_strtod = (\<lambda>s. None), env_fs = plain_fs, env_now = (\<lambda>n. ''t''),
     env_before = (\<lambda>name args w. (JObject [(''success'', JBool True)], w)), env_run = (\<lambda>n. RunsInTime)\<rparr>"

definition demo_call :: "unit tool_call" where
  "demo_call = \<lparr>tc_id = ''c1'', tc_name = ''mkdir'', tc_arguments = mkdir_args\<rparr>"

definition demo_state :: "(unit, unit) tool_state" where
  "demo_state = \<lparr>tm_engine = (engine_new ''/w'' 1)\<lparr>approved_once := {mkdir_fp}\<rparr>, tm_world = (), tm_calls = 0, tm_ran = []\<rparr>"


end
