(* ===== verification/Protocol.thy ===== *)
theory Protocol
  imports Compactor
begin

text \<open>
  The rule that the providers impose on a conversation, and which the comments of \<open>agent/agent.cpp\<close> refer to: every call of an assistant
  message is answered, by exactly one result each and in the order of the calls, before any other message. The rule is a small automaton whose state is the list of
  the ids that still need a result. The operations of the history and the compaction keep it.
\<close>

text \<open>One message; \<open>None\<close> is a violation.\<close>

fun protocol_step :: "string list \<Rightarrow> 'd message \<Rightarrow> string list option" where
  "protocol_step open_ids m =
     (if m_role m = Tool then
        (let ids = result_ids m in
         if ids \<noteq> [] \<and> take (length ids) open_ids = ids then Some (drop (length ids) open_ids) else None)
      else if open_ids \<noteq> [] \<or> result_ids m \<noteq> [] then None
      else Some (if m_role m = Assistant then call_ids m else []))"

fun protocol_run :: "string list \<Rightarrow> 'd message list \<Rightarrow> string list option" where
  "protocol_run open_ids [] = Some open_ids"
| "protocol_run open_ids (m # ms) = Option.bind (protocol_step open_ids m) (\<lambda>ids. protocol_run ids ms)"

declare protocol_step.simps [simp del]

definition answered :: "'d message list \<Rightarrow> bool" where
  "answered ms \<longleftrightarrow> protocol_run [] ms = Some []"

lemma protocol_run_append:
  "protocol_run ids (ms @ ms') = Option.bind (protocol_run ids ms) (\<lambda>ids. protocol_run ids ms')"
  by (induction ms arbitrary: ids) (simp_all add: bind_assoc)

lemma answered_append: "answered ms \<Longrightarrow> answered ms' \<Longrightarrow> answered (ms @ ms')"
  by (simp add: answered_def protocol_run_append)

lemma answered_append_iff: "answered ms \<Longrightarrow> answered (ms @ ms') \<longleftrightarrow> answered ms'"
  by (simp add: answered_def protocol_run_append)

lemma answered_Nil [simp]: "answered []"
  by (simp add: answered_def)

lemma answered_concat: "(\<And>ms. ms \<in> set mss \<Longrightarrow> answered ms) \<Longrightarrow> answered (concat mss)"
  by (induction mss) (simp_all add: answered_append)

lemma text_message_ids [simp]: "result_ids (text_message r t) = []" "call_ids (text_message r t) = []" "m_role (text_message r t) = r"
  by (simp_all add: text_message_def result_ids_def call_ids_def get_tool_calls_def get_tool_results_def)

lemma protocol_text: "r \<noteq> Tool \<Longrightarrow> protocol_step [] (text_message r t) = Some []"
  by (simp add: protocol_step.simps)

lemma answered_text: "r \<noteq> Tool \<Longrightarrow> answered (text_message r t # ms) \<longleftrightarrow> answered ms"
  by (simp add: answered_def protocol_text)

text \<open>A user or system message may only stand where nothing is open.\<close>

lemma protocol_step_other:
  "m_role m \<noteq> Tool \<Longrightarrow> m_role m \<noteq> Assistant \<Longrightarrow> protocol_step ids m = Some ids' \<longleftrightarrow> ids = [] \<and> result_ids m = [] \<and> ids' = []"
  by (auto simp: protocol_step.simps)

subsection \<open>Results after calls\<close>

lemma protocol_result:
  "protocol_step (i # ids) (tool_result_message r) = (if tr_id r = i then Some ids else None)"
  by (simp add: protocol_step.simps tool_result_message_def result_ids_def get_tool_results_def)

lemma protocol_results:
  "map tr_id rs = ids \<Longrightarrow> protocol_run (ids @ rest) (map tool_result_message rs) = Some rest"
  by (induction rs arbitrary: ids) (auto simp: protocol_result)

lemma answered_turn:
  assumes "m_role m = Assistant" "result_ids m = []" "map tr_id rs = call_ids m"
  shows "answered (m # map tool_result_message rs)"
  using assms(1,2) protocol_results [OF assms(3), of "[]"] by (simp add: answered_def protocol_step.simps)

subsection \<open>Operations of the history\<close>

lemma h_messages_add [simp]: "h_messages (add_message fmt m h) = h_messages h @ [m]"
  by (simp add: add_message_def invalidate_caches_def Let_def)

lemma h_messages_foldl_add: "h_messages (foldl (\<lambda>h m. add_message fmt m h) h ms) = h_messages h @ ms"
  by (induction ms arbitrary: h) simp_all

lemma h_messages_invalidate [simp]: "h_messages (invalidate_all_cache h) = h_messages h"
  "h_messages (set_prune_config cfg h) = h_messages h"
  by (simp_all add: invalidate_all_cache_def set_prune_config_def invalidate_caches_def)

lemma original_tokens_messages [simp]: "h_messages (snd (original_tokens fmt h)) = h_messages h"
  by (simp add: original_tokens_def Let_def)

lemma prune_full_messages [simp]: "h_messages (prune_full fmt h) = h_messages h"
  by (simp add: prune_full_def Let_def)

lemma pruned_messages_messages: "pruned_messages fmt h = Some (ms, h') \<Longrightarrow> h_messages h' = h_messages h"
  by (auto simp: pruned_messages_def Let_def split: if_splits)

lemma pruned_tokens_messages: "pruned_tokens fmt h = Some (n, h') \<Longrightarrow> h_messages h' = h_messages h"
  by (auto simp: pruned_tokens_def bind_eq_Some_conv Let_def dest: pruned_messages_messages split: if_splits)

lemma to_openai_messages_messages: "to_openai_messages fmt co h = Some (j, h') \<Longrightarrow> h_messages h' = h_messages h"
  by (auto simp: to_openai_messages_def bind_eq_Some_conv Let_def dest: pruned_messages_messages split: if_splits)

lemma to_anthropic_messages_messages: "to_anthropic_messages fmt ca h = Some (j, h') \<Longrightarrow> h_messages h' = h_messages h"
  by (auto simp: to_anthropic_messages_def bind_eq_Some_conv Let_def dest: pruned_messages_messages split: if_splits)

lemma system_loop_run:
  "system_loop nxt found ms = (ms', f, c) \<Longrightarrow> protocol_run ids ms = Some ids' \<Longrightarrow> protocol_run ids ms' = Some ids'"
proof (induction ms arbitrary: found ms' f c ids)
  case (Cons m ms)
  obtain ids1 where step: "protocol_step ids m = Some ids1" "protocol_run ids1 ms = Some ids'"
    using Cons.prems(2) by (auto simp: bind_eq_Some_conv)
  have sys: "ids = [] \<and> ids1 = []" if "m_role m = System"
    using step(1) that protocol_step_other [of m ids ids1] by simp
  obtain ms1 f1 c1 where loop: "system_loop nxt (if m_role m \<noteq> System then found else True) ms = (ms1, f1, c1)"
    by (cases "system_loop nxt (if m_role m \<noteq> System then found else True) ms")
  from Cons.IH [OF this step(2)] have run: "protocol_run ids1 ms1 = Some ids'" .
  have "ms' = m # ms1 \<or> m_role m = System \<and> ms' = text_message System nxt # ms1 \<or> m_role m = System \<and> ms' = ms1"
    using Cons.prems(1) loop by (auto split: if_splits prod.splits)
  then show ?case
  proof (elim disjE conjE)
    assume "m_role m = System" "ms' = text_message System nxt # ms1"
    then show ?thesis using run sys by (simp add: protocol_text)
  qed (use run sys step(1) in auto)
qed simp

lemma set_system_prompt_answered:
  assumes "answered (h_messages h)"
  shows "answered (h_messages (snd (set_system_prompt content h)))"
proof -
  obtain ms f c where loop: "system_loop content False (h_messages h) = (ms, f, c)"
    by (cases "system_loop content False (h_messages h)")
  have "answered ms" using system_loop_run [OF loop] assms by (simp add: answered_def)
  then show ?thesis
    using answered_text [of System content ms] by (simp add: set_system_prompt_def loop Let_def)
qed

subsection \<open>Compaction\<close>

text \<open>The rounds of a conversation: all but the last are complete, and in the last one the same ids are open as in the conversation.\<close>

definition rounds_ok :: "string list \<Rightarrow> 'd round list \<Rightarrow> bool" where
  "rounds_ok ids rs \<longleftrightarrow> (\<forall>r \<in> set (butlast rs). answered (round_messages r)) \<and>
     (rs \<noteq> [] \<longrightarrow> protocol_run [] (round_messages (last rs)) = Some ids)"

lemma add_execution_snoc: "add_execution (rs @ [r]) m = rs @ [r\<lparr>execution := execution r @ [m]\<rparr>]"
proof (induction rs)
  case (Cons a rs)
  then show ?case by (cases "rs @ [r]") simp_all
qed simp

lemma split_step_ok:
  assumes "rounds_ok ids rs" "protocol_step ids m = Some ids'"
  shows "rounds_ok ids' (split_step rs m)"
proof -
  consider (sys) "m_role m = System" | (user) "m_role m = User" | (exec) "m_role m \<noteq> System" "m_role m \<noteq> User" by auto
  then show ?thesis
  proof cases
    case sys
    then show ?thesis using assms protocol_step_other [of m ids ids'] by simp
  next
    case user
    then have "ids = []" "ids' = []" using assms(2) protocol_step_other [of m ids ids'] by simp_all
    moreover have "\<forall>r \<in> set rs. answered (round_messages r)"
      using assms(1) \<open>ids = []\<close> by (cases rs rule: rev_cases) (auto simp: rounds_ok_def answered_def)
    ultimately show ?thesis using user assms(2) by (simp add: rounds_ok_def round_messages_def)
  next
    case exec
    show ?thesis
    proof (cases rs rule: rev_cases)
      case Nil
      then show ?thesis using exec by (simp add: rounds_ok_def)
    next
      case (snoc rs1 r)
      have "round_messages (r\<lparr>execution := execution r @ [m]\<rparr>) = round_messages r @ [m]"
        by (simp add: round_messages_def)
      then show ?thesis
        using exec assms by (auto simp: snoc rounds_ok_def add_execution_snoc protocol_run_append)
    qed
  qed
qed

lemma split_rounds_ok:
  "protocol_run ids ms = Some ids' \<Longrightarrow> rounds_ok ids rs \<Longrightarrow> rounds_ok ids' (foldl split_step rs ms)"
  by (induction ms arbitrary: ids rs) (auto simp: bind_eq_Some_conv simp del: split_step.simps dest: split_step_ok)

lemma split_rounds_answered:
  assumes "answered (h_messages h)" "r \<in> set (split_rounds h)"
  shows "answered (round_messages r)"
proof -
  have "rounds_ok [] (split_rounds h)"
    using split_rounds_ok [of "[]" "h_messages h" "[]" "[]"] assms(1)
    by (simp add: split_rounds_def answered_def rounds_ok_def)
  then show ?thesis
    using assms(2) by (cases "split_rounds h" rule: rev_cases) (auto simp: rounds_ok_def answered_def)
qed

lemma summary_messages_answered: "answered (summary_messages sums i rs)"
  by (induction rs arbitrary: i) (auto simp: answered_text split: option.split)

lemma protocol_system:
  "protocol_run ids ms = Some ids' \<Longrightarrow> m \<in> set ms \<Longrightarrow> m_role m = System \<Longrightarrow> result_ids m = []"
  by (induction ms arbitrary: ids) (auto simp: bind_eq_Some_conv protocol_step_other)

lemma first_system_answered:
  assumes "answered ms"
  shows "answered (first_system ms)"
proof (cases "find (\<lambda>m. m_role m = System) ms")
  case (Some m)
  then have "m \<in> set ms" "m_role m = System" by (auto simp: find_Some_iff)
  with assms protocol_system [of "[]" ms "[]" m] have "protocol_step [] m = Some []"
    by (simp add: answered_def protocol_step_other)
  then show ?thesis using Some by (simp add: first_system_def answered_def)
qed (simp add: first_system_def)

lemma hist_swap_messages [simp]: "h_messages (fst (hist_swap h other)) = h_messages other"
  by (simp add: hist_swap_def invalidate_all_cache_def invalidate_caches_def)

lemma compact_answered:
  assumes "answered (h_messages h)"
  shows "answered (h_messages (snd (compact fmt instr chat cfg keep calls h)))"
proof -
  have recent: "answered (concat (map round_messages (drop n (split_rounds h))))" for n
    using split_rounds_answered [OF assms] by (intro answered_concat) (auto dest: in_set_dropD)
  have "answered (first_system (h_messages h) @ summary_messages sums 0 rs @
      concat (map round_messages (drop n (split_rounds h))))" for sums rs n
    by (intro answered_append first_system_answered assms summary_messages_answered recent)
  then show ?thesis
    using assms
    by (simp add: compact_def Let_def h_messages_foldl_add hist_new_def split: prod.split)
qed

lemma force_loop_answered:
  "force_loop fmt instr chat cfg safe max_calls i lvls compactions calls h = Some (ok, n, h') \<Longrightarrow>
   answered (h_messages h) \<Longrightarrow> answered (h_messages h')"
proof (induction lvls arbitrary: i compactions calls h)
  case (Cons lvl lvls)
  obtain est h1 where h1: "pruned_tokens fmt (invalidate_all_cache (set_prune_config (level_config lvl (prune_config h)) h)) = Some (est, h1)"
    using Cons.prems(1) by (auto simp: bind_eq_Some_conv)
  from pruned_tokens_messages [OF this] Cons.prems(2) have a1: "answered (h_messages h1)" by simp
  obtain calls2 h2 where h2: "compact fmt instr chat cfg (level_keep cfg i lvl) calls h1 = (calls2, h2)" by fastforce
  have a2: "answered (h_messages h2)" using compact_answered [OF a1, of fmt instr chat cfg "level_keep cfg i lvl" calls] h2 by simp
  have a3: "answered (h_messages h3)" if "pruned_tokens fmt (invalidate_all_cache h2) = Some (e, h3)" for e h3
    using pruned_tokens_messages [OF that] a2 by simp
  show ?case
    using Cons.prems(1) a1 a3 Cons.IH
    by (auto simp: h1 h2 Let_def bind_eq_Some_conv split: if_splits)
qed simp

text \<open>
  The recovery from an overflow keeps a conversation in which every call is answered that way, whatever it
  prunes and summarizes.
\<close>

lemma force_compact_answered:
  "force_compact fmt instr chat cfg safe n h = Some (ok, k, h') \<Longrightarrow> answered (h_messages h) \<Longrightarrow> answered (h_messages h')"
  unfolding force_compact_def by (rule force_loop_answered)

subsection \<open>Pruning\<close>

lemma protocol_step_cong:
  "m_role m' = m_role m \<Longrightarrow> result_ids m' = result_ids m \<Longrightarrow> (m_role m = Assistant \<Longrightarrow> call_ids m' = call_ids m) \<Longrightarrow>
   protocol_step ids m' = protocol_step ids m"
  by (simp add: protocol_step.simps)

text \<open>Behind a stripped assistant message nothing is open, and the results that follow are removed.\<close>

lemma prune_list_answered:
  "protocol_run ids ms = Some [] \<Longrightarrow>
   protocol_run (if stripped opts nd then [] else ids) (prune_list fmt opts nd (count_assistants ms) ms) = Some []"
proof (induction ms arbitrary: ids nd)
  case (Cons m ms)
  obtain ids1 where step: "protocol_step ids m = Some ids1" and run: "protocol_run ids1 ms = Some []"
    using Cons.prems by (auto simp: bind_eq_Some_conv)
  note IH = Cons.IH [OF run]
  show ?case
  proof (cases "m_role m")
    case Tool
    show ?thesis
    proof (cases "stripped opts nd")
      case False
      then obtain m' where "prune_tool opts nd m = [m']" "m_role m' = m_role m" "result_ids m' = result_ids m"
        using prune_tool_cases(2) by blast
      then show ?thesis
        using Tool False step IH [of nd] protocol_step_cong [of m' m ids] by simp
    qed (use Tool IH [of nd] prune_tool_cases(1) [of opts nd m] in simp)
  next
    case Assistant
    let ?d = "1 + count_assistants ms"
    have pos: "0 < ?d" using count_assistants_nonneg [of ms] by linarith
    have ids: "ids = []" "result_ids m = []" using step Assistant by (simp_all add: protocol_step.simps split: if_splits)
    show ?thesis
    proof (cases "stripped opts ?d")
      case True
      from prune_assistant_cases(1) [OF pos True, of fmt m] show ?thesis
        using Assistant True ids IH [of ?d] by (auto simp: protocol_step.simps)
    next
      case False
      from prune_assistant_cases(2) [OF pos False, of fmt m] obtain m' where
        "prune_assistant fmt opts ?d m = [m']" "m_role m' = m_role m" "call_ids m' = call_ids m" "result_ids m' = result_ids m"
        by blast
      then show ?thesis
        using Assistant False ids step IH [of ?d] protocol_step_cong [of m' m "[]"] by simp
    qed
  next
    case User
    then show ?thesis using step protocol_step_other [of m ids ids1] IH [of nd] by (auto split: if_splits)
  next
    case System
    then show ?thesis using step protocol_step_other [of m ids ids1] IH [of nd] by (auto split: if_splits)
  qed
qed simp

lemma hist_view_answered: "answered ms \<Longrightarrow> answered (hist_view fmt cfg ms)"
  using prune_list_answered [of "[]" ms "prune_opts.truncate cfg" "-1" fmt]
  by (simp add: hist_view_def prune_list_eq answered_def stripped_def)

end
