(* ===== verification/RunOutcome.thy ===== *)
theory RunOutcome
  imports StreamParser
begin

text \<open>
  The outcome of a run (\<open>llm/run_outcome.hpp\<close>) and the result of a chat (\<open>llm/chat.hpp\<close>): how a run ended, which retry is advised,
  and the JSON text that the server sends of it, which is put together by hand.
\<close>

datatype run_status = Completed | Interrupted | Failed | Cancelled

datatype finish_reason =
    RStop | RToolLimit | RInvalidInput | RUserCancelled | RTimeout | RContextOverflow | RProviderError | RTransportError | RInternalError

datatype severity = SevInfo | SevWarning | SevError

datatype retry_mode = RetryNone | RetrySame | ContinueRun | CompactAndRetry | AdjustSettings | ChangeModel | Reauthenticate

record retry_advice =
  ra_available :: bool
  ra_mode :: retry_mode
  ra_confirm :: bool
  ra_after_seconds :: int
  ra_reason :: string

record run_outcome =
  oc_status :: run_status
  oc_reason :: finish_reason
  oc_severity :: severity
  oc_code :: string
  oc_source :: string
  oc_message :: string
  oc_details :: string
  oc_retry :: retry_advice

definition no_retry :: retry_advice where
  "no_retry = \<lparr>ra_available = False, ra_mode = RetryNone, ra_confirm = False, ra_after_seconds = 0, ra_reason = []\<rparr>"

definition outcome_new :: run_outcome where
  "outcome_new = \<lparr>oc_status = Completed, oc_reason = RStop, oc_severity = SevInfo, oc_code = ''agent.stop'', oc_source = ''agent'',
     oc_message = [], oc_details = [], oc_retry = no_retry\<rparr>"

definition outcome_ok :: "run_outcome \<Rightarrow> bool" where
  "outcome_ok out \<longleftrightarrow> oc_status out = Completed \<and> oc_reason out = RStop"

definition advice :: "retry_mode \<Rightarrow> bool \<Rightarrow> string \<Rightarrow> retry_advice" where
  "advice mode confirm reason = \<lparr>ra_available = True, ra_mode = mode, ra_confirm = confirm, ra_after_seconds = 0, ra_reason = reason\<rparr>"

definition oc_success :: run_outcome where
  "oc_success = outcome_new\<lparr>oc_message := ''Completed''\<rparr>"

definition oc_invalid_input :: "string \<Rightarrow> run_outcome" where
  "oc_invalid_input message = outcome_new\<lparr>oc_status := Failed, oc_reason := RInvalidInput, oc_severity := SevError,
     oc_code := ''agent.invalid_input'', oc_message := message,
     oc_retry := advice AdjustSettings False ''input can be corrected''\<rparr>"

text \<open>\<open>std::to_string\<close> of an \<open>int\<close> is \<^const>\<open>write_int64\<close>.\<close>

definition status_retryable :: "int \<Rightarrow> bool" where
  "status_retryable status \<longleftrightarrow> status = 0 \<or> status = 408 \<or> status = 409 \<or> status = 429 \<or> status \<ge> 500"

definition quoted :: "string \<Rightarrow> string" where
  "quoted s = [CHR 0x22] @ s @ [CHR 0x22]"

definition oc_provider_error :: "int \<Rightarrow> string \<Rightarrow> run_outcome" where
  "oc_provider_error status message = outcome_new\<lparr>oc_status := Failed, oc_reason := RProviderError, oc_severity := SevError,
     oc_code := ''provider.error'', oc_source := ''provider'', oc_message := message,
     oc_details := ''{'' @ quoted ''http_status'' @ '':'' @ write_int64 status @ ''}'',
     oc_retry := \<lparr>ra_available = status_retryable status,
       ra_mode = (if status_retryable status then RetrySame else RetryNone), ra_confirm = status_retryable status,
       ra_after_seconds = (if status = 429 then 10 else 0),
       ra_reason = (if status_retryable status then ''provider error may be transient'' else ''provider error is not retryable'')\<rparr>\<rparr>"

definition oc_context_overflow :: "string \<Rightarrow> run_outcome" where
  "oc_context_overflow message = outcome_new\<lparr>oc_status := Failed, oc_reason := RContextOverflow, oc_severity := SevError,
     oc_code := ''agent.context_overflow'', oc_message := message,
     oc_retry := advice CompactAndRetry True ''context can be compacted before retry''\<rparr>"

definition oc_tool_limit :: "int \<Rightarrow> int \<Rightarrow> int \<Rightarrow> int \<Rightarrow> int \<Rightarrow> int \<Rightarrow> string \<Rightarrow> run_outcome" where
  "oc_tool_limit max_steps steps_used max_tool_calls tool_calls_used max_tool_calls_per_step tool_calls_in_step message =
     outcome_new\<lparr>oc_status := Interrupted, oc_reason := RToolLimit, oc_severity := SevWarning,
       oc_code := ''agent.tool_limit'', oc_message := message,
       oc_details := ''{'' @ quoted ''max_steps'' @ '':'' @ write_int64 max_steps @
         '','' @ quoted ''steps_used'' @ '':'' @ write_int64 (if steps_used \<ge> 0 then steps_used else max_steps) @
         '','' @ quoted ''max_tool_calls'' @ '':'' @ write_int64 max_tool_calls @
         '','' @ quoted ''tool_calls_used'' @ '':'' @ write_int64 tool_calls_used @
         '','' @ quoted ''max_tool_calls_per_step'' @ '':'' @ write_int64 max_tool_calls_per_step @
         '','' @ quoted ''tool_calls_in_step'' @ '':'' @ write_int64 tool_calls_in_step @ ''}'',
       oc_retry := advice ContinueRun True ''run can continue with more tool budget''\<rparr>"

definition oc_cancelled :: "string \<Rightarrow> run_outcome" where
  "oc_cancelled message = outcome_new\<lparr>oc_status := Cancelled, oc_reason := RUserCancelled, oc_severity := SevInfo,
     oc_code := ''agent.cancelled'', oc_message := message, oc_retry := advice RetrySame True ''user may restart the request''\<rparr>"

definition oc_timeout :: "string \<Rightarrow> run_outcome" where
  "oc_timeout message = outcome_new\<lparr>oc_status := Interrupted, oc_reason := RTimeout, oc_severity := SevWarning,
     oc_code := ''agent.timeout'', oc_message := message, oc_retry := advice RetrySame True ''timeout may be transient''\<rparr>"

definition oc_internal_error :: "string \<Rightarrow> run_outcome" where
  "oc_internal_error message = outcome_new\<lparr>oc_status := Failed, oc_reason := RInternalError, oc_severity := SevError,
     oc_code := ''agent.internal_error'', oc_message := message,
     oc_retry := advice RetrySame True ''internal error may be transient''\<rparr>"

subsection \<open>Chat results\<close>

record chat_result =
  cr_status :: int
  cr_text :: string
  cr_raw :: string
  cr_error :: string
  cr_overflow :: bool
  cr_outcome :: run_outcome

definition cr_ok :: "chat_result \<Rightarrow> bool" where
  "cr_ok r \<longleftrightarrow> 200 \<le> cr_status r \<and> cr_status r < 300 \<and> outcome_ok (cr_outcome r)"

definition failed_result :: "int \<Rightarrow> string \<Rightarrow> run_outcome \<Rightarrow> chat_result" where
  "failed_result status message out = \<lparr>cr_status = status, cr_text = [], cr_raw = [], cr_error = message, cr_overflow = False,
     cr_outcome = out\<rparr>"

definition result_error :: "int \<Rightarrow> string \<Rightarrow> chat_result" where
  "result_error code msg = failed_result code msg (oc_provider_error code msg)"

definition result_invalid_input :: "string \<Rightarrow> chat_result" where
  "result_invalid_input msg = failed_result 400 msg (oc_invalid_input msg)"

definition result_context_overflow :: "string \<Rightarrow> chat_result" where
  "result_context_overflow msg = (failed_result 400 msg (oc_context_overflow msg))\<lparr>cr_overflow := True\<rparr>"

definition result_tool_limit :: "int \<Rightarrow> int \<Rightarrow> int \<Rightarrow> int \<Rightarrow> int \<Rightarrow> int \<Rightarrow> string \<Rightarrow> chat_result" where
  "result_tool_limit ms su mc cu mp cs message =
     failed_result 409 message (oc_tool_limit ms su mc cu mp cs message)"

definition result_cancelled :: "string \<Rightarrow> chat_result" where
  "result_cancelled msg = failed_result 499 msg (oc_cancelled msg)"

definition result_internal_error :: "string \<Rightarrow> chat_result" where
  "result_internal_error msg = failed_result 500 msg (oc_internal_error msg)"

definition result_ok :: "string \<Rightarrow> string \<Rightarrow> chat_result" where
  "result_ok text raw = \<lparr>cr_status = 200, cr_text = text, cr_raw = raw, cr_error = [], cr_overflow = False, cr_outcome = oc_success\<rparr>"

subsection \<open>The JSON text\<close>

fun run_status_str :: "run_status \<Rightarrow> string" where
  "run_status_str Completed = ''completed''"
| "run_status_str Interrupted = ''interrupted''"
| "run_status_str Failed = ''failed''"
| "run_status_str Cancelled = ''cancelled''"

fun reason_str :: "finish_reason \<Rightarrow> string" where
  "reason_str RStop = ''stop''"
| "reason_str RToolLimit = ''tool_limit''"
| "reason_str RInvalidInput = ''invalid_input''"
| "reason_str RUserCancelled = ''user_cancelled''"
| "reason_str RTimeout = ''timeout''"
| "reason_str RContextOverflow = ''context_overflow''"
| "reason_str RProviderError = ''provider_error''"
| "reason_str RTransportError = ''transport_error''"
| "reason_str RInternalError = ''internal_error''"

fun severity_str :: "severity \<Rightarrow> string" where
  "severity_str SevInfo = ''info''"
| "severity_str SevWarning = ''warning''"
| "severity_str SevError = ''error''"

fun retry_mode_str :: "retry_mode \<Rightarrow> string" where
  "retry_mode_str RetryNone = ''none''"
| "retry_mode_str RetrySame = ''retry_same''"
| "retry_mode_str ContinueRun = ''continue_run''"
| "retry_mode_str CompactAndRetry = ''compact_and_retry''"
| "retry_mode_str AdjustSettings = ''adjust_settings''"
| "retry_mode_str ChangeModel = ''change_model''"
| "retry_mode_str Reauthenticate = ''reauthenticate''"

fun escape_json_string :: "string \<Rightarrow> string" where
  "escape_json_string [] = []"
| "escape_json_string (c # cs) =
     (if c = CHR 0x22 then [CHR 0x5C, CHR 0x22]
      else if c = CHR 0x5C then [CHR 0x5C, CHR 0x5C]
      else if c = CHR 0x0A then [CHR 0x5C, CHR ''n'']
      else if c = CHR 0x0D then [CHR 0x5C, CHR ''r'']
      else if c = CHR 0x09 then [CHR 0x5C, CHR ''t'']
      else if byte c < 0x20 then '' '' else [c]) @ escape_json_string cs"

definition retry_to_json :: "retry_advice \<Rightarrow> string" where
  "retry_to_json r =
     ''{'' @ quoted ''available'' @ '':'' @ (if ra_available r then ''true'' else ''false'') @
     '','' @ quoted ''mode'' @ '':'' @ quoted (retry_mode_str (ra_mode r)) @
     '','' @ quoted ''requires_user_confirmation'' @ '':'' @ (if ra_confirm r then ''true'' else ''false'') @
     '','' @ quoted ''after_seconds'' @ '':'' @ write_int64 (ra_after_seconds r) @
     (if ra_reason r \<noteq> [] then '','' @ quoted ''reason'' @ '':'' @ quoted (escape_json_string (ra_reason r)) else []) @ ''}''"

definition outcome_to_json :: "run_outcome \<Rightarrow> string" where
  "outcome_to_json out =
     ''{'' @ quoted ''status'' @ '':'' @ quoted (run_status_str (oc_status out)) @
     '','' @ quoted ''reason'' @ '':'' @ quoted (reason_str (oc_reason out)) @
     '','' @ quoted ''severity'' @ '':'' @ quoted (severity_str (oc_severity out)) @
     '','' @ quoted ''code'' @ '':'' @ quoted (escape_json_string (oc_code out)) @
     '','' @ quoted ''source'' @ '':'' @ quoted (escape_json_string (oc_source out)) @
     '','' @ quoted ''message'' @ '':'' @ quoted (escape_json_string (oc_message out)) @
     '','' @ quoted ''retry'' @ '':'' @ retry_to_json (oc_retry out) @
     (if oc_details out \<noteq> [] then '','' @ quoted ''details'' @ '':'' @ oc_details out else []) @ ''}''"

subsection \<open>The text is JSON\<close>

text \<open>Control bytes without an escape of their own become blanks.\<close>

definition blank :: "char \<Rightarrow> char" where
  "blank c = (if byte c < 0x20 \<and> c \<noteq> CHR 0x0A \<and> c \<noteq> CHR 0x0D \<and> c \<noteq> CHR 0x09 then CHR '' '' else c)"

lemma byte_blank: "byte c < 0x20 \<Longrightarrow> byte (blank c) < 0x40" "\<not> byte c < 0x20 \<Longrightarrow> blank c = c"
  by (simp_all add: blank_def byte_def)

lemma utf8_cont_blank: "utf8_cont k cp (map blank cs) = utf8_cont k cp cs"
proof (induction k cp cs rule: utf8_cont.induct)
  case (3 k cp c cs)
  then show ?case using byte_blank [of c] by (cases "byte c < 0x20") simp_all
qed simp_all

lemma utf8_seq_len_blank: "0x80 \<le> byte c \<Longrightarrow> utf8_seq_len (map blank (c # cs)) = utf8_seq_len (c # cs)"
  using byte_blank(2) [of c] by (simp add: utf8_seq_len_def utf8_cont_blank split: option.split prod.split)

lemma sanitize_length: "length s \<le> length (sanitize s)"
proof (induction s rule: sanitize.induct)
  case (2 c cs)
  then show ?case
    using utf8_seq_len_multi(1) [of c cs] by (cases "byte c < 0x80"; cases "utf8_seq_len (c # cs) > 1") (simp_all add: Let_def)
qed simp

lemma high_char: "128 \<le> byte c \<Longrightarrow> c \<noteq> CHR 0x22 \<and> c \<noteq> CHR 0x5C \<and> c \<noteq> CHR 0x0A \<and> c \<noteq> CHR 0x0D \<and> c \<noteq> CHR 0x09"
  by (auto simp: byte_def)

lemma escape_json_high: "128 \<le> byte c \<Longrightarrow> escape_json_string (c # cs) = c # escape_json_string cs"
  using high_char [of c] by simp

lemma escape_json_plain: "(\<And>b. b \<in> set xs \<Longrightarrow> 128 \<le> byte b) \<Longrightarrow> escape_json_string (xs @ ys) = xs @ escape_json_string ys"
  by (induction xs) (simp_all add: escape_json_high del: escape_json_string.simps(2))

lemma map_blank_high: "(\<And>b. b \<in> set xs \<Longrightarrow> 128 \<le> byte b) \<Longrightarrow> map blank xs = xs"
proof (induction xs)
  case (Cons x xs)
  then have "128 \<le> byte x" by simp
  then have "blank x = x" by (intro byte_blank(2)) simp
  with Cons show ?case by simp
qed simp

lemma escape_char:
  assumes "byte c < 0x80"
  shows "escape_json_string [c] = escape_loop [blank c]"
proof (cases "c \<in> {CHR 0x22, CHR 0x5C, CHR 0x0A, CHR 0x0D, CHR 0x09}")
  case True
  then show ?thesis by (elim insertE) (simp_all add: blank_def short_escape_def byte_def)
next
  case special: False
  show ?thesis
  proof (cases "byte c < 0x20")
    case True
    then have "blank c = CHR '' ''" using special by (simp add: blank_def)
    with True special show ?thesis by (simp add: short_escape_def byte_def)
  next
    case False
    then have "c \<noteq> CHR 0x08" "c \<noteq> CHR 0x0C" by (auto simp: byte_def)
    with False special assms byte_blank(2) [OF False] show ?thesis by (simp add: short_escape_def)
  qed
qed

lemma escape_loop_Cons: "byte c < 0x80 \<Longrightarrow> escape_loop (c # cs) = escape_loop [c] @ escape_loop cs"
  by (simp split: option.split)

lemma escape_json_Cons: "escape_json_string (c # cs) = escape_json_string [c] @ escape_json_string cs"
  by simp

text \<open>On valid UTF-8 the function is the serializer's escaping of the text with blanks for control bytes.\<close>

lemma escape_json_string_valid: "sanitize s = s \<Longrightarrow> escape_json_string s = escape_loop (map blank s)"
proof (induction s rule: sanitize.induct)
  case (2 c cs)
  show ?case
  proof (cases "byte c < 0x80")
    case True
    then have "escape_json_string cs = escape_loop (map blank cs)" using 2 by simp
    moreover have "byte (blank c) < 0x80" using True byte_blank [of c] by (cases "byte c < 0x20") simp_all
    ultimately show ?thesis
      unfolding escape_json_Cons [of c cs] list.map escape_loop_Cons [OF \<open>byte (blank c) < 0x80\<close>, of "map blank cs"]
      using escape_char [OF True] by metis
  next
    case high: False
    let ?n = "utf8_seq_len (c # cs)"
    show ?thesis
    proof (cases "?n > 1")
      case True
      let ?xs = "take ?n (c # cs)" and ?ys = "drop (?n - 1) cs"
      have xs: "\<And>b. b \<in> set ?xs \<Longrightarrow> 128 \<le> byte b" by (rule utf8_seq_len_multi(2) [OF True])
      have split: "c # cs = ?xs @ ?ys" using True append_take_drop_id [of ?n "c # cs"] by (cases ?n) simp_all
      have "sanitize (c # cs) = ?xs @ sanitize ?ys" using high True by (simp add: Let_def)
      then have "sanitize ?ys = ?ys" using 2(4) split by (metis same_append_eq)
      then have IH: "escape_json_string ?ys = escape_loop (map blank ?ys)"
        using 2(2) [OF high refl True] by simp
      have c: "blank c = c" "short_escape c = None"
        using high byte_blank(2) [of c] high_char [of c] by (simp_all add: short_escape_def) (auto simp: byte_def)
      have "escape_loop (map blank (c # cs)) = take ?n (map blank (c # cs)) @ escape_loop (drop (?n - 1) (map blank cs))"
        using c high True utf8_seq_len_blank [of c cs] by (simp add: Let_def)
      also have "\<dots> = ?xs @ escape_loop (map blank ?ys)"
        using map_blank_high [OF xs] by (metis drop_map take_map)
      finally have "escape_loop (map blank (c # cs)) = ?xs @ escape_json_string ?ys" unfolding IH .
      moreover have "escape_json_string (c # cs) = ?xs @ escape_json_string ?ys"
        using arg_cong [OF split, of escape_json_string] escape_json_plain [of ?xs ?ys, OF xs] by (rule trans)
      ultimately show ?thesis unfolding list.map by simp
    next
      case False
      then have "length (sanitize (c # cs)) = 3 + length (sanitize cs)" using high by (simp add: Let_def)
      then show ?thesis using 2(4) sanitize_length [of cs] by simp
    qed
  qed
qed simp

text \<open>The value that the text of an outcome stands for; \<open>d\<close> are its details.\<close>

definition retry_value :: "retry_advice \<Rightarrow> 'd json" where
  "retry_value r = JObject ([(''available'', JBool (ra_available r)), (''mode'', JString (retry_mode_str (ra_mode r))),
     (''requires_user_confirmation'', JBool (ra_confirm r)), (''after_seconds'', JInt (ra_after_seconds r))] @
     (if ra_reason r \<noteq> [] then [(''reason'', JString (map blank (ra_reason r)))] else []))"

definition outcome_value :: "run_outcome \<Rightarrow> 'd json option \<Rightarrow> 'd json" where
  "outcome_value out d = JObject ([(''status'', JString (run_status_str (oc_status out))),
     (''reason'', JString (reason_str (oc_reason out))), (''severity'', JString (severity_str (oc_severity out))),
     (''code'', JString (map blank (oc_code out))), (''source'', JString (map blank (oc_source out))),
     (''message'', JString (map blank (oc_message out))), (''retry'', retry_value (oc_retry out))] @
     (case d of None \<Rightarrow> [] | Some v \<Rightarrow> [(''details'', v)]))"

definition valid_outcome :: "run_outcome \<Rightarrow> bool" where
  "valid_outcome out \<longleftrightarrow> sanitize (oc_code out) = oc_code out \<and> sanitize (oc_source out) = oc_source out \<and>
     sanitize (oc_message out) = oc_message out \<and> sanitize (ra_reason (oc_retry out)) = ra_reason (oc_retry out) \<and>
     in_int (ra_after_seconds (oc_retry out))"

definition ascii_word :: "string \<Rightarrow> bool" where
  "ascii_word s \<longleftrightarrow> list_all (\<lambda>c. short_escape c = None \<and> 0x20 \<le> byte c \<and> byte c < 0x80) s"

lemma ascii_word_escape: "ascii_word s \<Longrightarrow> escape_loop s = s"
  by (induction s) (auto simp: ascii_word_def)

lemma ascii_word_names:
  "ascii_word (run_status_str a)" "ascii_word (reason_str b)" "ascii_word (severity_str c)" "ascii_word (retry_mode_str m)"
  subgoal by (cases a) (simp_all add: ascii_word_def short_escape_def byte_def)
  subgoal by (cases b) (simp_all add: ascii_word_def short_escape_def byte_def)
  subgoal by (cases c) (simp_all add: ascii_word_def short_escape_def byte_def)
  subgoal by (cases m) (simp_all add: ascii_word_def short_escape_def byte_def)
  done

lemma quoted_write:
  "ascii_word s \<Longrightarrow> quoted s = write_escaped_string s"
  "sanitize s = s \<Longrightarrow> quoted (escape_json_string s) = write_escaped_string (map blank s)"
  by (simp_all add: quoted_def write_escaped_string_def ascii_word_escape escape_json_string_valid)

lemma ascii_word_keys:
  "list_all ascii_word [''available'', ''mode'', ''requires_user_confirmation'', ''after_seconds'', ''reason'', ''status'',
     ''severity'', ''code'', ''source'', ''message'', ''retry'', ''details'', ''http_status'', ''max_steps'', ''steps_used'',
     ''max_tool_calls'', ''tool_calls_used'', ''max_tool_calls_per_step'', ''tool_calls_in_step'']"
  by (simp add: ascii_word_def short_escape_def byte_def)

lemma newline_compact [simp]: "newline (- 1) n = []"
  by (simp add: newline_def)

lemma retry_to_json_write:
  assumes "sanitize (ra_reason r) = ra_reason r"
  shows "retry_to_json r = json_write fmt (-1) n (retry_value r)"
  using ascii_word_keys by (simp add: retry_to_json_def retry_value_def quoted_write assms ascii_word_names)

lemma write_depth: "json_write fmt (-1) n v = json_write fmt (-1) 0 v"
proof (induction v arbitrary: n)
  case (JArray vs)
  then have "map (json_write fmt (-1) (n + 1)) vs = map (json_write fmt (-1) (0 + 1)) vs" by (intro map_cong) metis+
  then show ?case by (simp only: json_write.simps newline_compact)
next
  case (JObject kvs)
  have "map (\<lambda>(k, v). write_escaped_string k @ '':'' @ json_write fmt (-1) (n + 1) v) kvs =
      map (\<lambda>(k, v). write_escaped_string k @ '':'' @ json_write fmt (-1) (0 + 1) v) kvs"
  proof (intro map_cong refl)
    fix kv assume kv: "kv \<in> set kvs"
    have "json_write fmt (-1) m (snd kv) = json_write fmt (-1) 0 (snd kv)" for m
      using JObject.IH [OF kv, of "snd kv" m] by (cases kv) simp
    from this [of "n + 1"] this [of "0 + 1"]
    show "(\<lambda>(k, v). write_escaped_string k @ '':'' @ json_write fmt (-1) (n + 1) v) kv =
      (\<lambda>(k, v). write_escaped_string k @ '':'' @ json_write fmt (-1) (0 + 1) v) kv" by (simp add: case_prod_beta)
  qed
  then show ?case by (simp del: map_eq_conv)
qed simp_all

text \<open>The text of an outcome is what the serializer writes of its value.\<close>

lemma outcome_to_json_write:
  assumes "valid_outcome out" and "case d of None \<Rightarrow> oc_details out = []
      | Some v \<Rightarrow> oc_details out = json_write fmt (-1) 0 v \<and> oc_details out \<noteq> []"
  shows "outcome_to_json out = json_write fmt (-1) 0 (outcome_value out d)"
proof -
  have valid: "sanitize (oc_code out) = oc_code out" "sanitize (oc_source out) = oc_source out"
     "sanitize (oc_message out) = oc_message out" "sanitize (ra_reason (oc_retry out)) = ra_reason (oc_retry out)"
    using assms(1) by (simp_all add: valid_outcome_def)
  have "json_write fmt (-1) 0 v \<noteq> [] \<and> oc_details out = json_write fmt (-1) 0 v" if "d = Some v" for v
    using assms(2) that by auto
  then show ?thesis
    using ascii_word_keys assms(2)
    by (cases d) (simp_all add: outcome_to_json_def outcome_value_def quoted_write valid ascii_word_names
        retry_to_json_write [OF valid(4), of fmt 1] write_depth [of fmt "Suc 0"])
qed

text \<open>
  C37: the text that the server sends of an outcome is JSON and says what the outcome says: if the messages are valid
  UTF-8 and the details are the text of a JSON value, the parser reads it as the object with the status, the reason, the retry advice and the details; of
  the messages only control bytes are lost, which become blanks.
\<close>

theorem outcome_json_parses:
  assumes "valid_outcome out" and "case d of None \<Rightarrow> oc_details out = []
      | Some v \<Rightarrow> plain v \<and> oc_details out = json_write fmt (-1) 0 v \<and> oc_details out \<noteq> []"
  shows "parse_json strtod (outcome_to_json out) = Some (reparsed (outcome_value out d))"
proof -
  have "plain (outcome_value out d)"
    using assms by (auto simp: outcome_value_def retry_value_def valid_outcome_def in_int_def split: option.split)
  then have "parse_json strtod (json_write fmt (-1) 0 (outcome_value out d)) = Some (reparsed (outcome_value out d))"
    by (rule parse_json_write)
  moreover have "outcome_to_json out = json_write fmt (-1) 0 (outcome_value out d)"
    using assms by (intro outcome_to_json_write) (auto split: option.split)
  ultimately show ?thesis by simp
qed

theorem outcome_json_parses_witness:
  "parse_json (\<lambda>s. None) (outcome_to_json (oc_provider_error 429 ''slow down'')) =
     Some (reparsed (outcome_value (oc_provider_error 429 ''slow down'') (Some (JObject [(''http_status'', JInt 429)])) :: unit json))"
proof (rule outcome_json_parses [where fmt = "\<lambda>d. []"])
  show "valid_outcome (oc_provider_error 429 ''slow down'')"
    by (simp add: valid_outcome_def oc_provider_error_def outcome_new_def status_retryable_def in_int_def byte_def)
  show "case Some (JObject [(''http_status'', JInt 429)]) of None \<Rightarrow> oc_details (oc_provider_error 429 ''slow down'') = []
     | Some v \<Rightarrow> plain v \<and> oc_details (oc_provider_error 429 ''slow down'') = json_write (\<lambda>d. []) (-1) 0 v \<and>
         oc_details (oc_provider_error 429 ''slow down'') \<noteq> []"
    using ascii_word_keys by (simp add: oc_provider_error_def quoted_write)
qed

end
