(* ===== verification/AgentLoop.thy ===== *)
theory AgentLoop
  imports Tools Protocol RunOutcome Todo
begin

text \<open>
  The agent's tool loop (\<open>agent/agent.cpp\<close>, \<open>agent/agent_impl.hpp\<close>), both ways to talk to the provider, with the part of the session it uses
  (\<open>workspace/session.cpp\<close>) and the registry that a sub-agent gets (\<open>agent/sub_agent.cpp\<close>). The provider's replies are parameters, a function of the
  number of earlier requests and of the messages and tools sent; so is whether plan mode is on at a step. What the caller sees
  is a list of events, what goes to the database a list of rows. An exception that leaves the run is a fault, as is a
  conversion to \<open>int\<close> that C++ does not define. Cancellation, logging and the update of the long-term memory are left out. The counters of the
  loop are integers: with limits that fit an \<open>int\<close> they stay below twice the total limit.
\<close>

datatype 'd agent_event =
    EvToken string | EvThinking string | EvToolCall "'d tool_call" | EvToolResult tool_result
  | EvBlocked string | EvTodo todo_item string | EvStats

record stored_row =
  row_role :: string
  row_content :: string
  row_call_id :: string
  row_tool :: string

record stream_reply =
  rp_status :: int
  rp_raw :: string
  rp_calls :: "stream_call list"

record ('d, 'w) agent_env =
  ag_tool_env :: "('d, 'w) tool_env"
  ag_tools :: "('d, 'w) registry"
  ag_provider :: provider
  ag_streaming :: bool
  ag_system_prompt :: string
  ag_max_steps :: int
  ag_max_calls :: int
  ag_max_per_step :: int
  ag_plan_mode :: "nat \<Rightarrow> bool"
  ag_reply :: "nat \<Rightarrow> 'd json \<Rightarrow> 'd json \<Rightarrow> 'd json option"
  ag_stream_reply :: "nat \<Rightarrow> 'd json \<Rightarrow> 'd json \<Rightarrow> stream_reply option"
  ag_trunc :: "'d \<Rightarrow> int option"
  ag_compact :: compact_config
  ag_last_rounds :: "nat \<Rightarrow> int"
  ag_safe :: int
  ag_instr :: string
  ag_summarize :: "nat \<Rightarrow> nat \<Rightarrow> string \<Rightarrow> string option"
  ag_todo_context :: string

record run_options =
  ro_system_prompt :: string
  ro_persist_user :: bool
  ro_max_steps :: int

record ('d, 'w) agent_state =
  as_history :: "'d history"
  as_tools :: "('d, 'w) tool_state"
  as_events :: "'d agent_event list"
  as_rows :: "stored_row list"
  as_titles :: "string list"
  as_requests :: nat

datatype agent_fault = PermFault perm_fault | HistoryFault | IntFault | StringFault | ProviderThrew

definition lift_perm :: "perm_fault + 'a \<Rightarrow> agent_fault + 'a" where
  "lift_perm x = map_sum PermFault id x"

definition lift_hist :: "'a option \<Rightarrow> agent_fault + 'a" where
  "lift_hist x = (case x of Some a \<Rightarrow> Inr a | None \<Rightarrow> Inl HistoryFault)"

definition ag_event :: "'d agent_event list \<Rightarrow> ('d, 'w) agent_state \<Rightarrow> ('d, 'w) agent_state" where
  "ag_event evs st = st\<lparr>as_events := as_events st @ evs\<rparr>"

definition persist_rows :: "stored_row list \<Rightarrow> ('d, 'w) agent_state \<Rightarrow> ('d, 'w) agent_state" where
  "persist_rows rows st = st\<lparr>as_rows := as_rows st @ rows\<rparr>"

subsection \<open>Small helpers of the file\<close>

text \<open>The bytes of the title: runs of blanks become one blank, and the loop ends at 48 bytes.\<close>

fun title_loop :: "bool \<Rightarrow> string \<Rightarrow> string \<Rightarrow> string" where
  "title_loop prev_space tl_text [] = tl_text"
| "title_loop prev_space tl_text (ch # rest) =
     (if ch \<in> {CHR 0x0A, CHR 0x0D, CHR 0x09, CHR '' ''} then
        title_loop True (if \<not> prev_space \<and> length tl_text < 48 then tl_text @ '' '' else tl_text) rest
      else if byte ch < 0x20 then title_loop prev_space tl_text rest
      else if length tl_text + 1 \<ge> 48 then tl_text @ [ch]
      else title_loop False (tl_text @ [ch]) rest)"

definition make_session_title :: "string \<Rightarrow> string" where
  "make_session_title prompt =
     (let trimmed = rev (dropWhile (\<lambda>c. c = CHR '' '') (rev (title_loop True [] prompt)));
          tl_text = (if trimmed = [] then ''New Session'' else trimmed)
      in c_str (if length prompt > length tl_text then tl_text @ ellipsis else tl_text))"

definition normalize_limit :: "int \<Rightarrow> int" where
  "normalize_limit v = (if v > 0 then v else 1)"

definition is_update_todo_call :: "'d tool_call \<Rightarrow> bool" where
  "is_update_todo_call call \<longleftrightarrow> tc_name call = ''update_todo''"

definition is_update_todo_result :: "tool_result \<Rightarrow> bool" where
  "is_update_todo_result result \<longleftrightarrow> tr_name result = ''update_todo''"

definition budgeted_tool_call_count :: "'d tool_call list \<Rightarrow> int" where
  "budgeted_tool_call_count calls = int (length (filter (\<lambda>c. \<not> is_update_todo_call c) calls))"

definition notify_visible_tool_calls :: "'d tool_call list \<Rightarrow> 'd agent_event list" where
  "notify_visible_tool_calls calls = map EvToolCall (filter (\<lambda>c. \<not> is_update_todo_call c) calls)"

definition notify_visible_tool_results :: "tool_result list \<Rightarrow> 'd agent_event list" where
  "notify_visible_tool_results rs = map EvToolResult (filter (\<lambda>r. \<not> is_update_todo_result r) rs)"

subsection \<open>The built-in tool for the execution list\<close>

definition json_string_field :: "('d, 'w) agent_env \<Rightarrow> 'd json \<Rightarrow> string \<Rightarrow> agent_fault + string" where
  "json_string_field env j name =
     (case json_find j name of
        None \<Rightarrow> Inr []
      | Some JNull \<Rightarrow> Inr []
      | Some (JString s) \<Rightarrow> Inr s
      | Some v \<Rightarrow> lift_perm (dump (env_fmt (ag_tool_env env)) v))"

definition json_int_field :: "('d, 'w) agent_env \<Rightarrow> 'd json \<Rightarrow> string \<Rightarrow> int \<Rightarrow> agent_fault + int" where
  "json_int_field env j name fallback =
     (let checked = (\<lambda>i. if in_int i then Inr i else Inl IntFault) in
      case json_find j name of
        Some (JInt i) \<Rightarrow> checked i
      | Some (JUint n) \<Rightarrow> checked (int n)
      | Some (JDouble d) \<Rightarrow> (case ag_trunc env d of Some i \<Rightarrow> Inr i | None \<Rightarrow> Inl IntFault)
      | Some (JString s) \<Rightarrow> Inr (case stoi s of Some i \<Rightarrow> i | None \<Rightarrow> fallback)
      | _ \<Rightarrow> Inr fallback)"

definition todo_item_from_tool_json :: "('d, 'w) agent_env \<Rightarrow> 'd json \<Rightarrow> int \<Rightarrow> agent_fault + todo_item" where
  "todo_item_from_tool_json env j order =
     bind_sum (json_string_field env j ''id'') (\<lambda>id1.
     bind_sum (if id1 = [] then json_string_field env j ''todo_id'' else Inr id1) (\<lambda>id2.
     bind_sum (json_string_field env j ''title'') (\<lambda>title.
     bind_sum (json_string_field env j ''active_form'') (\<lambda>form.
     bind_sum (json_string_field env j ''result_summary'') (\<lambda>summary.
     bind_sum (json_string_field env j ''status'') (\<lambda>status.
     bind_sum (json_int_field env j ''progress'' 0) (\<lambda>progress.
     bind_sum (json_int_field env j ''order'' order) (\<lambda>order.
       Inr (item_new\<lparr>todo_id := (if id2 = [] then title else id2), ti_title := title, active_form := form,
         result_summary := summary, has_status := status \<noteq> [],
         ti_status := (if status \<noteq> [] then todo_status_from_string status else TPending),
         has_progress := json_contains j ''progress'', progress := progress, ti_order := order\<rparr>)))))))))"

definition item_known :: "todo_item \<Rightarrow> bool" where
  "item_known item \<longleftrightarrow> ti_title item \<noteq> [] \<or> todo_id item \<noteq> []"

text \<open>The events of \<open>set_items\<close>, from position \<open>i\<close> on.\<close>

fun todo_set_items :: "('d, 'w) agent_env \<Rightarrow> nat \<Rightarrow> 'd json list \<Rightarrow> agent_fault + todo_item list" where
  "todo_set_items env i [] = Inr []"
| "todo_set_items env i (j # js) =
     bind_sum (todo_item_from_tool_json env j (int i + 1)) (\<lambda>item.
     bind_sum (todo_set_items env (i + 1) js) (\<lambda>items.
       Inr (if item_known item then item # items else items)))"

definition todo_reply :: "'d tool_call \<Rightarrow> nat \<Rightarrow> tool_result" where
  "todo_reply call updated = \<lparr>tr_id = tc_id call, tr_name = tc_name call,
     tr_output = ''{'' @ quoted ''ok'' @ '':true,'' @ quoted ''updated'' @ '':'' @ decimal updated @ ''}'', tr_success = True\<rparr>"

definition handle_update_todo_call ::
  "('d, 'w) agent_env \<Rightarrow> 'd tool_call \<Rightarrow> agent_fault + (tool_result \<times> 'd agent_event list)" where
  "handle_update_todo_call env call =
     bind_sum (json_string_field env (tc_arguments call) ''action'') (\<lambda>action.
       if action = ''clear'' then Inr (todo_reply call 0, [EvTodo item_new ''clear''])
       else if action = ''set_items'' then
         bind_sum (case json_find (tc_arguments call) ''items'' of
             Some (JArray js) \<Rightarrow> todo_set_items env 0 js
           | _ \<Rightarrow> Inr []) (\<lambda>items.
           Inr (todo_reply call (length items), EvTodo item_new ''clear'' # map (\<lambda>it. EvTodo it ''set_items'') items))
       else
         bind_sum (todo_item_from_tool_json env (value_json (tc_arguments call) ''item'' (tc_arguments call)) 1) (\<lambda>item.
           Inr (if item_known item then (todo_reply call 1, [EvTodo item ''update_item''])
                else (todo_reply call 0, []))))"

fun execute_tool_calls ::
  "('d, 'w) agent_env \<Rightarrow> 'd tool_call list \<Rightarrow> ('d, 'w) tool_state \<Rightarrow>
   agent_fault + (tool_result list \<times> 'd agent_event list \<times> ('d, 'w) tool_state)" where
  "execute_tool_calls env [] ts = Inr ([], [], ts)"
| "execute_tool_calls env (call # calls) ts =
     bind_sum (if is_update_todo_call call
               then map_sum id (\<lambda>(r, evs). (r, evs, ts)) (handle_update_todo_call env call)
               else lift_perm (map_sum id (\<lambda>(r, ts'). (r, [], ts'))
                      (execute_tool (ag_tool_env env) (ag_tools env) call ts))) (\<lambda>(r, evs, ts1).
     bind_sum (execute_tool_calls env calls ts1) (\<lambda>(rs, evs', ts2). Inr (r # rs, evs @ evs', ts2)))"

subsection \<open>Reading a response\<close>

definition get_string_fault :: "'d json \<Rightarrow> agent_fault + string" where
  "get_string_fault v = (case v of JString s \<Rightarrow> Inr s | _ \<Rightarrow> Inl StringFault)"

text \<open>The member \<open>key\<close> of the first choice's message, if there is one that is not null.\<close>

definition first_choice_text :: "'d json \<Rightarrow> string \<Rightarrow> agent_fault + string" where
  "first_choice_text response key =
     (case json_find response ''choices'' of
        Some (JArray (choice # choices)) \<Rightarrow>
          (case json_find (json_get choice ''message'') key of
             None \<Rightarrow> Inr []
           | Some JNull \<Rightarrow> Inr []
           | Some v \<Rightarrow> get_string_fault v)
      | _ \<Rightarrow> Inr [])"

definition content_blocks :: "'d json \<Rightarrow> 'd json list" where
  "content_blocks response = (case json_find response ''content'' of Some (JArray blocks) \<Rightarrow> blocks | _ \<Rightarrow> [])"

fun extract_thinking :: "'d json \<Rightarrow> provider \<Rightarrow> agent_fault + string" where
  "extract_thinking response OpenAI = first_choice_text response ''reasoning_content''"
| "extract_thinking response Anthropic =
     (case find (\<lambda>b. value_str b ''type'' [] = ''thinking'' \<and> json_find b ''thinking'' \<noteq> None \<and>
              json_find b ''thinking'' \<noteq> Some JNull) (content_blocks response) of
        Some b \<Rightarrow> get_string_fault (json_get b ''thinking'')
      | None \<Rightarrow> Inr [])"

fun extract_response_text :: "'d json \<Rightarrow> provider \<Rightarrow> agent_fault + string" where
  "extract_response_text response OpenAI = first_choice_text response ''content''"
| "extract_response_text response Anthropic =
     Inr (case find (\<lambda>b. value_str b ''type'' [] = ''text'') (content_blocks response) of
            Some b \<Rightarrow> value_str b ''text'' [] | None \<Rightarrow> [])"

fun extract_tool_calls :: "('d, 'w) agent_env \<Rightarrow> 'd json \<Rightarrow> 'd tool_call list" where
  "extract_tool_calls env response =
     (case ag_provider env of
        OpenAI \<Rightarrow> extract_openai_tool_calls (env_strtod (ag_tool_env env)) response
      | Anthropic \<Rightarrow> extract_anthropic_tool_calls response)"

text \<open>The text of an assistant message with calls.\<close>

fun message_text_with_tools :: "'d json \<Rightarrow> provider \<Rightarrow> string" where
  "message_text_with_tools response OpenAI =
     value_str (json_get (json_at (json_get response ''choices'') 0) ''message'') ''content'' []"
| "message_text_with_tools response Anthropic =
     (case find (\<lambda>b. value_str b ''type'' [] = ''text'') (content_blocks response) of
        Some b \<Rightarrow> value_str b ''text'' [] | None \<Rightarrow> [])"

definition assistant_with_calls :: "string \<Rightarrow> 'd tool_call list \<Rightarrow> 'd message" where
  "assistant_with_calls text calls = \<lparr>m_role = Assistant, m_content = Text text False # map ToolUse calls\<rparr>"

definition response_has_content :: "'d json \<Rightarrow> bool" where
  "response_has_content response \<longleftrightarrow>
     (case json_find response ''choices'' of
        Some (JArray (c # cs)) \<Rightarrow> True
      | _ \<Rightarrow> (case json_find response ''content'' of Some (JArray bs) \<Rightarrow> True | _ \<Rightarrow> False))"

text \<open>The status and the message of a response without content.\<close>

definition response_error :: "('d, 'w) agent_env \<Rightarrow> 'd json \<Rightarrow> agent_fault + (int \<times> string)" where
  "response_error env response =
     bind_sum (case json_find response ''error'' of
         Some (JObject kvs) \<Rightarrow>
           bind_sum (case map_of kvs ''status'' of
               None \<Rightarrow> Inr 0
             | Some v \<Rightarrow> (case try_int (ag_trunc env) v of Some i \<Rightarrow> Inr i | None \<Rightarrow> Inl IntFault))
             (\<lambda>status. Inr (status, value_str (JObject kvs) ''message'' []))
       | _ \<Rightarrow> Inr (0, []))
     (\<lambda>(status, message). Inr (status, if message = [] then dump_text (env_fmt (ag_tool_env env)) response else message))"

subsection \<open>Sessions\<close>

definition request_messages :: "('d, 'w) agent_env \<Rightarrow> 'd history \<Rightarrow> agent_fault + ('d json \<times> 'd history)" where
  "request_messages env h =
     (let fmt = env_fmt (ag_tool_env env) in
      lift_hist (case ag_provider env of
          OpenAI \<Rightarrow> to_openai_messages fmt (to_openai_format fmt) h
        | Anthropic \<Rightarrow> to_anthropic_messages fmt to_anthropic_format h))"

definition request_tools :: "('d, 'w) agent_env \<Rightarrow> ('d, 'w) registry \<Rightarrow> 'd json" where
  "request_tools env reg = (case ag_provider env of OpenAI \<Rightarrow> to_openai_tools reg | Anthropic \<Rightarrow> to_anthropic_tools reg)"

text \<open>A request: the messages are converted, and the provider answers or throws.\<close>

definition request ::
  "('d, 'w) agent_env \<Rightarrow> ('d, 'w) registry \<Rightarrow> (nat \<Rightarrow> 'd json \<Rightarrow> 'd json \<Rightarrow> 'r option) \<Rightarrow> ('d, 'w) agent_state \<Rightarrow>
   agent_fault + ('r \<times> ('d, 'w) agent_state)" where
  "request env reg answer st =
     bind_sum (request_messages env (as_history st)) (\<lambda>(msgs, h).
       case answer (as_requests st) (request_tools env reg) msgs of
         None \<Rightarrow> Inl ProviderThrew
       | Some r \<Rightarrow> Inr (r, st\<lparr>as_history := h, as_requests := as_requests st + 1\<rparr>))"

definition recover_from_overflow :: "('d, 'w) agent_env \<Rightarrow> ('d, 'w) agent_state \<Rightarrow> agent_fault + (bool \<times> ('d, 'w) agent_state)" where
  "recover_from_overflow env st =
     bind_sum (lift_hist (force_compact (env_fmt (ag_tool_env env)) (ag_instr env) (ag_summarize env (as_requests st))
         (ag_compact env) (ag_safe env) 5 (as_history st)))
       (\<lambda>(ok, n, h). Inr (ok, st\<lparr>as_history := h\<rparr>))"

definition maybe_compact :: "('d, 'w) agent_env \<Rightarrow> ('d, 'w) agent_state \<Rightarrow> agent_fault + ('d, 'w) agent_state" where
  "maybe_compact env st =
     (let fmt = env_fmt (ag_tool_env env) in
      bind_sum (lift_hist (should_compact_local fmt (ag_compact env) (ag_last_rounds env (as_requests st)) (as_history st)))
        (\<lambda>(yes, h).
          Inr (st\<lparr>as_history :=
            (if yes then invalidate_all_cache (snd (compact fmt (ag_instr env) (ag_summarize env (as_requests st))
                 (ag_compact env) 0 0 h))
             else h)\<rparr>)))"

definition message_row :: "string \<Rightarrow> string \<Rightarrow> stored_row" where
  "message_row r t = \<lparr>row_role = r, row_content = t, row_call_id = [], row_tool = []\<rparr>"

definition call_row :: "('d \<Rightarrow> string) \<Rightarrow> 'd tool_call \<Rightarrow> stored_row" where
  "call_row fmt c = \<lparr>row_role = ''tool_call'', row_content = c_str (dump_text fmt (tc_arguments c)), row_call_id = tc_id c,
     row_tool = tc_name c\<rparr>"

definition result_row :: "tool_result \<Rightarrow> stored_row" where
  "result_row r = \<lparr>row_role = ''tool'', row_content = tr_output r, row_call_id = tr_id r, row_tool = tr_name r\<rparr>"

definition persist_tool_step :: "('d \<Rightarrow> string) \<Rightarrow> string \<Rightarrow> 'd tool_call list \<Rightarrow> tool_result list \<Rightarrow> stored_row list" where
  "persist_tool_step fmt text calls results =
     message_row ''assistant'' text # map (call_row fmt) calls @ map result_row results"

definition thinking_rows :: "string \<Rightarrow> stored_row list" where
  "thinking_rows thinking = (if thinking \<noteq> [] then [message_row ''thinking'' thinking] else [])"

subsection \<open>The tool part of a step\<close>

definition tool_limit_hit :: "('d, 'w) agent_env \<Rightarrow> int \<Rightarrow> int \<Rightarrow> int \<Rightarrow> 'd tool_call list \<Rightarrow> chat_result option" where
  "tool_limit_hit env max_tool_steps step used calls =
     (let max_tool_calls = normalize_limit (ag_max_calls env);
          max_per_step = normalize_limit (ag_max_per_step env);
          budgeted = budgeted_tool_call_count calls
      in if budgeted > max_per_step then
           Some (result_tool_limit max_tool_steps (step + 1) max_tool_calls used max_per_step budgeted
             ''Per-step tool call limit reached'')
         else if used + budgeted > max_tool_calls then
           Some (result_tool_limit max_tool_steps (step + 1) max_tool_calls used max_per_step budgeted
             ''Total tool call limit reached'')
         else None)"

definition plan_split :: "('d, 'w) agent_env \<Rightarrow> ('d, 'w) registry \<Rightarrow> nat \<Rightarrow> 'd tool_call list \<Rightarrow> 'd plan_filter" where
  "plan_split env reg n calls =
     (if ag_plan_mode env n then filter_plan_mode_tools reg calls
      else \<lparr>pf_allowed = calls, pf_blocked_calls = [], pf_blocked_results = []\<rparr>)"

definition add_results :: "('d \<Rightarrow> string) \<Rightarrow> tool_result list \<Rightarrow> 'd history \<Rightarrow> 'd history" where
  "add_results fmt rs h = foldl (\<lambda>h r. hist_add_tool_result fmt (tr_id r) (tr_name r) (tr_output r) h) h rs"

text \<open>
  From the plan filter to the last notification. The two versions of the loop differ in when the model's thinking is shown and stored: \<open>before\<close> are
  the events before the calls, \<open>thought_rows\<close> the rows before the assistant's.
\<close>

definition tool_round ::
  "('d, 'w) agent_env \<Rightarrow> ('d, 'w) registry \<Rightarrow> string \<Rightarrow> 'd agent_event list \<Rightarrow> stored_row list \<Rightarrow> 'd tool_call list \<Rightarrow>
   ('d, 'w) agent_state \<Rightarrow> agent_fault + ('d, 'w) agent_state" where
  "tool_round env reg text before thought_rows calls st =
     (let fmt = env_fmt (ag_tool_env env);
          f = plan_split env reg (as_requests st) calls;
          st1 = ag_event (map (\<lambda>c. EvBlocked (tc_name c)) (pf_blocked_calls f) @ before @ notify_visible_tool_calls (pf_allowed f)) st
      in bind_sum (execute_tool_calls env (pf_allowed f) (as_tools st1)) (\<lambda>(results, evs, ts).
           let h1 = add_message fmt (assistant_with_calls text (pf_allowed f @ pf_blocked_calls f)) (as_history st1);
               h2 = add_results fmt (pf_blocked_results f) (add_results fmt results h1);
               st2 = (ag_event evs st1)\<lparr>as_history := h2, as_tools := ts\<rparr>;
               st3 = persist_rows (thought_rows @ persist_tool_step fmt text (pf_allowed f) results) st2
           in Inr (ag_event (notify_visible_tool_results results @ notify_visible_tool_results (pf_blocked_results f)) st3)))"

subsection \<open>One step\<close>

datatype ('d, 'w) step_outcome = NextStep int "('d, 'w) agent_state" | RunDone chat_result "('d, 'w) agent_state"

definition overflow_text :: string where
  "overflow_text = map char_of
     [0xE4, 0xB8, 0x8A, 0xE4, 0xB8, 0x8B, 0xE6, 0x96, 0x87, 0xE8, 0xB6, 0x85, 0xE9, 0x99, 0x90, 0xEF, 0xBC, 0x8C,
      0xE5, 0x8E, 0x8B, 0xE7, 0xBC, 0xA9, 0xE6, 0x81, 0xA2, 0xE5, 0xA4, 0x8D, 0xE5, 0xA4, 0xB1, 0xE8, 0xB4, 0xA5 :: nat]"

text \<open>The recovery after an overflow, the same in both versions; a successful one repeats the step.\<close>

definition overflow_step :: "('d, 'w) agent_env \<Rightarrow> int \<Rightarrow> ('d, 'w) agent_state \<Rightarrow> agent_fault + ('d, 'w) step_outcome" where
  "overflow_step env used st =
     bind_sum (recover_from_overflow env st) (\<lambda>(ok, st).
       Inr (if ok then NextStep used st else RunDone (result_context_overflow overflow_text) st))"

definition chat_step ::
  "('d, 'w) agent_env \<Rightarrow> ('d, 'w) registry \<Rightarrow> int \<Rightarrow> int \<Rightarrow> int \<Rightarrow> ('d, 'w) agent_state \<Rightarrow> agent_fault + ('d, 'w) step_outcome" where
  "chat_step env reg max_tool_steps step used st0 =
     bind_sum (request env reg (ag_reply env) st0) (\<lambda>(response, st).
       if \<not> response_has_content response then
         bind_sum (response_error env response) (\<lambda>(status, error_msg).
           if detect_context_overflow status error_msg then overflow_step env used st
           else Inr (RunDone (result_error (if status > 0 then status else 500) (c_str error_msg)) st))
       else
         let provider = ag_provider env in
         if \<not> response_has_tool_calls response provider then
           bind_sum (extract_thinking response provider) (\<lambda>thinking.
           bind_sum (extract_response_text response provider) (\<lambda>text.
             let st1 = persist_rows (thinking_rows thinking) (ag_event (if thinking \<noteq> [] then [EvThinking thinking] else []) st);
                 st2 = st1\<lparr>as_history := hist_add_text (env_fmt (ag_tool_env env)) Assistant text (as_history st1)\<rparr>;
                 st3 = persist_rows [message_row ''assistant'' text] (ag_event [EvToken text, EvStats] st2)
             in bind_sum (maybe_compact env st3) (\<lambda>st4.
                  Inr (RunDone (result_ok text (dump_text (env_fmt (ag_tool_env env)) response)) st4))))
         else
           let calls = extract_tool_calls env response in
           case tool_limit_hit env max_tool_steps step used calls of
             Some r \<Rightarrow> Inr (RunDone r st)
           | None \<Rightarrow>
               bind_sum (extract_thinking response provider) (\<lambda>thinking.
               bind_sum (tool_round env reg (message_text_with_tools response provider)
                   (if thinking \<noteq> [] then [EvThinking thinking] else []) [] calls st) (\<lambda>st1.
                 Inr (NextStep (used + budgeted_tool_call_count calls) st1))))"

text \<open>The handlers of the streaming version: texts and thoughts are concatenated, the parts of a call are collected under its index.\<close>

record pending_call =
  pc_id :: string
  pc_name :: string
  pc_arguments :: string

definition pending_call_new :: pending_call where
  "pending_call_new = \<lparr>pc_id = [], pc_name = [], pc_arguments = []\<rparr>"

record stream_acc =
  acc_text :: string
  acc_thinking :: string
  acc_calls :: "(int \<times> pending_call) list"

definition add_delta :: "tool_delta \<Rightarrow> (int \<times> pending_call) list \<Rightarrow> (int \<times> pending_call) list" where
  "add_delta delta pend =
     (let tc = (case map_of pend (td_index delta) of Some tc \<Rightarrow> tc | None \<Rightarrow> pending_call_new)
      in sm_put (td_index delta)
           \<lparr>pc_id = (if td_id delta \<noteq> [] then td_id delta else pc_id tc),
            pc_name = (if StreamParser.td_name delta \<noteq> [] then StreamParser.td_name delta else pc_name tc),
            pc_arguments = pc_arguments tc @ td_arguments delta\<rparr> pend)"

fun collect_call :: "stream_acc \<Rightarrow> stream_call \<Rightarrow> stream_acc" where
  "collect_call acc (TokenCall t) = acc\<lparr>acc_text := acc_text acc @ t\<rparr>"
| "collect_call acc (ThinkingCall t) = acc\<lparr>acc_thinking := acc_thinking acc @ t\<rparr>"
| "collect_call acc (ToolDeltaCall d) = acc\<lparr>acc_calls := add_delta d (acc_calls acc)\<rparr>"
| "collect_call acc (StopCall r) = acc"

fun shown_call :: "stream_call \<Rightarrow> 'd agent_event list" where
  "shown_call (TokenCall t) = [EvToken t]"
| "shown_call (ThinkingCall t) = [EvThinking t]"
| "shown_call _ = []"

definition collect_stream :: "stream_call list \<Rightarrow> stream_acc" where
  "collect_stream calls = foldl collect_call \<lparr>acc_text = [], acc_thinking = [], acc_calls = []\<rparr> calls"

text \<open>\<open>parse_json(arguments, err)\<close> with the error ignored: what was read before it is kept.\<close>

definition pending_to_calls :: "(string \<Rightarrow> 'd option) \<Rightarrow> (int \<times> pending_call) list \<Rightarrow> 'd tool_call list" where
  "pending_to_calls strtod pend =
     map (\<lambda>(i, tc). \<lparr>tc_id = pc_id tc, tc_name = pc_name tc, tc_arguments = json_parse strtod (pc_arguments tc)\<rparr>) pend"

definition stream_step ::
  "('d, 'w) agent_env \<Rightarrow> ('d, 'w) registry \<Rightarrow> int \<Rightarrow> int \<Rightarrow> int \<Rightarrow> ('d, 'w) agent_state \<Rightarrow> agent_fault + ('d, 'w) step_outcome" where
  "stream_step env reg max_tool_steps step used st0 =
     bind_sum (request env reg (ag_stream_reply env) st0) (\<lambda>(result, st1).
       let acc = collect_stream (rp_calls result);
           st = ag_event (concat (map shown_call (rp_calls result)) @ [EvToken []]) st1
       in if rp_status result < 200 \<or> rp_status result \<ge> 300 then
            (if detect_context_overflow (rp_status result) (rp_raw result) then overflow_step env used st
             else Inr (RunDone ((result_error (rp_status result)
                 (if rp_raw result = [] then ''Provider stream request failed'' else rp_raw result))\<lparr>cr_raw := rp_raw result\<rparr>) st))
          else if acc_calls acc = [] then
            (let st2 = persist_rows (thinking_rows (acc_thinking acc)) (ag_event [EvStats] st);
                 st3 = st2\<lparr>as_history := hist_add_text (env_fmt (ag_tool_env env)) Assistant (acc_text acc) (as_history st2)\<rparr>;
                 st4 = persist_rows [message_row ''assistant'' (get_all_text (last (h_messages (as_history st3))))] st3
             in bind_sum (maybe_compact env st4) (\<lambda>st5.
                  Inr (RunDone (result_ok (get_all_text (last (h_messages (as_history st5)))) (rp_raw result)) st5)))
          else
            let calls = pending_to_calls (env_strtod (ag_tool_env env)) (acc_calls acc) in
            case tool_limit_hit env max_tool_steps step used calls of
              Some r \<Rightarrow> Inr (RunDone r st)
            | None \<Rightarrow>
                bind_sum (tool_round env reg (acc_text acc) [] (thinking_rows (acc_thinking acc)) calls st) (\<lambda>st2.
                  Inr (NextStep (used + budgeted_tool_call_count calls) st2)))"

subsection \<open>The run\<close>

definition agent_step ::
  "('d, 'w) agent_env \<Rightarrow> ('d, 'w) registry \<Rightarrow> int \<Rightarrow> int \<Rightarrow> int \<Rightarrow> ('d, 'w) agent_state \<Rightarrow> agent_fault + ('d, 'w) step_outcome" where
  "agent_step env reg = (if ag_streaming env then stream_step env reg else chat_step env reg)"

text \<open>The loop with \<open>n\<close> steps left.\<close>

fun agent_loop ::
  "('d, 'w) agent_env \<Rightarrow> ('d, 'w) registry \<Rightarrow> int \<Rightarrow> nat \<Rightarrow> int \<Rightarrow> ('d, 'w) agent_state \<Rightarrow>
   agent_fault + (chat_result \<times> ('d, 'w) agent_state)" where
  "agent_loop env reg max_tool_steps 0 used st =
     Inr (result_tool_limit max_tool_steps max_tool_steps (normalize_limit (ag_max_calls env)) used
       (normalize_limit (ag_max_per_step env)) 0 ''Tool step limit reached'', st)"
| "agent_loop env reg max_tool_steps (Suc n) used st =
     bind_sum (agent_step env reg max_tool_steps (max_tool_steps - int (Suc n)) used st) (\<lambda>out.
       case out of
         RunDone r st' \<Rightarrow> Inr (r, st')
       | NextStep used' st' \<Rightarrow> agent_loop env reg max_tool_steps n used' st')"

definition step_limit :: "('d, 'w) agent_env \<Rightarrow> run_options \<Rightarrow> int" where
  "step_limit env opts = normalize_limit (if ro_max_steps opts > 0 then ro_max_steps opts else ag_max_steps env)"

text \<open>The part before the loop: the system prompt, the user's message with the mode, its row, and the title of a new session.\<close>

definition begin_run :: "('d, 'w) agent_env \<Rightarrow> run_options \<Rightarrow> string \<Rightarrow> ('d, 'w) agent_state \<Rightarrow> ('d, 'w) agent_state" where
  "begin_run env opts prompt st =
     (let system_prompt = ag_system_prompt env @ (if ro_system_prompt opts \<noteq> [] then LF # ro_system_prompt opts else []);
          h1 = snd (set_system_prompt system_prompt (as_history st));
          model_prompt = (if ag_plan_mode env (as_requests st) then ''[Mode: plan]'' else ''[Mode: execution]'') @ [LF] @
            prompt @ ag_todo_context env;
          st1 = st\<lparr>as_history := hist_add_text (env_fmt (ag_tool_env env)) User model_prompt h1\<rparr>;
          st2 = (if ro_persist_user opts then persist_rows [message_row ''user'' prompt] st1 else st1)
      in if length (h_messages h1) = 1 then st2\<lparr>as_titles := as_titles st2 @ [make_session_title model_prompt]\<rparr> else st2)"

definition run_session_async ::
  "('d, 'w) agent_env \<Rightarrow> run_options \<Rightarrow> ('d, 'w) registry option \<Rightarrow> string \<Rightarrow> ('d, 'w) agent_state \<Rightarrow>
   agent_fault + (chat_result \<times> ('d, 'w) agent_state)" where
  "run_session_async env opts tool_override prompt st =
     (if prompt = [] then Inr (result_invalid_input ''Invalid input: prompt is empty'', st)
      else
        let reg = (case tool_override of Some reg \<Rightarrow> reg | None \<Rightarrow> ag_tools env);
            max_tool_steps = step_limit env opts
        in agent_loop env reg max_tool_steps (nat max_tool_steps) 0 (begin_run env opts prompt st))"

text \<open>The registry of a sub-agent; \<open>for_each\<close> visits the entries in table order.\<close>

definition create_filtered_registry :: "string list \<Rightarrow> ('d, 'w) registry \<Rightarrow> ('d, 'w) registry" where
  "create_filtered_registry filter_names parent =
     foldl (\<lambda>reg (name, entry).
        if name = ''delegate_task'' \<or> name = ''delegate_tasks'' then reg
        else if filter_names \<noteq> [] \<and> name \<notin> set filter_names then reg
        else register_tool name (td_description (te_definition entry)) (td_parameters (te_definition entry)) (te_executor entry)
               (td_read_only (te_definition entry)) reg) [] parent"

subsection \<open>What a step does\<close>

text \<open>
  The run up to the tools of a step: one request, the tools are untouched, the conversation stays answered, and only texts are
  stored.
\<close>

definition text_row :: "stored_row \<Rightarrow> bool" where
  "text_row r \<longleftrightarrow> row_role r \<in> {''user'', ''assistant'', ''thinking''}"

definition stores_texts :: "('d, 'w) agent_state \<Rightarrow> ('d, 'w) agent_state \<Rightarrow> bool" where
  "stores_texts st st' \<longleftrightarrow> (\<exists>rows. as_rows st' = as_rows st @ rows \<and> list_all text_row rows)"

definition quiet :: "('d, 'w) agent_state \<Rightarrow> ('d, 'w) agent_state \<Rightarrow> bool" where
  "quiet st st' \<longleftrightarrow> as_tools st' = as_tools st \<and> as_requests st' = as_requests st + 1 \<and>
     (answered (h_messages (as_history st)) \<longrightarrow> answered (h_messages (as_history st'))) \<and> stores_texts st st'"

lemma stores_texts_same: "as_rows st' = as_rows st \<Longrightarrow> stores_texts st st'"
  by (simp add: stores_texts_def)

lemma thinking_text_rows [simp]:
  "list_all text_row (thinking_rows t)" "text_row (message_row ''assistant'' t)" "text_row (message_row ''user'' t)"
  by (simp_all add: thinking_rows_def text_row_def message_row_def)

lemma stores_texts_simps [simp]:
  "stores_texts st st" "stores_texts st (st1\<lparr>as_history := h\<rparr>) = stores_texts st st1"
  "stores_texts st (ag_event evs st1) = stores_texts st st1"
  "list_all text_row rows \<Longrightarrow> stores_texts st st1 \<Longrightarrow> stores_texts st (persist_rows rows st1)"
  by (auto simp: stores_texts_def ag_event_def persist_rows_def)

lemma event_rows_fields [simp]:
  "as_tools (ag_event evs st) = as_tools st" "as_requests (ag_event evs st) = as_requests st"
  "as_history (ag_event evs st) = as_history st" "as_tools (persist_rows rows st) = as_tools st"
  "as_requests (persist_rows rows st) = as_requests st" "as_history (persist_rows rows st) = as_history st"
  "as_rows (ag_event evs st) = as_rows st" "as_rows (persist_rows rows st) = as_rows st @ rows"
  by (simp_all add: ag_event_def persist_rows_def)

lemma lift_hist_Inr [simp]: "lift_hist x = Inr y \<longleftrightarrow> x = Some y"
  by (simp add: lift_hist_def split: option.split)

lemma lift_perm_Inr [simp]: "lift_perm x = Inr y \<longleftrightarrow> x = Inr y"
  by (cases x) (simp_all add: lift_perm_def)

lemma map_sum_Inr: "map_sum id f x = Inr y \<longleftrightarrow> (\<exists>a. x = Inr a \<and> y = f a)"
  by (cases x) auto

lemma request_messages_messages: "request_messages env h = Inr (j, h') \<Longrightarrow> h_messages h' = h_messages h"
  by (auto simp: request_messages_def Let_def split: provider.splits dest: to_openai_messages_messages to_anthropic_messages_messages)

lemma request_quiet:
  assumes "request env reg answer st = Inr (r, st')"
  shows "quiet st st'"
proof -
  obtain msgs h where "request_messages env (as_history st) = Inr (msgs, h)"
    and "st' = st\<lparr>as_history := h, as_requests := as_requests st + 1\<rparr>"
    using assms by (auto simp: request_def bind_sum_Inr split: option.splits)
  then show ?thesis using request_messages_messages [of env "as_history st" msgs h] by (simp add: quiet_def stores_texts_same)
qed

lemma recover_quiet:
  "recover_from_overflow env st = Inr (ok, st') \<Longrightarrow> as_tools st' = as_tools st \<and> as_requests st' = as_requests st \<and> as_rows st' = as_rows st \<and>
     (answered (h_messages (as_history st)) \<longrightarrow> answered (h_messages (as_history st')))"
  by (auto simp: recover_from_overflow_def bind_sum_Inr dest: force_compact_answered)

lemma overflow_step_quiet:
  assumes "overflow_step env used st = Inr out" "quiet st0 st"
  shows "\<exists>st'. quiet st0 st' \<and> (out = NextStep used st' \<or> (\<exists>r. out = RunDone r st'))"
proof -
  obtain ok st' where r: "recover_from_overflow env st = Inr (ok, st')"
    and out: "out = (if ok then NextStep used st' else RunDone (result_context_overflow overflow_text) st')"
    using assms(1) by (auto simp: overflow_step_def bind_sum_Inr)
  have "quiet st0 st'" using assms(2) recover_quiet [OF r] by (auto simp: quiet_def stores_texts_def)
  then show ?thesis using out by auto
qed

lemma maybe_compact_quiet:
  assumes "maybe_compact env st = Inr st'"
  shows "as_tools st' = as_tools st \<and> as_requests st' = as_requests st \<and> as_rows st' = as_rows st \<and>
     (answered (h_messages (as_history st)) \<longrightarrow> answered (h_messages (as_history st')))"
proof -
  let ?fmt = "env_fmt (ag_tool_env env)"
  obtain yes h where sc: "should_compact_local ?fmt (ag_compact env) (ag_last_rounds env (as_requests st)) (as_history st) = Some (yes, h)"
    and st': "st' = st\<lparr>as_history := (if yes then invalidate_all_cache (snd (compact ?fmt (ag_instr env)
       (ag_summarize env (as_requests st)) (ag_compact env) 0 0 h)) else h)\<rparr>"
    using assms by (auto simp: maybe_compact_def Let_def bind_sum_Inr)
  have "h_messages h = h_messages (as_history st)"
    using sc by (auto simp: should_compact_local_def dest: pruned_tokens_messages)
  then show ?thesis using st' compact_answered [of h] by auto
qed

lemma add_text_answered:
  "answered (h_messages h) \<Longrightarrow> r \<noteq> Tool \<Longrightarrow> answered (h_messages (hist_add_text fmt r t h))"
  by (simp add: hist_add_text_def answered_append answered_text)

text \<open>A step asks the provider once; then it is quiet, or it is within the limits and a round of tools follows.\<close>

definition tool_turn ::
  "('d, 'w) agent_env \<Rightarrow> ('d, 'w) registry \<Rightarrow> int \<Rightarrow> int \<Rightarrow> ('d, 'w) agent_state \<Rightarrow> ('d, 'w) agent_state \<Rightarrow> bool" where
  "tool_turn env reg used used' st st' \<longleftrightarrow>
     (\<exists>calls text before rows. list_all text_row rows \<and> budgeted_tool_call_count calls \<le> normalize_limit (ag_max_per_step env) \<and>
        used' = used + budgeted_tool_call_count calls \<and> used' \<le> normalize_limit (ag_max_calls env) \<and>
        tool_round env reg text before rows calls st = Inr st')"

lemma tool_limit_None:
  "tool_limit_hit env ms step used calls = None \<longleftrightarrow>
     budgeted_tool_call_count calls \<le> normalize_limit (ag_max_per_step env) \<and>
     used + budgeted_tool_call_count calls \<le> normalize_limit (ag_max_calls env)"
  by (auto simp: tool_limit_hit_def Let_def)

lemma chat_step_cases:
  assumes "chat_step env reg ms step used st = Inr out"
  shows "\<exists>st1. quiet st st1 \<and> (out = NextStep used st1 \<or> (\<exists>r. out = RunDone r st1) \<or>
    (\<exists>used' st2. tool_turn env reg used used' st1 st2 \<and> out = NextStep used' st2))"
proof -
  obtain response st1 where req: "request env reg (ag_reply env) st = Inr (response, st1)"
    using assms by (auto simp: chat_step_def bind_sum_Inr)
  note q = request_quiet [OF req]
  note step = assms [unfolded chat_step_def req bind_sum_simps prod.case]
  show ?thesis
  proof (cases "response_has_content response")
    case False
    then have "overflow_step env used st1 = Inr out \<or> (\<exists>r. out = RunDone r st1)"
      using step by (auto simp: bind_sum_Inr split: if_splits)
    then show ?thesis using overflow_step_quiet [OF _ q] q by blast
  next
    case content: True
    show ?thesis
    proof (cases "response_has_tool_calls response (ag_provider env)")
      case False
      then obtain t st2 st' where c: "maybe_compact env st2 = Inr st'" and out: "\<exists>r. out = RunDone r st'"
        and st2: "as_tools st2 = as_tools st1" "as_requests st2 = as_requests st1"
          "as_history st2 = hist_add_text (env_fmt (ag_tool_env env)) Assistant t (as_history st1)"
          and rows: "stores_texts st1 st2"
        using step content by (auto simp: bind_sum_Inr Let_def)
      have "stores_texts st st'"
        using q rows maybe_compact_quiet [OF c] by (auto simp: quiet_def stores_texts_def)
      then have "quiet st st'"
        using q maybe_compact_quiet [OF c] st2 add_text_answered [of "as_history st1" Assistant] by (auto simp: quiet_def)
      then show ?thesis using out by blast
    next
      case True
      let ?calls = "extract_tool_calls env response"
      show ?thesis
      proof (cases "tool_limit_hit env ms step used ?calls")
        case None
        then obtain thinking st2 where
          "tool_round env reg (message_text_with_tools response (ag_provider env))
            (if thinking \<noteq> [] then [EvThinking thinking] else []) [] ?calls st1 = Inr st2"
          "out = NextStep (used + budgeted_tool_call_count ?calls) st2"
          using step content True by (auto simp: bind_sum_Inr Let_def simp del: extract_tool_calls.simps)
        then show ?thesis using None q thinking_text_rows(1) unfolding tool_limit_None tool_turn_def by fastforce
      next
        case (Some r)
        then show ?thesis using step content True q by (auto simp: Let_def simp del: extract_tool_calls.simps)
      qed
    qed
  qed
qed

lemma quiet_event: "quiet st (ag_event evs st1) \<longleftrightarrow> quiet st st1"
  by (simp add: quiet_def)

lemma stream_step_cases:
  assumes "stream_step env reg ms step used st = Inr out"
  shows "\<exists>st1. quiet st st1 \<and> (out = NextStep used st1 \<or> (\<exists>r. out = RunDone r st1) \<or>
    (\<exists>used' st2. tool_turn env reg used used' st1 st2 \<and> out = NextStep used' st2))"
proof -
  obtain result st0 where req: "request env reg (ag_stream_reply env) st = Inr (result, st0)"
    using assms by (auto simp: stream_step_def bind_sum_Inr)
  define acc where "acc = collect_stream (rp_calls result)"
  define st1 where "st1 = ag_event (concat (map shown_call (rp_calls result)) @ [EvToken []]) st0"
  have q: "quiet st st1" using request_quiet [OF req] by (simp add: st1_def quiet_event)
  note step = assms [unfolded stream_step_def req bind_sum_simps prod.case Let_def, folded acc_def st1_def]
  show ?thesis
  proof (cases "rp_status result < 200 \<or> rp_status result \<ge> 300")
    case True
    then have "overflow_step env used st1 = Inr out \<or> (\<exists>r. out = RunDone r st1)"
      using step by (auto split: if_splits)
    then show ?thesis using overflow_step_quiet [OF _ q] q by blast
  next
    case status: False
    show ?thesis
    proof (cases "acc_calls acc = []")
      case True
      then obtain st2 st' where c: "maybe_compact env st2 = Inr st'" and out: "\<exists>r. out = RunDone r st'"
        and st2: "as_tools st2 = as_tools st1" "as_requests st2 = as_requests st1"
          "as_history st2 = hist_add_text (env_fmt (ag_tool_env env)) Assistant (acc_text acc) (as_history st1)"
          and rows: "stores_texts st1 st2"
        using step status by (auto simp: bind_sum_Inr)
      have "stores_texts st st'"
        using q rows maybe_compact_quiet [OF c] by (auto simp: quiet_def stores_texts_def)
      then have "quiet st st'"
        using q maybe_compact_quiet [OF c] st2 add_text_answered [of "as_history st1" Assistant] by (auto simp: quiet_def)
      then show ?thesis using out by blast
    next
      case False
      let ?calls = "pending_to_calls (env_strtod (ag_tool_env env)) (acc_calls acc)"
      show ?thesis
      proof (cases "tool_limit_hit env ms step used ?calls")
        case None
        then obtain st2 where
          "tool_round env reg (acc_text acc) [] (thinking_rows (acc_thinking acc)) ?calls st1 = Inr st2"
          "out = NextStep (used + budgeted_tool_call_count ?calls) st2"
          using step status False by (auto simp: bind_sum_Inr)
        then show ?thesis using None q thinking_text_rows(1) unfolding tool_limit_None tool_turn_def by fastforce
      next
        case (Some r)
        then show ?thesis using step status False q by auto
      qed
    qed
  qed
qed

lemma agent_step_cases:
  assumes "agent_step env reg ms step used st = Inr out"
  obtains (on) st1 where "quiet st st1" "out = NextStep used st1"
    | (finished) st1 r where "quiet st st1" "out = RunDone r st1"
    | (tools) st1 used' st2 where "quiet st st1" "tool_turn env reg used used' st1 st2" "out = NextStep used' st2"
  using assms chat_step_cases [of env reg ms step used st out] stream_step_cases [of env reg ms step used st out]
  by (auto simp: agent_step_def split: if_splits)

subsection \<open>A round of tools\<close>

lemma todo_call_id: "handle_update_todo_call env call = Inr (r, evs) \<Longrightarrow> tr_id r = tc_id call"
  by (auto simp: handle_update_todo_call_def bind_sum_Inr todo_reply_def split: if_splits)

lemma execute_tool_calls_Cons:
  assumes "execute_tool_calls env (call # calls) ts = Inr (rs, evs, ts')"
  obtains r rs1 evs1 ts1 where "rs = r # rs1" "execute_tool_calls env calls ts1 = Inr (rs1, evs1, ts')" "tr_id r = tc_id call"
    and "if is_update_todo_call call then ts1 = ts else execute_tool (ag_tool_env env) (ag_tools env) call ts = Inr (r, ts1)"
proof (cases "is_update_todo_call call")
  case True
  then show thesis using assms that by (auto simp: bind_sum_Inr map_sum_Inr dest: todo_call_id)
next
  case False
  then obtain r ts1 rs1 where "execute_tool (ag_tool_env env) (ag_tools env) call ts = Inr (r, ts1)"
    "execute_tool_calls env calls ts1 = Inr (rs1, evs, ts')" "rs = r # rs1"
    using assms by (auto simp: bind_sum_Inr map_sum_Inr)
  then show thesis
    using that [of r rs1 ts1 evs] False execute_tool_result(1) [of "ag_tool_env env" "ag_tools env" call ts r ts1] by simp
qed

lemma execute_tool_calls_ids: "execute_tool_calls env calls ts = Inr (rs, evs, ts') \<Longrightarrow> map tr_id rs = map tc_id calls"
proof (induction calls arbitrary: ts rs evs)
  case (Cons call calls)
  show ?case by (rule execute_tool_calls_Cons [OF Cons.prems]) (auto dest: Cons.IH)
qed simp

text \<open>Every started tool is one of the calls, in their order, and \<open>update_todo\<close> is not counted.\<close>

lemma execute_tool_calls_ran:
  "execute_tool_calls env calls ts = Inr (rs, evs, ts') \<Longrightarrow>
   \<exists>new. tm_ran ts' = tm_ran ts @ new \<and> set new \<subseteq> (\<lambda>c. (tc_name c, tc_arguments c)) ` set calls \<and>
     int (length new) \<le> budgeted_tool_call_count calls"
proof (induction calls arbitrary: ts rs evs)
  case (Cons call calls)
  show ?case
  proof (rule execute_tool_calls_Cons [OF Cons.prems])
    fix r rs1 evs1 ts1
    assume "execute_tool_calls env calls ts1 = Inr (rs1, evs1, ts')"
      and c: "if is_update_todo_call call then ts1 = ts else execute_tool (ag_tool_env env) (ag_tools env) call ts = Inr (r, ts1)"
    from Cons.IH [OF this(1)] obtain new where new: "tm_ran ts' = tm_ran ts1 @ new"
      "set new \<subseteq> (\<lambda>c. (tc_name c, tc_arguments c)) ` set calls" "int (length new) \<le> budgeted_tool_call_count calls" by blast
    have "tm_ran ts1 = tm_ran ts \<or> \<not> is_update_todo_call call \<and> tm_ran ts1 = tm_ran ts @ [(tc_name call, tc_arguments call)]"
      using c execute_tool_result(4) [of "ag_tool_env env" "ag_tools env" call ts r ts1] by (auto split: if_splits)
    then show ?case
    proof
      assume "tm_ran ts1 = tm_ran ts"
      then show ?thesis using new by (intro exI [of _ new]) (auto simp: budgeted_tool_call_count_def)
    next
      assume "\<not> is_update_todo_call call \<and> tm_ran ts1 = tm_ran ts @ [(tc_name call, tc_arguments call)]"
      then show ?thesis
        using new by (intro exI [of _ "(tc_name call, tc_arguments call) # new"]) (auto simp: budgeted_tool_call_count_def)
    qed
  qed
qed (simp add: budgeted_tool_call_count_def)

lemma add_results_messages:
  "h_messages (add_results fmt rs h) =
     h_messages h @ map tool_result_message (map (\<lambda>r. \<lparr>tr_id = tr_id r, tr_name = [], tr_output = tr_output r, tr_success = True\<rparr>) rs)"
  by (induction rs arbitrary: h) (simp_all add: add_results_def hist_add_tool_result_def)

lemma assistant_with_calls_ids:
  "m_role (assistant_with_calls text calls) = Assistant" "call_ids (assistant_with_calls text calls) = map tc_id calls"
  "result_ids (assistant_with_calls text calls) = []"
proof -
  have "block_calls (map ToolUse calls) = calls" "block_results (map ToolUse calls) = []" by (induction calls) simp_all
  then show "m_role (assistant_with_calls text calls) = Assistant" "call_ids (assistant_with_calls text calls) = map tc_id calls"
    "result_ids (assistant_with_calls text calls) = []"
    by (simp_all add: assistant_with_calls_def call_ids_def result_ids_def get_tool_calls_def get_tool_results_def)
qed

lemma plan_split_blocked: "map tr_id (pf_blocked_results (plan_split env reg n calls)) = map tc_id (pf_blocked_calls (plan_split env reg n calls))"
  by (simp add: plan_split_def filter_plan_mode_tools_eq blocked_result_def)

lemma plan_split_allowed: "set (pf_allowed (plan_split env reg n calls)) \<subseteq> set calls"
  by (auto simp: plan_split_def filter_plan_mode_tools_eq)

lemma budgeted_plan_split: "budgeted_tool_call_count (pf_allowed (plan_split env reg n calls)) \<le> budgeted_tool_call_count calls"
  by (induction calls) (auto simp: plan_split_def filter_plan_mode_tools_eq budgeted_tool_call_count_def)

lemma tool_round_result:
  assumes "tool_round env reg text before rows calls st = Inr st'"
  obtains rs evs where
      "execute_tool_calls env (pf_allowed (plan_split env reg (as_requests st) calls)) (as_tools st) = Inr (rs, evs, as_tools st')"
      "as_requests st' = as_requests st"
      "answered (h_messages (as_history st)) \<Longrightarrow> answered (h_messages (as_history st'))"
      "as_rows st' = as_rows st @ rows @ persist_tool_step (env_fmt (ag_tool_env env)) text
         (pf_allowed (plan_split env reg (as_requests st) calls)) rs"
      "map tr_id rs = map tc_id (pf_allowed (plan_split env reg (as_requests st) calls))"
proof -
  let ?f = "plan_split env reg (as_requests st) calls"
  obtain rs evs ts where ex: "execute_tool_calls env (pf_allowed ?f) (as_tools st) = Inr (rs, evs, ts)"
    and st': "as_tools st' = ts" "as_requests st' = as_requests st"
      "h_messages (as_history st') = h_messages (as_history st) @ assistant_with_calls text (pf_allowed ?f @ pf_blocked_calls ?f) #
         map tool_result_message (map (\<lambda>r. \<lparr>tr_id = tr_id r, tr_name = [], tr_output = tr_output r, tr_success = True\<rparr>)
           (rs @ pf_blocked_results ?f))"
      and stored: "as_rows st' = as_rows st @ rows @ persist_tool_step (env_fmt (ag_tool_env env)) text (pf_allowed ?f) rs"
    using assms by (auto simp: tool_round_def Let_def bind_sum_Inr add_results_messages)
  have "answered (assistant_with_calls text (pf_allowed ?f @ pf_blocked_calls ?f) #
         map tool_result_message (map (\<lambda>r. \<lparr>tr_id = tr_id r, tr_name = [], tr_output = tr_output r, tr_success = True\<rparr>)
           (rs @ pf_blocked_results ?f)))"
    using execute_tool_calls_ids [OF ex] plan_split_blocked [of env reg "as_requests st" calls]
    by (intro answered_turn) (simp_all add: assistant_with_calls_ids comp_def)
  then have "answered (h_messages (as_history st))  \<Longrightarrow> answered (h_messages (as_history st'))"
    unfolding st'(3) by (rule answered_append [rotated])
  then show thesis using that [of rs evs] ex st'(1,2) stored execute_tool_calls_ids [OF ex] by simp
qed

subsection \<open>Invariants of a run\<close>

text \<open>
  What holds of a run if it survives a quiet step and a round of tools; \<open>used\<close> is the number of budgeted calls and \<open>n\<close> the number of steps
  that are left.
\<close>

locale agent_invariant =
  fixes env :: "('d, 'w) agent_env" and reg :: "('d, 'w) registry"
    and I :: "int \<Rightarrow> nat \<Rightarrow> ('d, 'w) agent_state \<Rightarrow> bool"
  assumes quiet_step: "I used (Suc n) st \<Longrightarrow> quiet st st' \<Longrightarrow> I used n st'"
    and tool_step: "I used n st \<Longrightarrow> tool_turn env reg used used' st st' \<Longrightarrow> I used' n st'"
begin

lemma loop:
  "agent_loop env reg ms n used st = Inr (r, st') \<Longrightarrow> I used n st \<Longrightarrow> \<exists>used' n'. n' \<le> n \<and> I used' n' st'"
proof (induction n arbitrary: used st)
  case (Suc n)
  obtain out where out: "agent_step env reg ms (ms - int (Suc n)) used st = Inr out"
    using Suc.prems(1) by (auto simp: bind_sum_Inr)
  note rest = Suc.prems(1) [unfolded agent_loop.simps out bind_sum_simps]
  from out show ?case
  proof (cases rule: agent_step_cases)
    case (on st1)
    then have "agent_loop env reg ms n used st1 = Inr (r, st')" using rest by simp
    from Suc.IH [OF this quiet_step [OF Suc.prems(2) on(1)]] show ?thesis using le_SucI by blast
  next
    case (finished st1 r1)
    then have "st1 = st'" using rest by simp
    then show ?thesis using quiet_step [OF Suc.prems(2) finished(1)] le_SucI [OF order_refl [of n]] by blast
  next
    case (tools st1 used' st2)
    then have "agent_loop env reg ms n used' st2 = Inr (r, st')" using rest by simp
    from Suc.IH [OF this tool_step [OF quiet_step [OF Suc.prems(2) tools(1)] tools(2)]] show ?thesis using le_SucI by blast
  qed
qed auto

end

lemma begin_run_quiet:
  "as_tools (begin_run env opts prompt st) = as_tools st" "as_requests (begin_run env opts prompt st) = as_requests st"
  "answered (h_messages (as_history st)) \<Longrightarrow> answered (h_messages (as_history (begin_run env opts prompt st)))"
  by (simp_all add: begin_run_def Let_def add_text_answered set_system_prompt_answered)

text \<open>The three invariants: the conversation, the budget, and plan mode.\<close>

interpretation conversation: agent_invariant env reg "\<lambda>used n st. answered (h_messages (as_history st))" for env reg
  by unfold_locales (auto simp: quiet_def tool_turn_def elim: tool_round_result)

definition tools_started :: "('d, 'w) agent_state \<Rightarrow> nat" where
  "tools_started st = length (tm_ran (as_tools st))"

lemma tool_turn_ran:
  assumes "tool_turn env reg used used' st st'"
  obtains calls new where "tm_ran (as_tools st') = tm_ran (as_tools st) @ new"
    "set new \<subseteq> (\<lambda>c. (tc_name c, tc_arguments c)) ` set (pf_allowed (plan_split env reg (as_requests st) calls))"
    "int (length new) \<le> used' - used" "used' \<le> normalize_limit (ag_max_calls env)" "as_requests st' = as_requests st"
proof -
  obtain calls t0 before rows where t: "tool_round env reg t0 before rows calls st = Inr st'"
      "used' = used + budgeted_tool_call_count calls" "used' \<le> normalize_limit (ag_max_calls env)"
    using assms by (auto simp: tool_turn_def)
  from t(1) obtain rs evs where ex: "execute_tool_calls env (pf_allowed (plan_split env reg (as_requests st) calls)) (as_tools st) =
      Inr (rs, evs, as_tools st')" "as_requests st' = as_requests st"
    by (rule tool_round_result)
  show thesis
    using execute_tool_calls_ran [OF ex(1)] budgeted_plan_split [of env reg "as_requests st" calls] t(2,3) ex(2) that
    by fastforce
qed

interpretation budget: agent_invariant env reg
  "\<lambda>used n st. int (tools_started st) \<le> int started + used \<and> used \<le> normalize_limit (ag_max_calls env) \<and>
     as_requests st + n \<le> requests" for env reg started requests
  by unfold_locales (auto simp: quiet_def tools_started_def elim!: tool_turn_ran)

interpretation plan: agent_invariant env reg
  "\<lambda>used n st. \<exists>new. tm_ran (as_tools st) = old @ new \<and>
     ((\<forall>k. ag_plan_mode env k) \<longrightarrow> (\<forall>x \<in> set new. is_read_only reg (fst x)))" for env reg old
proof (unfold_locales, goal_cases)
  case (2 used n st used' st')
  from 2(2) obtain calls new where new: "tm_ran (as_tools st') = tm_ran (as_tools st) @ new"
    "set new \<subseteq> (\<lambda>c. (tc_name c, tc_arguments c)) ` set (pf_allowed (plan_split env reg (as_requests st) calls))"
    by (rule tool_turn_ran)
  have ro: "\<forall>x \<in> set new. is_read_only reg (fst x)" if "\<forall>k. ag_plan_mode env k"
    using new(2) that by (auto simp: plan_split_def filter_plan_mode_tools_eq)
  from 2(1) obtain before where "tm_ran (as_tools st) = old @ before"
    "(\<forall>k. ag_plan_mode env k) \<longrightarrow> (\<forall>x \<in> set before. is_read_only reg (fst x))" by blast
  with new(1) ro show ?case by (intro exI [of _ "before @ new"]) auto
qed (simp add: quiet_def)

subsection \<open>Properties of a run\<close>

definition effective_registry :: "('d, 'w) agent_env \<Rightarrow> ('d, 'w) registry option \<Rightarrow> ('d, 'w) registry" where
  "effective_registry env tool_override = (case tool_override of Some reg \<Rightarrow> reg | None \<Rightarrow> ag_tools env)"

lemma run_session_loop:
  assumes "run_session_async env opts tool_override prompt st = Inr (r, st')"
  shows "st' = st \<or> agent_loop env (effective_registry env tool_override) (step_limit env opts) (nat (step_limit env opts)) 0
     (begin_run env opts prompt st) = Inr (r, st')"
  using assms by (auto simp: run_session_async_def effective_registry_def Let_def split: if_splits)



text \<open>
  C4: in plan mode the agent only reads: every tool that a run in plan mode starts is marked read-only in the registry
  the run was given.
\<close>

theorem plan_mode_only_reads:
  assumes "\<forall>k. ag_plan_mode env k" "run_session_async env opts tool_override prompt st = Inr (r, st')"
  shows "\<exists>new. tm_ran (as_tools st') = tm_ran (as_tools st) @ new \<and>
    list_all (\<lambda>(name, args). is_read_only (effective_registry env tool_override) name) new"
proof -
  from run_session_loop [OF assms(2)] show ?thesis
  proof
    assume "agent_loop env (effective_registry env tool_override) (step_limit env opts) (nat (step_limit env opts)) 0
     (begin_run env opts prompt st) = Inr (r, st')"
    from plan.loop [OF this, of "tm_ran (as_tools st)"] show ?thesis
      using assms(1) begin_run_quiet(1) [of env opts prompt st] by (fastforce simp: list_all_iff case_prod_beta)
  qed simp
qed

text \<open>
  Without streaming a context overflow is never recognized. A reply with an error object is an ordinary error of the provider with status 500 unless the object has a
  member \<open>status\<close> (the status of the HTTP response does not reach the loop), whatever its message says of the context length.
\<close>

theorem overflow_not_recognized:
  assumes "request env reg (ag_reply env) st = Inr (JObject [(''error'', JObject kvs)], st1)" "map_of kvs ''status'' = None"
    and "value_str (JObject kvs) ''message'' [] = msg" "msg \<noteq> []"
  shows "chat_step env reg ms step used st = Inr (RunDone (result_error 500 (c_str msg)) st1)"
  using assms
  by (simp add: chat_step_def response_has_content_def response_error_def detect_context_overflow_def)

subsection \<open>A run of a sub-agent\<close>

text \<open>A provider that first asks for \<open>delegate_task\<close> and then says that it is done; the task of the tool pool is late.\<close>

definition idle_entry :: "bool \<Rightarrow> string \<Rightarrow> (unit, unit) tool_entry" where
  "idle_entry ro name = \<lparr>te_definition = \<lparr>td_tool_name = name, td_description = [], td_parameters = [], td_read_only = ro\<rparr>,
     te_executor = (\<lambda>args w. (ExecReturned [], w))\<rparr>"

definition sample_tools :: "(unit, unit) registry" where
  "sample_tools = [(''read_file'', idle_entry True ''read_file''), (''delegate_task'', idle_entry False ''delegate_task'')]"

definition sample_reply :: "nat \<Rightarrow> stream_reply" where
  "sample_reply n = \<lparr>rp_status = 200, rp_raw = [], rp_calls =
     (if n = 0 then [ToolDeltaCall \<lparr>td_index = 0, td_id = ''c1'', td_name = ''delegate_task'', td_arguments = ''{}''\<rparr>]
      else [TokenCall ''done''])\<rparr>"

definition sample_agent :: "bool \<Rightarrow> (unit, unit) agent_env" where
  "sample_agent plan_mode = \<lparr>ag_tool_env = demo_env\<lparr>env_run := (\<lambda>n. RunsLate)\<rparr>, ag_tools = sample_tools, ag_provider = OpenAI,
     ag_streaming = True, ag_system_prompt = ''sys'', ag_max_steps = 5, ag_max_calls = 5, ag_max_per_step = 5,
     ag_plan_mode = (\<lambda>n. plan_mode), ag_reply = (\<lambda>n tools msgs. None), ag_stream_reply = (\<lambda>n tools msgs. Some (sample_reply n)),
     ag_trunc = (\<lambda>d. None), ag_compact = \<lparr>hard_threshold = 1000, soft_threshold = 800, keep_budget = 500, keep_recent = 2\<rparr>,
     ag_last_rounds = (\<lambda>n. 0), ag_safe = 700, ag_instr = [], ag_summarize = (\<lambda>n k p. None), ag_todo_context = []\<rparr>"

definition sample_start :: "(unit, unit) agent_state" where
  "sample_start = \<lparr>as_history = hist_new ''s'', as_tools = \<lparr>tm_engine = engine_new ''/w'' 1, tm_world = (), tm_calls = 0, tm_ran = []\<rparr>,
     as_events = [], as_rows = [], as_titles = [], as_requests = 0\<rparr>"

definition sample_options :: run_options where
  "sample_options = \<lparr>ro_system_prompt = [], ro_persist_user = True, ro_max_steps = 0\<rparr>"

lemma stream_step_tools:
  assumes "request env reg (ag_stream_reply env) st = Inr (result, st0)" "200 \<le> rp_status result" "rp_status result < 300"
    and "acc_calls (collect_stream (rp_calls result)) \<noteq> []"
    and "tool_limit_hit env ms step used (pending_to_calls (env_strtod (ag_tool_env env)) (acc_calls (collect_stream (rp_calls result)))) = None"
  shows "stream_step env reg ms step used st =
    bind_sum (tool_round env reg (acc_text (collect_stream (rp_calls result))) []
        (thinking_rows (acc_thinking (collect_stream (rp_calls result))))
        (pending_to_calls (env_strtod (ag_tool_env env)) (acc_calls (collect_stream (rp_calls result))))
        (ag_event (concat (map shown_call (rp_calls result)) @ [EvToken []]) st0))
      (\<lambda>st2. Inr (NextStep (used + budgeted_tool_call_count (pending_to_calls (env_strtod (ag_tool_env env)) (acc_calls (collect_stream (rp_calls result))))) st2))"
  using assms by (simp add: stream_step_def Let_def)

definition sample_call :: "unit tool_call" where
  "sample_call = \<lparr>tc_id = ''c1'', tc_name = ''delegate_task'', tc_arguments = JObject []\<rparr>"

lemma sample_collected:
  "collect_stream (rp_calls (sample_reply 0)) = \<lparr>acc_text = [], acc_thinking = [], acc_calls =
     [(0, \<lparr>pc_id = ''c1'', pc_name = ''delegate_task'', pc_arguments = ''{}''\<rparr>)]\<rparr>"
  "pending_to_calls (\<lambda>s. None) [(0, \<lparr>pc_id = ''c1'', pc_name = ''delegate_task'', pc_arguments = ''{}''\<rparr>)] = [sample_call]"
  "concat (map shown_call (rp_calls (sample_reply 0))) = ([] :: unit agent_event list)"
  by code_simp+

lemma sample_limit: "tool_limit_hit (sample_agent p) ms step 0 [sample_call] = None" "budgeted_tool_call_count [sample_call] = 1"
  by (simp_all add: tool_limit_hit_def sample_agent_def normalize_limit_def budgeted_tool_call_count_def sample_call_def is_update_todo_call_def)

lemma sample_step:
  assumes "request_messages (sample_agent p) (as_history st) = Inr (msgs, h)" "as_requests st = 0"
  shows "agent_step (sample_agent p) reg ms step 0 st =
    bind_sum (tool_round (sample_agent p) reg [] [] [] [sample_call]
      (ag_event [EvToken []] (st\<lparr>as_history := h, as_requests := 1\<rparr>))) (\<lambda>st2. Inr (NextStep 1 st2))"
proof -
  have req: "request (sample_agent p) reg (ag_stream_reply (sample_agent p)) st = Inr (sample_reply 0, st\<lparr>as_history := h, as_requests := 1\<rparr>)"
    using assms by (simp add: request_def sample_agent_def)
  have env: "env_strtod (ag_tool_env (sample_agent p)) = (\<lambda>s. None)" "ag_streaming (sample_agent p)"
    by (simp_all add: sample_agent_def demo_env_def)
  have st: "rp_status (sample_reply 0) = 200" by (simp add: sample_reply_def)
  show ?thesis
    using stream_step_tools [OF req, where ms = ms and step = step and used = 0] sample_limit(1) [of p ms step] sample_limit(2)
    by (simp add: agent_step_def env st sample_collected thinking_rows_def)
qed
lemma tool_round_returns:
  assumes "execute_tool_calls env (pf_allowed (plan_split env reg (as_requests st) calls)) (as_tools st) = Inr (rs, evs, ts)"
  shows "\<exists>st'. tool_round env reg text before rows calls st = Inr st' \<and> as_tools st' = ts \<and> as_requests st' = as_requests st"
  using assms by (simp add: tool_round_def Let_def)

definition sample_ran :: "bool \<Rightarrow> (string \<times> unit json) list" where
  "sample_ran p = (if p then [] else [(''delegate_task'', JObject [])])"

lemma sample_execute:
  "\<exists>rs evs ts. execute_tool_calls (sample_agent p) (pf_allowed (plan_split (sample_agent p)
      (create_filtered_registry [''read_file''] sample_tools) n [sample_call])) (as_tools sample_start) = Inr (rs, evs, ts) \<and>
     tm_ran ts = sample_ran p"
proof -
  have "case execute_tool_calls (sample_agent False) [sample_call] (as_tools sample_start) of
      Inr (rs, evs, ts) \<Rightarrow> tm_ran ts = sample_ran False | Inl f \<Rightarrow> False"
    by code_simp
  moreover have "is_read_only (create_filtered_registry [''read_file''] sample_tools) (tc_name sample_call) = False"
    by code_simp
  ultimately show ?thesis
    by (cases p) (auto simp: plan_split_def sample_agent_def filter_plan_mode_tools_eq sample_ran_def sample_start_def
        split: sum.splits)
qed

lemma sample_step_ran:
  assumes "request_messages (sample_agent p) (as_history st) = Inr (msgs, h)" "as_requests st = 0" "as_tools st = as_tools sample_start"
  shows "\<exists>st'. agent_step (sample_agent p) (create_filtered_registry [''read_file''] sample_tools) ms step 0 st = Inr (NextStep 1 st') \<and>
    tm_ran (as_tools st') = sample_ran p \<and> as_requests st' = 1"
proof -
  let ?reg = "create_filtered_registry [''read_file''] sample_tools"
  let ?st = "ag_event [EvToken []] (st\<lparr>as_history := h, as_requests := 1\<rparr>)"
  obtain rs evs ts where "execute_tool_calls (sample_agent p) (pf_allowed (plan_split (sample_agent p) ?reg (as_requests ?st) [sample_call]))
      (as_tools ?st) = Inr (rs, evs, ts)" and ran: "tm_ran ts = sample_ran p"
    using sample_execute [of p "as_requests ?st"] assms(3) by auto
  from tool_round_returns [OF this(1)] obtain st' where
    "tool_round (sample_agent p) ?reg [] [] [] [sample_call] ?st = Inr st'" "as_tools st' = ts" "as_requests st' = as_requests ?st"
    by blast
  then show ?thesis using sample_step [OF assms(1,2)] ran by simp
qed

lemma sample_run:
  obtains r st' where "run_session_async (sample_agent p) (sample_options\<lparr>ro_max_steps := 1\<rparr>)
      (Some (create_filtered_registry [''read_file''] sample_tools)) ''hi'' sample_start = Inr (r, st')"
    "tm_ran (as_tools st') = sample_ran p" "as_requests st' = 1"
proof -
  let ?opts = "sample_options\<lparr>ro_max_steps := 1\<rparr>"
  let ?st = "begin_run (sample_agent p) ?opts ''hi'' sample_start"
  have "case request_messages (sample_agent p) (as_history ?st) of Inr x \<Rightarrow> True | Inl f \<Rightarrow> False"
    by (cases p) code_simp+
  then obtain msgs h where "request_messages (sample_agent p) (as_history ?st) = Inr (msgs, h)" by (auto split: sum.splits)
  from sample_step_ran [OF this, of 1 0] obtain st' where
    step: "agent_step (sample_agent p) (create_filtered_registry [''read_file''] sample_tools) 1 0 0 ?st = Inr (NextStep 1 st')"
      "tm_ran (as_tools st') = sample_ran p" "as_requests st' = 1"
    by (auto simp: begin_run_quiet sample_start_def)
  have "step_limit (sample_agent p) ?opts = 1" by (simp add: step_limit_def normalize_limit_def)
  then show thesis using that step by (simp add: run_session_async_def)
qed

definition too_long :: "unit json" where
  "too_long = JObject [(''error'', JObject [(''message'', JString ''context_length_exceeded'')])]"

definition refused_agent :: "(unit, unit) agent_env" where
  "refused_agent = (sample_agent False)\<lparr>ag_streaming := False, ag_reply := (\<lambda>n tools msgs. Some too_long)\<rparr>"

theorem overflow_not_recognized_witness:
  "\<exists>st1. chat_step refused_agent [] 5 0 0 sample_start =
     Inr (RunDone (result_error 500 (c_str ''context_length_exceeded'')) st1) \<and>
   detect_context_overflow 400 ''context_length_exceeded''"
proof -
  have "case request_messages refused_agent (as_history sample_start) of Inr x \<Rightarrow> True | Inl f \<Rightarrow> False"
    by code_simp
  then obtain msgs h where "request_messages refused_agent (as_history sample_start) = Inr (msgs, h)" by (auto split: sum.splits)
  then have "request refused_agent [] (ag_reply refused_agent) sample_start =
      Inr (JObject [(''error'', JObject [(''message'', JString ''context_length_exceeded'')])],
        sample_start\<lparr>as_history := h, as_requests := as_requests sample_start + 1\<rparr>)"
    by (simp add: request_def refused_agent_def too_long_def)
  from overflow_not_recognized [OF this, of "''context_length_exceeded''" 5 0 0] show ?thesis
    by (simp add: value_str_def) code_simp
qed



theorem plan_mode_only_reads_witness:
  "\<exists>r st'. run_session_async (sample_agent True) (sample_options\<lparr>ro_max_steps := 1\<rparr>)
      (Some (create_filtered_registry [''read_file''] sample_tools)) ''hi'' sample_start = Inr (r, st') \<and> as_requests st' = 1 \<and>
      list_all (\<lambda>(name, args). is_read_only (create_filtered_registry [''read_file''] sample_tools) name) (tm_ran (as_tools st'))"
proof -
  obtain r st' where run: "run_session_async (sample_agent True) (sample_options\<lparr>ro_max_steps := 1\<rparr>)
      (Some (create_filtered_registry [''read_file''] sample_tools)) ''hi'' sample_start = Inr (r, st')" and n: "as_requests st' = 1"
    by (rule sample_run)
  have "\<forall>k. ag_plan_mode (sample_agent True) k" by (simp add: sample_agent_def)
  from plan_mode_only_reads [OF this run] run n show ?thesis
    by (simp add: effective_registry_def sample_start_def)
qed


end
