(* ===== verification/SessionRestore.thy ===== *)
theory SessionRestore
  imports AgentLoop
begin

text \<open>
  Restoring a session from the database (\<open>Session::restore_from_db\<close>, \<open>workspace/session.cpp\<close>). The rows are those that the agent loop stores (\<open>stored_row\<close>, theory
  \<open>AgentLoop\<close>); the database gives them back as they were stored and in their order. Whatever a sequence of runs has
  stored, the restored conversation keeps the protocol of the providers.
\<close>

text \<open>A call's arguments; a text that does not parse is kept with the error.\<close>

definition restored_arguments :: "(string \<Rightarrow> 'd option) \<Rightarrow> string \<Rightarrow> 'd json" where
  "restored_arguments strtod args_text =
     (case parse strtod args_text of
        Some (v, None) \<Rightarrow> v
      | Some (v, Some e) \<Rightarrow>
          JObject [(''_raw_arguments'', JString args_text), (''_parse_error'', JString (error_text e))]
      | None \<Rightarrow> JNull)"

definition restored_call :: "(string \<Rightarrow> 'd option) \<Rightarrow> stored_row \<Rightarrow> 'd tool_call" where
  "restored_call strtod r =
     \<lparr>tc_id = c_str (row_call_id r), tc_name = c_str (row_tool r), tc_arguments = restored_arguments strtod (row_content r)\<rparr>"

definition restored_result :: "stored_row \<Rightarrow> tool_result" where
  "restored_result r =
     \<lparr>tr_id = c_str (row_call_id r), tr_name = c_str (row_tool r), tr_output = c_str (row_content r), tr_success = True\<rparr>"

definition restored_assistant :: "string \<Rightarrow> 'd tool_call list \<Rightarrow> 'd message list" where
  "restored_assistant content calls =
     (let blocks = (if content \<noteq> [] then [Text content False] else []) @ map ToolUse calls
      in if blocks \<noteq> [] then [\<lparr>m_role = Assistant, m_content = blocks\<rparr>] else [])"

definition is_call_row :: "stored_row \<Rightarrow> bool" where
  "is_call_row r \<longleftrightarrow> row_role r = ''tool_call''"

text \<open>The messages that the loop adds to the history.\<close>

function restored_messages :: "(string \<Rightarrow> 'd option) \<Rightarrow> stored_row list \<Rightarrow> 'd message list" where
  "restored_messages strtod [] = []"
| "restored_messages strtod (r # rs) =
     (if row_role r = ''user'' then text_message User (c_str (row_content r)) # restored_messages strtod rs
      else if row_role r = ''assistant'' then
        restored_assistant (c_str (row_content r)) (map (restored_call strtod) (takeWhile is_call_row rs)) @
        restored_messages strtod (dropWhile is_call_row rs)
      else if row_role r = ''tool'' then tool_result_message (restored_result r) # restored_messages strtod rs
      else restored_messages strtod rs)"
  by pat_completeness auto
termination
  by (relation "measure (\<lambda>(strtod, rs). length rs)") (auto simp: length_dropWhile_le less_Suc_eq_le)

definition restore_from_db :: "('d \<Rightarrow> string) \<Rightarrow> (string \<Rightarrow> 'd option) \<Rightarrow> stored_row list \<Rightarrow> 'd history \<Rightarrow> 'd history" where
  "restore_from_db fmt strtod rows h = foldl (\<lambda>h m. add_message fmt m h) h (restored_messages strtod rows)"

subsection \<open>Restoring in parts\<close>

lemma restored_append:
  "ys = [] \<or> \<not> is_call_row (hd ys) \<Longrightarrow> restored_messages strtod (xs @ ys) = restored_messages strtod xs @ restored_messages strtod ys"
proof (induction strtod xs rule: restored_messages.induct)
  case (2 strtod r rs)
  have "takeWhile is_call_row ys = []" "dropWhile is_call_row ys = ys" using "2.prems" by (cases ys; simp)+
  then have "takeWhile is_call_row (rs @ ys) = takeWhile is_call_row rs" "dropWhile is_call_row (rs @ ys) = dropWhile is_call_row rs @ ys"
    by (induction rs) simp_all
  with 2 show ?case by simp
qed simp

lemma restored_results: "restored_messages strtod (map result_row rs) = map tool_result_message (map (restored_result \<circ> result_row) rs)"
  by (induction rs) (simp_all add: result_row_def)

lemma restored_texts: "list_all text_row rows \<Longrightarrow> answered (restored_messages strtod rows)"
proof (induction rows)
  case (Cons r rows)
  have "takeWhile is_call_row rows = []" "dropWhile is_call_row rows = rows"
    using Cons.prems by (cases rows; auto simp: text_row_def is_call_row_def)+
  moreover have "answered (restored_assistant t [] @ ms)" if "answered ms" for t and ms :: "'a message list"
    using that answered_text [of Assistant t ms] by (simp add: restored_assistant_def text_message_def)
  ultimately show ?case using Cons by (auto simp: text_row_def answered_text)
qed simp

lemma calls_message_ids:
  fixes ds :: "'d tool_call list" and c :: string
  defines "m \<equiv> \<lparr>m_role = Assistant, m_content = (if c \<noteq> [] then [Text c False] else []) @ map ToolUse ds\<rparr> :: 'd message"
  shows "call_ids m = map tc_id ds" "result_ids m = []"
proof -
  have "block_calls (map ToolUse ds) = ds" "block_results (map ToolUse ds) = []" by (induction ds) simp_all
  then show "call_ids m = map tc_id ds" "result_ids m = []"
    by (simp_all add: m_def call_ids_def result_ids_def get_tool_calls_def get_tool_results_def)
qed

lemma restored_step:
  fixes strtod :: "string \<Rightarrow> 'd option"
  assumes "map tr_id rs = map tc_id cs"
  shows "answered (restored_messages strtod (persist_tool_step fmt t cs rs))"
proof -
  let ?calls = "map (restored_call strtod \<circ> call_row fmt) cs"
  have calls: "takeWhile is_call_row (map (call_row fmt) cs @ map result_row rs) = map (call_row fmt) cs"
    "dropWhile is_call_row (map (call_row fmt) cs @ map result_row rs) = map result_row rs"
    by (induction cs) (cases rs; simp add: is_call_row_def call_row_def result_row_def)+
  have all: "restored_messages strtod (persist_tool_step fmt t cs rs) =
      restored_assistant (c_str t) ?calls @ map tool_result_message (map (restored_result \<circ> result_row) rs)"
    using calls by (simp add: persist_tool_step_def message_row_def restored_results)
  show ?thesis
  proof (cases "c_str t = [] \<and> cs = []")
    case True
    then have "rs = []" using assms by simp
    with True show ?thesis unfolding all by (simp add: restored_assistant_def)
  next
    case False
    let ?m = "\<lparr>m_role = Assistant, m_content = (if c_str t \<noteq> [] then [Text (c_str t) False] else []) @ map ToolUse ?calls\<rparr> :: 'd message"
    have "call_ids ?m = map tc_id ?calls" "result_ids ?m = []" by (rule calls_message_ids)+
    moreover have "map tr_id (map (restored_result \<circ> result_row) rs) = map tc_id ?calls"
      using arg_cong [OF assms, of "map c_str"]
      by (simp add: restored_result_def result_row_def restored_call_def call_row_def comp_def)
    ultimately have "answered (?m # map tool_result_message (map (restored_result \<circ> result_row) rs))" by (intro answered_turn) simp_all
    with False show ?thesis unfolding all restored_assistant_def Let_def by (auto split: if_splits)
  qed
qed

subsection \<open>What a session has stored\<close>

text \<open>The rows of a session: texts, and the rows of completed rounds of tools.\<close>

inductive stored_turns :: "('d \<Rightarrow> string) \<Rightarrow> stored_row list \<Rightarrow> bool" for fmt :: "'d \<Rightarrow> string" where
  no_rows: "stored_turns fmt []"
| text_rows: "stored_turns fmt rows \<Longrightarrow> list_all text_row ts \<Longrightarrow> stored_turns fmt (rows @ ts)"
| tool_rows: "stored_turns fmt rows \<Longrightarrow> map tr_id rs = map tc_id cs \<Longrightarrow>
    stored_turns fmt (rows @ persist_tool_step fmt t cs rs)"

lemma text_rows_no_call: "list_all text_row ts \<Longrightarrow> ts = [] \<or> \<not> is_call_row (hd ts)"
  by (cases ts) (auto simp: text_row_def is_call_row_def)

lemma tool_rows_no_call: "\<not> is_call_row (hd (persist_tool_step fmt t cs rs))"
  by (simp add: persist_tool_step_def message_row_def is_call_row_def)

lemma stored_turns_answered: "stored_turns fmt rows \<Longrightarrow> answered (restored_messages strtod rows)"
proof (induction rule: stored_turns.induct)
  case (text_rows rows ts)
  then show ?case by (simp add: restored_append text_rows_no_call answered_append restored_texts)
next
  case (tool_rows rows rs cs t)
  then show ?case by (simp add: restored_append tool_rows_no_call answered_append restored_step)
qed simp

lemma stores_texts_turns: "stored_turns fmt (as_rows st) \<Longrightarrow> stores_texts st st' \<Longrightarrow> stored_turns fmt (as_rows st')"
  by (auto simp: stores_texts_def intro: stored_turns.text_rows)

lemma begin_run_stores: "stores_texts st (begin_run env opts prompt st)"
  by (simp add: begin_run_def Let_def stores_texts_def)

interpretation stored: agent_invariant env reg "\<lambda>used n st. stored_turns (env_fmt (ag_tool_env env)) (as_rows st)" for env reg
proof (unfold_locales, goal_cases)
  case (1 used n st st')
  then show ?case by (auto simp: quiet_def intro: stores_texts_turns)
next
  case (2 used n st used' st')
  then obtain calls t0 before rows where t: "tool_round env reg t0 before rows calls st = Inr st'" "list_all text_row rows"
    by (auto simp: tool_turn_def)
  from t(1) obtain rs evs where "as_rows st' = as_rows st @ rows @ persist_tool_step (env_fmt (ag_tool_env env)) t0
      (pf_allowed (plan_split env reg (as_requests st) calls)) rs"
    "map tr_id rs = map tc_id (pf_allowed (plan_split env reg (as_requests st) calls))"
    by (rule tool_round_result)
  with stored_turns.tool_rows [OF stored_turns.text_rows [OF 2(1) t(2)]] show ?case by simp
qed

text \<open>A session: it starts with nothing stored, and then run follows run, with any settings, tools and replies.\<close>

inductive session_reach :: "('d \<Rightarrow> string) \<Rightarrow> ('d, 'w) agent_state \<Rightarrow> bool" for fmt :: "'d \<Rightarrow> string" where
  session_start: "as_rows st = [] \<Longrightarrow> session_reach fmt st"
| session_run: "session_reach fmt st \<Longrightarrow> env_fmt (ag_tool_env env) = fmt \<Longrightarrow>
    run_session_async env opts tool_override prompt st = Inr (r, st') \<Longrightarrow> session_reach fmt st'"

lemma session_stored: "session_reach fmt st \<Longrightarrow> stored_turns fmt (as_rows st)"
proof (induction rule: session_reach.induct)
  case (session_start st)
  then show ?case by (simp add: stored_turns.no_rows)
next
  case (session_run st env opts tool_override prompt r st')
  have "stored_turns fmt (as_rows (begin_run env opts prompt st))"
    using session_run.IH begin_run_stores by (rule stores_texts_turns)
  then show ?case
    using run_session_loop [OF session_run.hyps(3)] session_run.IH session_run.hyps(2)
      stored.loop [of env "effective_registry env tool_override" _ _ _ "begin_run env opts prompt st" r st'] by blast
qed

lemma restore_from_db_messages:
  "h_messages (restore_from_db fmt strtod rows h) = h_messages h @ restored_messages strtod rows"
proof -
  have "h_messages (foldl (\<lambda>h m. add_message fmt m h) h ms) = h_messages h @ ms" for ms
    by (induction ms arbitrary: h) (simp_all add: add_message_def invalidate_caches_def Let_def)
  then show ?thesis by (simp add: restore_from_db_def)
qed

text \<open>
  C7: a stored session can be resumed. Whatever runs a session has completed, restoring its rows into a history in which every call is answered gives one in which
  every call is answered by one result each, in order and before any other message; although the calls that plan mode blocked were in the conversation
  and are not stored, and although the ids are cut at a NUL character.
\<close>

theorem session_restorable:
  assumes "session_reach fmt st" "answered (h_messages h)"
  shows "answered (h_messages (restore_from_db fmt strtod (as_rows st) h))"
  unfolding restore_from_db_messages
  by (intro answered_append assms(2) stored_turns_answered [OF session_stored [OF assms(1)]])

theorem session_restorable_witness:
  "\<exists>r st'. run_session_async (sample_agent False) (sample_options\<lparr>ro_max_steps := 1\<rparr>)
      (Some (create_filtered_registry [''read_file''] sample_tools)) ''hi'' sample_start = Inr (r, st') \<and>
      answered (h_messages (restore_from_db (env_fmt (ag_tool_env (sample_agent False))) (\<lambda>s. None) (as_rows st') (hist_new ''s'')))"
proof -
  obtain r st' where run: "run_session_async (sample_agent False) (sample_options\<lparr>ro_max_steps := 1\<rparr>)
      (Some (create_filtered_registry [''read_file''] sample_tools)) ''hi'' sample_start = Inr (r, st')"
    by (rule sample_run)
  have "session_reach (env_fmt (ag_tool_env (sample_agent False))) sample_start"
    by (rule session_start) (simp add: sample_start_def)
  from session_restorable [OF session_run [OF this refl run], of "hist_new ''s''"] run show ?thesis
    by (auto simp: hist_new_def)
qed

end
