(* ===== verification/Diff.thy ===== *)
theory Diff
  imports Acp Utf8Text JsonRoundtrip
begin

text \<open>
  Unified diffs (\<open>capabilities/patch/diff_parser.cpp\<close>, the data of \<open>types.hpp\<close>) and their application to the lines of a file (\<open>patch_service.cpp\<close>).
  \<open>std::sscanf\<close> is modelled by its directives. What C++ leaves undefined, a number that does not fit an \<open>int\<close> and the overflow of a sum,
  is a fault. The pointers \<open>current\<close> and \<open>current_hunk\<close> of the parser are null or point to the last file and its last hunk, and are
  modelled by two flags. The numbers of lines of a text and of a file are taken to fit an \<open>int\<close>.
\<close>

datatype patch_fault = ScanOverflow | IntOverflow | FsThrew | RecordOverflow

datatype file_change_kind = FAdd | FModify | FRemove

datatype diff_line_kind = LContext | LAdd | LRemove

record diff_line =
  dl_kind :: diff_line_kind
  dl_text :: string

record diff_hunk =
  old_start :: int
  old_count :: int
  new_start :: int
  new_count :: int
  hunk_lines :: "diff_line list"

record file_patch =
  fp_kind :: file_change_kind
  fp_old_path :: string
  fp_new_path :: string
  fp_hunks :: "diff_hunk list"
  fp_additions :: int
  fp_deletions :: int

record patch_preview =
  pp_success :: bool
  pp_error_type :: string
  pp_message :: string
  pp_can_apply :: bool
  pp_files :: "file_patch list"
  pp_additions :: int
  pp_deletions :: int

definition preview_new :: patch_preview where
  "preview_new = \<lparr>pp_success = False, pp_error_type = [], pp_message = [], pp_can_apply = False, pp_files = [],
     pp_additions = 0, pp_deletions = 0\<rparr>"

definition empty_patch_preview :: patch_preview where
  "empty_patch_preview = preview_new\<lparr>pp_success := True, pp_can_apply := False\<rparr>"

subsection \<open>Lines and paths\<close>

abbreviation NL :: char where
  "NL \<equiv> CHR 0x0A"

function split_lines :: "string \<Rightarrow> string list" where
  "split_lines s =
     (let n = length (takeWhile (\<lambda>c. c \<noteq> NL) s) in
      if n = length s then (if s = [] then [] else [s])
      else take n s # split_lines (drop (n + 1) s))"
  by pat_completeness auto
termination
proof (relation "measure length", goal_cases)
  case (2 s n)
  then show ?case using length_takeWhile_le [of "\<lambda>c. c \<noteq> NL" s] by simp
qed simp

declare split_lines.simps [simp del]

fun join_lines :: "string list \<Rightarrow> string" where
  "join_lines [] = []"
| "join_lines [l] = l"
| "join_lines (l # ls) = l @ [NL] @ join_lines ls"

definition starts_with :: "string \<Rightarrow> string \<Rightarrow> bool" where
  "starts_with p s \<longleftrightarrow> take (length p) s = p"

definition strip_prefix :: "string \<Rightarrow> string" where
  "strip_prefix path = (if starts_with ''a/'' path \<or> starts_with ''b/'' path then drop 2 path else path)"

definition parse_diff_path :: "string \<Rightarrow> string \<Rightarrow> string" where
  "parse_diff_path line marker =
     (if \<not> starts_with marker line then []
      else let path = takeWhile (\<lambda>c. c \<noteq> CHR 0x09) (drop (length marker) line)
           in if path = ''/dev/null'' then [] else strip_prefix path)"

subsection \<open>Hunk headers\<close>

text \<open>
  A format is a list of directives: white space, a character, and \<open>%d\<close>, which skips white space and takes an optional sign
  and digits. The result is the list of the numbers that were converted before the first mismatch.
\<close>

datatype directive = Blank | Lit char | Num

fun scan_sign :: "string \<Rightarrow> bool \<times> string" where
  "scan_sign (c # s) = (if c = CHR ''-'' then (True, s) else if c = CHR ''+'' then (False, s) else (False, c # s))"
| "scan_sign [] = (False, [])"

fun sscanf :: "directive list \<Rightarrow> string \<Rightarrow> patch_fault + int list" where
  "sscanf [] s = Inr []"
| "sscanf (Blank # ds) s = sscanf ds (dropWhile isspace s)"
| "sscanf (Lit c # ds) [] = Inr []"
| "sscanf (Lit c # ds) (x # s) = (if x = c then sscanf ds s else Inr [])"
| "sscanf (Num # ds) s =
     (let (neg, t) = scan_sign (dropWhile isspace s);
          digits = takeWhile is_digit t;
          v = (if neg then - int (dec_val digits) else int (dec_val digits))
      in if digits = [] then Inr []
         else if \<not> in_int v then Inl ScanOverflow
         else map_sum id (Cons v) (sscanf ds (dropWhile is_digit t)))"

definition format :: "bool \<Rightarrow> bool \<Rightarrow> directive list" where
  "format old_counted new_counted =
     [Lit (CHR ''@''), Lit (CHR ''@''), Blank, Lit (CHR ''-''), Num] @ (if old_counted then [Lit (CHR '',''), Num] else []) @
     [Blank, Lit (CHR ''+''), Num] @ (if new_counted then [Lit (CHR '',''), Num] else []) @
     [Blank, Lit (CHR ''@''), Lit (CHR ''@'')]"

definition hunk_new :: "int \<Rightarrow> int \<Rightarrow> int \<Rightarrow> int \<Rightarrow> diff_hunk" where
  "hunk_new os oc ns nc = \<lparr>old_start = os, old_count = oc, new_start = ns, new_count = nc, hunk_lines = []\<rparr>"

definition parse_hunk_header :: "string \<Rightarrow> patch_fault + diff_hunk option" where
  "parse_hunk_header line =
     (let s = c_str line in
      bind_sum (sscanf (format True True) s) (\<lambda>r1.
        case r1 of [os, oc, ns, nc] \<Rightarrow> Inr (Some (hunk_new os oc ns nc))
        | _ \<Rightarrow> bind_sum (sscanf (format True False) s) (\<lambda>r2.
            case r2 of [os, oc, ns] \<Rightarrow> Inr (Some (hunk_new os oc ns 1))
            | _ \<Rightarrow> bind_sum (sscanf (format False True) s) (\<lambda>r3.
                case r3 of [os, ns, nc] \<Rightarrow> Inr (Some (hunk_new os 1 ns nc))
                | _ \<Rightarrow> bind_sum (sscanf (format False False) s) (\<lambda>r4.
                    case r4 of [os, ns] \<Rightarrow> Inr (Some (hunk_new os 1 ns 1)) | _ \<Rightarrow> Inr None)))))"

subsection \<open>The parser\<close>

record parse_state =
  ps_preview :: patch_preview
  ps_current :: bool
  ps_in_hunk :: bool
  ps_old_path :: string
  ps_new_path :: string

datatype parse_outcome = Going parse_state | Rejected patch_preview

definition map_last :: "('a \<Rightarrow> 'a) \<Rightarrow> 'a list \<Rightarrow> 'a list" where
  "map_last f xs = (if xs = [] then [] else butlast xs @ [f (last xs)])"

definition reject :: "string \<Rightarrow> string \<Rightarrow> parse_state \<Rightarrow> parse_outcome" where
  "reject type msg ps = Rejected ((ps_preview ps)\<lparr>pp_error_type := type, pp_message := msg\<rparr>)"

definition change_kind :: "string \<Rightarrow> string \<Rightarrow> file_change_kind" where
  "change_kind old new =
     (if old = [] \<and> new \<noteq> [] then FAdd else if old \<noteq> [] \<and> new = [] then FRemove else FModify)"

definition open_file :: "string \<Rightarrow> parse_state \<Rightarrow> parse_state" where
  "open_file new ps =
     (let pv = ps_preview ps; old = ps_old_path ps in
      ps\<lparr>ps_preview := pv\<lparr>pp_files := pp_files pv @ [\<lparr>fp_kind = change_kind old new, fp_old_path = old, fp_new_path = new,
           fp_hunks = [], fp_additions = 0, fp_deletions = 0\<rparr>]\<rparr>,
         ps_current := True, ps_in_hunk := False, ps_new_path := new\<rparr>)"

definition on_file :: "(file_patch \<Rightarrow> file_patch) \<Rightarrow> parse_state \<Rightarrow> parse_state" where
  "on_file f ps = ps\<lparr>ps_preview := (ps_preview ps)\<lparr>pp_files := map_last f (pp_files (ps_preview ps))\<rparr>\<rparr>"

definition push_hunk :: "diff_hunk \<Rightarrow> file_patch \<Rightarrow> file_patch" where
  "push_hunk h f = f\<lparr>fp_hunks := fp_hunks f @ [h]\<rparr>"

definition push_line :: "diff_line_kind \<Rightarrow> string \<Rightarrow> file_patch \<Rightarrow> file_patch" where
  "push_line k t f =
     f\<lparr>fp_hunks := map_last (\<lambda>h. h\<lparr>hunk_lines := hunk_lines h @ [\<lparr>dl_kind = k, dl_text = t\<rparr>]\<rparr>) (fp_hunks f)\<rparr>"

text \<open>The counters of the file and of the preview; the file's is never above the preview's.\<close>

definition count_addition :: "parse_state \<Rightarrow> patch_fault + parse_state" where
  "count_addition ps =
     (if \<not> in_int (pp_additions (ps_preview ps) + 1) then Inl IntOverflow
      else let ps1 = on_file (\<lambda>f. f\<lparr>fp_additions := fp_additions f + 1\<rparr>) ps
           in Inr (ps1\<lparr>ps_preview := (ps_preview ps1)\<lparr>pp_additions := pp_additions (ps_preview ps1) + 1\<rparr>\<rparr>))"

definition count_deletion :: "parse_state \<Rightarrow> patch_fault + parse_state" where
  "count_deletion ps =
     (if \<not> in_int (pp_deletions (ps_preview ps) + 1) then Inl IntOverflow
      else let ps1 = on_file (\<lambda>f. f\<lparr>fp_deletions := fp_deletions f + 1\<rparr>) ps
           in Inr (ps1\<lparr>ps_preview := (ps_preview ps1)\<lparr>pp_deletions := pp_deletions (ps_preview ps1) + 1\<rparr>\<rparr>))"

definition no_newline_note :: string where
  "no_newline_note = CHR 0x5C # '' No newline at end of file''"

definition hunk_line :: "string \<Rightarrow> parse_state \<Rightarrow> patch_fault + parse_state" where
  "hunk_line line ps =
     (if \<not> ps_in_hunk ps \<or> line = no_newline_note then Inr ps
      else case line of
        [] \<Rightarrow> Inr (on_file (push_line LContext []) ps)
      | c # t \<Rightarrow>
          if c = CHR '' '' then Inr (on_file (push_line LContext t) ps)
          else if c = CHR ''+'' then count_addition (on_file (push_line LAdd t) ps)
          else if c = CHR ''-'' then count_deletion (on_file (push_line LRemove t) ps)
          else Inr ps)"

definition parse_line :: "string \<Rightarrow> parse_state \<Rightarrow> patch_fault + parse_outcome" where
  "parse_line line ps =
     (if starts_with ''Binary files '' line \<or> starts_with ''GIT binary patch'' line then
        Inr (reject ''binary_file_rejected'' ''binary patches are not supported'' ps)
      else if starts_with ''diff --git '' line then
        Inr (Going (ps\<lparr>ps_current := False, ps_in_hunk := False, ps_old_path := [], ps_new_path := []\<rparr>))
      else if starts_with ''--- '' line then Inr (Going (ps\<lparr>ps_old_path := parse_diff_path line ''--- ''\<rparr>))
      else if starts_with ''+++ '' line then Inr (Going (open_file (parse_diff_path line ''+++ '') ps))
      else if starts_with ''@@ '' line then
        (if \<not> ps_current ps then Inr (reject ''invalid_patch'' ''hunk appears before file header'' ps)
         else bind_sum (parse_hunk_header line) (\<lambda>r. case r of
             None \<Rightarrow> Inr (reject ''invalid_patch'' ''invalid hunk header'' ps)
           | Some h \<Rightarrow> Inr (Going ((on_file (push_hunk h) ps)\<lparr>ps_in_hunk := True\<rparr>))))
      else map_sum id Going (hunk_line line ps))"

fun parse_lines :: "string list \<Rightarrow> parse_state \<Rightarrow> patch_fault + parse_outcome" where
  "parse_lines [] ps = Inr (Going ps)"
| "parse_lines (l # ls) ps = bind_sum (parse_line l ps) (\<lambda>r. case r of Going ps' \<Rightarrow> parse_lines ls ps' | Rejected pv \<Rightarrow> Inr (Rejected pv))"

definition parse_start :: parse_state where
  "parse_start = \<lparr>ps_preview = preview_new, ps_current = False, ps_in_hunk = False, ps_old_path = [], ps_new_path = []\<rparr>"

definition parse_unified_diff :: "string \<Rightarrow> patch_fault + patch_preview" where
  "parse_unified_diff unified_diff =
     bind_sum (parse_lines (split_lines unified_diff) parse_start) (\<lambda>r. Inr (case r of
         Rejected pv \<Rightarrow> pv
       | Going ps \<Rightarrow>
           if pp_files (ps_preview ps) = [] then
             (ps_preview ps)\<lparr>pp_error_type := ''invalid_patch'', pp_message := ''no file patches found''\<rparr>
           else (ps_preview ps)\<lparr>pp_success := True, pp_can_apply := True\<rparr>))"

subsection \<open>Application to lines\<close>

text \<open>
  The loop over the lines of a hunk, from the position \<open>cursor\<close> on: the replacement and the position after the lines that match.
\<close>

fun match_hunk :: "diff_line list \<Rightarrow> string list \<Rightarrow> nat \<Rightarrow> string list \<Rightarrow> (string list \<times> nat) option" where
  "match_hunk [] ls cursor replacement = Some (replacement, cursor)"
| "match_hunk (d # ds) ls cursor replacement =
     (if dl_kind d = LContext \<or> dl_kind d = LRemove then
        (if cursor \<ge> length ls \<or> ls ! cursor \<noteq> dl_text d then None
         else match_hunk ds ls (cursor + 1) (if dl_kind d = LContext then replacement @ [dl_text d] else replacement))
      else match_hunk ds ls cursor (replacement @ [dl_text d]))"

text \<open>The lines after all hunks, or the error.\<close>

fun apply_hunks :: "diff_hunk list \<Rightarrow> int \<Rightarrow> string list \<Rightarrow> patch_fault + (string + string list)" where
  "apply_hunks [] offset ls = Inr (Inr ls)"
| "apply_hunks (h # hs) offset ls =
     (if old_start h > 0 \<and> \<not> in_int (old_start h - 1 + offset) then Inl IntOverflow
      else let pos = (if old_start h \<le> 0 then 0 else old_start h - 1 + offset) in
        if pos < 0 \<or> pos > int (length ls) then Inr (Inl ''hunk position out of range'')
        else case match_hunk (hunk_lines h) ls (nat pos) [] of
            None \<Rightarrow> Inr (Inl ''patch context does not match'')
          | Some (replacement, cursor) \<Rightarrow>
              let offset' = offset + (int (length replacement) - (int cursor - pos)) in
              if \<not> in_int offset' then Inl IntOverflow
              else apply_hunks hs offset' (take (nat pos) ls @ replacement @ drop cursor ls))"

definition apply_file_patch :: "file_patch \<Rightarrow> string list \<Rightarrow> patch_fault + (string + string list)" where
  "apply_file_patch p ls = apply_hunks (fp_hunks p) 0 ls"

subsection \<open>Lines of a text\<close>

lemma split_lines_line:
  assumes "NL \<notin> set l"
  shows "split_lines (l @ NL # s) = l # split_lines s"
proof -
  have "takeWhile (\<lambda>c. c \<noteq> NL) (l @ NL # s) = l" using assms by (induction l) auto
  then show ?thesis by (subst split_lines.simps) (simp add: Let_def)
qed

lemma split_lines_end:
  assumes "NL \<notin> set l" "l \<noteq> []"
  shows "split_lines l = [l]"
proof -
  have "length (takeWhile (\<lambda>c. c \<noteq> NL) l) = length l" using assms(1) by (induction l) auto
  then show ?thesis using assms(2) by (subst split_lines.simps) (simp add: Let_def)
qed

lemma split_lines_Nil [simp]: "split_lines [] = []"
  by (simp add: split_lines.simps)

text \<open>A text in which every line is ended.\<close>

definition text_of :: "string list \<Rightarrow> string" where
  "text_of ls = concat (map (\<lambda>l. l @ [NL]) ls)"

lemma split_text_of: "list_all (\<lambda>l. NL \<notin> set l) ls \<Longrightarrow> split_lines (text_of ls) = ls"
  by (induction ls) (simp_all add: text_of_def split_lines_line)

text \<open>Joining and splitting again keeps the lines if the last is not empty.\<close>

lemma split_join_lines:
  "list_all (\<lambda>l. NL \<notin> set l) ls \<Longrightarrow> (ls \<noteq> [] \<longrightarrow> last ls \<noteq> []) \<Longrightarrow> split_lines (join_lines ls) = ls"
  by (induction ls rule: join_lines.induct) (simp_all add: split_lines_line split_lines_end)

subsection \<open>Applying the diff of an edit\<close>

definition old_lines :: "diff_line list \<Rightarrow> string list" where
  "old_lines ds = map dl_text (filter (\<lambda>d. dl_kind d \<noteq> LAdd) ds)"

definition new_lines :: "diff_line list \<Rightarrow> string list" where
  "new_lines ds = map dl_text (filter (\<lambda>d. dl_kind d \<noteq> LRemove) ds)"

lemma side_simps [simp]:
  "old_lines [] = []" "new_lines [] = []"
  "old_lines (d # ds) = (if dl_kind d = LAdd then old_lines ds else dl_text d # old_lines ds)"
  "new_lines (d # ds) = (if dl_kind d = LRemove then new_lines ds else dl_text d # new_lines ds)"
  by (simp_all add: old_lines_def new_lines_def)

text \<open>
  An edit of a file: before each hunk come lines that are not in the diff, and \<open>tail\<close> follows the last. The hunks of its unified diff number
  the first line on both sides, or the line before if a side has none, as the tools that write diffs do.
\<close>

type_synonym edit = "(string list \<times> diff_line list) list"

fun before_edit :: "edit \<Rightarrow> string list \<Rightarrow> string list" where
  "before_edit [] tail = tail"
| "before_edit ((keep, ds) # e) tail = keep @ old_lines ds @ before_edit e tail"

fun after_edit :: "edit \<Rightarrow> string list \<Rightarrow> string list" where
  "after_edit [] tail = tail"
| "after_edit ((keep, ds) # e) tail = keep @ new_lines ds @ after_edit e tail"

definition side_start :: "nat \<Rightarrow> string list \<Rightarrow> int" where
  "side_start n ls = (if ls = [] then int n else int n + 1)"

fun hunks_of :: "nat \<Rightarrow> nat \<Rightarrow> edit \<Rightarrow> diff_hunk list" where
  "hunks_of m n [] = []"
| "hunks_of m n ((keep, ds) # e) =
     \<lparr>old_start = side_start (m + length keep) (old_lines ds), old_count = int (length (old_lines ds)),
      new_start = side_start (n + length keep) (new_lines ds), new_count = int (length (new_lines ds)), hunk_lines = ds\<rparr> #
     hunks_of (m + length keep + length (old_lines ds)) (n + length keep + length (new_lines ds)) e"

text \<open>Every hunk has a line of the old file, except that the first may insert at the beginning.\<close>

definition edit_ok :: "edit \<Rightarrow> bool" where
  "edit_ok e \<longleftrightarrow> (case e of [] \<Rightarrow> True | (keep, ds) # e' \<Rightarrow>
     (old_lines ds \<noteq> [] \<or> keep = []) \<and> list_all (\<lambda>(keep, ds). old_lines ds \<noteq> []) e')"

lemma match_hunk_edit:
  "match_hunk ds (pre @ old_lines ds @ post) (length pre) rep = Some (rep @ new_lines ds, length pre + length (old_lines ds))"
proof (induction ds arbitrary: pre rep)
  case (Cons d ds)
  have step: "match_hunk ds (pre @ dl_text d # old_lines ds @ post) (Suc (length pre)) r =
      Some (r @ new_lines ds, Suc (length pre) + length (old_lines ds))" for r
    using Cons.IH [of "pre @ [dl_text d]" r] by simp
  show ?case using Cons.IH [of pre "rep @ [dl_text d]"] by (cases "dl_kind d") (simp_all add: step)
qed simp

lemma apply_one_hunk:
  assumes "old_start h = 0 \<and> pre = [] \<or> old_start h > 0 \<and> old_start h - 1 + offset = int (length pre)"
    and "in_int (int (length pre))" "in_int (offset + (int (length (new_lines (hunk_lines h))) - int (length (old_lines (hunk_lines h)))))"
  shows "apply_hunks (h # hs) offset (pre @ old_lines (hunk_lines h) @ post) =
    apply_hunks hs (offset + (int (length (new_lines (hunk_lines h))) - int (length (old_lines (hunk_lines h)))))
      (pre @ new_lines (hunk_lines h) @ post)"
  using assms match_hunk_edit [of "hunk_lines h" pre post "[]"] by (auto simp: Let_def)

lemma apply_hunks_edit:
  assumes "m + length (before_edit e tail) < 2 ^ 31" "length done + length (after_edit e tail) < 2 ^ 31"
    and "list_all (\<lambda>(keep, ds). old_lines ds \<noteq> []) e"
  shows "apply_hunks (hunks_of m (length done) e) (int (length done) - int m) (done @ before_edit e tail) =
    Inr (Inr (done @ after_edit e tail))"
  using assms
proof (induction e arbitrary: m "done")
  case (Cons kd e)
  obtain keep ds where kd: "kd = (keep, ds)" by (cases kd)
  let ?h = "hd (hunks_of m (length done) (kd # e))"
  let ?m = "m + length keep + length (old_lines ds)" and ?done = "done @ keep @ new_lines ds"
  have "apply_hunks (hunks_of ?m (length ?done) e) (int (length ?done) - int ?m) (?done @ before_edit e tail) =
      Inr (Inr (?done @ after_edit e tail))"
    using Cons.prems by (intro Cons.IH) (simp_all add: kd)
  moreover have "apply_hunks (?h # hunks_of ?m (length ?done) e) (int (length done) - int m)
      ((done @ keep) @ old_lines (hunk_lines ?h) @ before_edit e tail) =
    apply_hunks (hunks_of ?m (length ?done) e)
      (int (length done) - int m + (int (length (new_lines (hunk_lines ?h))) - int (length (old_lines (hunk_lines ?h)))))
      ((done @ keep) @ new_lines (hunk_lines ?h) @ before_edit e tail)"
    using Cons.prems by (intro apply_one_hunk) (auto simp: kd side_start_def in_int_def)
  ultimately show ?case by (simp add: kd algebra_simps)
qed simp

lemma apply_edit:
  assumes "edit_ok e" "length (before_edit e tail) < 2 ^ 31" "length (after_edit e tail) < 2 ^ 31"
  shows "apply_hunks (hunks_of 0 0 e) 0 (before_edit e tail) = Inr (Inr (after_edit e tail))"
proof (cases e)
  case (Cons kd e')
  obtain keep ds where kd: "kd = (keep, ds)" by (cases kd)
  let ?h = "hd (hunks_of 0 0 e)" and ?new = "keep @ new_lines ds" and ?m = "length keep + length (old_lines ds)"
  have "apply_hunks (?h # hunks_of ?m (length ?new) e') 0 (keep @ old_lines (hunk_lines ?h) @ before_edit e' tail) =
    apply_hunks (hunks_of ?m (length ?new) e') (0 + (int (length (new_lines (hunk_lines ?h))) - int (length (old_lines (hunk_lines ?h)))))
      (keep @ new_lines (hunk_lines ?h) @ before_edit e' tail)"
    using assms by (intro apply_one_hunk) (auto simp: Cons kd side_start_def in_int_def edit_ok_def)
  moreover have "apply_hunks (hunks_of ?m (length ?new) e') (int (length ?new) - int ?m) (?new @ before_edit e' tail) =
      Inr (Inr (?new @ after_edit e' tail))"
    using assms by (intro apply_hunks_edit) (simp_all add: Cons kd edit_ok_def)
  ultimately show ?thesis by (simp add: Cons kd algebra_simps)
qed simp

subsection \<open>Reading a diff that was written\<close>

definition header_text :: "diff_hunk \<Rightarrow> string" where
  "header_text h = ''@@ -'' @ decimal (nat (old_start h)) @ '','' @ decimal (nat (old_count h)) @
     '' +'' @ decimal (nat (new_start h)) @ '','' @ decimal (nat (new_count h)) @ '' @@''"

fun kind_char :: "diff_line_kind \<Rightarrow> char" where
  "kind_char LContext = CHR '' ''"
| "kind_char LAdd = CHR ''+''"
| "kind_char LRemove = CHR ''-''"

definition line_text :: "diff_line \<Rightarrow> string" where
  "line_text d = kind_char (dl_kind d) # dl_text d"

definition path_text :: "string \<Rightarrow> string \<Rightarrow> string" where
  "path_text side p = (if p = [] then ''/dev/null'' else side @ p)"

definition hunk_text :: "diff_hunk \<Rightarrow> string list" where
  "hunk_text h = header_text h # map line_text (hunk_lines h)"

definition file_text :: "file_patch \<Rightarrow> string list" where
  "file_text f = (''--- '' @ path_text ''a/'' (fp_old_path f)) # (''+++ '' @ path_text ''b/'' (fp_new_path f)) #
     concat (map hunk_text (fp_hunks f))"

definition diff_text :: "file_patch list \<Rightarrow> string" where
  "diff_text fs = text_of (concat (map file_text fs))"

definition count_kind :: "diff_line_kind \<Rightarrow> diff_line list \<Rightarrow> int" where
  "count_kind k ds = int (length (filter (\<lambda>d. dl_kind d = k) ds))"

definition count_file :: "diff_line_kind \<Rightarrow> diff_hunk list \<Rightarrow> int" where
  "count_file k hs = sum_list (map (\<lambda>h. count_kind k (hunk_lines h)) hs)"

text \<open>
  What can be written: no line breaks, numbers that fit, and no removed line that starts with two dashes and a blank or added line that
  starts with two plus signs and a blank, which would look like the line of a file name.
\<close>

definition line_ok :: "diff_line \<Rightarrow> bool" where
  "line_ok d \<longleftrightarrow> NL \<notin> set (dl_text d) \<and> (dl_kind d = LRemove \<longrightarrow> \<not> starts_with ''-- '' (dl_text d)) \<and>
     (dl_kind d = LAdd \<longrightarrow> \<not> starts_with ''++ '' (dl_text d))"

definition number_ok :: "int \<Rightarrow> bool" where
  "number_ok i \<longleftrightarrow> 0 \<le> i \<and> i < 2 ^ 31"

definition hunk_ok :: "diff_hunk \<Rightarrow> bool" where
  "hunk_ok h \<longleftrightarrow> number_ok (old_start h) \<and> number_ok (old_count h) \<and> number_ok (new_start h) \<and> number_ok (new_count h) \<and>
     list_all line_ok (hunk_lines h)"

definition path_ok :: "string \<Rightarrow> bool" where
  "path_ok p \<longleftrightarrow> NL \<notin> set p \<and> CHR 0x09 \<notin> set p"

definition file_ok :: "file_patch \<Rightarrow> bool" where
  "file_ok f \<longleftrightarrow> path_ok (fp_old_path f) \<and> path_ok (fp_new_path f) \<and> list_all hunk_ok (fp_hunks f) \<and>
     fp_kind f = change_kind (fp_old_path f) (fp_new_path f) \<and>
     fp_additions f = count_file LAdd (fp_hunks f) \<and> fp_deletions f = count_file LRemove (fp_hunks f)"

lemma digit_facts: "is_digit c \<Longrightarrow> \<not> isspace c \<and> c \<noteq> CHR ''-'' \<and> c \<noteq> CHR ''+'' \<and> c \<noteq> NL \<and> c \<noteq> CHR 0x00"
  by (auto simp: is_digit_def isspace_def byte_def)

lemma digit_span:
  assumes "list_all is_digit ds" "s = [] \<or> \<not> is_digit (hd s)"
  shows "takeWhile is_digit (ds @ s) = ds" "dropWhile is_digit (ds @ s) = s"
  using assms by (induction ds) (cases s; auto)+

lemma decimal_chars: "NL \<notin> set (decimal n)" "CHR 0x00 \<notin> set (decimal n)"
  using decimal_all_digits [of n] digit_facts by (auto simp: list_all_iff)

lemma sscanf_number:
  assumes "n < 2 ^ 31" "s = [] \<or> \<not> is_digit (hd s)"
  shows "sscanf (Num # ds) (decimal n @ s) = map_sum id (Cons (int n)) (sscanf ds s)"
proof -
  obtain c cs where d: "decimal n = c # cs" using decimal_nonempty [of n] by (cases "decimal n") auto
  then have "is_digit c" using decimal_all_digits [of n] by simp
  then have "scan_sign (dropWhile isspace (decimal n @ s)) = (False, decimal n @ s)" using digit_facts [of c] by (simp add: d)
  moreover have "in_int (int n)" using assms(1) by (simp add: in_int_def)
  ultimately show ?thesis
    by (simp add: digit_span [OF decimal_all_digits assms(2)] decimal_nonempty dec_val_decimal)
qed

lemma parse_header:
  assumes "hunk_ok h"
  shows "parse_hunk_header (header_text h) = Inr (Some (h\<lparr>hunk_lines := []\<rparr>))"
proof -
  have scan: "sscanf (Num # ds) (decimal (nat i) @ s) = map_sum id (Cons i) (sscanf ds s)"
    if "number_ok i" "s = [] \<or> \<not> is_digit (hd s)" for i ds s
    using sscanf_number [of "nat i" s ds] that by (simp add: number_ok_def nat_less_iff del: sscanf.simps)
  have ok: "number_ok (old_start h)" "number_ok (old_count h)" "number_ok (new_start h)" "number_ok (new_count h)"
    using assms by (simp_all add: hunk_ok_def)
  have nd: "\<not> is_digit (CHR '','')" "\<not> is_digit (CHR '' '')" "isspace (CHR '' '')" "\<not> isspace (CHR ''-'')" "\<not> isspace (CHR ''+'')" "\<not> isspace (CHR ''@'')"
    by (simp_all add: is_digit_def isspace_def byte_def)
  have "sscanf (format True True) (header_text h) = Inr [old_start h, old_count h, new_start h, new_count h]"
    by (simp add: format_def header_text_def scan ok nd del: sscanf.simps(5))
  moreover have "c_str (header_text h) = header_text h"
    by (rule c_str_id) (simp add: header_text_def decimal_chars)
  ultimately show ?thesis by (simp add: parse_hunk_header_def hunk_new_def Let_def)
qed

text \<open>The state of the parser within the file \<open>f\<close>.\<close>

definition in_file :: "file_patch list \<Rightarrow> file_patch \<Rightarrow> bool \<Rightarrow> int \<Rightarrow> int \<Rightarrow> parse_state" where
  "in_file fs f b a d = \<lparr>ps_preview = preview_new\<lparr>pp_files := fs @ [f], pp_additions := a, pp_deletions := d\<rparr>,
     ps_current = True, ps_in_hunk = b, ps_old_path = fp_old_path f, ps_new_path = fp_new_path f\<rparr>"

definition with_lines :: "diff_line list \<Rightarrow> file_patch \<Rightarrow> file_patch" where
  "with_lines ds f = f\<lparr>fp_hunks := map_last (\<lambda>h. h\<lparr>hunk_lines := hunk_lines h @ ds\<rparr>) (fp_hunks f),
     fp_additions := fp_additions f + count_kind LAdd ds, fp_deletions := fp_deletions f + count_kind LRemove ds\<rparr>"

lemma count_kind_simps [simp]:
  "count_kind k [] = 0" "count_kind k (d # ds) = (if dl_kind d = k then 1 else 0) + count_kind k ds"
  by (simp_all add: count_kind_def)

lemma count_kind_nonneg [simp]: "0 \<le> count_kind k ds"
  by (simp add: count_kind_def)

lemma map_last_simps [simp]: "map_last f [] = []" "map_last f (xs @ [x]) = xs @ [f x]"
  by (simp_all add: map_last_def)

lemma map_last_map_last: "map_last f (map_last g xs) = map_last (\<lambda>x. f (g x)) xs"
  by (cases xs rule: rev_cases) simp_all

lemma with_lines_simps:
  "fp_hunks f \<noteq> [] \<Longrightarrow> with_lines [] f = f" "with_lines ds (with_lines [d] f) = with_lines (d # ds) f"
  "fp_hunks (with_lines ds f) = [] \<longleftrightarrow> fp_hunks f = []"
  subgoal by (cases "fp_hunks f" rule: rev_cases) (simp_all add: with_lines_def)
  subgoal by (simp add: with_lines_def map_last_map_last)
  subgoal by (simp add: with_lines_def map_last_def)
  done

lemma starts_with_simps [simp]:
  "starts_with [] s" "starts_with (c # p) [] = False" "starts_with (c # p) (x # s) = (c = x \<and> starts_with p s)"
  by (auto simp: starts_with_def)

lemma parse_line_in_hunk:
  assumes "line_ok d" "a + count_kind LAdd [d] < 2 ^ 31" "dd + count_kind LRemove [d] < 2 ^ 31" "0 \<le> a" "0 \<le> dd"
  shows "parse_line (line_text d) (in_file fs f True a dd) =
    Inr (Going (in_file fs (with_lines [d] f) True (a + count_kind LAdd [d]) (dd + count_kind LRemove [d])))"
  using assms
  by (cases d; cases "dl_kind d")
    (auto simp: parse_line_def line_text_def line_ok_def hunk_line_def in_file_def on_file_def push_line_def with_lines_def
      count_addition_def count_deletion_def in_int_def no_newline_note_def Let_def)

lemma parse_lines_in_hunk:
  assumes "list_all line_ok ds" "a + count_kind LAdd ds < 2 ^ 31" "dd + count_kind LRemove ds < 2 ^ 31" "0 \<le> a" "0 \<le> dd"
    and "fp_hunks f \<noteq> []"
  shows "parse_lines (map line_text ds @ ls) (in_file fs f True a dd) =
    parse_lines ls (in_file fs (with_lines ds f) True (a + count_kind LAdd ds) (dd + count_kind LRemove ds))"
  using assms
proof (induction ds arbitrary: f a dd)
  case (Cons d ds)
  have nn: "0 \<le> count_kind k ds" for k by simp
  have "a + count_kind LAdd [d] < 2 ^ 31" "dd + count_kind LRemove [d] < 2 ^ 31"
    using Cons.prems(2,3) nn [of LAdd] nn [of LRemove] by (auto simp del: count_kind_nonneg)
  then have "parse_line (line_text d) (in_file fs f True a dd) =
    Inr (Going (in_file fs (with_lines [d] f) True (a + count_kind LAdd [d]) (dd + count_kind LRemove [d])))"
    using Cons.prems by (intro parse_line_in_hunk) auto
  then show ?case
    using Cons.IH [of "a + count_kind LAdd [d]" "dd + count_kind LRemove [d]" "with_lines [d] f"] Cons.prems
    by (simp add: with_lines_simps add.assoc)
qed (simp add: with_lines_simps)

definition with_hunks :: "diff_hunk list \<Rightarrow> file_patch \<Rightarrow> file_patch" where
  "with_hunks hs f = f\<lparr>fp_hunks := fp_hunks f @ hs,
     fp_additions := fp_additions f + count_file LAdd hs, fp_deletions := fp_deletions f + count_file LRemove hs\<rparr>"

lemma count_file_simps [simp]:
  "count_file k [] = 0" "count_file k (h # hs) = count_kind k (hunk_lines h) + count_file k hs"
  by (simp_all add: count_file_def)

lemma count_file_nonneg [simp]: "0 \<le> count_file k hs"
  by (induction hs) simp_all

lemma parse_hunk:
  assumes "hunk_ok h" "a + count_kind LAdd (hunk_lines h) < 2 ^ 31" "dd + count_kind LRemove (hunk_lines h) < 2 ^ 31" "0 \<le> a" "0 \<le> dd"
  shows "parse_lines (hunk_text h @ ls) (in_file fs f b a dd) =
    parse_lines ls (in_file fs (with_hunks [h] f) True (a + count_kind LAdd (hunk_lines h)) (dd + count_kind LRemove (hunk_lines h)))"
proof -
  have "parse_line (header_text h) (in_file fs f b a dd) =
      Inr (Going (in_file fs (push_hunk (h\<lparr>hunk_lines := []\<rparr>) f) True a dd))"
    using parse_header [OF assms(1)]
    by (simp add: parse_line_def in_file_def on_file_def push_hunk_def) (simp add: header_text_def)
  moreover have "with_lines (hunk_lines h) (push_hunk (h\<lparr>hunk_lines := []\<rparr>) f) = with_hunks [h] f"
    by (simp add: with_lines_def push_hunk_def with_hunks_def)
  ultimately show ?thesis
    using assms parse_lines_in_hunk [of "hunk_lines h" a dd "push_hunk (h\<lparr>hunk_lines := []\<rparr>) f" ls fs]
    by (simp add: hunk_text_def hunk_ok_def push_hunk_def)
qed

lemma parse_hunks:
  assumes "list_all hunk_ok hs" "a + count_file LAdd hs < 2 ^ 31" "dd + count_file LRemove hs < 2 ^ 31" "0 \<le> a" "0 \<le> dd"
  shows "\<exists>b'. parse_lines (concat (map hunk_text hs) @ ls) (in_file fs f b a dd) =
    parse_lines ls (in_file fs (with_hunks hs f) b' (a + count_file LAdd hs) (dd + count_file LRemove hs))"
  using assms
proof (induction hs arbitrary: f b a dd)
  case Nil
  have "with_hunks [] f = f" by (simp add: with_hunks_def)
  then show ?case by auto
next
  case (Cons h hs)
  have nn: "0 \<le> count_file k hs" for k by simp
  have "a + count_kind LAdd (hunk_lines h) < 2 ^ 31" "dd + count_kind LRemove (hunk_lines h) < 2 ^ 31"
    using Cons.prems(2,3) nn [of LAdd] nn [of LRemove] by (auto simp del: count_file_nonneg)
  moreover have "with_hunks hs (with_hunks [h] f) = with_hunks (h # hs) f" by (simp add: with_hunks_def)
  ultimately show ?case
    using Cons.IH [of "a + count_kind LAdd (hunk_lines h)" "dd + count_kind LRemove (hunk_lines h)" "with_hunks [h] f" True]
      parse_hunk [of h a dd "concat (map hunk_text hs) @ ls" fs f b] Cons.prems
    by (simp add: add.assoc)
qed


lemma parse_diff_path_text:
  assumes "path_ok p"
  shows "parse_diff_path (''--- '' @ path_text ''a/'' p) ''--- '' = p" "parse_diff_path (''+++ '' @ path_text ''b/'' p) ''+++ '' = p"
proof -
  have "takeWhile (\<lambda>c. c \<noteq> CHR 0x09) (side @ p) = side @ p" if "CHR 0x09 \<notin> set side" for side
    using assms that by (induction side) (auto simp: path_ok_def takeWhile_eq_all_conv)
  from this [of "''a/''"] this [of "''b/''"]
  show "parse_diff_path (''--- '' @ path_text ''a/'' p) ''--- '' = p" "parse_diff_path (''+++ '' @ path_text ''b/'' p) ''+++ '' = p"
    by (simp_all add: parse_diff_path_def path_text_def strip_prefix_def starts_with_def)
qed

lemma parse_file:
  assumes "file_ok f" "a + fp_additions f < 2 ^ 31" "dd + fp_deletions f < 2 ^ 31" "0 \<le> a" "0 \<le> dd"
    and "ps_preview ps = preview_new\<lparr>pp_files := fs, pp_additions := a, pp_deletions := dd\<rparr>"
  shows "\<exists>b. parse_lines (file_text f @ ls) ps = parse_lines ls (in_file fs f b (a + fp_additions f) (dd + fp_deletions f))"
proof -
  let ?f = "\<lparr>fp_kind = change_kind (fp_old_path f) (fp_new_path f), fp_old_path = fp_old_path f, fp_new_path = fp_new_path f,
      fp_hunks = [], fp_additions = 0, fp_deletions = 0\<rparr>"
  have paths: "path_ok (fp_old_path f)" "path_ok (fp_new_path f)" using assms(1) by (simp_all add: file_ok_def)
  have "parse_lines (file_text f @ ls) ps = parse_lines (concat (map hunk_text (fp_hunks f)) @ ls) (in_file fs ?f False a dd)"
    using assms(6) parse_diff_path_text(1) [OF paths(1)] parse_diff_path_text(2) [OF paths(2)]
    by (cases ps) (simp add: file_text_def parse_line_def open_file_def in_file_def preview_new_def Let_def)
  moreover have "with_hunks (fp_hunks f) ?f = f"
    using assms(1) by (cases f) (simp add: with_hunks_def file_ok_def)
  ultimately show ?thesis
    using parse_hunks [of "fp_hunks f" a dd ls fs ?f False] assms by (simp add: file_ok_def)
qed

definition preview_of :: "file_patch list \<Rightarrow> patch_preview" where
  "preview_of fs = preview_new\<lparr>pp_files := fs, pp_additions := sum_list (map fp_additions fs), pp_deletions := sum_list (map fp_deletions fs)\<rparr>"

lemma file_ok_counts: "file_ok f \<Longrightarrow> 0 \<le> fp_additions f \<and> 0 \<le> fp_deletions f"
  by (simp add: file_ok_def)

lemma parse_files:
  assumes "list_all file_ok fs" "sum_list (map fp_additions (gs @ fs)) < 2 ^ 31" "sum_list (map fp_deletions (gs @ fs)) < 2 ^ 31"
    and "list_all file_ok gs" "ps_preview ps = preview_of gs"
  shows "\<exists>ps'. parse_lines (concat (map file_text fs)) ps = Inr (Going ps') \<and> ps_preview ps' = preview_of (gs @ fs)"
  using assms
proof (induction fs arbitrary: gs ps)
  case (Cons f fs)
  have nn: "0 \<le> sum_list (map fp_additions hs)" "0 \<le> sum_list (map fp_deletions hs)" if "list_all file_ok hs" for hs
    using that by (induction hs) (auto dest: file_ok_counts)
  have b: "sum_list (map fp_additions gs) + fp_additions f < 2 ^ 31" "sum_list (map fp_deletions gs) + fp_deletions f < 2 ^ 31"
    using Cons.prems nn [of fs] by auto
  obtain b where step: "parse_lines (file_text f @ concat (map file_text fs)) ps = parse_lines (concat (map file_text fs))
      (in_file gs f b (sum_list (map fp_additions gs) + fp_additions f) (sum_list (map fp_deletions gs) + fp_deletions f))"
    using parse_file [of f "sum_list (map fp_additions gs)" "sum_list (map fp_deletions gs)" ps gs "concat (map file_text fs)"]
      Cons.prems b nn [of gs] by (auto simp: preview_of_def)
  show ?case
    using Cons.IH [of "gs @ [f]"] Cons.prems unfolding list.map concat.simps step by (simp add: in_file_def preview_of_def)
qed simp

text \<open>No line of a diff that is written breaks.\<close>

lemma file_text_lines: "file_ok f \<Longrightarrow> list_all (\<lambda>l. NL \<notin> set l) (file_text f)"
proof -
  have "list_all (\<lambda>l. NL \<notin> set l) (hunk_text h)" if "hunk_ok h" for h
  proof -
    have "NL \<notin> set (line_text d)" if "line_ok d" for d
      using that by (cases "dl_kind d") (simp_all add: line_text_def line_ok_def)
    then show ?thesis using that decimal_chars(1) by (auto simp: hunk_text_def header_text_def hunk_ok_def list_all_iff)
  qed
  then show "file_ok f \<Longrightarrow> list_all (\<lambda>l. NL \<notin> set l) (file_text f)"
    by (auto simp: file_text_def file_ok_def path_text_def path_ok_def list_all_iff)
qed

definition patch_ok :: "file_patch list \<Rightarrow> bool" where
  "patch_ok fs \<longleftrightarrow> fs \<noteq> [] \<and> list_all file_ok fs \<and>
     sum_list (map fp_additions fs) < 2 ^ 31 \<and> sum_list (map fp_deletions fs) < 2 ^ 31"

lemma parse_diff_text:
  assumes "patch_ok fs"
  shows "parse_unified_diff (diff_text fs) = Inr ((preview_of fs)\<lparr>pp_success := True, pp_can_apply := True\<rparr>)"
proof -
  have "split_lines (diff_text fs) = concat (map file_text fs)"
    unfolding diff_text_def using assms file_text_lines
    by (intro split_text_of) (fastforce simp: patch_ok_def list_all_iff)
  moreover have "ps_preview parse_start = preview_of []" by (simp add: parse_start_def preview_of_def preview_new_def)
  then obtain ps' where "parse_lines (concat (map file_text fs)) parse_start = Inr (Going ps')" "ps_preview ps' = preview_of fs"
    using parse_files [of fs "[]" parse_start] assms by (auto simp: patch_ok_def)
  ultimately show ?thesis using assms by (simp add: parse_unified_diff_def patch_ok_def preview_of_def)
qed

subsection \<open>Insertions without context\<close>

text \<open>
  C39: a hunk without lines of the old file names the line after which its lines belong. The code
  takes the number for the first line of the hunk and inserts one line too early.
\<close>

theorem insertion_misplaced:
  assumes "old_lines ds = []" "length ls + length ds < 2 ^ 31 - 1"
  shows "apply_hunks (hunks_of 0 0 [(ls @ [l], ds)]) 0 (before_edit [(ls @ [l], ds)] tail) = Inr (Inr (ls @ new_lines ds @ l # tail)) \<and>
    after_edit [(ls @ [l], ds)] tail = ls @ l # new_lines ds @ tail"
proof -
  let ?h = "hd (hunks_of 0 0 [(ls @ [l], ds)])"
  have "length (new_lines ds) \<le> length ds" by (simp add: new_lines_def)
  then have "apply_hunks [?h] 0 (ls @ old_lines (hunk_lines ?h) @ l # tail) =
      apply_hunks [] (0 + (int (length (new_lines (hunk_lines ?h))) - int (length (old_lines (hunk_lines ?h)))))
        (ls @ new_lines (hunk_lines ?h) @ l # tail)"
    using assms by (intro apply_one_hunk) (auto simp: side_start_def in_int_def)
  then show ?thesis using assms(1) by simp
qed

theorem insertion_misplaced_witness:
  "apply_hunks (hunks_of 0 0 [([''a'', ''b''], [\<lparr>dl_kind = LAdd, dl_text = ''x''\<rparr>])]) 0 [''a'', ''b'', ''c''] =
     Inr (Inr [''a'', ''x'', ''b'', ''c''])"
  using insertion_misplaced [of "[\<lparr>dl_kind = LAdd, dl_text = ''x''\<rparr>]" "[''a'']" "''b''" "[''c'']"] by simp

end
