(* ===== verification/PatchService.thy ===== *)
theory PatchService
  imports Diff Permission Adapter
begin

text \<open>
  Applying and reverting patches (\<open>capabilities/patch/patch_service.cpp\<close>, \<open>change_store.cpp\<close>). The state is the text of every regular file, by its canonical path, and of every
  change record, by its id; directories are not part of it, and whether a directory is at a path is a parameter, as are the canonical form of paths (\<open>fs\<close>,
  theory \<open>Permission\<close>), the clock, \<open>std::hash\<close>, and which operations on files fail: these belong to one call, so that they can differ between two calls. An
  exception of the file system library is a fault.
\<close>

datatype write_failure = MkdirFails string | OpenFails | WriteFails string | RenameFails string

record 'd patch_env =
  pe_fs :: fs
  pe_project :: string
  pe_session :: string
  pe_hash :: "string \<Rightarrow> nat"
  pe_now_ms :: nat
  pe_now_text :: string
  pe_is_dir :: "string \<Rightarrow> bool"
  pe_unreadable :: "string \<Rightarrow> bool"
  pe_write :: "string \<Rightarrow> write_failure option"
  pe_remove :: "string \<Rightarrow> string option"
  pe_save :: "string option"
  pe_fmt :: "'d \<Rightarrow> string"
  pe_strtod :: "string \<Rightarrow> 'd option"
  pe_d2i :: "'d \<Rightarrow> int option"

record disk =
  disk_files :: "string \<rightharpoonup> string"
  disk_changes :: "string \<rightharpoonup> string"

record 'd patch_error =
  ae_code :: string
  ae_message :: string
  ae_details :: "'d json"

record changed_file =
  cf_path :: string
  cf_kind :: string
  cf_existed_before :: bool
  cf_exists_after :: bool
  cf_before_hash :: string
  cf_after_hash :: string
  cf_before_content :: string

record change_record =
  cr_change_id :: string
  cr_session_id :: string
  cr_description :: string
  cr_created_at :: string
  cr_files :: "changed_file list"
  cr_reverted :: bool
  cr_reverted_at :: string
  cr_patch :: patch_preview

record apply_result =
  ar_change_id :: string
  ar_files :: "changed_file list"
  ar_files_changed :: int
  ar_additions :: int
  ar_deletions :: int

record revert_result =
  rr_change_id :: string
  rr_reverted_files :: "string list"

subsection \<open>JSON\<close>

text \<open>\<open>static_cast<int>\<close> of a size.\<close>

definition int_cast :: "nat \<Rightarrow> int" where
  "int_cast n = (int n + 2 ^ 31) mod 2 ^ 32 - 2 ^ 31"

fun file_kind_str :: "file_change_kind \<Rightarrow> string" where
  "file_kind_str FAdd = ''add''"
| "file_kind_str FModify = ''modify''"
| "file_kind_str FRemove = ''remove''"

fun line_kind_str :: "diff_line_kind \<Rightarrow> string" where
  "line_kind_str LContext = ''context''"
| "line_kind_str LAdd = ''add''"
| "line_kind_str LRemove = ''remove''"

definition line_to_json :: "diff_line \<Rightarrow> 'd json" where
  "line_to_json l = JObject [(''kind'', JString (line_kind_str (dl_kind l))), (''text'', JString (dl_text l))]"

definition hunk_to_json :: "diff_hunk \<Rightarrow> 'd json" where
  "hunk_to_json h = JObject
     [(''old_start'', JInt (old_start h)), (''old_count'', JInt (old_count h)), (''new_start'', JInt (new_start h)),
      (''new_count'', JInt (new_count h)), (''lines'', JArray (map line_to_json (hunk_lines h)))]"

definition patch_to_json :: "file_patch \<Rightarrow> 'd json" where
  "patch_to_json f = JObject
     [(''kind'', JString (file_kind_str (fp_kind f))), (''old_path'', JString (fp_old_path f)), (''new_path'', JString (fp_new_path f)),
      (''additions'', JInt (fp_additions f)), (''deletions'', JInt (fp_deletions f)), (''hunks'', JArray (map hunk_to_json (fp_hunks f)))]"

definition preview_to_json :: "patch_preview \<Rightarrow> 'd json" where
  "preview_to_json p = JObject
     [(''success'', JBool (pp_success p)), (''error_type'', JString (pp_error_type p)), (''message'', JString (pp_message p)),
      (''can_apply'', JBool (pp_can_apply p)), (''files'', JArray (map patch_to_json (pp_files p))),
      (''summary'', JObject [(''files_changed'', JInt (int_cast (length (pp_files p)))), (''additions'', JInt (pp_additions p)),
         (''deletions'', JInt (pp_deletions p))])]"

definition changed_to_json :: "changed_file \<Rightarrow> 'd json" where
  "changed_to_json f = JObject
     [(''path'', JString (cf_path f)), (''kind'', JString (cf_kind f)), (''existed_before'', JBool (cf_existed_before f)),
      (''exists_after'', JBool (cf_exists_after f)), (''before_hash'', JString (cf_before_hash f)),
      (''after_hash'', JString (cf_after_hash f)), (''before_content'', JString (cf_before_content f))]"

definition record_to_json :: "change_record \<Rightarrow> 'd json" where
  "record_to_json r = JObject
     [(''change_id'', JString (cr_change_id r)), (''session_id'', JString (cr_session_id r)),
      (''description'', JString (cr_description r)), (''created_at'', JString (cr_created_at r)),
      (''files'', JArray (map changed_to_json (cr_files r))), (''reverted'', JBool (cr_reverted r)),
      (''reverted_at'', JString (cr_reverted_at r)), (''patch'', preview_to_json (cr_patch r))]"

definition validated_to_json :: "patch_preview \<times> 'd json \<Rightarrow> 'd json" where
  "validated_to_json r = json_set ''validation'' (snd r) (preview_to_json (fst r))"

definition read_result_to_json :: "change_record \<Rightarrow> 'd json" where
  "read_result_to_json r = JObject [(''success'', JBool True), (''change'', record_to_json r)]"

definition apply_result_to_json :: "apply_result \<Rightarrow> 'd json" where
  "apply_result_to_json r = JObject
     [(''success'', JBool True), (''change_id'', JString (ar_change_id r)), (''files'', JArray (map changed_to_json (ar_files r))),
      (''summary'', JObject [(''files_changed'', JInt (ar_files_changed r)), (''additions'', JInt (ar_additions r)),
         (''deletions'', JInt (ar_deletions r))])]"

definition revert_result_to_json :: "revert_result \<Rightarrow> 'd json" where
  "revert_result_to_json r = JObject
     [(''success'', JBool True), (''change_id'', JString (rr_change_id r)),
      (''reverted_files'', JArray (map JString (rr_reverted_files r)))]"

definition file_kind_from_string :: "string \<Rightarrow> file_change_kind" where
  "file_kind_from_string s = (if s = ''add'' then FAdd else if s = ''remove'' then FRemove else FModify)"

definition line_kind_from_string :: "string \<Rightarrow> diff_line_kind" where
  "line_kind_from_string s = (if s = ''add'' then LAdd else if s = ''remove'' then LRemove else LContext)"

text \<open>The elements of a member that is an array.\<close>

definition array_of :: "'d json \<Rightarrow> string \<Rightarrow> 'd json list" where
  "array_of j key = (let v = json_get j key in if is_array v then map (json_at v) [0..<json_size v] else [])"

definition diff_line_from_json :: "'d json \<Rightarrow> diff_line" where
  "diff_line_from_json j =
     \<lparr>dl_kind = line_kind_from_string (value_str j ''kind'' ''context''), dl_text = value_str j ''text'' []\<rparr>"

definition diff_hunk_from_json :: "('d \<Rightarrow> int option) \<Rightarrow> 'd json \<Rightarrow> diff_hunk" where
  "diff_hunk_from_json d2i j =
     \<lparr>old_start = value_int d2i j ''old_start'' 0, old_count = value_int d2i j ''old_count'' 0,
      new_start = value_int d2i j ''new_start'' 0, new_count = value_int d2i j ''new_count'' 0,
      hunk_lines = map diff_line_from_json (array_of j ''lines'')\<rparr>"

definition file_patch_from_json :: "('d \<Rightarrow> int option) \<Rightarrow> 'd json \<Rightarrow> file_patch" where
  "file_patch_from_json d2i j =
     \<lparr>fp_kind = file_kind_from_string (value_str j ''kind'' ''modify''), fp_old_path = value_str j ''old_path'' [],
      fp_new_path = value_str j ''new_path'' [], fp_hunks = map (diff_hunk_from_json d2i) (array_of j ''hunks''),
      fp_additions = value_int d2i j ''additions'' 0, fp_deletions = value_int d2i j ''deletions'' 0\<rparr>"

text \<open>The sums over the files are replaced by those of the summary, which is always written.\<close>

definition patch_preview_from_json :: "('d \<Rightarrow> int option) \<Rightarrow> 'd json \<Rightarrow> patch_preview" where
  "patch_preview_from_json d2i j =
     (if \<not> is_object j then preview_new
      else let fs = map (file_patch_from_json d2i) (array_of j ''files'');
               a = sum_list (map fp_additions fs); d = sum_list (map fp_deletions fs);
               summary = json_get j ''summary''
           in \<lparr>pp_success = value_bool j ''success'' False, pp_error_type = value_str j ''error_type'' [],
               pp_message = value_str j ''message'' [], pp_can_apply = value_bool j ''can_apply'' False, pp_files = fs,
               pp_additions = (if is_object summary then value_int d2i summary ''additions'' a else a),
               pp_deletions = (if is_object summary then value_int d2i summary ''deletions'' d else d)\<rparr>)"

definition changed_file_from_json :: "'d json \<Rightarrow> changed_file" where
  "changed_file_from_json j =
     \<lparr>cf_path = value_str j ''path'' [], cf_kind = value_str j ''kind'' ''modify'',
      cf_existed_before = value_bool j ''existed_before'' False, cf_exists_after = value_bool j ''exists_after'' False,
      cf_before_hash = value_str j ''before_hash'' [], cf_after_hash = value_str j ''after_hash'' [],
      cf_before_content = value_str j ''before_content'' []\<rparr>"

definition change_record_from_json :: "('d \<Rightarrow> int option) \<Rightarrow> 'd json \<Rightarrow> change_record" where
  "change_record_from_json d2i j =
     \<lparr>cr_change_id = value_str j ''change_id'' [], cr_session_id = value_str j ''session_id'' [],
      cr_description = value_str j ''description'' [], cr_created_at = value_str j ''created_at'' [],
      cr_files = map changed_file_from_json (array_of j ''files''), cr_reverted = value_bool j ''reverted'' False,
      cr_reverted_at = value_str j ''reverted_at'' [],
      cr_patch = (if json_contains j ''patch'' then patch_preview_from_json d2i (json_get j ''patch'') else preview_new)\<rparr>"

subsection \<open>Change records\<close>

definition store_save :: "'d patch_env \<Rightarrow> change_record \<Rightarrow> disk \<Rightarrow> patch_fault + (string option \<times> disk)" where
  "store_save env r st =
     (case pe_save env of
        Some e \<Rightarrow> Inr (Some e, st)
      | None \<Rightarrow>
          (case serialize (pe_fmt env) (record_to_json r) 2 of
             None \<Rightarrow> Inl RecordOverflow
           | Some s \<Rightarrow> Inr (None, st\<lparr>disk_changes := (disk_changes st)(cr_change_id r \<mapsto> s)\<rparr>)))"

definition store_load :: "'d patch_env \<Rightarrow> string \<Rightarrow> disk \<Rightarrow> patch_fault + (string + change_record)" where
  "store_load env change_id st =
     (case disk_changes st change_id of
        None \<Rightarrow> Inr (Inl ''change record not found'')
      | Some s \<Rightarrow>
          (case parse (pe_strtod env) s of
             None \<Rightarrow> Inl RecordOverflow
           | Some (v, Some e) \<Rightarrow> Inr (Inl (error_text e))
           | Some (v, None) \<Rightarrow>
               if is_object v then Inr (Inr (change_record_from_json (pe_d2i env) v)) else Inr (Inl ''invalid change record'')))"

subsection \<open>Files\<close>

abbreviation tmp_path :: "string \<Rightarrow> string" where
  "tmp_path p \<equiv> p @ ''.tmp''"

definition file_exists :: "'d patch_env \<Rightarrow> disk \<Rightarrow> string \<Rightarrow> bool" where
  "file_exists env st p \<longleftrightarrow> disk_files st p \<noteq> None \<or> pe_is_dir env p"

definition read_file :: "'d patch_env \<Rightarrow> disk \<Rightarrow> string \<Rightarrow> string" where
  "read_file env st p = (if pe_unreadable env p then [] else case disk_files st p of None \<Rightarrow> [] | Some c \<Rightarrow> c)"

text \<open>
  The error, if any. After a failed \<open>rename\<close> the message is that of the error code of the \<open>remove\<close> that follows, which is the parameter of \<open>RenameFails\<close>.
\<close>

definition write_file_atomic :: "'d patch_env \<Rightarrow> string \<Rightarrow> string \<Rightarrow> disk \<Rightarrow> string option \<times> disk" where
  "write_file_atomic env p content st =
     (case pe_write env p of
        None \<Rightarrow> (None, st\<lparr>disk_files := (disk_files st)(tmp_path p := None, p \<mapsto> content)\<rparr>)
      | Some (MkdirFails e) \<Rightarrow> (Some e, st)
      | Some OpenFails \<Rightarrow> (Some ''failed to open temp file'', st)
      | Some (WriteFails part) \<Rightarrow> (Some ''failed to write temp file'', st\<lparr>disk_files := (disk_files st)(tmp_path p \<mapsto> part)\<rparr>)
      | Some (RenameFails e) \<Rightarrow> (Some e, st\<lparr>disk_files := (disk_files st)(tmp_path p := None)\<rparr>))"

definition remove_file :: "'d patch_env \<Rightarrow> string \<Rightarrow> disk \<Rightarrow> string option \<times> disk" where
  "remove_file env p st =
     (case pe_remove env p of Some e \<Rightarrow> (Some e, st) | None \<Rightarrow> (None, st\<lparr>disk_files := (disk_files st)(p := None)\<rparr>))"

definition hash_content :: "'d patch_env \<Rightarrow> string \<Rightarrow> string" where
  "hash_content env content = hex_lower (pe_hash env content)"

subsection \<open>Paths\<close>

fun path_parts :: "string \<Rightarrow> string list" where
  "path_parts [] = [[]]"
| "path_parts (c # s) =
     (if c = sep then [] # path_parts s else case path_parts s of [] \<Rightarrow> [[c]] | p # ps \<Rightarrow> (c # p) # ps)"

definition patch_root :: "'d patch_env \<Rightarrow> patch_fault + string" where
  "patch_root env =
     (if pe_project env \<noteq> [] then Inr (pe_project env)
      else case current_path (pe_fs env) of None \<Rightarrow> Inl FsThrew | Some p \<Rightarrow> Inr p)"

definition canonical :: "'d patch_env \<Rightarrow> string \<Rightarrow> patch_fault + string" where
  "canonical env p = (case weakly_canonical (pe_fs env) p of None \<Rightarrow> Inl FsThrew | Some t \<Rightarrow> Inr t)"

text \<open>The path, or the text of \<open>error\<close>.\<close>

definition resolve_workspace_path :: "'d patch_env \<Rightarrow> string \<Rightarrow> patch_fault + (string + string)" where
  "resolve_workspace_path env rel =
     (if rel = [] \<or> is_absolute rel then Inr (Inl ''patch paths must be relative to the workspace'')
      else if rel = ''..'' \<or> starts_with ''../'' rel \<or> search ''/../'' rel \<noteq> None \<or> ''..'' \<in> set (path_parts rel) then
        Inr (Inl ''patch path escapes workspace'')
      else bind_sum (patch_root env) (\<lambda>project.
        bind_sum (canonical env project) (\<lambda>root.
        bind_sum (canonical env (path_append root rel)) (\<lambda>target.
          if target \<noteq> root \<and> \<not> starts_with (root @ [sep]) target then Inr (Inl ''patch path escapes workspace'')
          else Inr (Inr target)))))"

text \<open>
  \<open>std::filesystem::relative\<close>: the names of a path, the names that two paths do not share, and a step up for every name that is left of the
  base.
\<close>

definition path_names :: "string \<Rightarrow> string list" where
  "path_names p = filter (\<lambda>n. n \<noteq> []) (path_parts p) @ (if path_parts p \<noteq> [[]] \<and> last (path_parts p) = [] then [[]] else [])"

fun drop_common :: "'a list \<Rightarrow> 'a list \<Rightarrow> 'a list \<times> 'a list" where
  "drop_common (x # xs) (y # ys) = (if x = y then drop_common xs ys else (x # xs, y # ys))"
| "drop_common xs ys = (xs, ys)"

fun join_path :: "string list \<Rightarrow> string" where
  "join_path [] = []"
| "join_path [n] = n"
| "join_path (n # ns) = n @ [sep] @ join_path ns"

definition steps_up :: "string list \<Rightarrow> int" where
  "steps_up ns = int (length (filter (\<lambda>n. n \<notin> {[], ''.'', ''..''}) ns)) - int (length (filter (\<lambda>n. n = ''..'') ns))"

definition lexically_relative :: "string \<Rightarrow> string \<Rightarrow> string" where
  "lexically_relative p base =
     (if is_absolute p \<noteq> is_absolute base then []
      else let (a, b) = drop_common (path_names p) (path_names base); n = steps_up b in
        if a = [] \<and> b = [] then ''.''
        else if n < 0 then []
        else if n = 0 \<and> (a = [] \<or> hd a = []) then ''.''
        else join_path (replicate (nat n) ''..'' @ a))"

definition relative_display_path :: "'d patch_env \<Rightarrow> string \<Rightarrow> patch_fault + string" where
  "relative_display_path env p =
     bind_sum (patch_root env) (\<lambda>project.
       Inr (case (weakly_canonical (pe_fs env) p, weakly_canonical (pe_fs env) project) of
           (Some q, Some root) \<Rightarrow> lexically_relative q root
         | _ \<Rightarrow> p))"

subsection \<open>Preview\<close>

definition app_error :: "string \<Rightarrow> string \<Rightarrow> 'd patch_error" where
  "app_error code msg = \<lparr>ae_code = code, ae_message = msg, ae_details = JObject
     [(''success'', JBool False), (''error_type'', JString code), (''message'', JString msg)]\<rparr>"

definition app_error_from_preview :: "patch_preview \<Rightarrow> 'd patch_error" where
  "app_error_from_preview p =
     \<lparr>ae_code = c_str (if pp_error_type p = [] then ''invalid_patch'' else pp_error_type p),
      ae_message = c_str (if pp_message p = [] then ''patch could not be parsed'' else pp_message p), ae_details = preview_to_json p\<rparr>"

definition rel_path :: "file_patch \<Rightarrow> string" where
  "rel_path f = (if fp_kind f = FRemove then fp_old_path f else fp_new_path f)"

text \<open>The first objection of the dry run to a file: whether its path is inside the workspace, the kind of error and the message.\<close>

definition check_file :: "'d patch_env \<Rightarrow> disk \<Rightarrow> file_patch \<Rightarrow> patch_fault + (bool \<times> string \<times> string) option" where
  "check_file env st f =
     bind_sum (resolve_workspace_path env (rel_path f)) (\<lambda>r. case r of
         Inl e \<Rightarrow> Inr (Some (False, ''path_outside_workspace'', e))
       | Inr target \<Rightarrow>
           let existed = file_exists env st target in
           if fp_kind f = FAdd \<and> existed then Inr (Some (True, ''target_exists'', ''target file already exists''))
           else if fp_kind f \<noteq> FAdd \<and> \<not> existed then Inr (Some (True, ''target_missing'', ''target file does not exist''))
           else bind_sum (apply_file_patch f (split_lines (if existed then read_file env st target else []))) (\<lambda>r.
             Inr (case r of Inl e \<Rightarrow> Some (True, ''patch_conflict'', e) | Inr ls \<Rightarrow> None)))"

fun check_files :: "'d patch_env \<Rightarrow> disk \<Rightarrow> file_patch list \<Rightarrow> patch_fault + (bool \<times> string \<times> string) option" where
  "check_files env st [] = Inr None"
| "check_files env st (f # fs) =
     bind_sum (check_file env st f) (\<lambda>r. case r of None \<Rightarrow> check_files env st fs | Some e \<Rightarrow> Inr (Some e))"

definition validation_start :: "'d json" where
  "validation_start = JObject
     [(''checked_workspace'', JBool True), (''paths_inside_workspace'', JBool True), (''hunks_match'', JBool True),
      (''writes_files'', JBool False), (''runs_commands'', JBool False)]"

definition refused_validation :: "bool \<times> string \<times> string \<Rightarrow> 'd json" where
  "refused_validation e = (case e of (inside, code, msg) \<Rightarrow>
     json_set ''message'' (JString msg) (json_set ''error_type'' (JString code) (json_set ''hunks_match'' (JBool False)
       (if inside then validation_start else json_set ''paths_inside_workspace'' (JBool False) validation_start))))"

definition preview_validated :: "'d patch_env \<Rightarrow> disk \<Rightarrow> string \<Rightarrow> patch_fault + (patch_preview \<times> 'd json)" where
  "preview_validated env st unified_diff =
     bind_sum (parse_unified_diff unified_diff) (\<lambda>p.
       if \<not> pp_success p then
         Inr (p\<lparr>pp_can_apply := False\<rparr>, refused_validation
           (False, if pp_error_type p = [] then ''invalid_patch'' else pp_error_type p,
            if pp_message p = [] then ''patch could not be parsed'' else pp_message p))
       else bind_sum (check_files env st (pp_files p)) (\<lambda>r. case r of
           Some e \<Rightarrow> Inr (p\<lparr>pp_can_apply := False\<rparr>, refused_validation e)
         | None \<Rightarrow> Inr (p\<lparr>pp_can_apply := True\<rparr>, json_set ''message'' (JString ''patch dry-run validation passed'') validation_start)))"

subsection \<open>Apply\<close>

record pending_write =
  pw_path :: string
  pw_patch :: file_patch
  pw_existed_before :: bool
  pw_before_content :: string
  pw_after_content :: string

definition prepare_file :: "'d patch_env \<Rightarrow> disk \<Rightarrow> file_patch \<Rightarrow> patch_fault + ('d patch_error + pending_write)" where
  "prepare_file env st f =
     bind_sum (resolve_workspace_path env (rel_path f)) (\<lambda>r. case r of
         Inl e \<Rightarrow> Inr (Inl (app_error ''path_outside_workspace'' e))
       | Inr target \<Rightarrow>
           let existed = file_exists env st target;
               before = (if existed then read_file env st target else [])
           in if fp_kind f \<noteq> FAdd \<and> \<not> existed then Inr (Inl (app_error ''patch_conflict'' ''target file does not exist''))
              else bind_sum (apply_file_patch f (split_lines before)) (\<lambda>r. Inr (case r of
                  Inl e \<Rightarrow> Inl (app_error ''patch_conflict'' e)
                | Inr ls \<Rightarrow> Inr \<lparr>pw_path = target, pw_patch = f, pw_existed_before = existed, pw_before_content = before,
                    pw_after_content = join_lines ls\<rparr>)))"

fun prepare_files :: "'d patch_env \<Rightarrow> disk \<Rightarrow> file_patch list \<Rightarrow> patch_fault + ('d patch_error + pending_write list)" where
  "prepare_files env st [] = Inr (Inr [])"
| "prepare_files env st (f # fs) =
     bind_sum (prepare_file env st f) (\<lambda>r. case r of
         Inl e \<Rightarrow> Inr (Inl e)
       | Inr w \<Rightarrow> bind_sum (prepare_files env st fs) (\<lambda>rs. Inr (case rs of Inl e \<Rightarrow> Inl e | Inr ws \<Rightarrow> Inr (w # ws))))"

definition write_pending :: "'d patch_env \<Rightarrow> pending_write \<Rightarrow> disk \<Rightarrow> string option \<times> disk" where
  "write_pending env w st =
     (if fp_kind (pw_patch w) = FRemove then remove_file env (pw_path w) st
      else write_file_atomic env (pw_path w) (pw_after_content w) st)"

definition changed_file_of :: "'d patch_env \<Rightarrow> pending_write \<Rightarrow> patch_fault + changed_file" where
  "changed_file_of env w =
     bind_sum (relative_display_path env (pw_path w)) (\<lambda>path.
       let exists_after = (fp_kind (pw_patch w) \<noteq> FRemove) in
       Inr \<lparr>cf_path = path, cf_kind = file_kind_str (fp_kind (pw_patch w)), cf_existed_before = pw_existed_before w,
         cf_exists_after = exists_after, cf_before_hash = hash_content env (pw_before_content w),
         cf_after_hash = (if exists_after then hash_content env (pw_after_content w) else []),
         cf_before_content = pw_before_content w\<rparr>)"

fun write_files :: "'d patch_env \<Rightarrow> pending_write list \<Rightarrow> disk \<Rightarrow> patch_fault + (('d patch_error + changed_file list) \<times> disk)" where
  "write_files env [] st = Inr (Inr [], st)"
| "write_files env (w # ws) st =
     (case write_pending env w st of
        (Some e, st1) \<Rightarrow> Inr (Inl (app_error ''write_failed'' e), st1)
      | (None, st1) \<Rightarrow>
          bind_sum (changed_file_of env w) (\<lambda>f.
          bind_sum (write_files env ws st1) (\<lambda>(r, st2). Inr (case r of Inl e \<Rightarrow> Inl e | Inr fs \<Rightarrow> Inr (f # fs), st2))))"

definition apply_patch :: "'d patch_env \<Rightarrow> string \<Rightarrow> string \<Rightarrow> disk \<Rightarrow> patch_fault + (('d patch_error + apply_result) \<times> disk)" where
  "apply_patch env unified_diff description st =
     bind_sum (parse_unified_diff unified_diff) (\<lambda>p.
       if \<not> pp_success p then Inr (Inl (app_error_from_preview p), st)
       else bind_sum (prepare_files env st (pp_files p)) (\<lambda>r. case r of
           Inl e \<Rightarrow> Inr (Inl e, st)
         | Inr ws \<Rightarrow> bind_sum (write_files env ws st) (\<lambda>(r, st1). case r of
               Inl e \<Rightarrow> Inr (Inl e, st1)
             | Inr fs \<Rightarrow>
                 let id = ''chg_'' @ decimal (pe_now_ms env);
                     record = \<lparr>cr_change_id = id, cr_session_id = pe_session env, cr_description = description,
                       cr_created_at = pe_now_text env, cr_files = fs, cr_reverted = False, cr_reverted_at = [], cr_patch = p\<rparr>
                 in bind_sum (store_save env record st1) (\<lambda>(e, st2). Inr (case e of
                     Some msg \<Rightarrow> Inl (app_error ''change_store_failed'' msg)
                   | None \<Rightarrow> Inr \<lparr>ar_change_id = id, ar_files = fs, ar_files_changed = int_cast (length fs),
                       ar_additions = pp_additions p, ar_deletions = pp_deletions p\<rparr>, st2)))))"

subsection \<open>Read and revert\<close>

definition read_change :: "'d patch_env \<Rightarrow> string \<Rightarrow> disk \<Rightarrow> patch_fault + ('d patch_error + change_record)" where
  "read_change env change_id st =
     bind_sum (store_load env change_id st) (\<lambda>r. Inr (case r of
         Inl e \<Rightarrow> Inl (app_error ''change_not_found'' e) | Inr record \<Rightarrow> Inr record))"

definition current_hash :: "'d patch_env \<Rightarrow> disk \<Rightarrow> string \<Rightarrow> string" where
  "current_hash env st p = (if file_exists env st p then hash_content env (read_file env st p) else [])"

fun check_revert :: "'d patch_env \<Rightarrow> bool \<Rightarrow> disk \<Rightarrow> changed_file list \<Rightarrow> patch_fault + 'd patch_error option" where
  "check_revert env force st [] = Inr None"
| "check_revert env force st (f # fs) =
     bind_sum (resolve_workspace_path env (cf_path f)) (\<lambda>r. case r of
         Inl e \<Rightarrow> Inr (Some (app_error ''path_outside_workspace'' e))
       | Inr p \<Rightarrow>
           if \<not> force \<and> current_hash env st p \<noteq> cf_after_hash f then
             Inr (Some (app_error ''revert_conflict'' (''file changed after patch application: '' @ cf_path f)))
           else check_revert env force st fs)"

text \<open>A path with an error is empty; after the checks there is none.\<close>

definition revert_file :: "'d patch_env \<Rightarrow> changed_file \<Rightarrow> disk \<Rightarrow> patch_fault + (string option \<times> disk)" where
  "revert_file env f st =
     bind_sum (resolve_workspace_path env (cf_path f)) (\<lambda>r.
       let p = (case r of Inl e \<Rightarrow> [] | Inr p \<Rightarrow> p) in
       Inr (if \<not> cf_existed_before f then remove_file env p st else write_file_atomic env p (cf_before_content f) st))"

fun revert_files :: "'d patch_env \<Rightarrow> changed_file list \<Rightarrow> disk \<Rightarrow> patch_fault + (('d patch_error + string list) \<times> disk)" where
  "revert_files env [] st = Inr (Inr [], st)"
| "revert_files env (f # fs) st =
     bind_sum (revert_file env f st) (\<lambda>(e, st1). case e of
         Some msg \<Rightarrow> Inr (Inl (app_error ''write_failed'' msg), st1)
       | None \<Rightarrow> bind_sum (revert_files env fs st1) (\<lambda>(r, st2).
           Inr (case r of Inl e \<Rightarrow> Inl e | Inr ps \<Rightarrow> Inr (cf_path f # ps), st2)))"

definition revert :: "'d patch_env \<Rightarrow> string \<Rightarrow> bool \<Rightarrow> disk \<Rightarrow> patch_fault + (('d patch_error + revert_result) \<times> disk)" where
  "revert env change_id force st =
     bind_sum (store_load env change_id st) (\<lambda>r. case r of
         Inl e \<Rightarrow> Inr (Inl (app_error ''change_not_found'' e), st)
       | Inr record \<Rightarrow>
           if cr_reverted record then Inr (Inl (app_error ''already_reverted'' ''change has already been reverted''), st)
           else bind_sum (check_revert env force st (cr_files record)) (\<lambda>c. case c of
               Some e \<Rightarrow> Inr (Inl e, st)
             | None \<Rightarrow> bind_sum (revert_files env (cr_files record) st) (\<lambda>(r, st1). case r of
                   Inl e \<Rightarrow> Inr (Inl e, st1)
                 | Inr ps \<Rightarrow>
                     bind_sum (store_save env (record\<lparr>cr_reverted := True, cr_reverted_at := pe_now_text env\<rparr>) st1) (\<lambda>(e, st2).
                       Inr (Inr \<lparr>rr_change_id = change_id, rr_reverted_files = ps\<rparr>, st2)))))"

end
