(* ===== verification/PatchCorrect.thy ===== *)
theory PatchCorrect
  imports PatchService
begin

text \<open>
  What the patch service guarantees: the change records are read back from their JSON text, the recorded path of a file leads to the file again,
  the diff of any edits is applied, only files of the workspace change, and a revert gives every file back.
\<close>

subsection \<open>A change record is read back\<close>

lemma sanitize_ascii: "list_all (\<lambda>c. byte c < 128) s \<Longrightarrow> sanitize s = s"
  by (induction s) auto

lemma map_of_fold_obj_set:
  "map_of (fold (\<lambda>(k, v). obj_set k v) kvs acc) k = (case map_of (rev kvs) k of Some v \<Rightarrow> Some v | None \<Rightarrow> map_of acc k)"
proof (induction kvs arbitrary: acc)
  case (Cons kv kvs)
  then show ?case by (cases kv) (auto simp: map_of_obj_set map_add_def split: option.splits)
qed simp

definition ascii_keys :: "string list \<Rightarrow> bool" where
  "ascii_keys ks \<longleftrightarrow> list_all (\<lambda>k. list_all (\<lambda>c. byte c < 128) k) ks \<and> distinct ks"

lemma find_reparsed:
  assumes "ascii_keys (map fst kvs)"
  shows "json_find (reparsed (JObject kvs)) k = map_option reparsed (map_of kvs k)"
proof -
  let ?kvs = "map (\<lambda>(k, v). (k, reparsed v)) kvs"
  have keys: "map (\<lambda>(k, v). (sanitize k, reparsed v)) kvs = ?kvs"
    using assms by (auto simp: ascii_keys_def list_all_iff sanitize_ascii)
  have "distinct (map fst ?kvs)" using assms by (simp add: ascii_keys_def comp_def split_def)
  then have "map_of (rev ?kvs) k = map_of ?kvs k"
    using map_of_inject_set [of "rev ?kvs" ?kvs] by (simp add: rev_map [symmetric])
  moreover have "map_of ?kvs k = map_option reparsed (map_of kvs k)" by (induction kvs) auto
  ultimately show ?thesis
    unfolding reparsed.simps keys json_find.simps map_of_fold_obj_set by (simp split: option.splits)
qed

lemma is_object_reparsed: "is_object (reparsed (JObject kvs))"
  by simp

lemma try_int_reparsed: "in_int i \<Longrightarrow> try_int d2i (reparsed (JInt i)) = Some i"
  by (simp add: in_int_def)

lemma member_reads:
  assumes "ascii_keys (map fst kvs)"
  shows "value_str (reparsed (JObject kvs)) k s = (case map_of kvs k of Some v \<Rightarrow> (case reparsed v of JString t \<Rightarrow> t | _ \<Rightarrow> s) | None \<Rightarrow> s)"
    and "value_bool (reparsed (JObject kvs)) k b = (case map_of kvs k of Some v \<Rightarrow> (case reparsed v of JBool c \<Rightarrow> c | _ \<Rightarrow> b) | None \<Rightarrow> b)"
    and "value_int d2i (reparsed (JObject kvs)) k i =
      (case map_of kvs k of Some v \<Rightarrow> (case try_int d2i (reparsed v) of Some j \<Rightarrow> j | None \<Rightarrow> i) | None \<Rightarrow> i)"
    and "json_get (reparsed (JObject kvs)) k = (case map_of kvs k of Some v \<Rightarrow> reparsed v | None \<Rightarrow> JNull)"
    and "json_contains (reparsed (JObject kvs)) k = (map_of kvs k \<noteq> None)"
  unfolding value_str_def value_bool_def value_int_def json_get_def json_contains_def find_reparsed [OF assms, of k]
  by (simp_all split: option.splits)

lemma array_reads:
  assumes "ascii_keys (map fst kvs)" "map_of kvs k = Some (JArray vs)"
  shows "array_of (reparsed (JObject kvs)) k = map reparsed vs"
proof -
  have "map (json_at (JArray xs)) [0..<length xs] = xs" for xs :: "'a json list" by (rule nth_equalityI) simp_all
  from this [of "map reparsed vs"] show ?thesis
    unfolding array_of_def member_reads(4) [OF assms(1)] assms(2) by (simp add: Let_def)
qed

definition san_line :: "diff_line \<Rightarrow> diff_line" where
  "san_line l = l\<lparr>dl_text := sanitize (dl_text l)\<rparr>"

definition san_hunk :: "diff_hunk \<Rightarrow> diff_hunk" where
  "san_hunk h = h\<lparr>hunk_lines := map san_line (hunk_lines h)\<rparr>"

definition san_patch :: "file_patch \<Rightarrow> file_patch" where
  "san_patch f = f\<lparr>fp_old_path := sanitize (fp_old_path f), fp_new_path := sanitize (fp_new_path f), fp_hunks := map san_hunk (fp_hunks f)\<rparr>"

definition san_preview :: "patch_preview \<Rightarrow> patch_preview" where
  "san_preview p = p\<lparr>pp_error_type := sanitize (pp_error_type p), pp_message := sanitize (pp_message p), pp_files := map san_patch (pp_files p)\<rparr>"

definition san_changed :: "changed_file \<Rightarrow> changed_file" where
  "san_changed f = f\<lparr>cf_path := sanitize (cf_path f), cf_kind := sanitize (cf_kind f), cf_before_hash := sanitize (cf_before_hash f),
     cf_after_hash := sanitize (cf_after_hash f), cf_before_content := sanitize (cf_before_content f)\<rparr>"

definition san_record :: "change_record \<Rightarrow> change_record" where
  "san_record r = r\<lparr>cr_change_id := sanitize (cr_change_id r), cr_session_id := sanitize (cr_session_id r),
     cr_description := sanitize (cr_description r), cr_created_at := sanitize (cr_created_at r), cr_files := map san_changed (cr_files r),
     cr_reverted_at := sanitize (cr_reverted_at r), cr_patch := san_preview (cr_patch r)\<rparr>"

text \<open>Numbers that fit an \<open>int\<close>.\<close>

definition hunk_fits :: "diff_hunk \<Rightarrow> bool" where
  "hunk_fits h \<longleftrightarrow> in_int (old_start h) \<and> in_int (old_count h) \<and> in_int (new_start h) \<and> in_int (new_count h)"

definition preview_fits :: "patch_preview \<Rightarrow> bool" where
  "preview_fits p \<longleftrightarrow> in_int (pp_additions p) \<and> in_int (pp_deletions p) \<and>
     list_all (\<lambda>f. in_int (fp_additions f) \<and> in_int (fp_deletions f) \<and> list_all hunk_fits (fp_hunks f)) (pp_files p)"

lemma record_keys:
  "ascii_keys [''kind'', ''text'']"
  "ascii_keys [''old_start'', ''old_count'', ''new_start'', ''new_count'', ''lines'']"
  "ascii_keys [''kind'', ''old_path'', ''new_path'', ''additions'', ''deletions'', ''hunks'']"
  "ascii_keys [''success'', ''error_type'', ''message'', ''can_apply'', ''files'', ''summary'']"
  "ascii_keys [''files_changed'', ''additions'', ''deletions'']"
  "ascii_keys [''path'', ''kind'', ''existed_before'', ''exists_after'', ''before_hash'', ''after_hash'', ''before_content'']"
  "ascii_keys [''change_id'', ''session_id'', ''description'', ''created_at'', ''files'', ''reverted'', ''reverted_at'', ''patch'']"
  by (simp_all add: ascii_keys_def byte_def)

lemma line_reads: "diff_line_from_json (reparsed (line_to_json l)) = san_line l"
proof -
  have "line_kind_from_string (sanitize (line_kind_str k)) = k" for k
    by (cases k) (simp_all add: line_kind_from_string_def byte_def)
  then show ?thesis
    by (cases l) (simp add: diff_line_from_json_def line_to_json_def member_reads record_keys san_line_def del: reparsed.simps(4))
qed

lemma hunk_reads:
  fixes d2i :: "'d \<Rightarrow> int option"
  assumes "hunk_fits h"
  shows "diff_hunk_from_json d2i (reparsed (hunk_to_json h)) = san_hunk h"
proof -
  have "array_of (reparsed (hunk_to_json h :: 'd json)) ''lines'' = map reparsed (map line_to_json (hunk_lines h))"
    unfolding hunk_to_json_def by (rule array_reads) (simp_all add: record_keys)
  then show ?thesis using assms
    by (cases h) (simp add: diff_hunk_from_json_def hunk_to_json_def hunk_fits_def member_reads record_keys try_int_reparsed line_reads
      san_hunk_def del: reparsed.simps)
qed

lemma patch_reads:
  fixes d2i :: "'d \<Rightarrow> int option"
  assumes "in_int (fp_additions f)" "in_int (fp_deletions f)" "list_all hunk_fits (fp_hunks f)"
  shows "file_patch_from_json d2i (reparsed (patch_to_json f)) = san_patch f"
proof -
  have "array_of (reparsed (patch_to_json f :: 'd json)) ''hunks'' = map reparsed (map hunk_to_json (fp_hunks f))"
    unfolding patch_to_json_def by (rule array_reads) (simp_all add: record_keys)
  moreover have "map (diff_hunk_from_json d2i) (map reparsed (map hunk_to_json (fp_hunks f) :: 'd json list)) = map san_hunk (fp_hunks f)"
    using assms(3) by (simp add: list_all_iff hunk_reads)
  moreover have "file_kind_from_string (sanitize (file_kind_str k)) = k" for k
    by (cases k) (simp_all add: file_kind_from_string_def byte_def)
  ultimately show ?thesis using assms
    by (cases f) (simp add: file_patch_from_json_def patch_to_json_def member_reads record_keys try_int_reparsed san_patch_def
      del: reparsed.simps(1,3,4) map_map)
qed

lemma int_cast_in_int: "in_int (int_cast n)"
  by (simp add: int_cast_def in_int_def)

lemma preview_reads:
  fixes d2i :: "'d \<Rightarrow> int option"
  assumes "preview_fits p"
  shows "patch_preview_from_json d2i (reparsed (preview_to_json p)) = san_preview p"
proof -
  have "array_of (reparsed (preview_to_json p :: 'd json)) ''files'' = map reparsed (map patch_to_json (pp_files p))"
    unfolding preview_to_json_def by (rule array_reads) (simp_all add: record_keys)
  moreover have "map (file_patch_from_json d2i) (map reparsed (map patch_to_json (pp_files p))) = map san_patch (pp_files p)"
    using assms by (simp add: preview_fits_def list_all_iff patch_reads)
  ultimately show ?thesis using assms
    by (cases p) (simp add: patch_preview_from_json_def preview_to_json_def preview_fits_def member_reads record_keys try_int_reparsed
      is_object_reparsed san_preview_def Let_def del: reparsed.simps(1,3,4) map_map)
qed

lemma changed_reads: "changed_file_from_json (reparsed (changed_to_json f)) = san_changed f"
  by (cases f) (simp add: changed_file_from_json_def changed_to_json_def member_reads record_keys san_changed_def del: reparsed.simps(3,4))

lemma record_reads:
  fixes d2i :: "'d \<Rightarrow> int option"
  assumes "preview_fits (cr_patch r)"
  shows "change_record_from_json d2i (reparsed (record_to_json r)) = san_record r"
proof -
  have "array_of (reparsed (record_to_json r :: 'd json)) ''files'' = map reparsed (map changed_to_json (cr_files r))"
    unfolding record_to_json_def by (rule array_reads) (simp_all add: record_keys)
  then show ?thesis using assms
    by (cases r) (simp add: change_record_from_json_def record_to_json_def member_reads record_keys preview_reads changed_reads
      san_record_def comp_def del: reparsed.simps(3,4))
qed

lemma record_plain:
  assumes "preview_fits (cr_patch r)"
  shows "plain (record_to_json r :: 'd json)"
proof -
  have wide: "- (2 ^ 63) < i \<and> i < 2 ^ 63" if "in_int i" for i using that by (auto simp: in_int_def)
  have "plain (hunk_to_json h :: 'd json)" if "hunk_fits h" for h
    using that wide by (simp add: hunk_to_json_def hunk_fits_def list_all_iff line_to_json_def)
  then have "plain (patch_to_json f :: 'd json)" if "in_int (fp_additions f)" "in_int (fp_deletions f)" "list_all hunk_fits (fp_hunks f)" for f
    using that wide by (simp add: patch_to_json_def list_all_iff)
  then show ?thesis using assms wide wide [OF int_cast_in_int]
    by (simp add: record_to_json_def preview_to_json_def preview_fits_def list_all_iff changed_to_json_def)
qed

lemma store_roundtrip:
  fixes env env' :: "'d patch_env"
  assumes "preview_fits (cr_patch r)" "pe_save env = None"
  obtains s where "store_save env r st = Inr (None, st\<lparr>disk_changes := (disk_changes st)(cr_change_id r \<mapsto> s)\<rparr>)"
    and "\<forall>st'. disk_changes st' (cr_change_id r) = Some s \<longrightarrow> store_load env' (cr_change_id r) st' = Inr (Inr (san_record r))"
proof -
  obtain s where "serialize (pe_fmt env) (record_to_json r) 2 = Some s"
    "parse (pe_strtod env') s = Some (reparsed (record_to_json r), None)"
    using serialized_parses [OF record_plain [OF assms(1)]] by blast
  moreover have "is_object (reparsed (record_to_json r :: 'd json))" by (simp add: record_to_json_def)
  ultimately show thesis using that assms by (simp add: store_save_def store_load_def record_reads)
qed

subsection \<open>The numbers of a diff fit\<close>

lemma sscanf_fits: "sscanf ds s = Inr xs \<Longrightarrow> list_all in_int xs"
proof (induction ds s arbitrary: xs rule: sscanf.induct)
  case (5 ds s)
  obtain neg t where "scan_sign (dropWhile isspace s) = (neg, t)" by fastforce
  with 5 show ?case by (cases "sscanf ds (dropWhile is_digit t)") (auto simp: Let_def split: if_splits)
qed (auto split: if_splits)

lemma header_cases:
  "(case r of [a, b, c, d] \<Rightarrow> f a b c d | _ \<Rightarrow> g) = x \<Longrightarrow> (\<exists>a b c d. r = [a, b, c, d] \<and> f a b c d = x) \<or> g = x"
  "(case r of [a, b, c] \<Rightarrow> f' a b c | _ \<Rightarrow> g) = x \<Longrightarrow> (\<exists>a b c. r = [a, b, c] \<and> f' a b c = x) \<or> g = x"
  "(case r of [a, b] \<Rightarrow> f'' a b | _ \<Rightarrow> g) = x \<Longrightarrow> (\<exists>a b. r = [a, b] \<and> f'' a b = x) \<or> g = x"
  by (auto split: list.splits)

lemma header_fits:
  assumes "parse_hunk_header line = Inr (Some h)"
  shows "hunk_fits h"
proof -
  have one: "in_int 1" by (simp add: in_int_def)
  show ?thesis
    using assms unfolding parse_hunk_header_def Let_def bind_sum_Inr
    by (elim exE conjE) (drule header_cases, auto simp: bind_sum_Inr hunk_new_def hunk_fits_def one dest!: sscanf_fits header_cases)
qed

text \<open>The counters of a file are never above those of the preview.\<close>

definition counts_fit :: "patch_preview \<Rightarrow> bool" where
  "counts_fit p \<longleftrightarrow> in_int (pp_additions p) \<and> in_int (pp_deletions p) \<and>
     (\<forall>f \<in> set (pp_files p). 0 \<le> fp_additions f \<and> fp_additions f \<le> pp_additions p \<and> 0 \<le> fp_deletions f \<and>
        fp_deletions f \<le> pp_deletions p \<and> list_all hunk_fits (fp_hunks f)) \<and> 0 \<le> pp_additions p \<and> 0 \<le> pp_deletions p"

lemma counts_fit_preview: "counts_fit p \<Longrightarrow> preview_fits p"
  by (auto simp: counts_fit_def preview_fits_def in_int_def list_all_iff)

lemma set_map_last: "x \<in> set (map_last f xs) \<Longrightarrow> x \<in> set xs \<or> (\<exists>y \<in> set xs. x = f y)"
  by (cases xs rule: rev_cases) auto

lemma list_all_map_last: "list_all P xs \<Longrightarrow> (\<And>x. P x \<Longrightarrow> P (f x)) \<Longrightarrow> list_all P (map_last f xs)"
  by (cases xs rule: rev_cases) auto

lemma push_line_fits: "list_all hunk_fits (fp_hunks f) \<Longrightarrow> list_all hunk_fits (fp_hunks (push_line k t f))"
  by (auto simp: push_line_def hunk_fits_def intro!: list_all_map_last)

lemma push_line_fields: "fp_additions (push_line k t f) = fp_additions f" "fp_deletions (push_line k t f) = fp_deletions f"
  by (simp_all add: push_line_def)

lemma push_line_counts: "counts_fit (ps_preview ps) \<Longrightarrow> counts_fit (ps_preview (on_file (push_line k t) ps))"
  by (fastforce simp: counts_fit_def on_file_def push_line_fields push_line_fits dest!: set_map_last)

lemma counted:
  "count_addition ps = Inr ps' \<Longrightarrow> counts_fit (ps_preview ps) \<Longrightarrow> counts_fit (ps_preview ps')"
  "count_deletion ps = Inr ps' \<Longrightarrow> counts_fit (ps_preview ps) \<Longrightarrow> counts_fit (ps_preview ps')"
  by (fastforce simp: count_addition_def count_deletion_def counts_fit_def on_file_def Let_def dest!: set_map_last split: if_splits)+

lemma hunk_line_counts: "hunk_line line ps = Inr ps' \<Longrightarrow> counts_fit (ps_preview ps) \<Longrightarrow> counts_fit (ps_preview ps')"
  by (auto simp: hunk_line_def push_line_counts dest!: counted split: if_splits list.splits)

fun outcome_preview :: "parse_outcome \<Rightarrow> patch_preview" where
  "outcome_preview (Going ps) = ps_preview ps"
| "outcome_preview (Rejected p) = p"

lemma counts_fit_simps [simp]:
  "counts_fit (p\<lparr>pp_error_type := e\<rparr>) = counts_fit p" "counts_fit (p\<lparr>pp_message := m\<rparr>) = counts_fit p"
  "counts_fit (p\<lparr>pp_success := b\<rparr>) = counts_fit p" "counts_fit (p\<lparr>pp_can_apply := b\<rparr>) = counts_fit p"
  by (simp_all add: counts_fit_def)

lemma parse_line_counts:
  assumes "parse_line line ps = Inr r" "counts_fit (ps_preview ps)"
  shows "counts_fit (outcome_preview r)"
proof -
  have hunk: "counts_fit (ps_preview (on_file (push_hunk h) ps))" if "hunk_fits h" for h
    using assms(2) that by (fastforce simp: counts_fit_def on_file_def push_hunk_def dest!: set_map_last)
  have opened: "counts_fit (ps_preview (open_file new ps))" for new
    using assms(2) by (auto simp: counts_fit_def open_file_def Let_def)
  show ?thesis
    using assms hunk_line_counts [of line ps] header_fits [of line]
    by (cases "hunk_line line ps")
      (auto simp: parse_line_def reject_def opened bind_sum_Inr intro!: hunk split: if_splits option.splits)
qed

lemma parse_lines_counts:
  "parse_lines ls ps = Inr r \<Longrightarrow> counts_fit (ps_preview ps) \<Longrightarrow> counts_fit (outcome_preview r)"
proof (induction ls arbitrary: ps)
  case (Cons l ls)
  then obtain r1 where r1: "parse_line l ps = Inr r1" by (auto simp: bind_sum_Inr)
  then have "counts_fit (outcome_preview r1)" using Cons.prems(2) by (rule parse_line_counts)
  then show ?case using Cons r1 by (cases r1) auto
qed auto

lemma parse_fits:
  assumes "parse_unified_diff d = Inr p"
  shows "preview_fits p"
proof -
  obtain r where r: "parse_lines (split_lines d) parse_start = Inr r"
    using assms by (cases "parse_lines (split_lines d) parse_start") (auto simp: parse_unified_diff_def)
  moreover have "counts_fit (ps_preview parse_start)" by (simp add: parse_start_def preview_new_def counts_fit_def in_int_def)
  ultimately have "counts_fit (outcome_preview r)" by (rule parse_lines_counts)
  then show ?thesis using assms r
    by (cases r) (auto simp: parse_unified_diff_def intro!: counts_fit_preview split: if_splits)
qed

subsection \<open>Paths below the workspace\<close>

lemma path_parts_nonempty [simp]: "path_parts s \<noteq> []"
  by (induction s) (auto split: list.splits)

lemma path_parts_sep: "path_parts (a @ sep # b) = path_parts a @ path_parts b"
  by (induction a) (auto split: list.splits)

lemma join_path_Cons: "ns \<noteq> [] \<Longrightarrow> join_path (n # ns) = n @ [sep] @ join_path ns"
  by (cases ns) simp_all

lemma join_path_parts: "join_path (path_parts s) = s"
proof (induction s)
  case (Cons c s)
  obtain p ps where p: "path_parts s = p # ps" using path_parts_nonempty [of s] by (cases "path_parts s") auto
  show ?case
  proof (cases "c = sep")
    case True
    then show ?thesis using Cons by (simp add: join_path_Cons)
  next
    case False
    have "join_path ((c # p) # ps) = c # join_path (p # ps)" by (cases ps) simp_all
    then show ?thesis using Cons False by (simp add: p)
  qed
qed simp

definition plain_names :: "string list \<Rightarrow> bool" where
  "plain_names ns \<longleftrightarrow> list_all (\<lambda>n. n \<noteq> [] \<and> n \<noteq> ''.'' \<and> n \<noteq> ''..'') ns"

text \<open>An absolute path in normal form, other than the root directory.\<close>

definition normal_path :: "string \<Rightarrow> bool" where
  "normal_path p \<longleftrightarrow> (case path_parts p of n # ns \<Rightarrow> n = [] \<and> ns \<noteq> [] \<and> plain_names ns | [] \<Rightarrow> False)"

lemma path_names_normal: "path_parts p = [] # ns \<Longrightarrow> ns \<noteq> [] \<Longrightarrow> plain_names ns \<Longrightarrow> path_names p = ns"
proof -
  assume p: "path_parts p = [] # ns" "ns \<noteq> []" and ns: "plain_names ns"
  have "filter (\<lambda>n. n \<noteq> []) ns = ns" using ns by (auto simp: plain_names_def list_all_iff)
  moreover have "last ns \<noteq> []" using p(2) ns last_in_set [of ns] by (auto simp: plain_names_def list_all_iff)
  ultimately show ?thesis using p by (simp add: path_names_def)
qed

lemma drop_common_prefix: "drop_common (xs @ ys) xs = (ys, [])"
  by (induction xs) (cases ys; simp)+

lemma normal_absolute: "normal_path p \<Longrightarrow> is_absolute p \<and> p \<noteq> [] \<and> last p \<noteq> sep"
proof -
  assume p: "normal_path p"
  then obtain ns where ns: "path_parts p = [] # ns" "ns \<noteq> []" "plain_names ns"
    by (auto simp: normal_path_def split: list.splits)
  have "is_absolute p" using ns(1,2) by (cases p) (auto simp: is_absolute_def split: list.splits if_splits)
  moreover have "last p \<noteq> sep" if "p \<noteq> []"
  proof
    assume "last p = sep"
    then have "path_parts p = path_parts (butlast p) @ [[]]"
      using path_parts_sep [of "butlast p" "[]"] append_butlast_last_id [OF that] by simp
    then have "[] \<in> set ns" using ns(1,2) by (cases "path_parts (butlast p)") auto
    then show False using ns(3) by (auto simp: plain_names_def list_all_iff)
  qed
  ultimately show ?thesis by (cases p) (auto simp: is_absolute_def)
qed

lemma dotdot_parts:
  "starts_with ''../'' s \<Longrightarrow> ''..'' \<in> set (path_parts s)"
  "search ''/../'' s = Some i \<Longrightarrow> ''..'' \<in> set (path_parts s)"
proof -
  have up: "''..'' \<in> set (path_parts (a @ sep # CHR ''.'' # CHR ''.'' # sep # b))" for a b
    using path_parts_sep [of a "''..'' @ sep # b"] path_parts_sep [of "''..''" b] by (simp add: sep_def)
  show "''..'' \<in> set (path_parts s)" if "starts_with ''../'' s"
  proof -
    have "take 3 s = ''..'' @ [sep]" using that by (simp add: starts_with_def sep_def numeral_3_eq_3)
    then have "s = ''..'' @ sep # drop 3 s" using append_take_drop_id [of 3 s] by simp
    then show ?thesis using path_parts_sep [of "''..''" "drop 3 s"] by (simp add: sep_def)
  qed
  have "\<exists>a b. s = a @ ''/../'' @ b" if "search ''/../'' s = Some i" for s i
    using that
  proof (induction s arbitrary: i)
    case (Cons x xs)
    show ?case
    proof (cases "take (length ''/../'') (x # xs) = ''/../''")
      case True
      then have "x # xs = [] @ ''/../'' @ drop (length ''/../'') (x # xs)" by (metis append_Nil append_take_drop_id)
      then show ?thesis by blast
    next
      case False
      then obtain j where "search ''/../'' xs = Some j" using Cons.prems by (auto simp del: length_Cons list.size take_Suc_Cons)
      then obtain a b where "xs = a @ ''/../'' @ b" using Cons.IH by blast
      then have "x # xs = (x # a) @ ''/../'' @ b" by simp
      then show ?thesis by blast
    qed
  qed simp
  then show "''..'' \<in> set (path_parts s)" if "search ''/../'' s = Some i" for s i
    using that up by (auto simp: sep_def dest: meta_spec)
qed

text \<open>
  What the standard says of \<open>weakly_canonical\<close>: the result is in normal form (a trailing separator of a name that does not exist is kept) and its own canonical form.
  The workspace is a directory, but not the root directory.
\<close>

definition workspace_ok :: "'d patch_env \<Rightarrow> string \<Rightarrow> bool" where
  "workspace_ok env root \<longleftrightarrow>
     bind_sum (patch_root env) (canonical env) = Inr root \<and> normal_path root \<and> pe_is_dir env root \<and>
     (\<forall>p t. is_absolute p \<longrightarrow> weakly_canonical (pe_fs env) p = Some t \<longrightarrow>
        weakly_canonical (pe_fs env) t = Some t \<and> (last t \<noteq> sep \<longrightarrow> normal_path t))"

lemma resolve_Inr:
  assumes "resolve_workspace_path env rel = Inr (Inr t)" "workspace_ok env root"
  shows "weakly_canonical (pe_fs env) (path_append root rel) = Some t" "t = root \<or> starts_with (root @ [sep]) t"
  using assms
  by (auto simp: resolve_workspace_path_def workspace_ok_def canonical_def bind_sum_Inr split: if_splits option.splits)

text \<open>The path that is recorded of a file leads to the file again.\<close>

lemma recorded_path:
  assumes "resolve_workspace_path env rel = Inr (Inr t)" "workspace_ok env root" "t \<noteq> root" "last t \<noteq> sep"
  shows "\<exists>rest. relative_display_path env t = Inr rest \<and> resolve_workspace_path env rest = Inr (Inr t)"
proof -
  have root: "normal_path root" using assms(2) by (simp add: workspace_ok_def)
  obtain project where project: "patch_root env = Inr project" "canonical env project = Inr root"
    using assms(2) by (auto simp: workspace_ok_def bind_sum_Inr)
  then have canon: "weakly_canonical (pe_fs env) project = Some root" by (auto simp: canonical_def split: option.splits)
  have abs: "is_absolute (path_append root rel)" using normal_absolute [OF root]
    by (cases root) (auto simp: path_append_def is_absolute_def)
  have t: "weakly_canonical (pe_fs env) t = Some t" "normal_path t"
    using assms(2,4) resolve_Inr(1) [OF assms(1,2)] abs by (auto simp: workspace_ok_def)
  obtain rest where rest: "t = root @ sep # rest"
  proof -
    have "take (length root + 1) t = root @ [sep]" using resolve_Inr(2) [OF assms(1,2)] assms(3) by (simp add: starts_with_def)
    then have "t = root @ sep # drop (length root + 1) t" using append_take_drop_id [of "length root + 1" t] by simp
    then show ?thesis by (rule that)
  qed
  obtain rs where rs: "path_parts root = [] # rs" "rs \<noteq> []" "plain_names rs" using root by (auto simp: normal_path_def split: list.splits)
  have parts: "path_parts t = [] # rs @ path_parts rest" using path_parts_sep [of root rest] by (simp add: rest rs(1))
  then have names: "plain_names (rs @ path_parts rest)" using t(2) by (simp add: normal_path_def)
  then have qs: "plain_names (path_parts rest)" by (simp add: plain_names_def)
  then have hd: "hd (path_parts rest) \<noteq> []" using path_parts_nonempty [of rest] by (cases "path_parts rest") (auto simp: plain_names_def)
  have "lexically_relative t root = rest"
    using parts names path_names_normal [OF parts] path_names_normal [OF rs] hd normal_absolute [OF root] normal_absolute [OF t(2)]
    by (simp add: lexically_relative_def drop_common_prefix steps_up_def join_path_parts)
  then have "relative_display_path env t = Inr rest" by (simp add: relative_display_path_def project t(1) canon)
  moreover have "resolve_workspace_path env rest = Inr (Inr t)"
  proof -
    have up: "''..'' \<notin> set (path_parts rest)" using qs by (auto simp: plain_names_def list_all_iff)
    have "rest \<noteq> []" "\<not> is_absolute rest" using hd by (cases rest; auto simp: is_absolute_def)+
    moreover have "rest \<noteq> ''..''" using up by (auto simp: sep_def)
    moreover have "\<not> starts_with ''../'' rest" "search ''/../'' rest = None"
      using up dotdot_parts(1) [of rest] dotdot_parts(2) [of rest] by (blast, cases "search ''/../'' rest") auto
    moreover have "path_append root rest = t" using normal_absolute [OF root] by (simp add: path_append_def rest)
    ultimately show ?thesis using up resolve_Inr(2) [OF assms(1,2)] t(1)
      by (auto simp: resolve_workspace_path_def project(1) canon canonical_def)
  qed
  ultimately show ?thesis by blast
qed

subsection \<open>Effects on the files\<close>

definition override :: "(string \<rightharpoonup> string) \<Rightarrow> (string \<times> string option) list \<Rightarrow> (string \<rightharpoonup> string)" where
  "override fs us = (\<lambda>p. case map_of us p of Some v \<Rightarrow> v | None \<Rightarrow> fs p)"

lemma override_override: "override (override fs us) vs = override fs (vs @ us)"
  by (auto simp: override_def map_add_def split: option.splits)

lemma override_Nil [simp]: "override fs [] = fs"
  by (simp add: override_def)

definition content_updates :: "string \<Rightarrow> string option \<Rightarrow> (string \<times> string option) list" where
  "content_updates p c = (case c of None \<Rightarrow> [(p, None)] | Some s \<Rightarrow> [(p, Some s), (tmp_path p, None)])"

definition after_write :: "pending_write \<Rightarrow> string option" where
  "after_write w = (if fp_kind (pw_patch w) = FRemove then None else Some (pw_after_content w))"

definition before_change :: "changed_file \<Rightarrow> string option" where
  "before_change f = (if cf_existed_before f then Some (cf_before_content f) else None)"

lemma write_ok:
  "write_file_atomic env p c st = (None, st1) \<Longrightarrow> st1 = st\<lparr>disk_files := override (disk_files st) (content_updates p (Some c))\<rparr>"
  "pe_write env p = None \<Longrightarrow>
     write_file_atomic env p c st = (None, st\<lparr>disk_files := override (disk_files st) (content_updates p (Some c))\<rparr>)"
  by (auto simp: write_file_atomic_def override_def content_updates_def fun_eq_iff split: option.splits write_failure.splits)

lemma remove_ok:
  "remove_file env p st = (None, st1) \<Longrightarrow> st1 = st\<lparr>disk_files := override (disk_files st) (content_updates p None)\<rparr>"
  "pe_remove env p = None \<Longrightarrow>
     remove_file env p st = (None, st\<lparr>disk_files := override (disk_files st) (content_updates p None)\<rparr>)"
  by (auto simp: remove_file_def override_def content_updates_def fun_eq_iff split: option.splits)

lemma write_pending_ok:
  "write_pending env w st = (None, st1) \<Longrightarrow>
   st1 = st\<lparr>disk_files := override (disk_files st) (content_updates (pw_path w) (after_write w))\<rparr>"
  by (auto simp: write_pending_def after_write_def dest: write_ok remove_ok split: if_splits)

text \<open>All updates of a list of contents, the latest first.\<close>

definition all_updates :: "(string \<times> string option) list \<Rightarrow> (string \<times> string option) list" where
  "all_updates cs = concat (rev (map (\<lambda>(p, c). content_updates p c) cs))"

lemma all_updates_Cons: "all_updates ((p, c) # cs) = all_updates cs @ content_updates p c"
  by (simp add: all_updates_def)

lemma write_files_ok:
  "write_files env ws st = Inr (Inr fs, st1) \<Longrightarrow>
   st1 = st\<lparr>disk_files := override (disk_files st) (all_updates (map (\<lambda>w. (pw_path w, after_write w)) ws))\<rparr> \<and>
   list_all2 (\<lambda>w f. changed_file_of env w = Inr f) ws fs"
proof (induction ws arbitrary: st fs)
  case (Cons w ws)
  obtain e st' where e: "write_pending env w st = (e, st')" by fastforce
  with Cons.prems obtain f gs where tail: "e = None" "changed_file_of env w = Inr f" "write_files env ws st' = Inr (Inr gs, st1)" "fs = f # gs"
    by (auto simp: bind_sum_Inr split: option.splits) (auto split: sum.splits)
  then have "st' = st\<lparr>disk_files := override (disk_files st) (content_updates (pw_path w) (after_write w))\<rparr>"
    using e write_pending_ok by simp
  with Cons.IH [OF tail(3)] tail show ?case by (simp add: all_updates_Cons override_override)
qed (simp add: all_updates_def)

definition footprint :: "string list \<Rightarrow> string list" where
  "footprint ts = concat (map (\<lambda>t. [t, tmp_path t]) ts)"

lemma set_all_updates: "(p, v) \<in> set (all_updates cs) \<longleftrightarrow> (\<exists>(q, c) \<in> set cs. (p, v) \<in> set (content_updates q c))"
  by (auto simp: all_updates_def)

lemma own_update: "(p, c) \<in> set cs \<Longrightarrow> (p, c) \<in> set (all_updates cs)"
  by (force simp: set_all_updates content_updates_def split: option.splits)

lemma keys_all_updates: "p \<in> fst ` set (all_updates cs) \<Longrightarrow> p \<in> set (footprint (map fst cs))"
  by (force simp: set_all_updates footprint_def content_updates_def split: option.splits)

lemma distinct_updates: "distinct (footprint (map fst cs)) \<Longrightarrow> distinct (map fst (all_updates cs))"
proof (induction cs)
  case (Cons pc cs)
  obtain p c where pc: "pc = (p, c)" by (cases pc)
  have "distinct (map fst (content_updates p c))" by (simp add: content_updates_def split: option.splits)
  moreover have "fst ` set (content_updates p c) \<inter> fst ` set (all_updates cs) = {}"
    using Cons.prems keys_all_updates [of _ cs] by (auto simp: pc footprint_def content_updates_def split: option.splits)
  moreover have "distinct (map fst (all_updates cs))" using Cons by (simp add: footprint_def)
  ultimately show ?case by (auto simp: pc all_updates_Cons)
qed (simp add: all_updates_def)

lemma override_at:
  assumes "distinct (footprint (map fst cs))" "(p, c) \<in> set cs"
  shows "override fs (all_updates cs) p = c"
proof -
  have "map_of (all_updates cs) p = Some c" using own_update [OF assms(2)] distinct_updates [OF assms(1)] by simp
  then show ?thesis by (simp add: override_def)
qed

text \<open>Writing back what was there before undoes every write.\<close>

lemma override_undo:
  assumes "map fst cs = map fst bs" "\<And>p c. (p, c) \<in> set bs \<Longrightarrow> c = fs p" "\<And>p. p \<in> fst ` set bs \<Longrightarrow> fs (tmp_path p) = None"
  shows "override (override fs (all_updates cs)) (all_updates bs) = fs"
proof
  fix p
  have bs: "v = fs p" if "map_of (all_updates bs) p = Some v" for v
    using map_of_SomeD [OF that] assms(2,3) by (force simp: set_all_updates content_updates_def split: option.splits)
  have cs: "v = fs p" if none: "map_of (all_updates bs) p = None" and some: "map_of (all_updates cs) p = Some v" for v
  proof -
    obtain q c where q: "(q, c) \<in> set cs" "(p, v) \<in> set (content_updates q c)"
      using map_of_SomeD [OF some] by (auto simp: set_all_updates)
    then have "q \<in> fst ` set bs" using assms(1) by (metis fst_conv image_eqI image_set)
    moreover have "p \<notin> fst ` set (all_updates bs)" using none by (simp add: map_of_eq_None_iff)
    then have "p \<notin> fst ` set bs" using own_update by fastforce
    ultimately show ?thesis using q(2) assms(3) [of q] by (auto simp: content_updates_def split: option.splits)
  qed
  show "override (override fs (all_updates cs)) (all_updates bs) p = fs p"
    using bs cs by (auto simp: override_def split: option.splits)
qed

subsection \<open>What a successful application does\<close>

lemma bind_case_Inr:
  "bind_sum x (case_sum f g) = Inr b \<longleftrightarrow> (\<exists>e. x = Inr (Inl e) \<and> f e = Inr b) \<or> (\<exists>w. x = Inr (Inr w) \<and> g w = Inr b)"
  "bind_sum x (\<lambda>r. Inr (case_sum f' g' r)) = Inr c \<longleftrightarrow> (\<exists>e. x = Inr (Inl e) \<and> f' e = c) \<or> (\<exists>w. x = Inr (Inr w) \<and> g' w = c)"
  by (cases x; auto split: sum.splits)+

definition apply_targets :: "'d patch_env \<Rightarrow> disk \<Rightarrow> string \<Rightarrow> string list" where
  "apply_targets env st unified_diff =
     (case bind_sum (parse_unified_diff unified_diff) (\<lambda>p. prepare_files env st (pp_files p)) of
        Inr (Inr ws) \<Rightarrow> map pw_path ws | _ \<Rightarrow> [])"

lemma prepare_file_Inr:
  assumes "prepare_file env st f = Inr (Inr w)"
  shows "resolve_workspace_path env (rel_path f) = Inr (Inr (pw_path w))" "pw_patch w = f"
    "pw_existed_before w = file_exists env st (pw_path w)"
    "pw_before_content w = (if file_exists env st (pw_path w) then read_file env st (pw_path w) else [])"
  using assms by (auto simp: prepare_file_def bind_case_Inr Let_def split: if_splits)

lemma prepare_files_Inr: "prepare_files env st fs = Inr (Inr ws) \<Longrightarrow> list_all2 (\<lambda>f w. prepare_file env st f = Inr (Inr w)) fs ws"
proof (induction fs arbitrary: ws)
  case (Cons f fs)
  then obtain w vs where "prepare_file env st f = Inr (Inr w)" "prepare_files env st fs = Inr (Inr vs)" "ws = w # vs"
    by (auto simp: bind_case_Inr)
  then show ?case using Cons.IH by simp
qed simp

lemma apply_success:
  assumes "apply_patch env d descr st = Inr (Inr res, st1)"
  obtains p ws r st' where "parse_unified_diff d = Inr p" "prepare_files env st (pp_files p) = Inr (Inr ws)"
    "write_files env ws st = Inr (Inr (ar_files res), st')" "store_save env r st' = Inr (None, st1)"
    "cr_files r = ar_files res" "cr_change_id r = ar_change_id res" "cr_patch r = p" "\<not> cr_reverted r"
    "apply_targets env st d = map pw_path ws"
proof -
  obtain p where p: "parse_unified_diff d = Inr p" "pp_success p" using assms by (auto simp: apply_patch_def bind_sum_Inr split: if_splits)
  obtain ws where ws: "prepare_files env st (pp_files p) = Inr (Inr ws)"
    using assms p by (auto simp: apply_patch_def bind_case_Inr)
  obtain r1 st' where r1: "write_files env ws st = Inr (r1, st')"
    using assms p ws by (auto simp: apply_patch_def bind_sum_Inr)
  with assms p ws obtain fs where fs: "r1 = Inr fs" by (cases r1) (auto simp: apply_patch_def)
  let ?r = "\<lparr>cr_change_id = ''chg_'' @ decimal (pe_now_ms env), cr_session_id = pe_session env, cr_description = descr,
    cr_created_at = pe_now_text env, cr_files = fs, cr_reverted = False, cr_reverted_at = [], cr_patch = p\<rparr>"
  obtain e st2 where e: "store_save env ?r st' = Inr (e, st2)" using assms p ws r1 fs by (auto simp: apply_patch_def bind_sum_Inr Let_def)
  with assms p ws r1 fs have "e = None" "st2 = st1" "ar_files res = fs" "ar_change_id res = ''chg_'' @ decimal (pe_now_ms env)"
    by (auto simp: apply_patch_def Let_def split: option.splits)
  then show thesis using p ws r1 fs e by (intro that [of p ws st' ?r]) (simp_all add: apply_targets_def)
qed

definition target_ok :: "'d patch_env \<Rightarrow> disk \<Rightarrow> string \<Rightarrow> bool" where
  "target_ok env st t \<longleftrightarrow> \<not> pe_is_dir env t \<and> \<not> pe_unreadable env t \<and> last t \<noteq> sep \<and> disk_files st (tmp_path t) = None"

lemma prepared_before:
  assumes "prepare_file env st f = Inr (Inr w)" "target_ok env st (pw_path w)" "changed_file_of env w = Inr g"
  shows "before_change g = disk_files st (pw_path w)"
  using assms(2,3) prepare_file_Inr [OF assms(1)]
  by (auto simp: changed_file_of_def bind_sum_Inr before_change_def target_ok_def file_exists_def read_file_def Let_def)

lemma recorded_file:
  assumes "prepare_file env st f = Inr (Inr w)" "workspace_ok env root" "target_ok env st (pw_path w)"
  shows "\<exists>g. changed_file_of env w = Inr g \<and> resolve_workspace_path env (cf_path g) = Inr (Inr (pw_path w))"
proof -
  have "pw_path w \<noteq> root" "last (pw_path w) \<noteq> sep" using assms(2,3) by (auto simp: workspace_ok_def target_ok_def)
  then obtain rest where "relative_display_path env (pw_path w) = Inr rest" "resolve_workspace_path env rest = Inr (Inr (pw_path w))"
    using recorded_path [OF prepare_file_Inr(1) [OF assms(1)] assms(2)] by blast
  then show ?thesis by (simp add: changed_file_of_def Let_def)
qed

subsection \<open>Reverting\<close>

definition same_workspace :: "'d patch_env \<Rightarrow> 'd patch_env \<Rightarrow> bool" where
  "same_workspace env env' \<longleftrightarrow> pe_fs env' = pe_fs env \<and> pe_project env' = pe_project env \<and> pe_hash env' = pe_hash env \<and>
     pe_is_dir env' = pe_is_dir env \<and> pe_unreadable env' = pe_unreadable env"

lemma same_workspace_resolve: "same_workspace env env' \<Longrightarrow> resolve_workspace_path env' p = resolve_workspace_path env p"
  by (simp add: same_workspace_def resolve_workspace_path_def patch_root_def canonical_def)

lemma check_revert_ok:
  "list_all (\<lambda>f. \<exists>t. resolve_workspace_path env (cf_path f) = Inr (Inr t) \<and> current_hash env st t = cf_after_hash f) fs \<Longrightarrow>
   check_revert env False st fs = Inr None"
  by (induction fs) auto

lemma revert_files_ok:
  "list_all2 (\<lambda>f t. resolve_workspace_path env (cf_path f) = Inr (Inr t) \<and> pe_write env t = None \<and> pe_remove env t = None) fs ts \<Longrightarrow>
   revert_files env fs st =
     Inr (Inr (map cf_path fs), st\<lparr>disk_files := override (disk_files st) (all_updates (zip ts (map before_change fs)))\<rparr>)"
proof (induction fs ts arbitrary: st rule: list_all2_induct)
  case (Cons f fs t ts)
  then have "revert_file env f st = Inr (None, st\<lparr>disk_files := override (disk_files st) (content_updates t (before_change f))\<rparr>)"
    by (simp add: revert_file_def before_change_def write_ok(2) remove_ok(2))
  then show ?case using Cons by (simp add: all_updates_Cons override_override)
qed (simp add: all_updates_def)

lemma sanitize_hash: "sanitize (hash_content env c) = hash_content env c"
proof -
  have "byte (''0123456789abcdef'' ! k) < 128" if "k < 16" for k
  proof -
    have "\<forall>k \<in> set [0..<16]. byte (''0123456789abcdef'' ! k) < 128" by code_simp
    then show ?thesis using that by simp
  qed
  then have "list_all (\<lambda>c. byte c < 128) (hex_lower n)" for n
    by (induction n rule: hex_lower.induct) (subst hex_lower.simps, simp)
  then show ?thesis by (simp add: hash_content_def sanitize_ascii)
qed

text \<open>The hash of a file that was written is the one that was recorded.\<close>

lemma written_hash:
  assumes "same_workspace env env'" "target_ok env st (pw_path w)" "changed_file_of env w = Inr g"
    and "disk_files st' (pw_path w) = after_write w"
  shows "current_hash env' st' (pw_path w) = cf_after_hash g" "sanitize (cf_after_hash g) = cf_after_hash g"
  using assms sanitize_hash
  by (auto simp: changed_file_of_def bind_sum_Inr current_hash_def file_exists_def read_file_def same_workspace_def target_ok_def
      after_write_def hash_content_def Let_def)

lemma utf8_change:
  assumes "sanitize (cf_path f) = cf_path f" "sanitize (cf_before_content f) = cf_before_content f" "sanitize (cf_after_hash f) = cf_after_hash f"
  shows "cf_path (san_changed f) = cf_path f" "cf_after_hash (san_changed f) = cf_after_hash f" "before_change (san_changed f) = before_change f"
  using assms by (simp_all add: san_changed_def before_change_def)

text \<open>
  What is known of a file that was written and its record \<open>g\<close>: the record leads to the file again, and tells what it was before.
\<close>

definition recorded :: "'d patch_env \<Rightarrow> disk \<Rightarrow> pending_write \<Rightarrow> changed_file \<Rightarrow> bool" where
  "recorded env st w g \<longleftrightarrow> changed_file_of env w = Inr g \<and> resolve_workspace_path env (cf_path g) = Inr (Inr (pw_path w)) \<and>
     before_change g = disk_files st (pw_path w)"

lemma write_files_recorded:
  assumes "prepare_files env st fs = Inr (Inr ws)" "workspace_ok env root" "list_all (target_ok env st) (map pw_path ws)"
    and "list_all2 (\<lambda>w g. changed_file_of env w = Inr g) ws gs"
  shows "list_all2 (recorded env st) ws gs"
proof (rule list_all2_all_nthI)
  fix i assume i: "i < length ws"
  obtain f where f: "prepare_file env st f = Inr (Inr (ws ! i))"
    using prepare_files_Inr [OF assms(1)] i by (auto simp: list_all2_conv_all_nth)
  have ok: "target_ok env st (pw_path (ws ! i))" using assms(3) i by (simp add: list_all_length)
  have g: "changed_file_of env (ws ! i) = Inr (gs ! i)" using assms(4) i by (simp add: list_all2_conv_all_nth)
  show "recorded env st (ws ! i) (gs ! i)"
    using recorded_file [OF f assms(2) ok] prepared_before [OF f ok g] g by (simp add: recorded_def)
qed (use assms(4) in \<open>simp add: list_all2_lengthD\<close>)

text \<open>The steps of a revert whose record says of every file what it was and what was written.\<close>

lemma revert_recorded:
  assumes "list_all2 (recorded env st) ws gs" "same_workspace env env'" "list_all (target_ok env st) (map pw_path ws)"
    and "list_all (\<lambda>t. pe_write env' t = None \<and> pe_remove env' t = None) (map pw_path ws)" "distinct (footprint (map pw_path ws))"
    and "list_all (\<lambda>f. sanitize (cf_path f) = cf_path f \<and> sanitize (cf_before_content f) = cf_before_content f) gs"
    and "disk_files st' = override (disk_files st) (all_updates (map (\<lambda>w. (pw_path w, after_write w)) ws))"
  shows "check_revert env' False st' (map san_changed gs) = Inr None"
    and "\<exists>ps st2. revert_files env' (map san_changed gs) st' = Inr (Inr ps, st2) \<and> disk_files st2 = disk_files st"
proof -
  let ?cs = "map (\<lambda>w. (pw_path w, after_write w)) ws" and ?bs = "map (\<lambda>w. (pw_path w, disk_files st (pw_path w))) ws"
  have step: "recorded env st (ws ! i) (gs ! i)" "target_ok env st (pw_path (ws ! i))" if "i < length ws" for i
    using assms(1,3) that by (simp_all add: list_all2_conv_all_nth list_all_length)
  have len: "length gs = length ws" using assms(1) by (simp add: list_all2_lengthD)
  have hash: "current_hash env' st' (pw_path (ws ! i)) = cf_after_hash (gs ! i)" "sanitize (cf_after_hash (gs ! i)) = cf_after_hash (gs ! i)"
    if i: "i < length ws" for i
  proof -
    have "disk_files st' (pw_path (ws ! i)) = after_write (ws ! i)"
      unfolding assms(7) by (rule override_at) (use assms(5) i in \<open>auto simp: comp_def\<close>)
    then show "current_hash env' st' (pw_path (ws ! i)) = cf_after_hash (gs ! i)" "sanitize (cf_after_hash (gs ! i)) = cf_after_hash (gs ! i)"
      using written_hash [OF assms(2) step(2) [OF i]] step(1) [OF i] by (auto simp: recorded_def)
  qed
  have same: "cf_path (san_changed (gs ! i)) = cf_path (gs ! i)" "cf_after_hash (san_changed (gs ! i)) = cf_after_hash (gs ! i)"
    "before_change (san_changed (gs ! i)) = before_change (gs ! i)" if "i < length ws" for i
    using utf8_change [of "gs ! i"] assms(6) hash(2) [OF that] that by (auto simp: list_all_length len)
  have resolve: "resolve_workspace_path env' (cf_path (gs ! i)) = Inr (Inr (pw_path (ws ! i)))" if "i < length ws" for i
    using step(1) [OF that] same_workspace_resolve [OF assms(2)] by (simp add: recorded_def)
  show "check_revert env' False st' (map san_changed gs) = Inr None"
    by (rule check_revert_ok) (auto simp: list_all_length len same resolve hash)
  have bs: "zip (map pw_path ws) (map before_change (map san_changed gs)) = ?bs"
    using step(1) same(3) by (intro nth_equalityI) (auto simp: len recorded_def)
  have "list_all2 (\<lambda>f t. resolve_workspace_path env' (cf_path f) = Inr (Inr t) \<and> pe_write env' t = None \<and> pe_remove env' t = None)
      (map san_changed gs) (map pw_path ws)"
    using assms(4) by (simp add: list_all2_conv_all_nth list_all_length len same resolve)
  note revert = revert_files_ok [OF this, of st', unfolded bs]
  have "override (disk_files st') (all_updates ?bs) = disk_files st"
    unfolding assms(7) using assms(3) by (intro override_undo) (auto simp: target_ok_def list_all_iff)
  then show "\<exists>ps st2. revert_files env' (map san_changed gs) st' = Inr (Inr ps, st2) \<and> disk_files st2 = disk_files st"
    unfolding revert by simp
qed


subsection \<open>Applying the diff of edits\<close>

text \<open>An edit of a file, its patch, and what it leaves of the file.\<close>

record file_edit =
  fe_kind :: file_change_kind
  fe_path :: string
  fe_edit :: edit
  fe_tail :: "string list"

definition edit_patch :: "file_edit \<Rightarrow> file_patch" where
  "edit_patch x = \<lparr>fp_kind = fe_kind x, fp_old_path = (if fe_kind x = FAdd then [] else fe_path x),
     fp_new_path = (if fe_kind x = FRemove then [] else fe_path x), fp_hunks = hunks_of 0 0 (fe_edit x),
     fp_additions = count_file LAdd (hunks_of 0 0 (fe_edit x)), fp_deletions = count_file LRemove (hunks_of 0 0 (fe_edit x))\<rparr>"

definition edit_result :: "file_edit \<Rightarrow> string option" where
  "edit_result x = (if fe_kind x = FRemove then None else Some (join_lines (after_edit (fe_edit x) (fe_tail x))))"

definition edit_ready :: "'d patch_env \<Rightarrow> disk \<Rightarrow> file_edit \<Rightarrow> string \<Rightarrow> bool" where
  "edit_ready env st x t \<longleftrightarrow> resolve_workspace_path env (fe_path x) = Inr (Inr t) \<and> edit_ok (fe_edit x) \<and>
     length (before_edit (fe_edit x) (fe_tail x)) < 2 ^ 31 \<and> length (after_edit (fe_edit x) (fe_tail x)) < 2 ^ 31 \<and>
     (if fe_kind x = FAdd then \<not> file_exists env st t \<and> before_edit (fe_edit x) (fe_tail x) = []
      else disk_files st t \<noteq> None \<and> split_lines (read_file env st t) = before_edit (fe_edit x) (fe_tail x))"

definition edit_pending :: "'d patch_env \<Rightarrow> disk \<Rightarrow> file_edit \<Rightarrow> string \<Rightarrow> pending_write" where
  "edit_pending env st x t =
     \<lparr>pw_path = t, pw_patch = edit_patch x, pw_existed_before = file_exists env st t,
      pw_before_content = (if file_exists env st t then read_file env st t else []),
      pw_after_content = join_lines (after_edit (fe_edit x) (fe_tail x))\<rparr>"

lemma prepare_edit:
  assumes "edit_ready env st x t"
  shows "prepare_file env st (edit_patch x) = Inr (Inr (edit_pending env st x t))"
proof -
  have "rel_path (edit_patch x) = fe_path x" by (simp add: rel_path_def edit_patch_def)
  moreover have "split_lines (if file_exists env st t then read_file env st t else []) = before_edit (fe_edit x) (fe_tail x)"
    using assms by (auto simp: edit_ready_def file_exists_def split: if_splits)
  moreover have "apply_file_patch (edit_patch x) (before_edit (fe_edit x) (fe_tail x)) = Inr (Inr (after_edit (fe_edit x) (fe_tail x)))"
    using assms by (simp add: apply_file_patch_def edit_patch_def edit_ready_def apply_edit)
  moreover have "fp_kind (edit_patch x) = FAdd \<or> file_exists env st t"
    using assms by (auto simp: edit_ready_def edit_patch_def file_exists_def split: if_splits)
  ultimately show ?thesis using assms
    by (auto simp: prepare_file_def edit_ready_def edit_pending_def Let_def)
qed

lemma prepare_edits:
  "list_all2 (edit_ready env st) xs ts \<Longrightarrow>
   prepare_files env st (map edit_patch xs) = Inr (Inr (map2 (edit_pending env st) xs ts))"
  by (induction xs ts rule: list_all2_induct) (simp_all add: prepare_edit)

lemma write_files_succeeds:
  "patch_root env = Inr q \<Longrightarrow> list_all (\<lambda>w. pe_write env (pw_path w) = None \<and> pe_remove env (pw_path w) = None) ws \<Longrightarrow>
   \<exists>gs st1. write_files env ws st = Inr (Inr gs, st1)"
proof (induction ws arbitrary: st)
  case (Cons w ws)
  obtain st1 where "write_pending env w st = (None, st1)"
    using Cons.prems write_ok(2) [of env "pw_path w"] remove_ok(2) [of env "pw_path w"]
    by (cases "fp_kind (pw_patch w) = FRemove") (auto simp: write_pending_def)
  moreover obtain g where "changed_file_of env w = Inr g"
    using Cons.prems by (simp add: changed_file_of_def relative_display_path_def Let_def)
  ultimately show ?case using Cons.IH [of st1] Cons.prems by fastforce
qed simp

lemma edit_pending_fields: "pw_path (edit_pending env st x t) = t" "after_write (edit_pending env st x t) = edit_result x"
  by (simp_all add: edit_pending_def after_write_def edit_result_def edit_patch_def)

lemma override_outside:
  assumes "p \<notin> set (footprint (map fst cs))"
  shows "override fs (all_updates cs) p = fs p"
proof -
  have "map_of (all_updates cs) p = None" using keys_all_updates [of p cs] assms by (auto simp: map_of_eq_None_iff)
  then show ?thesis by (simp add: override_def)
qed

lemma apply_edits:
  assumes "patch_ok (map edit_patch xs)" "list_all2 (edit_ready env st) xs ts"
    and "list_all (\<lambda>t. pe_write env t = None \<and> pe_remove env t = None) ts" "pe_save env = None"
  shows "\<exists>res st1. apply_patch env (diff_text (map edit_patch xs)) descr st = Inr (Inr res, st1) \<and>
    disk_files st1 = override (disk_files st) (all_updates (zip ts (map edit_result xs))) \<and>
    list_all2 (\<lambda>w g. changed_file_of env w = Inr g) (map2 (edit_pending env st) xs ts) (ar_files res) \<and>
    apply_targets env st (diff_text (map edit_patch xs)) = ts"
proof -
  let ?ws = "map2 (edit_pending env st) xs ts"
  have len: "length xs = length ts" using assms(2) by (rule list_all2_lengthD)
  have paths: "map (\<lambda>w. (pw_path w, after_write w)) ?ws = zip ts (map edit_result xs)" "map pw_path ?ws = ts"
    using len by (intro nth_equalityI; simp add: edit_pending_fields)+
  have "xs \<noteq> []" using assms(1) by (auto simp: patch_ok_def)
  then obtain x t where "edit_ready env st x t" using assms(2) by (cases xs; cases ts) auto
  then obtain q where "patch_root env = Inr q"
    by (auto simp: edit_ready_def resolve_workspace_path_def bind_sum_Inr split: if_splits)
  moreover have "list_all (\<lambda>w. pe_write env (pw_path w) = None \<and> pe_remove env (pw_path w) = None) ?ws"
    using assms(3) len by (simp add: list_all_length edit_pending_fields)
  ultimately obtain gs st1 where wr: "write_files env ?ws st = Inr (Inr gs, st1)" using write_files_succeeds by blast
  note written = write_files_ok [OF wr]
  have parsed: "parse_unified_diff (diff_text (map edit_patch xs)) =
      Inr ((preview_of (map edit_patch xs))\<lparr>pp_success := True, pp_can_apply := True\<rparr>)" (is "_ = Inr ?p")
    by (rule parse_diff_text [OF assms(1)])
  let ?r = "\<lparr>cr_change_id = ''chg_'' @ decimal (pe_now_ms env), cr_session_id = pe_session env, cr_description = descr,
    cr_created_at = pe_now_text env, cr_files = gs, cr_reverted = False, cr_reverted_at = [], cr_patch = ?p\<rparr>"
  have "preview_fits (cr_patch ?r)" using parse_fits [OF parsed] by simp
  then obtain s where save: "store_save env ?r st1 = Inr (None, st1\<lparr>disk_changes := (disk_changes st1)(cr_change_id ?r \<mapsto> s)\<rparr>)"
    using store_roundtrip [OF _ assms(4), of ?r st1] by blast
  let ?st2 = "st1\<lparr>disk_changes := (disk_changes st1)(cr_change_id ?r \<mapsto> s)\<rparr>"
  obtain res where "apply_patch env (diff_text (map edit_patch xs)) descr st = Inr (Inr res, ?st2)" "ar_files res = gs"
    using parsed prepare_edits [OF assms(2)] wr save by (simp add: apply_patch_def preview_of_def Let_def)
  moreover have "apply_targets env st (diff_text (map edit_patch xs)) = ts"
    using parsed prepare_edits [OF assms(2)] paths(2) by (simp add: apply_targets_def preview_of_def)
  ultimately show ?thesis using written paths(1) by (intro exI [of _ res] exI [of _ ?st2]) simp
qed


subsection \<open>Only files of the workspace\<close>

lemma write_pending_frame:
  "write_pending env w st = (e, st1) \<Longrightarrow> disk_changes st1 = disk_changes st \<and>
   (\<forall>p. disk_files st1 p \<noteq> disk_files st p \<longrightarrow> p = pw_path w \<or> p = tmp_path (pw_path w))"
  by (auto simp: write_pending_def remove_file_def write_file_atomic_def split: if_splits option.splits write_failure.splits)

lemma write_files_frame:
  "write_files env ws st = Inr (r, st1) \<Longrightarrow> (\<forall>e. r = Inl e \<longrightarrow> ae_code e = ''write_failed'') \<and>
   (\<forall>p. disk_files st1 p \<noteq> disk_files st p \<longrightarrow> (\<exists>w \<in> set ws. p = pw_path w \<or> p = tmp_path (pw_path w)))"
proof (induction ws arbitrary: st r)
  case (Cons w ws)
  obtain e st' where e: "write_pending env w st = (e, st')" by fastforce
  note frame = write_pending_frame [OF e]
  show ?case
  proof (cases e)
    case None
    then obtain r1 where "write_files env ws st' = Inr (r1, st1)" "\<forall>e. r = Inl e \<longrightarrow> r1 = Inl e"
      using Cons.prems e by (auto simp: bind_sum_Inr) (auto split: sum.splits)
    then show ?thesis using Cons.IH [of st' r1] frame by (metis list.set_intros)
  next
    case (Some m)
    then show ?thesis using Cons.prems e frame by (auto simp: app_error_def)
  qed
qed simp

subsection \<open>An example\<close>

definition demo_canonical :: "string \<Rightarrow> string option" where
  "demo_canonical p = (if normal_path p then Some p else None)"

definition demo_patch_env :: "unit patch_env" where
  "demo_patch_env =
     \<lparr>pe_fs = \<lparr>weakly_canonical = demo_canonical, current_path = None\<rparr>, pe_project = ''/w'', pe_session = ''s'', pe_hash = length, pe_now_ms = 7,
      pe_now_text = ''now'', pe_is_dir = (\<lambda>p. p = ''/w''), pe_unreadable = (\<lambda>p. False), pe_write = (\<lambda>p. None), pe_remove = (\<lambda>p. None),
      pe_save = None, pe_fmt = (\<lambda>d. []), pe_strtod = (\<lambda>s. None), pe_d2i = (\<lambda>d. None)\<rparr>"

definition demo_disk :: disk where
  "demo_disk = \<lparr>disk_files = [''/w/f'' \<mapsto> ''a'' @ [NL] @ ''b'' @ [NL]], disk_changes = (\<lambda>c. None)\<rparr>"

definition demo_edits :: "file_edit list" where
  "demo_edits =
     [\<lparr>fe_kind = FModify, fe_path = ''f'', fe_edit = [([''a''], [\<lparr>dl_kind = LRemove, dl_text = ''b''\<rparr>, \<lparr>dl_kind = LAdd, dl_text = ''c''\<rparr>])], fe_tail = []\<rparr>,
      \<lparr>fe_kind = FAdd, fe_path = ''g'', fe_edit = [([], [\<lparr>dl_kind = LAdd, dl_text = ''x''\<rparr>])], fe_tail = []\<rparr>]"

lemma demo_workspace: "workspace_ok demo_patch_env ''/w''"
  by (auto simp: workspace_ok_def demo_patch_env_def demo_canonical_def patch_root_def canonical_def normal_path_def sep_def plain_names_def)

lemma demo_patch_ok: "patch_ok (map edit_patch demo_edits)"
  by (simp add: patch_ok_def demo_edits_def edit_patch_def file_ok_def path_ok_def hunk_ok_def number_ok_def line_ok_def change_kind_def side_start_def)

lemma demo_resolve:
  "resolve_workspace_path demo_patch_env ''f'' = Inr (Inr ''/w/f'')" "resolve_workspace_path demo_patch_env ''g'' = Inr (Inr ''/w/g'')"
  by code_simp+

lemma demo_lines: "split_lines (''a'' @ [NL] @ ''b'' @ [NL]) = [''a'', ''b'']"
  by code_simp

lemma demo_files: "pe_is_dir demo_patch_env p = (p = ''/w'')" "\<not> pe_unreadable demo_patch_env p"
  by (simp_all add: demo_patch_env_def)

lemma demo_ready: "list_all2 (edit_ready demo_patch_env demo_disk) demo_edits [''/w/f'', ''/w/g'']"
  using demo_lines
  by (simp add: demo_edits_def edit_ready_def demo_resolve edit_ok_def file_exists_def read_file_def demo_disk_def demo_files)

lemma demo_operations:
  "list_all (\<lambda>t. pe_write demo_patch_env t = None \<and> pe_remove demo_patch_env t = None) [''/w/f'', ''/w/g'']" "pe_save demo_patch_env = None"
  "distinct (footprint [''/w/f'', ''/w/g''])"
  by (simp_all add: demo_patch_env_def footprint_def)

lemmas demo_apply = apply_edits [OF demo_patch_ok demo_ready demo_operations(1,2)]




end
