(* ===== verification/Failover.thy ===== *)
theory Failover
  imports Cooldown StdMap
begin

text \<open>
  The failover of the provider client (\<open>llm/provider_client.hpp\<close>, the request functions of \<open>provider_client.cpp\<close>): the list of the models to try, over the model of the cooldown
  tracker, and the loop that tries them. The answer of a model is a parameter, a function of the attempt and the candidate, and so are the
  clock at every attempt and check and whether the caller has cancelled. Of the settings, the members that a fallback replaces are modelled,
  and the others together by \<open>'r\<close>; a \<open>double\<close> is \<open>'f\<close>. Logging and the statistics are left out.
\<close>

datatype provider = OpenAi | Anthropic

record ('f, 'r) settings =
  s_provider :: provider
  s_api_key :: string
  s_base_url :: string
  s_api_url :: string
  s_model :: string
  s_max_tokens :: int
  s_temperature :: 'f
  s_context_length :: int
  s_headers :: "(string \<times> string) list"
  s_anthropic_api_version :: string
  s_reasoning :: bool
  s_display_name :: string
  s_config_provider_name :: string
  s_others :: 'r

record ('f, 'r) client =
  cl_settings :: "('f, 'r) settings"
  cl_fallback_models :: "string list"
  cl_resolved_fallbacks :: "(string \<times> ('f, 'r) settings) list"

record ('f, 'r) candidate =
  ca_key :: string
  ca_settings :: "('f, 'r) settings"
  ca_is_primary :: bool

definition apply_llm_fields_to :: "('f, 'r) settings \<Rightarrow> ('f, 'r) settings \<Rightarrow> ('f, 'r) settings" where
  "apply_llm_fields_to s target = s\<lparr>s_others := s_others target\<rparr>"

text \<open>The constructor enables the failover when there are fallbacks.\<close>

definition failover_enabled :: "('f, 'r) client \<Rightarrow> bool" where
  "failover_enabled cl \<longleftrightarrow> cl_fallback_models cl \<noteq> []"

definition primary_key :: "('f, 'r) client \<Rightarrow> string" where
  "primary_key cl = s_config_provider_name (cl_settings cl) @ '':'' @ s_display_name (cl_settings cl)"

text \<open>The fallbacks that are not cooling down; \<open>clock i\<close> is the time of the \<open>i\<close>-th check.\<close>

fun usable_fallbacks :: "(string \<Rightarrow> nat) \<Rightarrow> (nat \<Rightarrow> int) \<Rightarrow> tracker \<Rightarrow> nat \<Rightarrow> string list \<Rightarrow> string list" where
  "usable_fallbacks h clock tr i [] = []"
| "usable_fallbacks h clock tr i (fb # fbs) =
     (if is_in_cooldown h (clock i) tr fb then [] else [fb]) @ usable_fallbacks h clock tr (i + 1) fbs"

definition candidate_keys ::
  "(string \<Rightarrow> nat) \<Rightarrow> (nat \<Rightarrow> int) \<Rightarrow> ('f, 'r) client \<Rightarrow> tracker \<Rightarrow> string \<Rightarrow> string list" where
  "candidate_keys h clock cl tr model_override =
     [if model_override \<noteq> [] then model_override else primary_key cl] @
     (if model_override \<noteq> [] \<and> model_override \<noteq> primary_key cl then [primary_key cl] else []) @
     (if failover_enabled cl then usable_fallbacks h clock tr 0 (cl_fallback_models cl) else [])"

definition make_candidate :: "('f, 'r) client \<Rightarrow> string \<Rightarrow> string \<Rightarrow> ('f, 'r) candidate list" where
  "make_candidate cl model_override key =
     (let base = cl_settings cl; is_primary = (key = primary_key cl);
          c = \<lparr>ca_key = key, ca_settings = base, ca_is_primary = is_primary\<rparr>
      in if is_primary then [c]
         else case map_of (cl_resolved_fallbacks cl) key of
             Some s \<Rightarrow> [c\<lparr>ca_settings := apply_llm_fields_to s base\<rparr>]
           | None \<Rightarrow>
               if model_override \<noteq> [] \<and> key = model_override
               then [c\<lparr>ca_settings := base\<lparr>s_model := key, s_display_name := key\<rparr>\<rparr>] else [])"

definition build_candidates ::
  "(string \<Rightarrow> nat) \<Rightarrow> (nat \<Rightarrow> int) \<Rightarrow> ('f, 'r) client \<Rightarrow> tracker \<Rightarrow> string \<Rightarrow> ('f, 'r) candidate list" where
  "build_candidates h clock cl tr model_override =
     concat (map (make_candidate cl model_override) (candidate_keys h clock cl tr model_override))"

subsection \<open>The loop\<close>

datatype 'a attempt = Returned 'a | WasCancelled | ProviderFailed provider_error_kind int string | Threw string

datatype 'a request_result = Answer 'a | OperationCancelled | ProviderThrown provider_error_kind string | Thrown string

record ('f, 'r, 'a) failover_env =
  fe_attempt :: "nat \<Rightarrow> ('f, 'r) candidate \<Rightarrow> 'a attempt"
  fe_cancelled :: "nat \<Rightarrow> bool"
  fe_clock :: "nat \<Rightarrow> int"

fun failover_loop ::
  "('f, 'r, 'a) failover_env \<Rightarrow> (string \<Rightarrow> nat) \<Rightarrow> nat \<Rightarrow> ('f, 'r) candidate list \<Rightarrow> string \<Rightarrow> tracker \<Rightarrow>
   tracker_error + ('a request_result \<times> tracker)" where
  "failover_loop env h i [] last_msg tr = Inr (Thrown (''all models failed: '' @ last_msg), tr)"
| "failover_loop env h i (c # cs) last_msg tr =
     (if fe_cancelled env i then Inr (OperationCancelled, tr)
      else case fe_attempt env i c of
          Returned r \<Rightarrow> bind_sum (record_success h (ca_key c) tr) (\<lambda>tr. Inr (Answer r, tr))
        | WasCancelled \<Rightarrow> Inr (OperationCancelled, tr)
        | ProviderFailed kind retry_after msg \<Rightarrow>
            bind_sum (record_failure h (fe_clock env i) (ca_key c) kind retry_after tr) (\<lambda>tr.
              if \<not> is_retryable_error kind \<or> cs = [] then Inr (ProviderThrown kind msg, tr)
              else failover_loop env h (i + 1) cs msg tr)
        | Threw msg \<Rightarrow>
            bind_sum (record_failure h (fe_clock env i) (ca_key c) Transient 0 tr) (\<lambda>tr.
              if cs = [] then Inr (Thrown msg, tr) else failover_loop env h (i + 1) cs msg tr))"

definition with_failover ::
  "('f, 'r, 'a) failover_env \<Rightarrow> (string \<Rightarrow> nat) \<Rightarrow> (nat \<Rightarrow> int) \<Rightarrow> ('f, 'r) client \<Rightarrow> string \<Rightarrow> tracker \<Rightarrow>
   tracker_error + ('a request_result \<times> tracker)" where
  "with_failover env h clock cl model_override tr =
     failover_loop env h 0 (build_candidates h clock cl tr model_override) [] tr"

text \<open>The streaming requests, which try the first candidate only.\<close>

definition stream_request ::
  "('f, 'r, 'a) failover_env \<Rightarrow> (string \<Rightarrow> nat) \<Rightarrow> (nat \<Rightarrow> int) \<Rightarrow> ('f, 'r) client \<Rightarrow> string \<Rightarrow> tracker \<Rightarrow>
   tracker_error + ('a request_result \<times> tracker)" where
  "stream_request env h clock cl model_override tr =
     (case build_candidates h clock cl tr model_override of
        [] \<Rightarrow> Inr (Thrown ''no available model candidate'', tr)
      | c # cs \<Rightarrow>
          (case fe_attempt env 0 c of
             Returned r \<Rightarrow> bind_sum (record_success h (ca_key c) tr) (\<lambda>tr. Inr (Answer r, tr))
           | WasCancelled \<Rightarrow> Inr (OperationCancelled, tr)
           | ProviderFailed kind retry_after msg \<Rightarrow> Inr (ProviderThrown kind msg, tr)
           | Threw msg \<Rightarrow> Inr (Thrown msg, tr)))"

subsection \<open>What the loop does\<close>

lemma candidates_nonempty: "build_candidates h clock cl tr ov \<noteq> []"
proof -
  have "make_candidate cl ov (if ov \<noteq> [] then ov else primary_key cl) \<noteq> []"
    by (auto simp: make_candidate_def Let_def split: option.splits)
  then show ?thesis by (simp add: build_candidates_def candidate_keys_def)
qed

lemma usable_not_cooling:
  "fb \<in> set (usable_fallbacks h clock tr i fbs) \<Longrightarrow> fb \<in> set fbs \<and> (\<exists>j. \<not> is_in_cooldown h (clock j) tr fb)"
  by (induction fbs arbitrary: i) (auto split: if_splits)

lemma candidate_origin:
  assumes "c \<in> set (build_candidates h clock cl tr ov)"
  shows "ca_key c = primary_key cl \<or> ov \<noteq> [] \<and> ca_key c = ov \<or>
    ca_key c \<in> set (cl_fallback_models cl) \<and> (\<exists>j. \<not> is_in_cooldown h (clock j) tr (ca_key c))"
proof -
  obtain key where key: "key \<in> set (candidate_keys h clock cl tr ov)" and c: "c \<in> set (make_candidate cl ov key)"
    using assms by (auto simp: build_candidates_def)
  have "ca_key c = key" using c by (auto simp: make_candidate_def Let_def split: if_splits option.splits)
  then show ?thesis using key usable_not_cooling [of key h clock tr 0] by (auto simp: candidate_keys_def split: if_splits)
qed

text \<open>An attempt after which the loop goes on, what the attempt \<open>k\<close> ends the loop with, and what is recorded of an attempt.\<close>

definition passed :: "('f, 'r, 'a) failover_env \<Rightarrow> nat \<Rightarrow> ('f, 'r) candidate \<Rightarrow> bool" where
  "passed env i c \<longleftrightarrow> \<not> fe_cancelled env i \<and>
     (case fe_attempt env i c of ProviderFailed kind ra msg \<Rightarrow> is_retryable_error kind | Threw msg \<Rightarrow> True | _ \<Rightarrow> False)"

definition ending :: "('f, 'r, 'a) failover_env \<Rightarrow> nat \<Rightarrow> ('f, 'r) candidate \<Rightarrow> 'a request_result" where
  "ending env i c =
     (if fe_cancelled env i then OperationCancelled
      else case fe_attempt env i c of
          Returned r \<Rightarrow> Answer r | WasCancelled \<Rightarrow> OperationCancelled
        | ProviderFailed kind ra msg \<Rightarrow> ProviderThrown kind msg | Threw msg \<Rightarrow> Thrown msg)"

definition recorded_op :: "('f, 'r, 'a) failover_env \<Rightarrow> nat \<Rightarrow> ('f, 'r) candidate \<Rightarrow> cd_op list" where
  "recorded_op env i c =
     (if fe_cancelled env i then []
      else case fe_attempt env i c of
          Returned r \<Rightarrow> [CSuccess (ca_key c)] | WasCancelled \<Rightarrow> []
        | ProviderFailed kind ra msg \<Rightarrow> [CFailure (fe_clock env i) (ca_key c) kind ra]
        | Threw msg \<Rightarrow> [CFailure (fe_clock env i) (ca_key c) Transient 0])"

fun cd_run :: "('op \<Rightarrow> 's \<Rightarrow> 'e + 's) \<Rightarrow> 'op list \<Rightarrow> 's \<Rightarrow> 'e + 's" where
  "cd_run step [] s = Inr s"
| "cd_run step (a # as) s = bind_sum (step a s) (cd_run step as)"

lemma cd_run_append: "cd_run step (as @ bs) s = bind_sum (cd_run step as s) (cd_run step bs)"
proof (induction as arbitrary: s)
  case (Cons a as)
  then show ?case by (cases "step a s") simp_all
qed simp

lemma loop_ends:
  assumes "failover_loop env h i cs e tr = Inr (res, tr')" "cs \<noteq> []"
  shows "\<exists>k < length cs. (\<forall>j < k. passed env (i + j) (cs ! j)) \<and> (passed env (i + k) (cs ! k) \<longrightarrow> k + 1 = length cs) \<and>
    res = ending env (i + k) (cs ! k) \<and>
    cd_run (cd_step h) (concat (map (\<lambda>j. recorded_op env (i + j) (cs ! j)) [0..<k + 1])) tr = Inr tr'"
  using assms
proof (induction cs arbitrary: i e tr)
  case (Cons c cs)
  show ?case
  proof (cases "passed env i c \<and> cs \<noteq> []")
    case False
    then have "res = ending env i c \<and> cd_run (cd_step h) (recorded_op env i c) tr = Inr tr'"
      using Cons.prems(1) by (cases "fe_attempt env i c") (auto simp: passed_def ending_def recorded_op_def bind_sum_Inr split: if_splits)
    then show ?thesis using False by (intro exI [of _ 0]) auto
  next
    case True
    then obtain tr1 e1 where step: "cd_run (cd_step h) (recorded_op env i c) tr = Inr tr1" "failover_loop env h (i + 1) cs e1 tr1 = Inr (res, tr')"
      using Cons.prems(1) by (cases "fe_attempt env i c") (auto simp: passed_def recorded_op_def bind_sum_Inr split: if_splits)
    obtain k where k: "k < length cs" "\<forall>j < k. passed env (i + 1 + j) (cs ! j)" "passed env (i + 1 + k) (cs ! k) \<longrightarrow> k + 1 = length cs"
      "res = ending env (i + 1 + k) (cs ! k)"
      "cd_run (cd_step h) (concat (map (\<lambda>j. recorded_op env (i + 1 + j) (cs ! j)) [0..<k + 1])) tr1 = Inr tr'"
      using Cons.IH [OF step(2)] True by blast
    have "[0..<Suc k + 1] = 0 # map Suc [0..<k + 1]" by (simp add: upt_conv_Cons map_Suc_upt del: upt_Suc)
    then have ops: "concat (map (\<lambda>j. recorded_op env (i + j) ((c # cs) ! j)) [0..<Suc k + 1]) =
        recorded_op env i c @ concat (map (\<lambda>j. recorded_op env (i + 1 + j) (cs ! j)) [0..<k + 1])"
      by (simp only: list.map concat.simps map_map comp_def nth_Cons_Suc nth_Cons_0) simp
    have "cd_run (cd_step h) (concat (map (\<lambda>j. recorded_op env (i + j) ((c # cs) ! j)) [0..<Suc k + 1])) tr = Inr tr'"
      unfolding ops cd_run_append step(1) bind_sum_simps by (rule k(5))
    moreover have "\<forall>j < Suc k. passed env (i + j) ((c # cs) ! j)" using True k(2) by (auto simp: less_Suc_eq_0_disj)
    ultimately show ?thesis using k by (intro exI [of _ "Suc k"]) simp
  qed
qed simp

lemma cd_run_rep:
  "cd_rep h tr f \<Longrightarrow> cd_run (cd_step h) ops tr = Inr tr' \<Longrightarrow> \<exists>f'. cd_run cd_spec ops f = Inr f' \<and> cd_rep h tr' f'"
proof (induction ops arbitrary: tr f)
  case (Cons a ops)
  then obtain tr1 where tr1: "cd_step h a tr = Inr tr1" "cd_run (cd_step h) ops tr1 = Inr tr'" by (auto simp: bind_sum_Inr)
  then obtain f1 where "cd_spec a f = Inr f1" "cd_rep h tr1 f1"
    using cd.step_law [OF Cons.prems(1), of a] by (cases "cd_spec a f") auto
  then show ?case using Cons.IH tr1(2) by auto
qed simp

text \<open>The time until which a model is cooling down, in a table of the tracker.\<close>

definition cooling :: "cd_map \<Rightarrow> int \<Rightarrow> string \<Rightarrow> bool" where
  "cooling f now key \<longleftrightarrow> (case f key of None \<Rightarrow> False | Some s \<Rightarrow> now < cooldown_until s)"


definition demo_settings :: "(unit, unit) settings" where
  "demo_settings = \<lparr>s_provider = OpenAi, s_api_key = [], s_base_url = [], s_api_url = [], s_model = ''m'', s_max_tokens = 1, s_temperature = (),
     s_context_length = 1, s_headers = [], s_anthropic_api_version = [], s_reasoning = False, s_display_name = ''m'', s_config_provider_name = ''p'', s_others = ()\<rparr>"

definition demo_client :: "(unit, unit) client" where
  "demo_client = \<lparr>cl_settings = demo_settings, cl_fallback_models = [''b''], cl_resolved_fallbacks = [(''b'', demo_settings\<lparr>s_model := ''b''\<rparr>)]\<rparr>"

definition demo_answers :: "(unit, unit, string) failover_env" where
  "demo_answers = \<lparr>fe_attempt = (\<lambda>i c. if i = 0 then ProviderFailed Timeout 7 ''late'' else Returned (s_model (ca_settings c))),
     fe_cancelled = (\<lambda>i. False), fe_clock = (\<lambda>i. 0)\<rparr>"


text \<open>The same failure of the first model ends a streaming request, and is not recorded.\<close>

lemma stream_without_failover:
  "case stream_request demo_answers length (\<lambda>j. 0) demo_client [] Map0 of
     Inr (ProviderThrown kind msg, tr) \<Rightarrow> kind = Timeout \<and> find_state length tr ''p:m'' = None | _ \<Rightarrow> False"
  by code_simp

end
