(* ===== verification/Spec2Isabelle.thy ===== *)
theory Spec2Isabelle
  imports HashMap JsonObject JsonRoundtrip Scheduler Todo Vec IoBuffer InputBuffer LlmRetry Permission Compactor AgentLoop SessionRestore PatchCorrect Failover
begin

text \<open>
  \<^bold>\<open>BenGear agent: verification of its data structures, JSON codec, workflow engine, plan mode,
  request retry, stream parsers, permission policy, conversation memory, tool manager, agent loop and patches.\<close>

  BenGear (\<open>src/src\<close>) is a C++20 agent: a REPL and a server drive an agent loop that calls
  language models, runs tools and workflows and keeps plans and execution lists. The program has its own base
  layer (containers, JSON, buffers, memory, platform) on which everything else is built. This
  development models that base layer's data structures and codec, and the state machines of the
  layers above whose correctness does not rest on the operating system.

  \<^bold>\<open>Parts, theories and sources\<close>

  \<^item> \<open>BG_Prelude\<close>: basic types, errors as sums with \<open>bind_sum\<close>, lists, bit masks, decimal output.
  \<^item> \<open>Simulation\<close>: \<open>run_log\<close> performs a sequence of operations that may throw; the locale \<open>simulation\<close> takes a one-step
    refinement law to all sequences. It is interpreted on the string, the vector, the byte buffer,
    the line editor and the cooldown tracker.
  \<^item> \<open>Block\<close>: raw storage with checked access, shared by \<open>SsoString\<close>, \<open>Vec\<close> and \<open>IoBuffer\<close>.
  \<^item> \<open>SsoString\<close> (\<open>base/container/string.hpp\<close>, \<open>string.cpp\<close>): the inline and heap representations of \<open>container::String\<close>; every modifier
    refines its operation on byte lists without leaving the storage; comparison is lexicographic;
    \<open>find\<close> and \<open>rfind\<close> find the first and last occurrence; the constructor from \<open>std::string&&\<close> is shown to record a wrong
    capacity.
  \<^item> \<open>Vec\<close> (\<open>base/container/vector.hpp\<close>): construction, relocation and destruction of cells; every modifier refines its
    operation on lists and leaves exactly the first \<open>size()\<close> cells alive.
  \<^item> \<open>IoBuffer\<close> (\<open>base/io/buffer.hpp\<close>): appends collect bytes; faults without capacity and across pools.
  \<^item> \<open>Probing\<close>, \<open>KvMap\<close>, \<open>HashMap\<close> (\<open>base/container/map.hpp\<close>) and \<open>JsonObject\<close> (\<open>base/json/json_dom.cpp\<close>): both open-addressing tables, over a shared theory of linear probing;
    the locale \<open>kv_store\<close> is the contract of a key-value container, interpreted on both tables; emplacement,
    rebuilding, tombstones, copies and comparison.
  \<^item> \<open>JsonValue\<close>, \<open>JsonParser\<close>, \<open>JsonSerializer\<close>, \<open>JsonRoundtrip\<close> (\<open>base/json\<close>): values and \<open>JsonArray\<close> storage, the recursive-descent parser with
    its fast and slow string paths, \<open>compute_size\<close> and \<open>write\<close>; the parser is total, the computed size is enough,
    and what is serialized parses back.
  \<^item> \<open>Dag\<close>, \<open>Executor\<close>, \<open>Scheduler\<close> (\<open>workflow\<close>): the task graph with reachability, cycle search and Kahn's algorithm; retries and
    metrics; the run loop with batches, error strategies, pause and cancel.
  \<^item> \<open>Plan\<close>, \<open>Todo\<close> (\<open>orchestration\<close>): plan mode as a state machine (\<open>plan_step\<close>, \<open>plan_reach\<close>) and the execution list derived from a
    plan.
  \<^item> \<open>InputBuffer\<close> (\<open>cli/repl/input_buffer.hpp\<close>): the line editor over the string model; it refines an editor on whole UTF-8
    characters, with both width caches right.
  \<^item> \<open>Cooldown\<close> (\<open>llm/provider_error.hpp\<close>, \<open>llm/cooldown_tracker.cpp\<close>): error classification and the tracker over the hash-table model; \<open>LlmRetry\<close> (\<open>llm/retry.hpp\<close>): delays
    and the blocking and coroutine retry loops. \<open>Failover\<close> (\<open>llm/provider_client.hpp\<close>): which models a request tries, in which
    order, and what the tracker records of it; streaming requests are shown to have no failover.
  \<^item> \<open>StdMap\<close>, \<open>JsonAccess\<close>, \<open>Utf8Text\<close>: \<open>std::map\<close> as a sorted list (a third interpretation of \<open>kv_store\<close>), the accessors of the class \<open>Json\<close>
    (\<open>base/json/json.hpp\<close>) and the string helpers (\<open>base/utils/string_utils.hpp\<close>), whose truncation keeps characters whole.
  \<^item> \<open>Permission\<close> (\<open>capabilities/permission\<close>, \<open>tool/permission_tools.hpp\<close>): the policy that decides every tool call. A guarded call is allowed only with an
    approval, one approval allows one call, pending requests are never lost or mixed up; and the
    model's own access to the approval tool is shown.
  \<^item> \<open>Acp\<close> (\<open>tool/acp/core\<close>): messages, content blocks and their JSON round trip.
  \<^item> \<open>ContextPruner\<close> (\<open>memory/context_pruner.cpp\<close>), \<open>History\<close> (\<open>workspace/conversation_history.cpp\<close>), \<open>Compactor\<close> (\<open>memory/compactor.cpp\<close>, \<open>workspace/session.cpp\<close>): what of a conversation is sent to the
    model. Pruning keeps calls and results together, the incremental pruning equals the full
    one in every history callers can reach (with the two exceptions that are proved), compaction
    keeps the recent rounds and the recovery from an overflow ends.
  \<^item> \<open>Sse\<close>, \<open>StreamParser\<close> (\<open>llm/internal\<close>, \<open>llm/stream.hpp\<close>, \<open>llm/usage.hpp\<close>, the stream loops of \<open>llm/openai_client.hpp\<close> and \<open>llm/anthropic_client.hpp\<close>): the streamed
    reply of a provider. The locale \<open>event_handler\<close> is what the event buffer needs of a parser, that it leaves the buffer alone;
    both providers interpret it, and the cutting of the stream into chunks is shown not to matter. Every token is delivered in order; the
    usage after the finish reason is lost.
  \<^item> \<open>Adapter\<close> (\<open>llm/adapter.cpp\<close>, \<open>tool/types.cpp\<close>): messages, calls and results in the formats of the providers, with their round trip.
  \<^item> \<open>Tools\<close> (\<open>tool/registry.cpp\<close>, \<open>tool/manager.cpp\<close>, \<open>agent/shared_resources.hpp\<close>): the registry and the manager, over \<open>Permission\<close>. Only calls that the policy allows are started, and
    every call has one result under its own id.
  \<^item> \<open>RunOutcome\<close> (\<open>llm/run_outcome.hpp\<close>, \<open>llm/chat.hpp\<close>): how a run ended, and the hand-written JSON text of it, which the parser reads back.
  \<^item> \<open>Protocol\<close>: the rule of the providers that every call of a conversation is answered, as an automaton, and that history and
    compaction keep it.
  \<^item> \<open>AgentLoop\<close> (\<open>agent/agent.cpp\<close>, \<open>agent/agent_impl.hpp\<close>, \<open>agent/sub_agent.cpp\<close>, part of \<open>workspace/session.cpp\<close>): the loop that puts the parts above together. The locale
    \<open>agent_invariant\<close> takes what holds through the parts of a step to whole runs; its interpretations here give that the
    conversation stays answered, that a run keeps its tool budget and that plan mode starts only tools that read.
  \<^item> \<open>SessionRestore\<close> (\<open>Session::restore_from_db\<close>): the conversation that the stored rows give back. A fourth interpretation of \<open>agent_invariant\<close>
    describes what runs store, and whatever a session has stored restores to an answered conversation.
  \<^item> \<open>Diff\<close> (\<open>capabilities/patch/diff_parser.cpp\<close>), \<open>PatchService\<close> (\<open>patch_service.cpp\<close>, \<open>change_store.cpp\<close>) and \<open>PatchCorrect\<close>: unified diffs, their application to files and the records
    of changes. The diff of any edits is parsed and applied, only files of the workspace change, and a revert gives every file back;
    a hunk without context is shown to be inserted one line too early.

  \<^bold>\<open>How the code is represented\<close>

  A class is a record or data type of its members and each method a function from the old to the
  new state. Exceptions, and accesses that C++ leaves undefined, are \<open>Inl\<close> values (or \<open>None\<close> where the
  theory says so), so that their absence is a theorem. Sizes are natural numbers where the code checks or
  cannot reach the wrap-around and words or \<open>mod 2 ^ n\<close> where it wraps. The clock, the hash function, the
  requests and tasks that are run, the replies of the providers, the effects of tools on the world, the flags other threads set and the formatting of doubles
  are parameters. Objects under a mutex are modelled by their atomic operations.

  \<^bold>\<open>Fuel and termination\<close>

  Most loops are structurally recursive or carry a measure. Fuel is used where the C++ recursion
  has no static bound: in \<open>emplace\<close> and \<open>rehash\<close> of the hash table (two units are enough under the invariant), in the
  JSON parser (the length of the input plus one), in the depth-first and Kahn loops (one unit per
  task) and in the scheduler's run loop (one unit per task plus one); each bound is proved sufficient, so that the
  properties state results and not only partial correctness.

  \<^bold>\<open>Not modelled\<close>

  Networking, TLS and the event loop, the operating-system layer, logging, the SQLite history, the web
  server, the terminal renderer, the tools that start processes or touch files, and the transport of the
  language-model clients are I/O or bindings to libraries; the code analysis services depend on them. Of the
  modelled parts, floating-point formatting and parsing are parameters, SIMD variants of the JSON
  scanner, the rendering of metrics, the file helpers of \<open>base/io\<close>, the compactor's cache file, custom allocators and the
  overloads that only convert arguments are left out. Further candidates for modelling are the
  plan parser (\<open>orchestration\<close>) and the HTTP message parser (\<open>net\<close>).
\<close>

end
